(* ===== verification/OS_Prelude.thy ===== *)
theory OS_Prelude
  imports Main "HOL-Library.Word"
begin

text \<open>
  Vocabulary shared by every component: the ways a C statement can go wrong as an
  error value, results as a sum type, objects on the C heap as a partial map from
  addresses, and null-terminated linked lists as \<open>chain\<close>s of addresses in it.
  A pointer is \<open>None\<close> for \<open>NULL\<close> and \<open>Some a\<close> for address \<open>a\<close>.
  The locale \<open>transition_system\<close> is the interface between a component written as
  a step relation and the invariants proved of it.
\<close>

section \<open>Results\<close>

datatype cerror =
    NullDeref            \<comment> \<open>a null pointer is dereferenced\<close>
  | BadAccess nat        \<comment> \<open>an address that is not allocated (any more) is accessed\<close>
  | InvalidFree nat      \<comment> \<open>\<open>free\<close> of an address that is not allocated\<close>
  | AssertFailed         \<comment> \<open>\<open>assert\<close>\<close>
  | Aborted              \<comment> \<open>\<open>abort\<close> or \<open>exit\<close> after a failed library call\<close>
  | Deadlock             \<comment> \<open>a thread waits for a lock it holds itself\<close>
  | BadUnlock            \<comment> \<open>a thread unlocks a lock it does not hold\<close>
  | Overrun              \<comment> \<open>an access past the end of an array\<close>
  | OutOfFuel            \<comment> \<open>the bound on the iterations of a modelled loop was too small\<close>

type_synonym 'a result = "cerror + 'a"

text \<open>Sequencing: the first error ends the computation.\<close>

fun bindR :: "'a result \<Rightarrow> ('a \<Rightarrow> 'b result) \<Rightarrow> 'b result" where
  "bindR (Inl e) f = Inl e"
| "bindR (Inr x) f = f x"

named_theorems result_simps

lemma bindR_eq_Inr [result_simps]:
  "bindR m f = Inr y \<longleftrightarrow> (\<exists>x. m = Inr x \<and> f x = Inr y)"
  by (cases m) auto

lemma bindR_eq_Inl [result_simps]:
  "bindR m f = Inl e \<longleftrightarrow> m = Inl e \<or> (\<exists>x. m = Inr x \<and> f x = Inl e)"
  by (cases m) auto

lemma bindR_assoc: "bindR (bindR m f) g = bindR m (\<lambda>x. bindR (f x) g)"
  by (cases m) auto

lemma bindR_cong [fundef_cong]:
  "m = m' \<Longrightarrow> (\<And>x. m' = Inr x \<Longrightarrow> f x = f' x) \<Longrightarrow> bindR m f = bindR m' f'"
  by (cases m') auto

text \<open>
  \<open>okR P r\<close>: if \<open>r\<close> is a value, it satisfies \<open>P\<close>. The rules compute the condition of a
  sequence of statements backwards, which keeps equations between states out of proofs.
\<close>

definition okR :: "('a \<Rightarrow> bool) \<Rightarrow> 'a result \<Rightarrow> bool" where
  "okR P r \<longleftrightarrow> (case r of Inl _ \<Rightarrow> True | Inr x \<Rightarrow> P x)"

lemma okR_simps [simp]:
  "okR P (Inr x) \<longleftrightarrow> P x"
  "okR P (Inl e)"
  "okR P (bindR m f) \<longleftrightarrow> okR (\<lambda>x. okR P (f x)) m"
  by (simp_all add: okR_def) (cases m; simp add: okR_def)

lemma okR_if [simp]: "okR P (if b then x else y) \<longleftrightarrow> (if b then okR P x else okR P y)"
  by simp

lemma okR_mono: "okR P r \<Longrightarrow> (\<And>x. P x \<Longrightarrow> Q x) \<Longrightarrow> okR Q r"
  by (cases r) auto

lemma okRD: "okR P r \<Longrightarrow> r = Inr x \<Longrightarrow> P x"
  by simp

lemma okR_total: "okR P r \<Longrightarrow> (\<And>e. r \<noteq> Inl e) \<Longrightarrow> \<exists>x. r = Inr x \<and> P x"
  by (cases r) auto

text \<open>\<open>returns P r\<close>: \<open>r\<close> is a value, and it satisfies \<open>P\<close>.\<close>

definition returns :: "('a \<Rightarrow> bool) \<Rightarrow> 'a result \<Rightarrow> bool" where
  "returns P r \<longleftrightarrow> (case r of Inl _ \<Rightarrow> False | Inr x \<Rightarrow> P x)"

lemma returns_simps [simp]:
  "returns P (Inr x) \<longleftrightarrow> P x"
  "\<not> returns P (Inl e)"
  "returns P (bindR m f) \<longleftrightarrow> returns (\<lambda>x. returns P (f x)) m"
  by (simp_all add: returns_def) (cases m; simp add: returns_def)

lemma returns_iff: "returns P r \<longleftrightarrow> (\<exists>x. r = Inr x \<and> P x)"
  by (cases r) auto

lemma returns_mono: "returns P r \<Longrightarrow> (\<And>x. P x \<Longrightarrow> Q x) \<Longrightarrow> returns Q r"
  by (cases r) auto

lemma returns_okR: "returns P r \<Longrightarrow> okR P r"
  by (cases r) auto

text \<open>The error of a computation; it can be evaluated where states have no equality.\<close>

definition failed :: "'a result \<Rightarrow> cerror option" where
  "failed r = (case r of Inl e \<Rightarrow> Some e | Inr _ \<Rightarrow> None)"

lemma failed_eq [simp]: "failed r = Some e \<longleftrightarrow> r = Inl e" "failed r = None \<longleftrightarrow> (\<exists>x. r = Inr x)"
  by (cases r; simp add: failed_def)+

section \<open>Objects on the heap\<close>

type_synonym addr = nat
type_synonym ptr = "addr option"

definition load :: "(addr \<rightharpoonup> 'o) \<Rightarrow> ptr \<Rightarrow> 'o result" where
  "load h p = (case p of None \<Rightarrow> Inl NullDeref
     | Some a \<Rightarrow> (case h a of None \<Rightarrow> Inl (BadAccess a) | Some n \<Rightarrow> Inr n))"

definition modify :: "(addr \<rightharpoonup> 'o) \<Rightarrow> ptr \<Rightarrow> ('o \<Rightarrow> 'o) \<Rightarrow> (addr \<rightharpoonup> 'o) result" where
  "modify h p f = (case p of None \<Rightarrow> Inl NullDeref
     | Some a \<Rightarrow> (case h a of None \<Rightarrow> Inl (BadAccess a) | Some n \<Rightarrow> Inr (h(a \<mapsto> f n))))"

text \<open>\<open>free\<close> of \<open>NULL\<close> does nothing.\<close>

definition release :: "(addr \<rightharpoonup> 'o) \<Rightarrow> ptr \<Rightarrow> (addr \<rightharpoonup> 'o) result" where
  "release h p = (case p of None \<Rightarrow> Inr h
     | Some a \<Rightarrow> (case h a of None \<Rightarrow> Inl (InvalidFree a) | Some n \<Rightarrow> Inr (h(a := None))))"

lemma load_simps [simp]:
  "load h None = Inl NullDeref"
  "h a = Some n \<Longrightarrow> load h (Some a) = Inr n"
  "h a = None \<Longrightarrow> load h (Some a) = Inl (BadAccess a)"
  by (simp_all add: load_def)

lemma load_eq_Inr [result_simps]:
  "load h p = Inr n \<longleftrightarrow> (\<exists>a. p = Some a \<and> h a = Some n)"
  by (auto simp: load_def split: option.splits)

lemma modify_simps [simp]:
  "modify h None f = Inl NullDeref"
  "h a = Some n \<Longrightarrow> modify h (Some a) f = Inr (h(a \<mapsto> f n))"
  "h a = None \<Longrightarrow> modify h (Some a) f = Inl (BadAccess a)"
  by (simp_all add: modify_def)

lemma modify_eq_Inr [result_simps]:
  "modify h p f = Inr h' \<longleftrightarrow> (\<exists>a n. p = Some a \<and> h a = Some n \<and> h' = h(a \<mapsto> f n))"
  by (auto simp: modify_def split: option.splits)

lemma release_simps [simp]:
  "release h None = Inr h"
  "h a = Some n \<Longrightarrow> release h (Some a) = Inr (h(a := None))"
  "h a = None \<Longrightarrow> release h (Some a) = Inl (InvalidFree a)"
  by (simp_all add: release_def)

lemma returns_heap [simp]:
  "returns P (load h p) \<longleftrightarrow> (\<exists>a n. p = Some a \<and> h a = Some n \<and> P n)"
  "returns P' (modify h p f) \<longleftrightarrow> (\<exists>a n. p = Some a \<and> h a = Some n \<and> P' (h(a \<mapsto> f n)))"
  "returns P' (release h p) \<longleftrightarrow>
     (p = None \<and> P' h) \<or> (\<exists>a n. p = Some a \<and> h a = Some n \<and> P' (h(a := None)))"
  by (auto simp: load_def modify_def release_def split: option.splits)

lemma okR_heap [simp]:
  "okR P (load h p) \<longleftrightarrow> (\<forall>a n. p = Some a \<longrightarrow> h a = Some n \<longrightarrow> P n)"
  "okR P' (modify h p f) \<longleftrightarrow> (\<forall>a n. p = Some a \<longrightarrow> h a = Some n \<longrightarrow> P' (h(a \<mapsto> f n)))"
  by (auto simp: load_def modify_def split: option.splits)

lemma okR_release [simp]:
  "okR P (release h p) \<longleftrightarrow> (p = None \<longrightarrow> P h) \<and> (\<forall>a n. p = Some a \<longrightarrow> h a = Some n \<longrightarrow> P (h(a := None)))"
  by (auto simp: release_def split: option.splits)

text \<open>
  What \<open>malloc\<close> promises of the pointer it returns: it is \<open>NULL\<close> or not the address
  of an allocated object. The returned pointer is an argument of the operations.
\<close>

definition fresh :: "(addr \<rightharpoonup> 'o) \<Rightarrow> ptr \<Rightarrow> bool" where
  "fresh h p \<longleftrightarrow> (case p of None \<Rightarrow> True | Some a \<Rightarrow> h a = None)"

lemma fresh_simps [simp]: "fresh h None" "fresh h (Some a) \<longleftrightarrow> h a = None"
  by (simp_all add: fresh_def)

section \<open>Linked lists\<close>

text \<open>
  \<open>chain h nx p as q\<close>: following the link \<open>nx\<close> from \<open>p\<close> visits exactly the allocated
  addresses \<open>as\<close> and arrives at \<open>q\<close>.
\<close>

primrec chain :: "(addr \<rightharpoonup> 'o) \<Rightarrow> ('o \<Rightarrow> ptr) \<Rightarrow> ptr \<Rightarrow> addr list \<Rightarrow> ptr \<Rightarrow> bool" where
  "chain h nx p [] q \<longleftrightarrow> p = q"
| "chain h nx p (a # as) q \<longleftrightarrow>
     p = Some a \<and> (case h a of None \<Rightarrow> False | Some n \<Rightarrow> chain h nx (nx n) as q)"

named_theorems chain_simps

lemma chain_Cons_iff [chain_simps]:
  "chain h nx p (a # as) q \<longleftrightarrow> p = Some a \<and> (\<exists>n. h a = Some n \<and> chain h nx (nx n) as q)"
  by (auto split: option.splits)

declare chain.simps(2) [simp del]

lemma chain_append [chain_simps]:
  "chain h nx p (as @ bs) q \<longleftrightarrow> (\<exists>r. chain h nx p as r \<and> chain h nx r bs q)"
  by (induction as arbitrary: p) (auto simp: chain_Cons_iff)

lemma chain_subset_dom: "chain h nx p as q \<Longrightarrow> set as \<subseteq> dom h"
  by (induction as arbitrary: p) (auto simp: chain_Cons_iff)

lemma chain_None [simp]: "chain h nx None as q \<longleftrightarrow> as = [] \<and> q = None"
  by (cases as) (auto simp: chain_Cons_iff)

lemma chain_Some_None: "chain h nx (Some a) as None \<Longrightarrow> \<exists>bs. as = a # bs"
  by (cases as) (auto simp: chain_Cons_iff)

text \<open>Links off the chain do not matter.\<close>

lemma chain_agree:
  "(\<And>a. a \<in> set as \<Longrightarrow> map_option nx (h' a) = map_option nx (h a)) \<Longrightarrow>
     chain h' nx p as q \<longleftrightarrow> chain h nx p as q"
proof (induction as arbitrary: p)
  case (Cons a as)
  have "map_option nx (h' a) = map_option nx (h a)" by (rule Cons.prems) simp
  moreover have "\<And>r. chain h' nx r as q \<longleftrightarrow> chain h nx r as q"
    by (rule Cons.IH) (simp add: Cons.prems)
  ultimately show ?case
    by (cases "h a"; cases "h' a") (simp_all add: chain_Cons_iff)
qed simp

lemma chain_update_other [simp]:
  "a \<notin> set as \<Longrightarrow> chain (h(a := v)) nx p as q \<longleftrightarrow> chain h nx p as q"
  by (rule chain_agree) auto

lemma chain_unique:
  "chain h nx p as None \<Longrightarrow> chain h nx p bs None \<Longrightarrow> as = bs"
proof (induction as arbitrary: p bs)
  case Nil
  then show ?case by simp
next
  case (Cons a as)
  then obtain cs where "bs = a # cs" by (auto simp: chain_Cons_iff dest: chain_Some_None)
  with Cons show ?case by (auto simp: chain_Cons_iff)
qed

lemma chain_distinct: "chain h nx p as None \<Longrightarrow> distinct as"
proof (induction as arbitrary: p)
  case (Cons a as)
  have "a \<notin> set as"
  proof
    assume "a \<in> set as"
    then obtain us vs where as: "as = us @ a # vs" by (auto dest: split_list)
    from Cons.prems have "chain h nx (Some a) (a # us @ a # vs) None"
      by (simp add: as chain_Cons_iff)
    moreover from Cons.prems have "chain h nx (Some a) (a # vs) None"
      by (auto simp: as chain_simps)
    ultimately have "a # us @ a # vs = a # vs" by (rule chain_unique)
    then show False by simp
  qed
  with Cons show ?case by (auto simp: chain_Cons_iff)
qed simp

text \<open>Overwriting the last link of a distinct chain redirects its end.\<close>

lemma chain_redirect_last:
  assumes "chain h nx p (as @ [a]) q" "a \<notin> set as" "nx n = r"
  shows "chain (h(a \<mapsto> n)) nx p (as @ [a]) r"
  using assms by (auto simp: chain_simps)

section \<open>Step relations\<close>

text \<open>
  Reachability, and the contract of an invariant: it holds initially and every step
  keeps it. Components instantiate it with their own states and steps.
\<close>

inductive reachable :: "('s \<Rightarrow> bool) \<Rightarrow> ('s \<Rightarrow> 's \<Rightarrow> bool) \<Rightarrow> 's \<Rightarrow> bool"
  for start :: "'s \<Rightarrow> bool" and step :: "'s \<Rightarrow> 's \<Rightarrow> bool" where
  reach_start: "start s \<Longrightarrow> reachable start step s"
| reach_step: "reachable start step s \<Longrightarrow> step s t \<Longrightarrow> reachable start step t"

locale transition_system =
  fixes start :: "'s \<Rightarrow> bool" and step :: "'s \<Rightarrow> 's \<Rightarrow> bool" and inv :: "'s \<Rightarrow> bool"
  assumes inv_start: "start s \<Longrightarrow> inv s"
    and inv_step: "inv s \<Longrightarrow> step s t \<Longrightarrow> inv t"
begin

lemma reachable_inv: "reachable start step s \<Longrightarrow> inv s"
  by (induction rule: reachable.induct) (auto intro: inv_start inv_step)

text \<open>Whatever follows from the invariant alone holds in every reachable state.\<close>

lemma reachable_safe: "reachable start step s \<Longrightarrow> (\<And>t. inv t \<Longrightarrow> safe t) \<Longrightarrow> safe s"
  by (blast dest: reachable_inv)

lemma inv_steps: "inv s \<Longrightarrow> step\<^sup>*\<^sup>* s t \<Longrightarrow> inv t"
  by (rotate_tac, induction rule: rtranclp_induct) (auto intro: inv_step)

end

end
