(* ===== verification/Proxy_Text.thy ===== *)
theory Proxy_Text
  imports OS_Prelude "HOL-Library.Sublist"
begin

text \<open>
  The text half of the HTTP proxy of \<open>sem2/lab3/task3_3\<close>: \<open>request/request.c\<close> and
  \<open>handler/messages/messages.c\<close>. A C string is the list of its characters up to the
  terminating zero. The functions of \<open>string.h\<close> the source uses come first, then parsing a
  request, changing it after a redirect, and building the request for the web server.
\<close>

section \<open>string.h\<close>

definition nul :: char where "nul = CHR 0x00"
definition cr :: char where "cr = CHR 0x0D"
definition lf :: char where "lf = CHR 0x0A"

definition crlf :: string where "crlf = [cr, lf]"

lemmas char_defs = nul_def cr_def lf_def crlf_def

text \<open>What a buffer holds as a C string.\<close>

definition cstr :: "string \<Rightarrow> string" where
  "cstr s = takeWhile (\<lambda>c. c \<noteq> nul) s"

text \<open>The tokens that repeated \<open>strsep\<close> calls return: the fields between delimiters.\<close>

fun strsep_fields :: "(char \<Rightarrow> bool) \<Rightarrow> string \<Rightarrow> string list" where
  "strsep_fields d [] = [[]]"
| "strsep_fields d (c # cs) =
     (if d c then [] # strsep_fields d cs
      else case strsep_fields d cs of [] \<Rightarrow> [[c]] | f # fs \<Rightarrow> (c # f) # fs)"

text \<open>\<open>strtok_r\<close> with the one delimiter \<open>d\<close>: the token and the text after it.\<close>

definition strtok :: "char \<Rightarrow> string \<Rightarrow> (string \<times> string) option" where
  "strtok d s =
     (let s' = dropWhile (\<lambda>c. c = d) s in
      if s' = [] then None
      else Some (takeWhile (\<lambda>c. c \<noteq> d) s', drop 1 (dropWhile (\<lambda>c. c \<noteq> d) s')))"

definition strchr :: "string \<Rightarrow> char \<Rightarrow> string option" where
  "strchr s c = (let t = dropWhile (\<lambda>x. x \<noteq> c) s in if t = [] then None else Some t)"

fun strstr :: "string \<Rightarrow> string \<Rightarrow> string option" where
  "strstr s needle =
     (if prefix needle s then Some s else case s of [] \<Rightarrow> None | c # cs \<Rightarrow> strstr cs needle)"

declare strstr.simps [simp del]

text \<open>\<open>strncmp(s, t, strlen(t)) == 0\<close>, and the same ignoring the case of letters.\<close>

definition starts_with :: "string \<Rightarrow> string \<Rightarrow> bool" where
  "starts_with s t \<longleftrightarrow> take (length t) s = t"

definition tolower :: "char \<Rightarrow> char" where
  "tolower c = (let n = of_char c :: nat in if 65 \<le> n \<and> n \<le> 90 then char_of (n + 32) else c)"

definition starts_with_nocase :: "string \<Rightarrow> string \<Rightarrow> bool" where
  "starts_with_nocase s t \<longleftrightarrow> map tolower (take (length t) s) = map tolower t"

definition eq_nocase :: "string \<Rightarrow> string \<Rightarrow> bool" where
  "eq_nocase s t \<longleftrightarrow> map tolower s = map tolower t"

text \<open>\<open>strcat\<close> into a buffer of \<open>cap\<close> bytes, which must hold the terminating zero as well.\<close>

definition strcat :: "nat \<Rightarrow> string \<Rightarrow> string \<Rightarrow> string result" where
  "strcat cap s t = (if length s + length t + 1 \<le> cap then Inr (s @ t) else Inl Overrun)"

section \<open>Requests\<close>

datatype http_method = OPTIONS | GET | HEAD | POST | PUT | DELETE | TRACE | CONNECT | UNKNOWN

datatype http_version = HTTP_VERSION_1_0 | HTTP_VERSION_1_1 | HTTP_VERSION_INVALID

record request =
  req_method :: http_method
  req_version :: http_version
  search_path :: "string option"
  metadata :: "(string \<times> string) list"

text \<open>\<open>list_get_key\<close> and \<open>list_add_key\<close> on the queue of headers.\<close>

fun list_get_key :: "(string \<times> string) list \<Rightarrow> string \<Rightarrow> string option" where
  "list_get_key [] key = None"
| "list_get_key ((k, v) # items) key = (if k = key then Some v else list_get_key items key)"

definition list_add_key :: "(string \<times> string) list \<Rightarrow> string \<Rightarrow> string \<Rightarrow> (string \<times> string) list" where
  "list_add_key items key v = items @ [(key, v)]"

definition methods :: "(string \<times> http_method) list" where
  "methods = [(''OPTIONS'', OPTIONS), (''GET'', GET), (''HEAD'', HEAD), (''POST'', POST), (''PUT'', PUT),
     (''DELETE'', DELETE), (''TRACE'', TRACE), (''CONNECT'', CONNECT), (''INVALID'', UNKNOWN)]"

text \<open>\<open>version\<close> is not initialised; \<open>junk\<close> is what the allocated memory holds there.\<close>

definition request_init :: "http_version \<Rightarrow> request" where
  "request_init junk = \<lparr>req_method = OPTIONS, req_version = junk, search_path = None, metadata = []\<rparr>"

section \<open>Parsing\<close>

datatype parser_state = METHOD | URL | VERSION | DONE

fun parse_tokens :: "parser_state \<Rightarrow> request \<Rightarrow> string list \<Rightarrow> request" where
  "parse_tokens st r [] = r"
| "parse_tokens METHOD r (tok # toks) =
     (case map_of methods tok of
        None \<Rightarrow> r\<lparr>req_method := UNKNOWN\<rparr>
      | Some m \<Rightarrow> parse_tokens URL (r\<lparr>req_method := m\<rparr>) toks)"
| "parse_tokens URL r (tok # toks) = parse_tokens VERSION (r\<lparr>search_path := Some tok\<rparr>) toks"
| "parse_tokens VERSION r (tok # toks) =
     parse_tokens DONE (r\<lparr>req_version :=
       (if starts_with tok ''HTTP/1.0'' then HTTP_VERSION_1_0
        else if starts_with tok ''HTTP/1.1'' then HTTP_VERSION_1_1
        else HTTP_VERSION_INVALID)\<rparr>) toks"
| "parse_tokens DONE r (tok # toks) = r"

definition parse_method :: "request \<Rightarrow> string \<Rightarrow> request" where
  "parse_method r buffer = parse_tokens METHOD r (strsep_fields (\<lambda>c. c = CHR '' '' \<or> c = cr \<or> c = lf) (cstr buffer))"

definition parse_metadata :: "request \<Rightarrow> string \<Rightarrow> request" where
  "parse_metadata r buffer =
     (case strtok (CHR '':'') (cstr buffer) of
        None \<Rightarrow> r
      | Some (key, rest) \<Rightarrow>
          (case strtok cr rest of
             None \<Rightarrow> r
           | Some (v, _) \<Rightarrow> r\<lparr>metadata := metadata r @ [(key, dropWhile (\<lambda>c. c = CHR '' '') v)]\<rparr>))"

section \<open>Changing a request after a redirect\<close>

definition request_set_url :: "request \<Rightarrow> string \<Rightarrow> request" where
  "request_set_url r url = r\<lparr>search_path := Some url\<rparr>"

fun set_host_in :: "(string \<times> string) list \<Rightarrow> string \<Rightarrow> (string \<times> string) list" where
  "set_host_in [] host = [(''Host'', host)]"
| "set_host_in ((k, v) # items) host =
     (if eq_nocase k ''Host'' then (k, host) # items else (k, v) # set_host_in items host)"

definition request_set_host :: "request \<Rightarrow> string \<Rightarrow> request" where
  "request_set_host r host = r\<lparr>metadata := set_host_in (metadata r) host\<rparr>"

text \<open>\<open>sscanf\<close> with the format \<open>http://%255[^/]%2047s\<close>: the host, when there is one.\<close>

definition scan_host :: "string \<Rightarrow> string option" where
  "scan_host location =
     (if starts_with location ''http://'' then
        (let host = takeWhile (\<lambda>c. c \<noteq> CHR ''/'') (drop 7 location) in
         if host = [] then None else Some (take 255 host))
      else None)"

definition update_request_from_location :: "request \<Rightarrow> string \<Rightarrow> request" where
  "update_request_from_location r location =
     (case scan_host location of
        None \<Rightarrow> r
      | Some host \<Rightarrow> request_set_url (request_set_host r host) location)"

section \<open>Building the request for the web server\<close>

definition extract_uri :: "string \<Rightarrow> string" where
  "extract_uri path =
     (case strstr path ''//'' of
        None \<Rightarrow> ''/''
      | Some q \<Rightarrow> (case strchr (drop 2 q) (CHR ''/'') of None \<Rightarrow> ''/'' | Some uri \<Rightarrow> uri))"

definition skipped_header :: "string \<Rightarrow> bool" where
  "skipped_header key \<longleftrightarrow> key = ''Connection'' \<or> key = ''Proxy-Connection''"

fun headers_size :: "(string \<times> string) list \<Rightarrow> nat" where
  "headers_size [] = 0"
| "headers_size ((k, v) # items) =
     (if skipped_header k then 0 else length k + 2 + length v + 2) + headers_size items"

fun cat_headers :: "nat \<Rightarrow> string \<Rightarrow> (string \<times> string) list \<Rightarrow> string result" where
  "cat_headers cap buf [] = Inr buf"
| "cat_headers cap buf ((k, v) # items) =
     (if skipped_header k then cat_headers cap buf items
      else bindR (strcat cap buf k) (\<lambda>buf.
           bindR (strcat cap buf '': '') (\<lambda>buf.
           bindR (strcat cap buf v) (\<lambda>buf.
           bindR (strcat cap buf crlf) (\<lambda>buf. cat_headers cap buf items)))))"

definition connection_close :: string where
  "connection_close = ''Connection: close'' @ crlf"

text \<open>\<open>None\<close> is the null result; otherwise the buffer and the length stored for the caller.\<close>

definition build_request :: "request \<Rightarrow> ((string \<times> nat) option) result" where
  "build_request r =
     (case search_path r of None \<Rightarrow> Inl NullDeref | Some path \<Rightarrow>
      let uri = extract_uri path;
          size = length ''GET '' + length uri in
      if req_version r = HTTP_VERSION_INVALID then Inr None
      else
        let size = size + length ('' HTTP/1.0'' @ crlf);
            size = size + headers_size (metadata r);
            size = (if req_version r = HTTP_VERSION_1_1 then size + length connection_close else size);
            size = size + 2;
            cap = size + 1
        in
        bindR (strcat cap [] ''GET '') (\<lambda>buf.
        bindR (strcat cap buf uri) (\<lambda>buf.
        bindR (strcat cap buf ((if req_version r = HTTP_VERSION_1_0 then '' HTTP/1.0'' else '' HTTP/1.1'') @ crlf)) (\<lambda>buf.
        bindR (cat_headers cap buf (metadata r)) (\<lambda>buf.
        bindR (if req_version r = HTTP_VERSION_1_1 then strcat cap buf connection_close else Inr buf) (\<lambda>buf.
        bindR (strcat cap buf crlf) (\<lambda>buf. Inr (Some (buf, size)))))))))"

text \<open>What \<open>build_request\<close> should produce, as one expression.\<close>

definition header_text :: "(string \<times> string) list \<Rightarrow> string" where
  "header_text items = concat (map (\<lambda>(k, v). k @ '': '' @ v @ crlf) (filter (\<lambda>(k, v). \<not> skipped_header k) items))"

definition request_text :: "request \<Rightarrow> string" where
  "request_text r = ''GET '' @ extract_uri (the (search_path r)) @
     (if req_version r = HTTP_VERSION_1_0 then '' HTTP/1.0'' else '' HTTP/1.1'') @ crlf @
     header_text (metadata r) @ (if req_version r = HTTP_VERSION_1_1 then connection_close else []) @ crlf"

lemma headers_size_text: "headers_size items = length (header_text items)"
  by (induction items rule: headers_size.induct) (auto simp: header_text_def crlf_def)

lemma cat_headers_text:
  "length buf + headers_size items + 1 \<le> cap \<Longrightarrow> cat_headers cap buf items = Inr (buf @ header_text items)"
proof (induction items arbitrary: buf)
  case (Cons kv items)
  obtain k v where kv: "kv = (k, v)" by (cases kv)
  show ?case
  proof (cases "skipped_header k")
    case True
    with Cons.IH[of buf] Cons.prems kv show ?thesis by (simp add: header_text_def)
  next
    case False
    with Cons.IH[of "buf @ k @ '': '' @ v @ crlf"] Cons.prems kv show ?thesis
      by (simp add: header_text_def strcat_def crlf_def)
  qed
qed (simp add: header_text_def)

lemma build_request_text:
  assumes "req_version r \<noteq> HTTP_VERSION_INVALID" "search_path r = Some path"
  shows "build_request r = Inr (Some (request_text r, length (request_text r)))"
proof -
  have v: "req_version r = HTTP_VERSION_1_0 \<or> req_version r = HTTP_VERSION_1_1"
    using assms by (cases "req_version r") auto
  show ?thesis
    using v assms(2) by (auto simp: build_request_def Let_def strcat_def cat_headers_text request_text_def
        headers_size_text connection_close_def crlf_def)
qed

end
