(* ===== verification/Proxy_Net.thy ===== *)
theory Proxy_Net
  imports Proxy_Text
begin

text \<open>
  \<open>handler/handlers.c\<close> of the proxy: reading lines and bodies from a socket, reading a
  request, the status line, splitting the \<open>Host\<close> header, and sending in packages. A socket
  to read from is the sequence of bytes that will arrive before the end of the stream.
\<close>

section \<open>Reading lines\<close>

text \<open>
  The loop of \<open>read_line\<close>, with \<open>len\<close> bytes stored in a buffer of \<open>max_len\<close>: the bytes it
  adds and those that are left. One byte is kept for the terminating zero.
\<close>

fun read_loop :: "int \<Rightarrow> int \<Rightarrow> string \<Rightarrow> string \<times> string" where
  "read_loop len max_len [] = ([], [])"
| "read_loop len max_len (c # inp) =
     (if len + 1 < max_len
      then (if c = lf then ([c], inp)
            else let (l, rest) = read_loop (len + 1) max_len inp in (c # l, rest))
      else ([], c # inp))"

definition read_line :: "int \<Rightarrow> string \<Rightarrow> string \<times> string" where
  "read_line max_len inp = read_loop 0 max_len inp"

definition line_buffer_size :: int where "line_buffer_size = 8192"

lemma read_loop_split:
  "read_loop len m inp = (l, rest) \<Longrightarrow> inp = l @ rest \<and> (l \<noteq> [] \<longrightarrow> len + int (length l) < m)"
proof (induction len m inp arbitrary: l rest rule: read_loop.induct)
  case (2 len m c inp)
  obtain l' r where lr: "read_loop (len + 1) m inp = (l', r)" by (cases "read_loop (len + 1) m inp")
  with 2(1)[OF _ _ lr] 2(2) show ?case by (auto split: if_splits)
qed simp

lemma read_loop_line:
  "lf \<notin> set l \<Longrightarrow> len + int (length l) + 1 < m \<Longrightarrow> read_loop len m (l @ lf # rest) = (l @ [lf], rest)"
proof (induction l arbitrary: len)
  case (Cons c l)
  from Cons.IH[of "len + 1"] Cons.prems show ?case by auto
qed simp

lemma read_line_split: "read_line m inp = (l, rest) \<Longrightarrow> inp = l @ rest \<and> (l \<noteq> [] \<longrightarrow> int (length l) < m)"
  using read_loop_split[of 0 m inp l rest] by (simp add: read_line_def)

lemma read_line_shorter: "read_line m inp = (l, rest) \<Longrightarrow> l \<noteq> [] \<Longrightarrow> length rest < length inp"
  by (drule read_line_split) auto

section \<open>Reading a request\<close>

function read_headers :: "request \<Rightarrow> string \<Rightarrow> request \<times> string" where
  "read_headers r inp =
     (let (l, rest) = read_line line_buffer_size inp in
      if l = [] then (r, rest)
      else if cstr l = crlf then (r, rest)
      else read_headers (parse_metadata r l) rest)"
  by pat_completeness auto
termination
proof (relation "measure (\<lambda>(r, inp). length inp)", goal_cases)
  case (2 r inp x l rest)
  from 2(1)[symmetric] have "read_line line_buffer_size inp = (l, rest)" using 2(2) by simp
  from read_line_shorter[OF this 2(3)] show ?case by simp
qed simp

declare read_headers.simps [simp del]

definition read_header :: "http_version \<Rightarrow> string \<Rightarrow> request option \<times> string" where
  "read_header junk inp =
     (let (l, rest) = read_line line_buffer_size inp in
      if l = [] then (None, rest)
      else let (r, rest) = read_headers (parse_method (request_init junk) l) rest in (Some r, rest))"

section \<open>Reading a body\<close>

text \<open>
  \<open>recv\<close> may return any positive number of the bytes it is asked for: \<open>ks\<close> are the numbers
  it chooses, after which it returns all there are.
\<close>

definition recv_count :: "nat \<Rightarrow> int \<Rightarrow> nat \<Rightarrow> nat" where
  "recv_count k want avail =
     (if int (max 1 k) \<le> want then min (max 1 k) avail
      else if int avail \<le> want then avail else nat want)"

fun recv_all :: "nat list \<Rightarrow> int \<Rightarrow> string \<Rightarrow> string \<times> string" where
  "recv_all [] want inp =
     (if int (length inp) \<le> want then (inp, []) else (take (nat want) inp, drop (nat want) inp))"
| "recv_all (k # ks) want inp =
     (if want \<le> 0 \<or> inp = [] then ([], inp)
      else let n = recv_count k want (length inp);
               (b, rest) = recv_all ks (want - int n) (drop n inp)
           in (take n inp @ b, rest))"

text \<open>
  \<open>read_body\<close>: the bytes, or \<open>None\<close> for the results \<open>-1\<close> and \<open>0\<close>, on which its caller
  stops; \<open>max_buffer\<close> may be negative.
\<close>

definition read_body :: "nat list \<Rightarrow> string option \<Rightarrow> int \<Rightarrow> (string \<times> string) option" where
  "read_body ks socket max_buffer =
     (case socket of None \<Rightarrow> None
      | Some inp \<Rightarrow>
          (let (b, rest) = recv_all ks max_buffer inp in if b = [] then None else Some (b, rest)))"

lemma recv_all_eq: "recv_all ks want inp = (take (nat want) inp, drop (nat want) inp)"
proof (induction ks want inp rule: recv_all.induct)
  case (2 k ks want inp)
  show ?case
  proof (cases "want \<le> 0 \<or> inp = []")
    case False
    define n where "n = recv_count k want (length inp)"
    have n: "n \<le> nat want" "nat (want - int n) = nat want - n"
      unfolding n_def recv_count_def using False by auto
    then have t: "take n inp @ take (nat want - n) (drop n inp) = take (nat want) inp"
      by (metis le_add_diff_inverse take_add)
    have "recv_all (k # ks) want inp =
        (take n inp @ take (nat want - n) (drop n inp), drop (nat want - n) (drop n inp))"
      using 2[OF False n_def] False n by (simp add: n_def[symmetric] Let_def)
    with t n show ?thesis by (simp add: add.commute)
  qed auto
qed auto

section \<open>The status line\<close>

text \<open>\<open>atoi\<close> and \<open>atoll\<close>: white space, a sign, digits.\<close>

definition is_space :: "char \<Rightarrow> bool" where
  "is_space c \<longleftrightarrow> (let n = of_char c :: nat in n = 32 \<or> 9 \<le> n \<and> n \<le> 13)"

definition is_digit :: "char \<Rightarrow> bool" where
  "is_digit c \<longleftrightarrow> (let n = of_char c :: nat in 48 \<le> n \<and> n \<le> 57)"

definition digits_value :: "string \<Rightarrow> int" where
  "digits_value s = foldl (\<lambda>n c. 10 * n + (int (of_char c) - 48)) 0 (takeWhile is_digit s)"

definition atoi :: "string \<Rightarrow> int" where
  "atoi s = (case dropWhile is_space s of
       [] \<Rightarrow> 0
     | c # cs \<Rightarrow>
         if c = CHR ''-'' then - digits_value cs
         else if c = CHR ''+'' then digits_value cs
         else digits_value (c # cs))"

definition parse_http_status :: "string \<Rightarrow> int" where
  "parse_http_status line =
     (case strchr (cstr line) (CHR '' '') of None \<Rightarrow> -1 | Some code \<Rightarrow> atoi (drop 1 code))"

definition is_redirect :: "int \<Rightarrow> bool" where
  "is_redirect status \<longleftrightarrow> status \<ge> 300 \<and> status < 400"

definition cache_allowed :: "int \<Rightarrow> bool" where
  "cache_allowed status \<longleftrightarrow> status \<ge> 200 \<and> status < 300"

definition get_location_header :: "request \<Rightarrow> string option" where
  "get_location_header r = list_get_key (metadata r) ''Location''"

section \<open>Connecting\<close>

text \<open>
  The host and port \<open>http_connect\<close> resolves: at most 255 characters of the \<open>Host\<close> header,
  split at the first colon, and at most five characters of port.
\<close>

definition host_port :: "string \<Rightarrow> string \<times> string" where
  "host_port header =
     (let host = take 255 header in
      case strchr host (CHR '':'') of
        None \<Rightarrow> (host, ''80'')
      | Some colon \<Rightarrow> (takeWhile (\<lambda>c. c \<noteq> CHR '':'') host, take 5 (drop 1 colon)))"

text \<open>\<open>net host port\<close> is the stream of a connection the library opens, if it does.\<close>

definition http_connect :: "(string \<Rightarrow> string \<Rightarrow> string option) \<Rightarrow> request \<Rightarrow> string option" where
  "http_connect net r =
     (case list_get_key (metadata r) ''Host'' of
        None \<Rightarrow> None
      | Some header \<Rightarrow> (let (host, port) = host_port header in net host port))"

section \<open>Sending in packages\<close>

text \<open>
  The loop of \<open>send_to_client\<close> for a positive package size: the pieces handed to \<open>send\<close>
  from package \<open>i\<close> on, with fuel for the iterations.
\<close>

fun packages :: "nat \<Rightarrow> string \<Rightarrow> int \<Rightarrow> int \<Rightarrow> string list" where
  "packages 0 data sz i = []"
| "packages (Suc fuel) data sz i =
     (if i * sz + sz < int (length data)
      then take (nat sz) (drop (nat (i * sz)) data) # packages fuel data sz (i + 1)
      else if i * sz < int (length data) then [drop (nat (i * sz)) data] else [])"

text \<open>The calls of \<open>send\<close> that one call of \<open>send_to_client\<close> makes while none fails.\<close>

definition send_to_client :: "string \<Rightarrow> int \<Rightarrow> string list" where
  "send_to_client data packages_size =
     (if data = [] then []
      else if packages_size \<le> 0 then [data]
      else packages (length data) data packages_size 0)"

lemma packages_concat:
  assumes "0 < sz" "0 \<le> i" "int (length data) \<le> i * sz + int fuel"
  shows "concat (packages fuel data sz i) = drop (nat (i * sz)) data"
  using assms
proof (induction fuel data sz i rule: packages.induct)
  case (1 data sz i)
  then show ?case by auto
next
  case (2 fuel data sz i)
  show ?case
  proof (cases "i * sz + sz < int (length data)")
    case True
    have nn: "0 \<le> i * sz" using 2(2,3) by simp
    have "concat (packages fuel data sz (i + 1)) = drop (nat ((i + 1) * sz)) data"
      using 2 True nn by (intro 2(1)) (auto simp: algebra_simps)
    moreover have "nat ((i + 1) * sz) = nat sz + nat (i * sz)"
      using nn 2(2) by (simp add: nat_add_distrib[symmetric] algebra_simps)
    ultimately show ?thesis using True by (simp add: drop_drop[symmetric] del: drop_drop)
  next
    case False
    then show ?thesis by auto
  qed
qed

end
