(* ===== verification/Proxy_Cache.thy ===== *)
theory Proxy_Cache
  imports OS_Prelude
begin

text \<open>
  \<open>list/list.c\<close> of the proxy: the cache, a linked list of entries that map a URL to a
  response, and the responses, lists of chunks that grow until they are complete. New
  entries go to the front of the list, so the model keeps it as a list of URL and address
  of the response. The contract of the cache is the locale \<open>url_cache\<close>.
\<close>

section \<open>Responses and the map\<close>

record response =
  r_nodes :: "string list"
  r_complete :: bool

record cache =
  c_entries :: "(string \<times> addr) list"
  c_resp :: "addr \<rightharpoonup> response"

definition map_init :: cache where
  "map_init = \<lparr>c_entries = [], c_resp = Map.empty\<rparr>"

definition list_init_cache :: response where
  "list_init_cache = \<lparr>r_nodes = [], r_complete = False\<rparr>"

text \<open>\<open>map_add_cache\<close>; \<open>new\<close> is the address of the new response.\<close>

definition map_add_cache :: "addr \<Rightarrow> string \<Rightarrow> 'x cache_scheme \<Rightarrow> 'x cache_scheme" where
  "map_add_cache new url m = m\<lparr>c_entries := (url, new) # c_entries m, c_resp := (c_resp m)(new \<mapsto> list_init_cache)\<rparr>"

fun find_entry :: "(string \<times> addr) list \<Rightarrow> string \<Rightarrow> ptr" where
  "find_entry [] url = None"
| "find_entry ((u, a) # es) url = (if u = url then Some a else find_entry es url)"

definition map_find_by_url :: "'x cache_scheme \<Rightarrow> string \<Rightarrow> ptr" where
  "map_find_by_url m url = find_entry (c_entries m) url"

text \<open>\<open>list_add\<close> and setting \<open>complete\<close>, on the response at an address.\<close>

definition list_add :: "ptr \<Rightarrow> string \<Rightarrow> 'x cache_scheme \<Rightarrow> 'x cache_scheme result" where
  "list_add p v m =
     bindR (modify (c_resp m) p (\<lambda>r. r\<lparr>r_nodes := r_nodes r @ [v]\<rparr>)) (\<lambda>h. Inr (m\<lparr>c_resp := h\<rparr>))"

definition set_complete :: "ptr \<Rightarrow> 'x cache_scheme \<Rightarrow> 'x cache_scheme result" where
  "set_complete p m = bindR (modify (c_resp m) p (\<lambda>r. r\<lparr>r_complete := True\<rparr>)) (\<lambda>h. Inr (m\<lparr>c_resp := h\<rparr>))"

text \<open>The loop of \<open>map_remove\<close>: unlink the first entry for the URL and free its response.\<close>

fun remove_entry :: "(string \<times> addr) list \<Rightarrow> string \<Rightarrow> (string \<times> addr) list \<times> ptr" where
  "remove_entry [] url = ([], None)"
| "remove_entry ((u, a) # es) url =
     (if u = url then (es, Some a) else let (es', p) = remove_entry es url in ((u, a) # es', p))"

definition map_remove :: "string \<Rightarrow> 'x cache_scheme \<Rightarrow> 'x cache_scheme result" where
  "map_remove url m =
     (case remove_entry (c_entries m) url of
        (es, None) \<Rightarrow> Inr m
      | (es, Some a) \<Rightarrow> bindR (release (c_resp m) (Some a)) (\<lambda>h. Inr (m\<lparr>c_entries := es, c_resp := h\<rparr>)))"

section \<open>The contract of a URL cache\<close>

text \<open>
  Lookups see the last insertion for a URL, insertions and removals keep the invariant,
  and removing never fails. A client sees a finite map.
\<close>

datatype cache_op = CAdd addr string | CRemove string

fun spec_cache :: "cache_op list \<Rightarrow> (string \<rightharpoonup> addr) \<Rightarrow> (string \<rightharpoonup> addr)" where
  "spec_cache [] f = f"
| "spec_cache (CAdd a u # ops) f = spec_cache ops (f(u \<mapsto> a))"
| "spec_cache (CRemove u # ops) f = spec_cache ops (f(u := None))"

fun run_cache :: "(addr \<Rightarrow> string \<Rightarrow> 's \<Rightarrow> 's) \<Rightarrow> (string \<Rightarrow> 's \<Rightarrow> 's result) \<Rightarrow> cache_op list \<Rightarrow> 's \<Rightarrow> 's result" where
  "run_cache add del [] s = Inr s"
| "run_cache add del (CAdd a u # ops) s = run_cache add del ops (add a u s)"
| "run_cache add del (CRemove u # ops) s = bindR (del u s) (run_cache add del ops)"

text \<open>A client inserts a URL only after a failed lookup, under an unused address.\<close>

fun cache_client :: "('s \<Rightarrow> addr \<Rightarrow> bool) \<Rightarrow> ('s \<Rightarrow> string \<Rightarrow> ptr) \<Rightarrow> (addr \<Rightarrow> string \<Rightarrow> 's \<Rightarrow> 's) \<Rightarrow>
    (string \<Rightarrow> 's \<Rightarrow> 's result) \<Rightarrow> cache_op list \<Rightarrow> 's \<Rightarrow> bool" where
  "cache_client avail lookup add del [] s \<longleftrightarrow> True"
| "cache_client avail lookup add del (CAdd a u # ops) s \<longleftrightarrow>
     lookup s u = None \<and> avail s a \<and> cache_client avail lookup add del ops (add a u s)"
| "cache_client avail lookup add del (CRemove u # ops) s \<longleftrightarrow>
     (case del u s of Inl _ \<Rightarrow> True | Inr s' \<Rightarrow> cache_client avail lookup add del ops s')"

locale url_cache =
  fixes inv :: "'s \<Rightarrow> bool" and avail :: "'s \<Rightarrow> addr \<Rightarrow> bool" and lookup :: "'s \<Rightarrow> string \<Rightarrow> ptr"
    and add :: "addr \<Rightarrow> string \<Rightarrow> 's \<Rightarrow> 's" and del :: "string \<Rightarrow> 's \<Rightarrow> 's result"
  assumes find_add: "inv s \<Longrightarrow> lookup s u = None \<Longrightarrow> avail s a \<Longrightarrow>
      inv (add a u s) \<and> lookup (add a u s) v = (if v = u then Some a else lookup s v)"
    and find_rem: "inv s \<Longrightarrow> \<exists>s'. del u s = Inr s' \<and> inv s' \<and> (\<forall>v. lookup s' v = (if v = u then None else lookup s v))"
begin

theorem cache_refines:
  "inv s \<Longrightarrow> cache_client avail lookup add del ops s \<Longrightarrow>
     \<exists>s'. run_cache add del ops s = Inr s' \<and> inv s' \<and> lookup s' = spec_cache ops (lookup s)"
proof (induction ops arbitrary: s)
  case (Cons op ops)
  show ?case
  proof (cases op)
    case (CAdd a u)
    with Cons.prems have p: "lookup s u = None" "avail s a" by auto
    have "lookup (add a u s) = (lookup s)(u \<mapsto> a)" using find_add[OF Cons.prems(1) p] by auto
    with Cons.IH[of "add a u s"] Cons.prems find_add[OF Cons.prems(1) p] CAdd show ?thesis
      by (auto simp del: fun_upd_apply)
  next
    case (CRemove u)
    from find_rem[OF Cons.prems(1), of u] obtain s' where s': "del u s = Inr s'" "inv s'"
      "\<forall>v. lookup s' v = (if v = u then None else lookup s v)" by blast
    then have "lookup s' = (lookup s)(u := None)" by auto
    with Cons.IH[of s'] Cons.prems(2) s'(1,2) CRemove show ?thesis by (auto simp del: fun_upd_apply)
  qed
qed simp

end

section \<open>The proxy's cache fulfils the contract\<close>

text \<open>Each URL has one entry, and every entry has a response of its own.\<close>

definition cache_ok :: "'x cache_scheme \<Rightarrow> bool" where
  "cache_ok m \<longleftrightarrow> distinct (map fst (c_entries m)) \<and> distinct (map snd (c_entries m)) \<and>
     set (map snd (c_entries m)) \<subseteq> dom (c_resp m)"

lemma cache_ok_init [simp]: "cache_ok map_init"
  by (simp add: cache_ok_def map_init_def)

lemma find_entry_map_of: "find_entry es = map_of es"
proof
  show "find_entry es u = map_of es u" for u by (induction es u rule: find_entry.induct) auto
qed

lemma remove_entry_absent: "url \<notin> set (map fst es) \<Longrightarrow> remove_entry es url = (es, None)"
  by (induction es url rule: remove_entry.induct) auto

lemma remove_entry_split:
  "distinct (map fst (us @ (url, a) # vs)) \<Longrightarrow> remove_entry (us @ (url, a) # vs) url = (us @ vs, Some a)"
  by (induction us) auto

lemma find_entry_absent: "url \<notin> set (map fst es) \<Longrightarrow> find_entry es url = None"
  by (induction es url rule: find_entry.induct) auto

lemma find_entry_remove:
  "distinct (map fst (us @ (u, a) # vs)) \<Longrightarrow>
     find_entry (us @ vs) v = (if v = u then None else find_entry (us @ (u, a) # vs) v)"
proof (induction us)
  case Nil
  then show ?case by (simp add: find_entry_absent)
next
  case (Cons e us)
  then show ?case by (cases e) auto
qed

lemma map_remove_cases:
  assumes "cache_ok m"
  shows "(map_find_by_url m url = None \<and> map_remove url m = Inr m) \<or>
    (\<exists>us a vs r. c_entries m = us @ (url, a) # vs \<and> c_resp m a = Some r \<and> map_find_by_url m url = Some a \<and>
       map_remove url m = Inr (m\<lparr>c_entries := us @ vs, c_resp := (c_resp m)(a := None)\<rparr>))"
proof (cases "url \<in> set (map fst (c_entries m))")
  case False
  then show ?thesis by (simp add: map_remove_def remove_entry_absent map_find_by_url_def find_entry_map_of map_of_eq_None_iff)
next
  case True
  then obtain us a vs where e: "c_entries m = us @ (url, a) # vs" by (auto dest!: split_list simp: in_set_conv_decomp)
  with assms obtain r where r: "c_resp m a = Some r" by (auto simp: cache_ok_def)
  have "map_find_by_url m url = Some a" using e assms
    by (auto simp: map_find_by_url_def find_entry_map_of cache_ok_def map_add_Some_iff map_of_eq_None_iff)
  with e r assms show ?thesis by (auto simp: map_remove_def remove_entry_split cache_ok_def)
qed

interpretation proxy_cache: url_cache "cache_ok :: cache \<Rightarrow> bool" "\<lambda>m a. c_resp m a = None"
  map_find_by_url map_add_cache map_remove
proof
  fix s :: cache and u v :: string and a :: addr
  assume inv: "cache_ok s"
  show "cache_ok (map_add_cache a u s) \<and> map_find_by_url (map_add_cache a u s) v = (if v = u then Some a else map_find_by_url s v)"
    if "map_find_by_url s u = None" "c_resp s a = None"
    using that inv by (auto simp: cache_ok_def map_add_cache_def map_find_by_url_def find_entry_map_of map_of_eq_None_iff)
  show "\<exists>s'. map_remove u s = Inr s' \<and> cache_ok s' \<and>
      (\<forall>v. map_find_by_url s' v = (if v = u then None else map_find_by_url s v))"
    using map_remove_cases[OF inv, of u]
  proof (elim disjE exE conjE)
    fix us a vs r
    assume e: "c_entries s = us @ (u, a) # vs" and m: "map_remove u s = Inr (s\<lparr>c_entries := us @ vs, c_resp := (c_resp s)(a := None)\<rparr>)"
    let ?s = "s\<lparr>c_entries := us @ vs, c_resp := (c_resp s)(a := None)\<rparr>"
    have d: "distinct (map fst (us @ (u, a) # vs))" "distinct (map snd (us @ (u, a) # vs))"
      "set (map snd (us @ (u, a) # vs)) \<subseteq> dom (c_resp s)" using inv e by (auto simp: cache_ok_def)
    then have "cache_ok ?s" by (auto simp: cache_ok_def)
    moreover have "map_find_by_url ?s v = (if v = u then None else map_find_by_url s v)" for v
      using find_entry_remove[OF d(1), of v] e by (simp add: map_find_by_url_def)
    ultimately show ?thesis using m by blast
  qed (use inv in auto)
qed

end
