(* ===== verification/Proxy_Handler.thy ===== *)
theory Proxy_Handler
  imports Proxy_Net Proxy_Cache
begin

text \<open>
  \<open>client_handler\<close> in \<open>main.c\<close> of the proxy, run for one client while no other thread
  uses the cache: reading the request, serving it from the cache, or fetching it, following
  redirects, and storing it. \<open>Proxy_Stream\<close> has the interleaving of a client that is served
  from a response which another thread is still fetching.
\<close>

section \<open>The world of a client handler\<close>

text \<open>
  The cache, what has been sent to the client and to web servers, and how many connections
  were opened and how often \<open>send\<close> was called on the client's socket.
\<close>

record world = cache +
  w_client :: string
  w_servers :: "string list"
  w_connects :: nat
  w_sends :: nat

text \<open>
  What the network answers: the stream of the \<open>i\<close>-th connection, if it can be opened, whether
  sending the request on it works, whether the \<open>i\<close>-th \<open>send\<close> to the client works, and the
  chunks in which a body arrives.
\<close>

record environment =
  net :: "nat \<Rightarrow> string \<Rightarrow> string \<Rightarrow> string option"
  server_ok :: "nat \<Rightarrow> bool"
  client_ok :: "nat \<Rightarrow> bool"
  recv_sizes :: "nat \<Rightarrow> nat list"

definition buffer_size :: int where "buffer_size = 8192"
definition headers_room :: int where "headers_room = 8192 * 16"
definition max_redirects :: nat where "max_redirects = 5"

definition send_client :: "environment \<Rightarrow> string \<Rightarrow> world \<Rightarrow> bool \<times> world" where
  "send_client env data w =
     (if client_ok env (w_sends w)
      then (True, w\<lparr>w_client := w_client w @ data, w_sends := w_sends w + 1\<rparr>)
      else (False, w\<lparr>w_sends := w_sends w + 1\<rparr>))"

definition connect_server :: "environment \<Rightarrow> request \<Rightarrow> world \<Rightarrow> string option \<times> world" where
  "connect_server env r w = (http_connect (net env (w_connects w)) r, w\<lparr>w_connects := w_connects w + 1\<rparr>)"

text \<open>\<open>request_send\<close>: whether it returns 0.\<close>

definition request_send :: "environment \<Rightarrow> string option \<Rightarrow> request \<Rightarrow> world \<Rightarrow> (bool \<times> world) result" where
  "request_send env socket r w =
     bindR (build_request r) (\<lambda>built.
       case built of None \<Rightarrow> Inr (False, w)
       | Some (buf, len) \<Rightarrow>
           if socket \<noteq> None \<and> server_ok env (w_connects w)
           then Inr (True, w\<lparr>w_servers := w_servers w @ [take len buf]\<rparr>) else Inr (False, w))"

definition not_allowed :: string where
  "not_allowed = ''HTTP/1.1 405 Method Not Allowed'' @ crlf @ ''Allow: GET'' @ crlf @
     ''Connection: close'' @ crlf @ ''Content-Length: 0'' @ crlf @ crlf"

definition request_send_not_allowed :: "environment \<Rightarrow> world \<Rightarrow> world" where
  "request_send_not_allowed env w = snd (send_client env not_allowed w)"

section \<open>Serving from the cache\<close>

text \<open>
  With no other thread, the loop passes over the chunks of a complete response; at the end
  of an incomplete one it would wait for a thread that does not exist.
\<close>

fun send_nodes :: "environment \<Rightarrow> string list \<Rightarrow> world \<Rightarrow> bool \<times> world" where
  "send_nodes env [] w = (True, w)"
| "send_nodes env (v # vs) w =
     (let (ok, w) = send_client env v w in if ok then send_nodes env vs w else (False, w))"

definition serve_cached :: "environment \<Rightarrow> ptr \<Rightarrow> world \<Rightarrow> world result" where
  "serve_cached env p w =
     bindR (load (c_resp w) p) (\<lambda>resp.
       let (ok, w) = send_nodes env (r_nodes resp) w in
       if ok \<and> \<not> r_complete resp then Inl Deadlock else Inr w)"

section \<open>The head of a response\<close>

record head =
  h_text :: string
  h_location :: "string option"
  h_bufsize :: int

text \<open>The loop over header lines; \<open>headers\<close> has room for \<open>BUFFER_SIZE * 16\<close> bytes.\<close>

definition location_of :: "string \<Rightarrow> string" where
  "location_of line = takeWhile (\<lambda>c. c \<noteq> cr \<and> c \<noteq> lf) (dropWhile (\<lambda>c. c = CHR '' '') (drop 9 (cstr line)))"

definition header_line :: "int \<Rightarrow> string \<Rightarrow> head \<Rightarrow> head" where
  "header_line status l h =
     (let h = (if is_redirect status \<and> starts_with_nocase (cstr l) ''Location:''
               then h\<lparr>h_location := Some (location_of l)\<rparr> else h)
      in if starts_with (cstr l) ''Content-Length: ''
         then let n = atoi (drop 16 (cstr l))
              in h\<lparr>h_bufsize := (if n < buffer_size then n else buffer_size)\<rparr>
         else h)"

function header_lines :: "int \<Rightarrow> head \<Rightarrow> string \<Rightarrow> (head \<times> string) result" where
  "header_lines status h inp =
     (let (l, rest) = read_line buffer_size inp in
      if l = [] then Inr (h, rest)
      else if int (length (h_text h)) + int (length l) > headers_room then Inl Overrun
      else let h = header_line status l (h\<lparr>h_text := h_text h @ l\<rparr>) in
           if starts_with (cstr l) crlf then Inr (h, rest) else header_lines status h rest)"
  by pat_completeness auto
termination
proof (relation "measure (\<lambda>(status, h, inp). length inp)", goal_cases)
  case (2 status h inp x l rest h')
  then have "read_line buffer_size inp = (l, rest)" "l \<noteq> []" by simp_all
  from read_line_shorter[OF this] show ?case by simp
qed simp

declare header_lines.simps [simp del]

section \<open>Following redirects\<close>

record fetch =
  f_request :: request
  f_socket :: "string option"
  f_bufsize :: int
  f_need :: bool
  f_alive :: bool

text \<open>
  The loop over redirects, with \<open>n\<close> more allowed: read a head, and hand it to the client and
  the response, unless it redirects elsewhere.
\<close>

fun redirect_loop :: "environment \<Rightarrow> addr \<Rightarrow> nat \<Rightarrow> fetch \<Rightarrow> world \<Rightarrow> (fetch \<times> world) result" where
  "redirect_loop env a 0 f w = Inr (f, w)"
| "redirect_loop env a (Suc n) f w =
     (case f_socket f of None \<Rightarrow> Inr (f, w)
      | Some inp \<Rightarrow>
          let (l, rest) = read_line buffer_size inp in
          if l = [] then Inr (f\<lparr>f_socket := Some rest\<rparr>, w)
          else
            let status = parse_http_status l in
            bindR (header_lines status \<lparr>h_text = l, h_location = None, h_bufsize = f_bufsize f\<rparr> rest)
              (\<lambda>(h, rest).
                let f = f\<lparr>f_socket := Some rest, f_need := cache_allowed status, f_bufsize := h_bufsize h\<rparr> in
                if \<not> is_redirect status then
                  let (alive, w) = (if f_alive f then send_client env (h_text h) w else (False, w)) in
                  bindR (if f_need f then list_add (Some a) (h_text h) w else Inr w) (\<lambda>w.
                    Inr (f\<lparr>f_alive := alive\<rparr>, w))
                else
                  case h_location h of None \<Rightarrow> Inr (f, w)
                  | Some location \<Rightarrow>
                      let r = update_request_from_location (f_request f) location;
                          (socket, w) = connect_server env r w;
                          f = f\<lparr>f_request := r, f_socket := socket\<rparr> in
                      if socket = None then Inr (f, w)
                      else bindR (request_send env socket r w) (\<lambda>(ok, w). redirect_loop env a n f w)))"

section \<open>The body\<close>

text \<open>
  The loop over the chunks of the body. The client gets each chunk as long as it takes them.
\<close>

function body_loop :: "environment \<Rightarrow> addr \<Rightarrow> nat \<Rightarrow> int \<Rightarrow> bool \<Rightarrow> bool \<Rightarrow> string \<Rightarrow> world \<Rightarrow> world result" where
  "body_loop env a i bufsize need alive inp w =
     (case read_body (recv_sizes env i) (Some inp) bufsize of
        None \<Rightarrow> Inr w
      | Some (b, rest) \<Rightarrow>
          bindR (if need then list_add (Some a) b w else Inr w) (\<lambda>w.
            let (alive, w) = (if alive then send_client env b w else (False, w)) in
            body_loop env a (i + 1) bufsize need alive rest w))"
  by pat_completeness auto
termination
proof (relation "measure (\<lambda>(env, a, i, bufsize, need, alive, inp, w). length inp)", goal_cases)
  case (2 env a i bufsize need alive inp w x b rest w' y alive' w'')
  then have "read_body (recv_sizes env i) (Some inp) bufsize = Some (b, rest)" by simp
  then have "b = take (nat bufsize) inp" "rest = drop (nat bufsize) inp" "b \<noteq> []"
    by (auto simp: read_body_def recv_all_eq split: if_splits)
  then show ?case by auto
qed simp

declare body_loop.simps [simp del]

section \<open>The handler\<close>

text \<open>Fetching a request that is not in the cache; \<open>a\<close> is the address of the new response.\<close>

definition fetch_response :: "environment \<Rightarrow> addr \<Rightarrow> request \<Rightarrow> string \<Rightarrow> world \<Rightarrow> world result" where
  "fetch_response env a r url w =
     (let w = map_add_cache a url w;
          (socket, w) = connect_server env r w in
      bindR (if socket = None then set_complete (Some a) w else Inr w) (\<lambda>w.
      bindR (request_send env socket r w) (\<lambda>(ok, w).
      bindR (if \<not> ok then set_complete (Some a) w else Inr w) (\<lambda>w.
      let socket = (if ok then socket else None) in
      bindR (redirect_loop env a max_redirects
               \<lparr>f_request = r, f_socket = socket, f_bufsize = buffer_size, f_need = True, f_alive = True\<rparr> w)
        (\<lambda>(f, w).
      bindR (case f_socket f of None \<Rightarrow> Inr w
             | Some inp \<Rightarrow> body_loop env a 0 (f_bufsize f) (f_need f) (f_alive f) inp w) (\<lambda>w.
      bindR (set_complete (Some a) w) (\<lambda>w.
        if f_need f then Inr w
        else case search_path (f_request f) of None \<Rightarrow> Inr w | Some url \<Rightarrow> map_remove url w)))))))"

definition client_handler :: "environment \<Rightarrow> http_version \<Rightarrow> addr \<Rightarrow> string \<Rightarrow> world \<Rightarrow> world result" where
  "client_handler env junk a inp w =
     (case fst (read_header junk inp) of
        None \<Rightarrow> Inr w
      | Some r \<Rightarrow>
          (case search_path r of
             None \<Rightarrow> Inr w
           | Some url \<Rightarrow>
               if req_method r \<noteq> GET then Inr (request_send_not_allowed env w)
               else case map_find_by_url w url of
                 Some p \<Rightarrow> serve_cached env (Some p) w
               | None \<Rightarrow> fetch_response env a r url w))"

end
