(* ===== verification/Proxy_Properties.thy ===== *)
theory Proxy_Properties
  imports Proxy_Handler
begin

text \<open>
  What the proxy achieves: requests survive parsing and are rebuilt within their buffer, a
  fetched response reaches the client and the cache byte for byte, and a later client gets
  the same bytes without a connection. The last section shows where the handler breaks its
  own contract: unreachable servers, redirects, empty header values, long heads.
\<close>

section \<open>Lines of a request\<close>

lemma strsep_fields_token:
  "(\<And>c. c \<in> set w \<Longrightarrow> \<not> d c) \<Longrightarrow> d x \<Longrightarrow> strsep_fields d (w @ x # rest) = w # strsep_fields d rest"
  by (induction w) auto

lemma cstr_id: "nul \<notin> set s \<Longrightarrow> cstr s = s"
  by (auto simp: cstr_def takeWhile_eq_all_conv)

definition method_text :: "http_method \<Rightarrow> string" where
  "method_text m = (case m of OPTIONS \<Rightarrow> ''OPTIONS'' | GET \<Rightarrow> ''GET'' | HEAD \<Rightarrow> ''HEAD'' | POST \<Rightarrow> ''POST''
     | PUT \<Rightarrow> ''PUT'' | DELETE \<Rightarrow> ''DELETE'' | TRACE \<Rightarrow> ''TRACE'' | CONNECT \<Rightarrow> ''CONNECT'' | UNKNOWN \<Rightarrow> ''INVALID'')"

definition version_text :: "http_version \<Rightarrow> string" where
  "version_text v = (case v of HTTP_VERSION_1_0 \<Rightarrow> ''HTTP/1.0'' | HTTP_VERSION_1_1 \<Rightarrow> ''HTTP/1.1''
     | HTTP_VERSION_INVALID \<Rightarrow> ''HTTP/2'')"

text \<open>The lines a client writes for a request.\<close>

definition first_line :: "request \<Rightarrow> string" where
  "first_line r = method_text (req_method r) @ '' '' @ the (search_path r) @ '' '' @ version_text (req_version r) @ crlf"

definition header_line_text :: "string \<times> string \<Rightarrow> string" where
  "header_line_text kv = fst kv @ '': '' @ snd kv @ crlf"

definition client_text :: "request \<Rightarrow> string" where
  "client_text r = first_line r @ concat (map header_line_text (metadata r)) @ crlf"

text \<open>What a path and a header must not contain, and how long a line may be.\<close>

definition plain :: "string \<Rightarrow> bool" where
  "plain s \<longleftrightarrow> nul \<notin> set s \<and> cr \<notin> set s \<and> lf \<notin> set s"

definition header_wf :: "string \<times> string \<Rightarrow> bool" where
  "header_wf kv \<longleftrightarrow> plain (fst kv) \<and> plain (snd kv) \<and> fst kv \<noteq> [] \<and> CHR '':'' \<notin> set (fst kv) \<and>
     (snd kv \<noteq> [] \<longrightarrow> hd (snd kv) \<noteq> CHR '' '') \<and> int (length (header_line_text kv)) < line_buffer_size"

definition request_wf :: "request \<Rightarrow> bool" where
  "request_wf r \<longleftrightarrow> (\<exists>p. search_path r = Some p \<and> plain p \<and> CHR '' '' \<notin> set p) \<and>
     int (length (first_line r)) < line_buffer_size \<and> (\<forall>kv \<in> set (metadata r). header_wf kv)"

lemma plain_method_text: "plain (method_text m)" "CHR '' '' \<notin> set (method_text m)"
  by (cases m; simp add: method_text_def plain_def char_defs)+

lemma plain_version_text: "plain (version_text v)" "CHR '' '' \<notin> set (version_text v)"
  by (cases v; simp add: version_text_def plain_def char_defs)+

lemma map_of_methods: "map_of methods (method_text m) = Some m"
  by (cases m) (simp_all add: method_text_def methods_def)

lemma parse_version: "(if starts_with (version_text v) ''HTTP/1.0'' then HTTP_VERSION_1_0
    else if starts_with (version_text v) ''HTTP/1.1'' then HTTP_VERSION_1_1 else HTTP_VERSION_INVALID) = v"
  by (cases v) (simp_all add: version_text_def starts_with_def)

lemma parse_method_line:
  assumes "search_path r = Some p" "plain p" "CHR '' '' \<notin> set p"
  shows "parse_method q (first_line r) =
    q\<lparr>req_method := req_method r, search_path := Some p, req_version := req_version r\<rparr>"
proof -
  let ?d = "\<lambda>c. c = CHR '' '' \<or> c = cr \<or> c = lf"
  have m: "\<not> ?d c" if "c \<in> set (method_text m)" for c m
    using that plain_method_text[of m] by (auto simp: plain_def)
  have v: "\<not> ?d c" if "c \<in> set (version_text v)" for c v
    using that plain_version_text[of v] by (auto simp: plain_def)
  have pp: "\<not> ?d c" if "c \<in> set p" for c using that assms by (auto simp: plain_def)
  have sp: "CHR '' '' # x = '' '' @ x" for x by simp
  have "nul \<notin> set (first_line r)"
    using assms plain_method_text[of "req_method r"] plain_version_text[of "req_version r"]
    by (auto simp: first_line_def plain_def char_defs)
  then have c: "cstr (first_line r) = first_line r" by (rule cstr_id)
  have f: "strsep_fields ?d (first_line r) =
      method_text (req_method r) # p # version_text (req_version r) # strsep_fields ?d [lf]"
    using assms(1) strsep_fields_token[of _ ?d "CHR '' ''", OF m] strsep_fields_token[of _ ?d "CHR '' ''", OF pp]
      strsep_fields_token[of _ ?d cr, OF v]
    by (simp add: first_line_def crlf_def)
  obtain t ts where t: "strsep_fields ?d [lf] = t # ts" by (simp add: lf_def)
  show ?thesis unfolding parse_method_def c f t by (simp add: map_of_methods parse_version)
qed

lemma takeWhile_stop: "x \<notin> set s \<Longrightarrow> takeWhile (\<lambda>c. c \<noteq> x) (s @ x # t) = s"
  by (induction s) auto

lemma dropWhile_stop: "x \<notin> set s \<Longrightarrow> dropWhile (\<lambda>c. c \<noteq> x) (s @ x # t) = x # t"
  by (induction s) auto

lemma parse_metadata_line:
  assumes "header_wf (k, v)"
  shows "parse_metadata q (header_line_text (k, v)) = q\<lparr>metadata := metadata q @ [(k, v)]\<rparr>"
proof -
  from assms have k: "plain k" "k \<noteq> []" "CHR '':'' \<notin> set k" and v: "plain v" "v \<noteq> [] \<longrightarrow> hd v \<noteq> CHR '' ''"
    by (auto simp: header_wf_def)
  have "nul \<notin> set (header_line_text (k, v))" using k v by (auto simp: header_line_text_def plain_def char_defs)
  then have c: "cstr (header_line_text (k, v)) = k @ CHR '':'' # (CHR '' '' # v) @ cr # [lf]"
    by (simp add: cstr_id header_line_text_def crlf_def)
  obtain x k' where kx: "k = x # k'" "x \<noteq> CHR '':''" using k by (cases k) auto
  have 1: "strtok (CHR '':'') (k @ CHR '':'' # (CHR '' '' # v) @ cr # [lf]) = Some (k, (CHR '' '' # v) @ cr # [lf])"
    using kx takeWhile_stop[OF k(3)] dropWhile_stop[OF k(3)] by (simp add: strtok_def)
  have "CHR '' '' \<noteq> cr" by (simp add: cr_def)
  with v(1) have nv: "cr \<notin> set (CHR '' '' # v)" by (auto simp: plain_def)
  have 2: "strtok cr ((CHR '' '' # v) @ cr # [lf]) = Some (CHR '' '' # v, [lf])"
    using takeWhile_stop[OF nv, of "[lf]"] dropWhile_stop[OF nv, of "[lf]"] \<open>CHR '' '' \<noteq> cr\<close> by (simp add: strtok_def)
  have "dropWhile (\<lambda>c. c = CHR '' '') (CHR '' '' # v) = v" using v(2) by (cases v) auto
  then show ?thesis unfolding parse_metadata_def c 1 by (simp add: 2 del: append_Cons)
qed

lemma read_line_text:
  assumes "lf \<notin> set s" "int (length (s @ crlf)) < line_buffer_size"
  shows "read_line line_buffer_size (s @ crlf @ rest) = (s @ crlf, rest)"
proof -
  have "lf \<noteq> cr" by (simp add: char_defs)
  then show ?thesis using assms read_loop_line[of "s @ [cr]" 0 line_buffer_size rest]
    by (simp add: read_line_def crlf_def)
qed

lemma read_header_line:
  assumes "header_wf (k, v)"
  shows "read_headers q (header_line_text (k, v) @ rest) = read_headers (q\<lparr>metadata := metadata q @ [(k, v)]\<rparr>) rest"
proof -
  let ?s = "k @ '': '' @ v"
  from assms have s: "lf \<notin> set ?s" "int (length (?s @ crlf)) < line_buffer_size" "nul \<notin> set (?s @ crlf)"
    by (auto simp: header_wf_def plain_def header_line_text_def char_defs)
  from assms have "?s @ crlf \<noteq> crlf" by (simp add: header_wf_def)
  moreover have "?s @ crlf = header_line_text (k, v)" by (simp add: header_line_text_def)
  ultimately show ?thesis
    using read_line_text[OF s(1,2), of rest] parse_metadata_line[OF assms, of q] cstr_id[OF s(3)]
    by (subst read_headers.simps) (simp add: header_line_text_def)
qed

lemma read_headers_text:
  "(\<forall>kv \<in> set kvs. header_wf kv) \<Longrightarrow>
     read_headers q (concat (map header_line_text kvs) @ crlf @ rest) = (q\<lparr>metadata := metadata q @ kvs\<rparr>, rest)"
proof (induction kvs arbitrary: q)
  case Nil
  have "int (length ([] @ crlf)) < line_buffer_size" "nul \<notin> set crlf" by (simp_all add: char_defs line_buffer_size_def)
  with read_line_text[of "[]" rest] cstr_id[of crlf] show ?case
    by (subst read_headers.simps) (simp add: char_defs)
next
  case (Cons kv kvs)
  obtain k v where kv: "kv = (k, v)" by (cases kv)
  with Cons read_header_line[of k v q "concat (map header_line_text kvs) @ crlf @ rest"] show ?case by simp
qed

lemma read_header_text:
  assumes "request_wf r"
  shows "read_header junk (client_text r @ body) = (Some r, body)"
proof -
  from assms obtain p where p: "search_path r = Some p" "plain p" "CHR '' '' \<notin> set p"
    and len: "int (length (first_line r)) < line_buffer_size" and kvs: "\<forall>kv \<in> set (metadata r). header_wf kv"
    by (auto simp: request_wf_def)
  let ?s = "method_text (req_method r) @ '' '' @ p @ '' '' @ version_text (req_version r)"
  have fl: "first_line r = ?s @ crlf" using p(1) by (simp add: first_line_def)
  have "lf \<notin> set ?s" using p plain_method_text[of "req_method r"] plain_version_text[of "req_version r"]
    by (auto simp: plain_def lf_def)
  from read_line_text[OF this, of "concat (map header_line_text (metadata r)) @ crlf @ body"] len
  have l: "read_line line_buffer_size (client_text r @ body) =
      (first_line r, concat (map header_line_text (metadata r)) @ crlf @ body)"
    by (simp add: client_text_def fl)
  have "first_line r \<noteq> []" by (simp add: fl crlf_def)
  moreover have "(request_init junk)\<lparr>req_method := req_method r, search_path := Some p,
      req_version := req_version r, metadata := metadata r\<rparr> = r"
    using p(1) by (simp add: request_init_def)
  ultimately show ?thesis
    using l parse_method_line[OF p, of "request_init junk"] read_headers_text[OF kvs, of "(request_init junk)\<lparr>req_method := req_method r,
      search_path := Some p, req_version := req_version r\<rparr>" body]
    by (simp add: read_header_def request_init_def)
qed

section \<open>Fetching a response\<close>

lemma header_lines_text:
  "header_lines status h inp = Inr (h', rest) \<Longrightarrow> h_text h' @ rest = h_text h @ inp"
proof (induction status h inp rule: header_lines.induct)
  case (1 status h inp)
  obtain l r where l: "read_line buffer_size inp = (l, r)" by (cases "read_line buffer_size inp")
  have t: "h_text (header_line status l k) = h_text k" for k by (simp add: header_line_def Let_def)
  note step = 1(1)[OF l[symmetric] refl]
  show ?case
  proof (cases "l = [] \<or> int (length (h_text h)) + int (length l) > headers_room \<or> starts_with (cstr l) crlf")
    case True
    with 1(2) read_line_split[OF l] l t show ?thesis
      by (subst (asm) header_lines.simps) (auto split: if_splits)
  next
    case False
    with 1(2) l have rec: "header_lines status (header_line status l (h\<lparr>h_text := h_text h @ l\<rparr>)) r = Inr (h', rest)"
      by (subst (asm) header_lines.simps) simp
    from 1(1)[OF l[symmetric] refl _ _ refl _ rec] False read_line_split[OF l] t show ?thesis by simp
  qed
qed

lemma send_client_ok:
  "client_ok env (w_sends w) \<Longrightarrow> send_client env d w = (True, w\<lparr>w_client := w_client w @ d, w_sends := w_sends w + 1\<rparr>)"
  by (simp add: send_client_def)

text \<open>What the handler has done to the world besides its own response at \<open>a\<close>.\<close>

definition delivered :: "addr \<Rightarrow> string list \<Rightarrow> string \<Rightarrow> world \<Rightarrow> world \<Rightarrow> bool" where
  "delivered a ns bytes w w' \<longleftrightarrow> c_entries w' = c_entries w \<and> w_connects w' = w_connects w \<and>
     w_servers w' = w_servers w \<and> w_client w' = w_client w @ bytes \<and>
     (\<exists>resp. c_resp w a = Some resp \<and> c_resp w' = (c_resp w)(a \<mapsto> resp\<lparr>r_nodes := r_nodes resp @ ns\<rparr>))"

lemma delivered_trans:
  "delivered a ns x w w' \<Longrightarrow> delivered a ns' y w' w'' \<Longrightarrow> delivered a (ns @ ns') (x @ y) w w''"
  by (auto simp: delivered_def)

lemma body_loop_ok:
  assumes "\<And>j. client_ok env j"
  shows "c_resp w a = Some resp \<Longrightarrow> 0 < bufsize \<or> inp = [] \<Longrightarrow>
    \<exists>ns w'. body_loop env a i bufsize True True inp w = Inr w' \<and> delivered a ns inp w w' \<and> concat ns = inp"
proof (induction "length inp" arbitrary: i inp w resp rule: less_induct)
  case less
  show ?case
  proof (cases "inp = []")
    case True
    then have "body_loop env a i bufsize True True inp w = Inr w"
      by (subst body_loop.simps) (simp add: read_body_def recv_all_eq)
    moreover have "delivered a [] [] w w" using less.prems(1) by (auto simp: delivered_def fun_eq_iff)
    ultimately show ?thesis using True by (intro exI[of _ "[]"] exI[of _ w]) simp
  next
    case False
    with less.prems(2) have b: "0 < bufsize" by simp
    let ?b = "take (nat bufsize) inp" and ?rest = "drop (nat bufsize) inp"
    from b False have ne: "?b \<noteq> []" by simp
    let ?w = "w\<lparr>c_resp := (c_resp w)(a \<mapsto> resp\<lparr>r_nodes := r_nodes resp @ [?b]\<rparr>),
        w_client := w_client w @ ?b, w_sends := w_sends w + 1\<rparr>"
    have st: "body_loop env a i bufsize True True inp w = body_loop env a (i + 1) bufsize True True ?rest ?w"
      using less.prems(1) ne assms
      by (subst body_loop.simps) (simp add: read_body_def recv_all_eq list_add_def send_client_ok Let_def del: take_eq_Nil)
    have d: "delivered a [?b] ?b w ?w" using less.prems(1) by (auto simp: delivered_def)
    have "length ?rest < length inp" using False b by simp
    from less.hyps[OF this, of ?w "resp\<lparr>r_nodes := r_nodes resp @ [?b]\<rparr>" "i + 1"] b obtain ns w' where
      "body_loop env a (i + 1) bufsize True True ?rest ?w = Inr w'" "delivered a ns ?rest ?w w'" "concat ns = ?rest"
      by auto
    with st delivered_trans[OF d, of ns ?rest w'] show ?thesis
      by (intro exI[of _ "?b # ns"] exI[of _ w']) simp
  qed
qed

text \<open>
  A response the proxy stores: its status is 2xx, its head fits the buffer, and its
  \<open>Content-Length\<close>, if it has one, is positive unless there is no body.
\<close>

definition good_response :: "string \<Rightarrow> bool" where
  "good_response stream \<longleftrightarrow>
     (let (l, rest) = read_line buffer_size stream; status = parse_http_status l in
      l \<noteq> [] \<and> cache_allowed status \<and>
      (case header_lines status \<lparr>h_text = l, h_location = None, h_bufsize = buffer_size\<rparr> rest of
         Inl _ \<Rightarrow> False
       | Inr (h, body) \<Rightarrow> 0 < h_bufsize h \<or> body = []))"

lemma cache_allowed_no_redirect: "cache_allowed st \<Longrightarrow> \<not> is_redirect st"
  by (simp add: cache_allowed_def is_redirect_def)

lemma redirect_loop_direct:
  assumes "good_response stream" "client_ok env (w_sends w)" "c_resp w a = Some resp" "f_socket f = Some stream"
    "f_bufsize f = buffer_size" "f_alive f"
  shows "\<exists>f' w' hd body. redirect_loop env a (Suc n) f w = Inr (f', w') \<and> f_socket f' = Some body \<and> f_need f' \<and>
    f_alive f' \<and> (0 < f_bufsize f' \<or> body = []) \<and> delivered a [hd] hd w w' \<and> hd @ body = stream"
proof -
  obtain l rest where l: "read_line buffer_size stream = (l, rest)" by (cases "read_line buffer_size stream")
  let ?st = "parse_http_status l"
  from assms(1) l obtain h body where h: "l \<noteq> []" "cache_allowed ?st"
    "header_lines ?st \<lparr>h_text = l, h_location = None, h_bufsize = buffer_size\<rparr> rest = Inr (h, body)"
    "0 < h_bufsize h \<or> body = []"
    by (auto simp: good_response_def Let_def split: sum.splits prod.splits)
  from header_lines_text[OF h(3)] read_line_split[OF l] have t: "h_text h @ body = stream" by simp
  let ?f = "f\<lparr>f_socket := Some body, f_need := True, f_bufsize := h_bufsize h, f_alive := True\<rparr>"
  let ?w = "w\<lparr>c_resp := (c_resp w)(a \<mapsto> resp\<lparr>r_nodes := r_nodes resp @ [h_text h]\<rparr>),
      w_client := w_client w @ h_text h, w_sends := w_sends w + 1\<rparr>"
  have "redirect_loop env a (Suc n) f w = Inr (?f, ?w)"
    using l h assms cache_allowed_no_redirect[OF h(2)] by (simp add: send_client_ok list_add_def)
  moreover have "delivered a [h_text h] (h_text h) w ?w" using assms(3) by (simp add: delivered_def)
  ultimately show ?thesis using t h(4) by (intro exI[of _ ?f] exI[of _ ?w] exI[of _ "h_text h"] exI[of _ body]) simp
qed

lemma fetch_response_ok:
  assumes "\<And>i. client_ok env i" "\<And>i. server_ok env i"
    and "search_path r = Some url" "req_version r \<noteq> HTTP_VERSION_INVALID"
    and "c_resp w a = None" "http_connect (net env (w_connects w)) r = Some stream" "good_response stream"
  shows "\<exists>w' ns. fetch_response env a r url w = Inr w' \<and> w_client w' = w_client w @ stream \<and>
    w_servers w' = w_servers w @ [request_text r] \<and> w_connects w' = w_connects w + 1 \<and>
    c_entries w' = (url, a) # c_entries w \<and>
    c_resp w' = (c_resp w)(a \<mapsto> \<lparr>r_nodes = ns, r_complete = True\<rparr>) \<and> concat ns = stream"
proof -
  let ?w1 = "(map_add_cache a url w)\<lparr>w_connects := w_connects w + 1, w_servers := w_servers w @ [request_text r]\<rparr>"
  let ?f = "\<lparr>f_request = r, f_socket = Some stream, f_bufsize = buffer_size, f_need = True, f_alive = True\<rparr>"
  have con: "connect_server env r (map_add_cache a url w) =
      (Some stream, (map_add_cache a url w)\<lparr>w_connects := w_connects w + 1\<rparr>)"
    using assms(6) by (simp add: connect_server_def map_add_cache_def)
  have req: "request_send env (Some stream) r ((map_add_cache a url w)\<lparr>w_connects := w_connects w + 1\<rparr>) = Inr (True, ?w1)"
    using build_request_text[OF assms(4,3)] assms(2) by (simp add: request_send_def map_add_cache_def)
  have resp: "c_resp ?w1 a = Some list_init_cache" by (simp add: map_add_cache_def)
  from redirect_loop_direct[OF assms(7) assms(1) resp, of ?f 4] obtain f w2 hd body where
    f: "redirect_loop env a max_redirects ?f ?w1 = Inr (f, w2)" "f_socket f = Some body" "f_need f" "f_alive f"
      "0 < f_bufsize f \<or> body = []" and d: "delivered a [hd] hd ?w1 w2" and t: "hd @ body = stream"
    by (auto simp: max_redirects_def eval_nat_numeral)
  from d resp have r2: "c_resp w2 a = Some (list_init_cache\<lparr>r_nodes := r_nodes list_init_cache @ [hd]\<rparr>)"
    by (auto simp: delivered_def)
  from body_loop_ok[OF assms(1) r2 f(5), of 0] obtain ns w3 where
    b: "body_loop env a 0 (f_bufsize f) True True body w2 = Inr w3" "delivered a ns body w2 w3" "concat ns = body"
    by blast
  from delivered_trans[OF d b(2)] t have d3: "delivered a (hd # ns) stream ?w1 w3" by simp
  then have c3: "c_resp w3 = (c_resp ?w1)(a \<mapsto> \<lparr>r_nodes = hd # ns, r_complete = False\<rparr>)"
    using resp by (auto simp: delivered_def list_init_cache_def)
  let ?w4 = "w3\<lparr>c_resp := (c_resp w3)(a \<mapsto> \<lparr>r_nodes = hd # ns, r_complete = True\<rparr>)\<rparr>"
  have s: "set_complete (Some a) w3 = Inr ?w4" using c3 by (simp add: set_complete_def)
  have "fetch_response env a r url w = Inr ?w4"
    using con req f b(1) s by (simp add: fetch_response_def Let_def)
  moreover have "concat (hd # ns) = stream" using b(3) t by simp
  ultimately show ?thesis using d3 c3
    by (intro exI[of _ ?w4] exI[of _ "hd # ns"]) (auto simp: delivered_def map_add_cache_def fun_eq_iff)
qed

section \<open>Serving from the cache\<close>

lemma send_nodes_ok:
  "(\<And>i. client_ok env i) \<Longrightarrow>
     send_nodes env ns w = (True, w\<lparr>w_client := w_client w @ concat ns, w_sends := w_sends w + length ns\<rparr>)"
  by (induction ns arbitrary: w) (simp_all add: send_client_ok)

lemma serve_cached_ok:
  assumes "\<And>i. client_ok env i" "c_resp w a = Some \<lparr>r_nodes = ns, r_complete = True\<rparr>"
  shows "serve_cached env (Some a) w =
    Inr (w\<lparr>w_client := w_client w @ concat ns, w_sends := w_sends w + length ns\<rparr>)"
  using send_nodes_ok[OF assms(1), of ns w] assms(2) by (simp add: serve_cached_def)

section \<open>Examples for the witnesses\<close>

definition empty_world :: world where
  "empty_world = \<lparr>c_entries = [], c_resp = Map.empty, w_client = [], w_servers = [], w_connects = 0, w_sends = 0\<rparr>"

definition demo_request :: request where
  "demo_request = \<lparr>req_method = GET, req_version = HTTP_VERSION_1_1, search_path = Some ''http://a/x'',
     metadata = [(''Host'', ''a'')]\<rparr>"

definition demo_response :: string where
  "demo_response = ''HTTP/1.1 200 OK'' @ crlf @ ''Content-Length: 2'' @ crlf @ crlf @ ''hi''"

text \<open>A network in which the \<open>i\<close>-th connection answers with the \<open>i\<close>-th string.\<close>

definition answers :: "string list \<Rightarrow> environment" where
  "answers as = \<lparr>net = (\<lambda>i h p. if i < length as then Some (as ! i) else None), server_ok = (\<lambda>_. True),
     client_ok = (\<lambda>_. True), recv_sizes = (\<lambda>_. [])\<rparr>"

lemma demo_request_wf: "request_wf demo_request"
  by (simp add: request_wf_def demo_request_def plain_def header_wf_def first_line_def header_line_text_def
      method_text_def version_text_def char_defs line_buffer_size_def)

lemma demo_response_good: "good_response demo_response"
  by code_simp

section \<open>Properties\<close>

text \<open>
  C19. Round trip of a request: whatever method, version, path and headers a client writes
  in the usual form, \<open>read_header\<close> yields them again and leaves the bytes after the empty
  line unread. The path has no space or control character, header names no colon, and
  each line fits the line buffer.
\<close>

theorem proxy_request_roundtrip:
  assumes "request_wf r"
  shows "read_header junk (client_text r @ body) = (Some r, body)"
  by (rule read_header_text[OF assms])

theorem proxy_request_roundtrip_witness:
  "read_header HTTP_VERSION_1_0 (client_text demo_request @ ''body'') = (Some demo_request, ''body'')"
  by (rule proxy_request_roundtrip[OF demo_request_wf])

text \<open>
  C27. \<open>build_request\<close> never writes past its buffer, and the length it reports is that of
  the text it has built: the request line with the path of the URL, every header but
  \<open>Connection\<close> and \<open>Proxy-Connection\<close>, for HTTP/1.1 its own \<open>Connection: close\<close>, and
  the empty line.
\<close>

theorem build_request_fits:
  assumes "search_path r = Some path" "req_version r \<noteq> HTTP_VERSION_INVALID"
  shows "build_request r = Inr (Some (request_text r, length (request_text r)))"
  by (rule build_request_text[OF assms(2,1)])

theorem build_request_fits_witness:
  "build_request demo_request = Inr (Some (''GET /x HTTP/1.1'' @ crlf @ ''Host: a'' @ crlf @ ''Connection: close'' @ crlf @ crlf, 47))"
proof -
  have "request_text demo_request = ''GET /x HTTP/1.1'' @ crlf @ ''Host: a'' @ crlf @ ''Connection: close'' @ crlf @ crlf"
    by code_simp
  with build_request_fits[of demo_request "''http://a/x''"] show ?thesis by (simp add: demo_request_def crlf_def)
qed

text \<open>
  C2. The cache is transparent. A first client that asks for a URL gets exactly the bytes
  the web server sends, head and body, and the server gets the request as built. From then
  on every client that asks for the same URL gets the same bytes, and no connection is made.
\<close>

theorem proxy_miss_then_hit:
  assumes "\<And>i. client_ok env i" "\<And>i. server_ok env i"
    and "read_header junk inp = (Some r, x)" "req_method r = GET" "search_path r = Some url"
      "req_version r \<noteq> HTTP_VERSION_INVALID"
    and "map_find_by_url w url = None" "c_resp w a = None"
    and "http_connect (net env (w_connects w)) r = Some stream" "good_response stream"
    and "read_header junk' inp' = (Some r', x')" "req_method r' = GET" "search_path r' = Some url"
  shows "\<exists>w1 w2. client_handler env junk a inp w = Inr w1 \<and> w_client w1 = w_client w @ stream \<and>
    w_servers w1 = w_servers w @ [request_text r] \<and>
    client_handler env junk' b inp' w1 = Inr w2 \<and> w_client w2 = w_client w1 @ stream \<and>
    w_servers w2 = w_servers w1 \<and> w_connects w2 = w_connects w1"
proof -
  from fetch_response_ok[OF assms(1,2,5,6,8-10)] obtain w1 ns where
    w1: "fetch_response env a r url w = Inr w1" "w_client w1 = w_client w @ stream"
      "w_servers w1 = w_servers w @ [request_text r]" "c_entries w1 = (url, a) # c_entries w"
      "c_resp w1 = (c_resp w)(a \<mapsto> \<lparr>r_nodes = ns, r_complete = True\<rparr>)" "concat ns = stream" by blast
  have "client_handler env junk a inp w = Inr w1" using assms w1(1) by (simp add: client_handler_def)
  moreover have "map_find_by_url w1 url = Some a" using w1(4) by (simp add: map_find_by_url_def)
  moreover have "c_resp w1 a = Some \<lparr>r_nodes = ns, r_complete = True\<rparr>" using w1(5) by simp
  moreover note serve_cached_ok[OF assms(1) this]
  ultimately show ?thesis using assms(11-13) w1 by (simp add: client_handler_def)
qed

theorem proxy_miss_then_hit_witness:
  "\<exists>w1 w2. client_handler (answers [demo_response]) HTTP_VERSION_1_0 1 (client_text demo_request) empty_world = Inr w1 \<and>
     w_client w1 = demo_response \<and>
     client_handler (answers [demo_response]) HTTP_VERSION_1_0 2 (client_text demo_request) w1 = Inr w2 \<and>
     w_client w2 = demo_response @ demo_response"
proof -
  have r: "read_header HTTP_VERSION_1_0 (client_text demo_request) = (Some demo_request, [])"
    using read_header_text[OF demo_request_wf, of HTTP_VERSION_1_0 "[]"] by simp
  have "http_connect (net (answers [demo_response]) (w_connects empty_world)) demo_request = Some demo_response"
    by (simp add: http_connect_def demo_request_def answers_def empty_world_def split: prod.split)
  from proxy_miss_then_hit[OF _ _ r _ _ _ _ _ this demo_response_good r, where url = "''http://a/x''" and a = 1 and b = 2]
  show ?thesis by (auto simp: answers_def demo_request_def empty_world_def map_find_by_url_def)
qed

text \<open>
  A request whose method is not \<open>GET\<close> is answered with status 405; neither the cache
  nor a web server is touched.
\<close>

theorem proxy_rejects_other_methods:
  assumes "read_header junk inp = (Some r, x)" "search_path r = Some url" "req_method r \<noteq> GET"
    and "client_ok env (w_sends w)"
  shows "client_handler env junk a inp w =
    Inr (w\<lparr>w_client := w_client w @ not_allowed, w_sends := w_sends w + 1\<rparr>)"
  using assms by (simp add: client_handler_def request_send_not_allowed_def send_client_def)

theorem proxy_rejects_other_methods_witness:
  "\<exists>w. client_handler (answers []) HTTP_VERSION_1_0 1 (client_text (demo_request\<lparr>req_method := POST\<rparr>)) empty_world = Inr w \<and>
     w_client w = not_allowed \<and> c_entries w = []"
proof -
  have "request_wf (demo_request\<lparr>req_method := POST\<rparr>)"
    by (simp add: request_wf_def demo_request_def plain_def header_wf_def first_line_def header_line_text_def
        method_text_def version_text_def char_defs line_buffer_size_def)
  from read_header_text[OF this, of HTTP_VERSION_1_0 "[]"]
  have r: "read_header HTTP_VERSION_1_0 (client_text (demo_request\<lparr>req_method := POST\<rparr>)) =
      (Some (demo_request\<lparr>req_method := POST\<rparr>), [])" by simp
  have "client_ok (answers []) (w_sends empty_world)" "search_path (demo_request\<lparr>req_method := POST\<rparr>) = Some ''http://a/x''"
    by (simp_all add: answers_def demo_request_def)
  from proxy_rejects_other_methods[OF r this(2) _ this(1), of 1] show ?thesis by (simp add: empty_world_def)
qed

text \<open>
  An unreachable server poisons the cache. When the connection fails, the client gets
  nothing, and the entry stays behind as a complete empty response: whoever asks for the
  URL later gets nothing either, even if the server has become reachable.
\<close>

theorem proxy_unreachable_poisons:
  assumes "read_header junk inp = (Some r, x)" "req_method r = GET" "search_path r = Some url"
      "req_version r \<noteq> HTTP_VERSION_INVALID"
    and "map_find_by_url w url = None" "c_resp w a = None"
    and "http_connect (net env (w_connects w)) r = None"
  shows "\<exists>w1. client_handler env junk a inp w = Inr w1 \<and> w_client w1 = w_client w \<and>
    client_handler env' junk b inp w1 = Inr w1"
proof -
  let ?w1 = "(map_add_cache a url w)\<lparr>w_connects := w_connects w + 1,
      c_resp := (c_resp w)(a \<mapsto> \<lparr>r_nodes = [], r_complete = True\<rparr>)\<rparr>"
  have "fetch_response env a r url w = Inr ?w1"
    using assms(3,4,7) build_request_text[OF assms(4,3)]
    by (simp add: fetch_response_def connect_server_def map_add_cache_def set_complete_def request_send_def
        max_redirects_def eval_nat_numeral list_init_cache_def)
  moreover have "map_find_by_url ?w1 url = Some a" by (simp add: map_find_by_url_def map_add_cache_def)
  ultimately show ?thesis using assms(1-5)
    by (intro exI[of _ ?w1]) (simp add: client_handler_def serve_cached_def map_add_cache_def)
qed

theorem proxy_unreachable_poisons_witness:
  "\<exists>w1. client_handler (answers []) HTTP_VERSION_1_0 1 (client_text demo_request) empty_world = Inr w1 \<and>
     client_handler (answers [demo_response, demo_response]) HTTP_VERSION_1_0 2 (client_text demo_request) w1 = Inr w1 \<and>
     w_client w1 = []"
proof -
  have r: "read_header HTTP_VERSION_1_0 (client_text demo_request) = (Some demo_request, [])"
    using read_header_text[OF demo_request_wf, of HTTP_VERSION_1_0 "[]"] by simp
  have "http_connect (net (answers []) (w_connects empty_world)) demo_request = None"
    by (simp add: http_connect_def demo_request_def answers_def empty_world_def split: prod.split)
  from proxy_unreachable_poisons[OF r _ _ _ _ _ this, of "''http://a/x''" 1 "answers [demo_response, demo_response]" 2]
  show ?thesis by (auto simp: demo_request_def empty_world_def map_find_by_url_def)
qed

text \<open>
  A redirect can leave a stale entry. The URL \<open>http://a/x\<close> redirects to a page that is
  not found; \<open>map_remove\<close> is called with the URL of the redirect, so the entry of the
  original URL stays, complete and empty, and hides the page when it comes back.
\<close>

theorem proxy_redirect_stale_entry:
  "case client_handler (answers [''HTTP/1.1 302 Found'' @ crlf @ ''Location: http://b/y'' @ crlf @ crlf,
         ''HTTP/1.1 404 Not Found'' @ crlf @ crlf @ ''no''])
       HTTP_VERSION_1_0 1 (client_text demo_request) empty_world of
     Inl _ \<Rightarrow> False
   | Inr w \<Rightarrow> w_client w = ''HTTP/1.1 404 Not Found'' @ crlf @ crlf @ ''no'' \<and>
       c_entries w = [(''http://a/x'', 1)] \<and> map_option r_nodes (c_resp w 1) = Some [] \<and>
       (case client_handler (answers [[], [], demo_response]) HTTP_VERSION_1_0 2 (client_text demo_request) w of
          Inl _ \<Rightarrow> False
        | Inr w' \<Rightarrow> w_client w' = w_client w \<and> w_connects w' = w_connects w)"
  by code_simp

text \<open>
  A header with an empty value is forwarded as a line break. The value that
  \<open>parse_metadata\<close> takes from \<open>Key:\<close> directly followed by the line end is the line feed, so
  the text sent to the web server contains an empty line that ends the head early.
\<close>

theorem empty_header_value_breaks_head:
  assumes "plain k" "k \<noteq> []" "CHR '':'' \<notin> set k" "\<not> skipped_header k"
  shows "metadata (parse_metadata r (k @ '':'' @ crlf)) = metadata r @ [(k, [lf])] \<and>
    header_text [(k, [lf])] = k @ '': '' @ [lf] @ crlf"
proof -
  have "nul \<notin> set (k @ '':'' @ crlf)" using assms(1) by (auto simp: plain_def char_defs)
  then have c: "cstr (k @ '':'' @ crlf) = k @ CHR '':'' # [cr, lf]" by (simp add: cstr_id crlf_def)
  obtain x k' where "k = x # k'" "x \<noteq> CHR '':''" using assms(2,3) by (cases k) auto
  then have "strtok (CHR '':'') (k @ CHR '':'' # [cr, lf]) = Some (k, [cr, lf])"
    using takeWhile_stop[OF assms(3)] dropWhile_stop[OF assms(3)] by (simp add: strtok_def)
  moreover have "strtok cr [cr, lf] = Some ([lf], [])" by (simp add: strtok_def char_defs)
  ultimately show ?thesis using assms(4) unfolding parse_metadata_def c
    by (simp add: header_text_def lf_def)
qed

theorem empty_header_value_breaks_head_witness:
  "metadata (parse_metadata (request_init HTTP_VERSION_1_0) (''Accept:'' @ crlf)) = [(''Accept'', [lf])]"
  using empty_header_value_breaks_head[of "''Accept''" "request_init HTTP_VERSION_1_0"]
  by (simp add: plain_def char_defs skipped_header_def request_init_def)

text \<open>
  A long head overruns the handler's stack buffer. Nothing bounds the number of header
  lines a web server may send; when the lines, each shorter than the line buffer and none
  of them empty, exceed the 16 times 8192 bytes of \<open>headers\<close>, the copy goes past its end.
\<close>

theorem long_head_overruns:
  assumes "\<forall>l \<in> set ls. lf \<notin> set l \<and> int (length l) + 1 < buffer_size \<and> \<not> starts_with (cstr (l @ [lf])) crlf"
    and "headers_room < int (length (h_text h)) + int (length (concat (map (\<lambda>l. l @ [lf]) ls)))"
    and "int (length (h_text h)) \<le> headers_room"
  shows "header_lines status h (concat (map (\<lambda>l. l @ [lf]) ls) @ rest) = Inl Overrun"
  using assms
proof (induction ls arbitrary: h)
  case (Cons l ls)
  let ?inp = "concat (map (\<lambda>l. l @ [lf]) ls) @ rest"
  have r: "read_line buffer_size (l @ lf # ?inp) = (l @ [lf], ?inp)"
    unfolding read_line_def by (rule read_loop_line) (use Cons.prems(1) in auto)
  have t: "h_text (header_line status m k) = h_text k" for m k by (simp add: header_line_def Let_def)
  show ?case
  proof (cases "int (length (h_text h)) + int (length (l @ [lf])) > headers_room")
    case True
    with r show ?thesis by (subst header_lines.simps) simp
  next
    case False
    have "header_lines status (header_line status (l @ [lf]) (h\<lparr>h_text := h_text h @ l @ [lf]\<rparr>)) ?inp = Inl Overrun"
      using Cons.prems False by (intro Cons.IH) (auto simp: t)
    with r False Cons.prems(1) show ?thesis by (subst header_lines.simps) simp
  qed
qed simp

theorem long_head_overruns_witness:
  "header_lines 200 \<lparr>h_text = [], h_location = None, h_bufsize = 8192\<rparr>
     (concat (map (\<lambda>l. l @ [lf]) (replicate 40000 ''X: y'')) @ crlf) = Inl Overrun"
proof -
  have "length (concat (map f (replicate n x))) = n * length (f x)" for f :: "string \<Rightarrow> string" and n x
    by (induction n) auto
  then have "int (length (concat (map (\<lambda>l. l @ [lf]) (replicate 40000 ''X: y'')))) = 200000" by simp
  then show ?thesis
    by (intro long_head_overruns) (auto simp: headers_room_def buffer_size_def starts_with_def char_defs cstr_def)
qed

text \<open>
  \<open>read_line\<close> stays inside its buffer and loses no byte; \<open>read_body\<close> returns the next
  \<open>max_buffer\<close> bytes, or all that are left, in whatever portions \<open>recv\<close> delivers them; the
  pieces that \<open>send_to_client\<close> hands to \<open>send\<close> are the data, for every package size.
\<close>

theorem proxy_io_exact:
  "(case read_line (m + 1) inp of (l, rest) \<Rightarrow> l @ rest = inp \<and> int (length l) \<le> max 0 m) \<and>
   read_body ks (Some inp) n =
     (if take (nat n) inp = [] then None else Some (take (nat n) inp, drop (nat n) inp)) \<and>
   concat (send_to_client data sz) = data"
proof -
  obtain l rest where l: "read_line (m + 1) inp = (l, rest)" by (cases "read_line (m + 1) inp")
  from read_line_split[OF l] have "inp = l @ rest" "int (length l) \<le> max 0 m" by auto
  moreover have "concat (send_to_client data sz) = data"
    using packages_concat[of sz 0 data "length data"] by (auto simp: send_to_client_def)
  ultimately show ?thesis using l by (simp add: read_body_def recv_all_eq)
qed

text \<open>
  C20. The cache is a finite map from URLs to responses: every sequence of removals and of
  insertions of absent URLs runs without error and answers every lookup like the map.
\<close>

theorem proxy_cache_is_map:
  assumes "cache_ok (m :: cache)"
    and "cache_client (\<lambda>m a. c_resp m a = None) map_find_by_url map_add_cache map_remove ops m"
  shows "\<exists>m'. run_cache map_add_cache map_remove ops m = Inr m' \<and> cache_ok m' \<and>
    map_find_by_url m' = spec_cache ops (map_find_by_url m)"
  by (rule proxy_cache.cache_refines[OF assms])

theorem proxy_cache_is_map_witness:
  "\<exists>m'. run_cache map_add_cache map_remove [CAdd 1 ''u'', CAdd 2 ''v'', CRemove ''u''] map_init = Inr m' \<and>
     map_find_by_url m' ''u'' = None \<and> map_find_by_url m' ''v'' = Some 2"
proof -
  have "cache_client (\<lambda>m a. c_resp m a = None) map_find_by_url map_add_cache map_remove
      [CAdd 1 ''u'', CAdd 2 ''v'', CRemove ''u''] map_init"
    by (simp add: map_init_def map_add_cache_def map_find_by_url_def map_remove_def)
  from proxy_cache_is_map[OF cache_ok_init this] show ?thesis by (auto simp del: run_cache.simps)
qed

end
