(* ===== verification/Proxy_Stream.thy ===== *)
theory Proxy_Stream
  imports OS_Prelude
begin

text \<open>
  One client of the proxy is served from a response that another thread is still fetching.
  The fetching thread (lines 182 and 206 to 235 of \<open>main.c\<close>) appends the parts of the
  response one by one; it holds the write lock of the newest node until it has added the
  next. The streaming thread (lines 62 to 96) sends the nodes and waits in
  \<open>list_wait_for_data\<close> when it has none. The threads are interleaved statement by statement;
  a node is identified by its position in the list, which only grows.
\<close>

section \<open>The two threads\<close>

datatype fetch_pc = F_Add | F_Lock | F_Unlock | F_End | F_Complete | F_Done

datatype stream_pc = ST_First | ST_Test | ST_Wait | ST_Lock | ST_Send | ST_Unlock | ST_Next | ST_Done

record stream =
  parts :: "string list"
  added :: nat
  complete :: bool
  write_locked :: "nat list"
  fetch_pc :: fetch_pc
  fetch_cur :: "nat option"
  fetch_prev :: "nat option"
  stream_pc :: stream_pc
  stream_cur :: "nat option"
  read_locked :: "nat option"
  sent :: "string list"

definition stream_init :: "string list \<Rightarrow> stream" where
  "stream_init ps = \<lparr>parts = ps, added = 0, complete = False, write_locked = [], fetch_pc = F_Add,
     fetch_cur = None, fetch_prev = None, stream_pc = ST_First, stream_cur = None, read_locked = None, sent = []\<rparr>"

definition fetch_step :: "stream \<Rightarrow> stream" where
  "fetch_step s = (case fetch_pc s of
       F_Add \<Rightarrow>
         if added s < length (parts s)
         then s\<lparr>fetch_prev := fetch_cur s, fetch_cur := Some (added s), added := added s + 1, fetch_pc := F_Lock\<rparr>
         else s\<lparr>fetch_pc := F_End\<rparr>
     | F_Lock \<Rightarrow>
         if read_locked s = fetch_cur s then s
         else s\<lparr>write_locked := the (fetch_cur s) # write_locked s, fetch_pc := F_Unlock\<rparr>
     | F_Unlock \<Rightarrow>
         s\<lparr>write_locked := (case fetch_prev s of None \<Rightarrow> write_locked s | Some i \<Rightarrow> remove1 i (write_locked s)),
           fetch_pc := F_Add\<rparr>
     | F_End \<Rightarrow>
         s\<lparr>write_locked := (case fetch_cur s of None \<Rightarrow> write_locked s | Some i \<Rightarrow> remove1 i (write_locked s)),
           fetch_pc := F_Complete\<rparr>
     | F_Complete \<Rightarrow> s\<lparr>complete := True, fetch_pc := F_Done\<rparr>
     | F_Done \<Rightarrow> s)"

text \<open>The node after position \<open>i\<close>, and the first node.\<close>

definition next_node :: "nat \<Rightarrow> stream \<Rightarrow> nat option" where
  "next_node i s = (if i + 1 < added s then Some (i + 1) else None)"

definition first_node :: "stream \<Rightarrow> nat option" where
  "first_node s = (if 0 < added s then Some 0 else None)"

text \<open>
  One round of the loop in \<open>list_wait_for_data\<close>: the result 1 with the new \<open>current\<close>, the
  result 0, or (\<open>None\<close>) waiting for the condition variable.
\<close>

definition list_wait_for_data :: "nat option \<Rightarrow> stream \<Rightarrow> (bool \<times> nat option) option" where
  "list_wait_for_data current s =
     (let nx = (case current of None \<Rightarrow> first_node s | Some i \<Rightarrow> next_node i s) in
      if nx \<noteq> None then Some (True, nx)
      else if complete s then Some (False, current)
      else None)"

definition stream_step :: "stream \<Rightarrow> stream" where
  "stream_step s = (case stream_pc s of
       ST_First \<Rightarrow> s\<lparr>stream_cur := first_node s, stream_pc := ST_Test\<rparr>
     | ST_Test \<Rightarrow> s\<lparr>stream_pc := (if stream_cur s = None then ST_Wait else ST_Lock)\<rparr>
     | ST_Wait \<Rightarrow>
         (case list_wait_for_data (stream_cur s) s of
            None \<Rightarrow> s
          | Some (ok, cur) \<Rightarrow> s\<lparr>stream_cur := cur, stream_pc := (if ok then ST_Lock else ST_Done)\<rparr>)
     | ST_Lock \<Rightarrow>
         if the (stream_cur s) \<in> set (write_locked s) then s
         else s\<lparr>read_locked := stream_cur s, stream_pc := ST_Send\<rparr>
     | ST_Send \<Rightarrow> s\<lparr>sent := sent s @ [parts s ! the (stream_cur s)], stream_pc := ST_Unlock\<rparr>
     | ST_Unlock \<Rightarrow> s\<lparr>read_locked := None, stream_pc := ST_Next\<rparr>
     | ST_Next \<Rightarrow>
         (let nx = next_node (the (stream_cur s)) s in
          if nx = None \<and> complete s then s\<lparr>stream_pc := ST_Done\<rparr>
          else s\<lparr>stream_cur := nx, stream_pc := ST_Test\<rparr>)
     | ST_Done \<Rightarrow> s)"

inductive stream_trans :: "stream \<Rightarrow> stream \<Rightarrow> bool" where
  fetch: "stream_trans s (fetch_step s)"
| client: "stream_trans s (stream_step s)"

inductive_cases stream_transE: "stream_trans s t"

definition stream_start :: "string list \<Rightarrow> stream \<Rightarrow> bool" where
  "stream_start ps s \<longleftrightarrow> s = stream_init ps"

text \<open>The events of a schedule: \<open>True\<close> for the streaming thread.\<close>

definition run_stream :: "bool list \<Rightarrow> stream \<Rightarrow> stream" where
  "run_stream evs s = foldl (\<lambda>s ev. if ev then stream_step s else fetch_step s) s evs"

section \<open>The invariant\<close>

text \<open>
  What has been sent is some earlier part followed by the nodes up to the current one; the
  response is complete only when all parts have been added.
\<close>

definition sent_upto :: "stream \<Rightarrow> nat" where
  "sent_upto s = (case stream_cur s of None \<Rightarrow> 0
     | Some i \<Rightarrow> if stream_pc s = ST_Unlock \<or> stream_pc s = ST_Next then i + 1 else i)"

definition stream_inv :: "string list \<Rightarrow> stream \<Rightarrow> bool" where
  "stream_inv ps s \<longleftrightarrow> parts s = ps \<and> added s \<le> length ps \<and>
     (fetch_pc s = F_End \<or> fetch_pc s = F_Complete \<or> fetch_pc s = F_Done \<longrightarrow> added s = length ps) \<and>
     (complete s \<longrightarrow> fetch_pc s = F_Done) \<and>
     (\<forall>i. stream_cur s = Some i \<longrightarrow> i < added s) \<and>
     (stream_pc s \<in> {ST_Lock, ST_Send, ST_Unlock, ST_Next} \<longrightarrow> stream_cur s \<noteq> None) \<and>
     (stream_pc s = ST_Wait \<longrightarrow> stream_cur s = None) \<and>
     (stream_pc s \<noteq> ST_Done \<longrightarrow> (\<exists>pre. sent s = pre @ take (sent_upto s) ps)) \<and>
     (stream_pc s = ST_First \<longrightarrow> stream_cur s = None) \<and>
     (stream_pc s = ST_Done \<longrightarrow> (\<exists>pre. sent s = pre @ ps))"

lemma fetch_step_fields:
  "parts (fetch_step s) = parts s" "stream_pc (fetch_step s) = stream_pc s"
  "stream_cur (fetch_step s) = stream_cur s" "sent (fetch_step s) = sent s" "added s \<le> added (fetch_step s)"
  by (cases "fetch_pc s"; simp add: fetch_step_def)+

lemma fetch_step_upto: "sent_upto (fetch_step s) = sent_upto s"
  unfolding sent_upto_def fetch_step_fields ..

lemma fetch_step_inv:
  assumes "stream_inv ps s"
  shows "stream_inv ps (fetch_step s)"
proof -
  from assms have p: "parts s = ps" "added s \<le> length ps" "complete s \<longrightarrow> fetch_pc s = F_Done"
    "fetch_pc s = F_End \<or> fetch_pc s = F_Complete \<or> fetch_pc s = F_Done \<longrightarrow> added s = length ps"
    by (auto simp: stream_inv_def)
  from p have "added (fetch_step s) \<le> length ps" unfolding fetch_step_def by (cases "fetch_pc s") auto
  moreover from p have "fetch_pc (fetch_step s) = F_End \<or> fetch_pc (fetch_step s) = F_Complete \<or>
      fetch_pc (fetch_step s) = F_Done \<longrightarrow> added (fetch_step s) = length ps"
    unfolding fetch_step_def by (cases "fetch_pc s") auto
  moreover from p have "complete (fetch_step s) \<longrightarrow> fetch_pc (fetch_step s) = F_Done"
    unfolding fetch_step_def by (cases "fetch_pc s") auto
  moreover have "i < added (fetch_step s)" if "stream_cur s = Some i" for i
  proof -
    have "i < added s" using assms that by (simp add: stream_inv_def)
    then show ?thesis using fetch_step_fields(5)[of s] by simp
  qed
  ultimately show ?thesis using assms unfolding stream_inv_def fetch_step_fields(1-4) fetch_step_upto by blast
qed

lemma stream_step_inv:
  assumes "stream_inv ps s"
  shows "stream_inv ps (stream_step s)"
proof (cases "stream_pc s")
  case ST_Send
  with assms obtain i pre where i: "stream_cur s = Some i" "i < length ps" "sent s = pre @ take i ps"
    by (auto simp: stream_inv_def sent_upto_def)
  then have "sent s @ [ps ! i] = pre @ take (Suc i) ps" by (simp add: take_Suc_conv_app_nth)
  with assms ST_Send i show ?thesis by (auto simp: stream_inv_def stream_step_def sent_upto_def)
next
  case ST_Next
  with assms obtain i pre where i: "stream_cur s = Some i" "i < added s" "sent s = pre @ take (i + 1) ps"
    by (auto simp: stream_inv_def sent_upto_def)
  show ?thesis
  proof (cases "next_node i s = None \<and> complete s")
    case True
    then have "length ps \<le> i + 1" using assms i by (auto simp: stream_inv_def next_node_def split: if_splits)
    with i(3) have "sent s = pre @ ps" by simp
    with assms ST_Next i True show ?thesis by (auto simp: stream_inv_def stream_step_def)
  next
    case False
    with assms ST_Next i show ?thesis
      by (auto simp: stream_inv_def stream_step_def sent_upto_def next_node_def Let_def split: option.splits)
  qed
qed (use assms in \<open>auto simp: stream_inv_def stream_step_def sent_upto_def first_node_def list_wait_for_data_def
      split: option.splits if_splits\<close>)

interpretation streaming: transition_system "stream_start ps" stream_trans "stream_inv ps" for ps
proof
  show "stream_inv ps s" if "stream_start ps s" for s
    using that by (simp add: stream_start_def stream_init_def stream_inv_def sent_upto_def)
  show "stream_inv ps t" if "stream_inv ps s" "stream_trans s t" for s t
    using that(2) by (rule stream_transE) (simp_all add: that(1) fetch_step_inv stream_step_inv)
qed

lemma run_stream_reachable:
  "reachable (stream_start ps) stream_trans s \<Longrightarrow> reachable (stream_start ps) stream_trans (run_stream evs s)"
  unfolding run_stream_def
  by (induction evs arbitrary: s) (auto intro: reach_step stream_trans.intros)

section \<open>Properties\<close>


text \<open>The fetching thread runs first, then the client.\<close>

definition after_fetch :: "bool list" where
  "after_fetch = replicate 9 False @ replicate 14 True"


text \<open>
  But something may precede the response: a client that has sent the newest node before
  the fetching thread locks it loses its place, because \<open>current\<close> becomes null and
  \<open>list_wait_for_data\<close> then starts from the first node. Under this schedule the client
  receives the head twice; when the response is complete before the client comes, it
  receives it once.
\<close>

definition overtaking :: "bool list" where
  "overtaking = [False] @ replicate 6 True @ replicate 8 False @ replicate 14 True"

theorem stream_repeats_nodes:
  "stream_pc (run_stream overtaking (stream_init [''head'', ''body''])) = ST_Done \<and>
   sent (run_stream overtaking (stream_init [''head'', ''body''])) = [''head'', ''head'', ''body''] \<and>
   sent (run_stream after_fetch (stream_init [''head'', ''body''])) = [''head'', ''body'']"
  by code_simp

end
