(* ===== verification/Queue_Core.thy ===== *)
theory Queue_Core
  imports OS_Prelude
begin

text \<open>
  The data of the bounded queue that \<open>sem2/lab2\<close> implements six times: the node and
  queue structs of \<open>queue.h\<close>, the tail insertion every \<open>queue_add\<close> performs and the
  freeing loop of \<open>queue_destroy\<close>; the representation predicates that relate a queue
  in memory to the list of its values; and the locale \<open>bounded_queue\<close>, the contract
  of a non-blocking bounded FIFO queue, with what a client may conclude from it.
\<close>

section \<open>The structs\<close>

record qnode =
  qval :: int
  qnext :: ptr

text \<open>
  \<open>q_heap\<close> is the part of the C heap that holds the nodes. \<open>count\<close> and
  \<open>max_count\<close> are \<open>int\<close>s, the statistics \<open>long\<close>s; \<open>count\<close> never leaves
  \<open>0..max_count\<close> (\<open>queue_at\<close>), so the mathematical integers agree with them.
\<close>

record queue =
  q_first :: ptr
  q_last :: ptr
  q_count :: int
  q_max_count :: int
  add_attempts :: int
  get_attempts :: int
  add_count :: int
  get_count :: int
  q_heap :: "addr \<rightharpoonup> qnode"

definition empty_queue :: "int \<Rightarrow> queue" where
  "empty_queue max_count =
     \<lparr>q_first = None, q_last = None, q_count = 0, q_max_count = max_count,
      add_attempts = 0, get_attempts = 0, add_count = 0, get_count = 0, q_heap = Map.empty\<rparr>"

text \<open>
  \<^verbatim>\<open>
    new->val = val; new->next = NULL;
    if (!q->first) q->first = q->last = new;
    else { q->last->next = new; q->last = q->last->next; }
  \<close>
\<close>

definition init_node :: "addr \<Rightarrow> int \<Rightarrow> 'x queue_scheme \<Rightarrow> 'x queue_scheme" where
  "init_node a v s = s\<lparr>q_heap := (q_heap s)(a \<mapsto> \<lparr>qval = v, qnext = None\<rparr>)\<rparr>"

definition append_node :: "addr \<Rightarrow> 'x queue_scheme \<Rightarrow> 'x queue_scheme result" where
  "append_node a s =
     (if q_first s = None then Inr (s\<lparr>q_first := Some a, q_last := Some a\<rparr>)
      else bindR (modify (q_heap s) (q_last s) (\<lambda>n. n\<lparr>qnext := Some a\<rparr>)) (\<lambda>h.
           bindR (load h (q_last s)) (\<lambda>n.
             Inr (s\<lparr>q_heap := h, q_last := qnext n\<rparr>))))"

text \<open>
  \<open>while (q->count) { tmp = q->first; q->first = q->first->next; free(tmp); q->count--; }\<close>.
  One unit of fuel per test of the guard.
\<close>

fun destroy_nodes :: "nat \<Rightarrow> 'x queue_scheme \<Rightarrow> 'x queue_scheme result" where
  "destroy_nodes 0 s = Inl OutOfFuel"
| "destroy_nodes (Suc fuel) s =
     (if q_count s = 0 then Inr s
      else bindR (load (q_heap s) (q_first s)) (\<lambda>n.
           bindR (release (q_heap s) (q_first s)) (\<lambda>h.
             destroy_nodes fuel (s\<lparr>q_first := qnext n, q_heap := h, q_count := q_count s - 1\<rparr>))))"

section \<open>What a queue in memory represents\<close>

definition node_vals :: "(addr \<rightharpoonup> qnode) \<Rightarrow> addr list \<Rightarrow> int list" where
  "node_vals h as = map (\<lambda>a. case h a of None \<Rightarrow> 0 | Some n \<Rightarrow> qval n) as"

lemma node_vals_simps [simp]:
  "node_vals h [] = []"
  "node_vals h (a # as) = (case h a of None \<Rightarrow> 0 | Some n \<Rightarrow> qval n) # node_vals h as"
  "node_vals h (as @ bs) = node_vals h as @ node_vals h bs"
  "length (node_vals h as) = length as"
  by (simp_all add: node_vals_def)

lemma node_vals_update_other [simp]:
  "a \<notin> set as \<Longrightarrow> node_vals (h(a := v)) as = node_vals h as"
  by (induction as) auto

lemma node_vals_eq_Nil [simp]: "node_vals h as = [] \<longleftrightarrow> as = []"
  by (cases as) auto

text \<open>
  The nodes are a chain from \<open>first\<close> to \<open>NULL\<close> whose last one is \<open>last\<close> (which is
  left dangling when the queue empties), \<open>count\<close> is their number and within
  \<open>max_count\<close>, and the statistics agree with it.
\<close>

definition queue_at :: "'x queue_scheme \<Rightarrow> addr list \<Rightarrow> int list \<Rightarrow> bool" where
  "queue_at s as xs \<longleftrightarrow>
     chain (q_heap s) qnext (q_first s) as None \<and> (as \<noteq> [] \<longrightarrow> q_last s = Some (last as)) \<and>
     node_vals (q_heap s) as = xs \<and> q_count s = int (length as) \<and>
     int (length as) \<le> q_max_count s \<and> add_count s - get_count s = q_count s \<and>
     add_count s \<le> add_attempts s \<and> get_count s \<le> get_attempts s"

definition queue_rep :: "'x queue_scheme \<Rightarrow> int list \<Rightarrow> bool" where
  "queue_rep s xs \<longleftrightarrow> (\<exists>as. queue_at s as xs)"

text \<open>Nothing else is allocated: no node has been leaked.\<close>

definition queue_exact :: "'x queue_scheme \<Rightarrow> int list \<Rightarrow> bool" where
  "queue_exact s xs \<longleftrightarrow> (\<exists>as. queue_at s as xs \<and> dom (q_heap s) = set as)"

lemma queue_exact_rep: "queue_exact s xs \<Longrightarrow> queue_rep s xs"
  by (auto simp: queue_exact_def queue_rep_def)

lemma queue_at_unique: "queue_at s as xs \<Longrightarrow> queue_at s bs ys \<Longrightarrow> as = bs \<and> xs = ys"
  using chain_unique[of "q_heap s" qnext "q_first s" as bs] by (auto simp: queue_at_def)

lemma queue_at_length: "queue_at s as xs \<Longrightarrow> length xs = length as"
  by (auto simp: queue_at_def)

lemma queue_at_empty: "0 \<le> n \<Longrightarrow> queue_at (empty_queue n) [] []"
  by (simp add: queue_at_def empty_queue_def)

lemma queue_exact_empty: "0 \<le> n \<Longrightarrow> queue_exact (empty_queue n) []"
  by (auto simp: queue_exact_def empty_queue_def queue_at_def)

text \<open>The fields the linking of a node does not touch.\<close>

definition same_stats :: "'x queue_scheme \<Rightarrow> 'x queue_scheme \<Rightarrow> bool" where
  "same_stats q' q \<longleftrightarrow> q_count q' = q_count q \<and> q_max_count q' = q_max_count q \<and>
     add_attempts q' = add_attempts q \<and> get_attempts q' = get_attempts q \<and>
     add_count q' = add_count q \<and> get_count q' = get_count q \<and> queue.more q' = queue.more q"

text \<open>
  The tail insertion on a well-formed queue: it succeeds, makes the new node the last
  one and touches no other field. The counters are updated by the callers.
\<close>

lemma append_node_chain:
  assumes ch: "chain (q_heap s) qnext (q_first s) as None"
    and last: "as \<noteq> [] \<longrightarrow> q_last s = Some (last as)"
    and fr: "q_heap s a = None"
  shows "\<exists>s'. append_node a (init_node a v s) = Inr s' \<and>
     chain (q_heap s') qnext (q_first s') (as @ [a]) None \<and> q_last s' = Some a \<and>
     node_vals (q_heap s') (as @ [a]) = node_vals (q_heap s) as @ [v] \<and>
     dom (q_heap s') = insert a (dom (q_heap s)) \<and>
     same_stats s' s"
proof (cases as rule: rev_cases)
  case Nil
  then show ?thesis
    using ch fr by (auto simp: append_node_def init_node_def chain_simps same_stats_def)
next
  case (snoc bs b)
  from ch have notin: "a \<notin> set as" using chain_subset_dom[OF ch] fr by auto
  from chain_distinct[OF ch] snoc have "b \<notin> set bs" by simp
  from ch snoc obtain n where n: "q_heap s b = Some n" "qnext n = None"
    and bs: "chain (q_heap s) qnext (q_first s) bs (Some b)"
    by (auto simp: chain_simps)
  from notin snoc have [simp]: "b \<noteq> a" "a \<noteq> b" "a \<notin> set bs" by auto
  from bs have "q_first s \<noteq> None" by (cases bs) (auto simp: chain_simps)
  then show ?thesis
    using last n bs \<open>b \<notin> set bs\<close>
    by (auto simp: append_node_def init_node_def snoc chain_simps same_stats_def)
qed

lemma append_node_at:
  assumes at: "queue_at q as xs" and room: "q_count q \<noteq> q_max_count q"
    and fr: "q_heap q a = None" and att: "add_count q < add_attempts q"
  shows "\<exists>q'. append_node a (init_node a v q) = Inr q' \<and>
     queue_at (q'\<lparr>q_count := q_count q' + 1, add_count := add_count q' + 1\<rparr>) (as @ [a]) (xs @ [v]) \<and>
     dom (q_heap q') = insert a (dom (q_heap q)) \<and> a \<notin> set as \<and> same_stats q' q"
proof -
  from at fr have "a \<notin> set as" by (auto simp: queue_at_def dest!: chain_subset_dom)
  from at obtain q' where q': "append_node a (init_node a v q) = Inr q'"
    "chain (q_heap q') qnext (q_first q') (as @ [a]) None" "q_last q' = Some a"
    "node_vals (q_heap q') (as @ [a]) = node_vals (q_heap q) as @ [v]"
    "dom (q_heap q') = insert a (dom (q_heap q))" "same_stats q' q"
    using append_node_chain[of q as a v] fr by (auto simp: queue_at_def)
  with at room att have
    "queue_at (q'\<lparr>q_count := q_count q' + 1, add_count := add_count q' + 1\<rparr>) (as @ [a]) (xs @ [v])"
    by (auto simp: queue_at_def same_stats_def)
  with q' \<open>a \<notin> set as\<close> show ?thesis by blast
qed

text \<open>Unlinking the first node, as every \<open>queue_get\<close> does.\<close>

lemma queue_at_consD:
  assumes "queue_at s as (x # xs)"
  obtains a n bs where "as = a # bs" "q_first s = Some a" "q_heap s a = Some n" "qval n = x"
    "chain (q_heap s) qnext (qnext n) bs None" "node_vals (q_heap s) bs = xs" "a \<notin> set bs"
proof -
  from assms have ch: "chain (q_heap s) qnext (q_first s) as None"
    and vs: "node_vals (q_heap s) as = x # xs"
    by (auto simp: queue_at_def)
  then obtain a bs where as: "as = a # bs" by (cases as) auto
  from chain_distinct[OF ch] have "a \<notin> set bs" by (simp add: as)
  with that ch vs show ?thesis by (auto simp: as chain_simps)
qed

lemma queue_at_unlink:
  assumes "queue_at s as (x # xs)" "get_count s < get_attempts s"
  shows "\<exists>a n. q_first s = Some a \<and> q_heap s a = Some n \<and> qval n = x \<and> a = hd as \<and> as \<noteq> [] \<and>
     a \<notin> set (tl as) \<and>
     queue_at (s\<lparr>q_first := qnext n, q_heap := (q_heap s)(a := None), q_count := q_count s - 1,
                get_count := get_count s + 1\<rparr>) (tl as) xs"
proof -
  from queue_at_consD[OF assms(1)] obtain a n bs where a:
    "as = a # bs" "q_first s = Some a" "q_heap s a = Some n" "qval n = x"
    "chain (q_heap s) qnext (qnext n) bs None" "node_vals (q_heap s) bs = xs" "a \<notin> set bs" .
  then have "chain ((q_heap s)(a := None)) qnext (qnext n) bs None"
    "node_vals ((q_heap s)(a := None)) bs = xs" by simp_all
  with assms a show ?thesis by (auto simp: queue_at_def simp del: fun_upd_apply)
qed

text \<open>
  Enough fuel for \<open>queue_destroy\<close>: one more than the nodes. Exactly the queue's nodes
  are freed, and each of them once (a second \<open>free\<close> would be an \<open>InvalidFree\<close>).
\<close>

lemma destroy_nodes_ok:
  assumes "chain (q_heap s) qnext (q_first s) as None" "q_count s = int (length as)"
    "length as < fuel"
  shows "\<exists>s'. destroy_nodes fuel s = Inr s' \<and> q_count s' = 0 \<and>
           q_heap s' = (\<lambda>b. if b \<in> set as then None else q_heap s b)"
  using assms
proof (induction as arbitrary: s fuel)
  case Nil
  then obtain f where "fuel = Suc f" by (cases fuel) auto
  with Nil show ?case by auto
next
  case (Cons a as)
  then obtain f where fuel: "fuel = Suc f" "length as < f" by (cases fuel) auto
  from chain_distinct[OF Cons.prems(1)] have "a \<notin> set as" by simp
  from Cons.prems(1) obtain n where n: "q_first s = Some a" "q_heap s a = Some n"
    "chain (q_heap s) qnext (qnext n) as None"
    by (auto simp: chain_simps)
  let ?s = "s\<lparr>q_first := qnext n, q_heap := (q_heap s)(a := None), q_count := q_count s - 1\<rparr>"
  have "\<exists>s'. destroy_nodes f ?s = Inr s' \<and> q_count s' = 0 \<and>
           q_heap s' = (\<lambda>b. if b \<in> set as then None else q_heap ?s b)"
  proof (rule Cons.IH)
    show "chain (q_heap ?s) qnext (q_first ?s) as None"
      using n \<open>a \<notin> set as\<close> by (simp add: chain_update_other del: fun_upd_apply)
  qed (use Cons.prems fuel in auto)
  with Cons.prems n fuel show ?case by (auto simp: fun_eq_iff)
qed

section \<open>The contract of a bounded queue\<close>

text \<open>
  A client's operations: an insertion with the pointer its \<open>malloc\<close> returns, or a removal.
\<close>

datatype qop = QAdd ptr int | QGet

fun run_ops :: "(ptr \<Rightarrow> int \<Rightarrow> 's \<Rightarrow> (int \<times> 's) result) \<Rightarrow> ('s \<Rightarrow> (int \<times> int option \<times> 's) result) \<Rightarrow>
    qop list \<Rightarrow> 's \<Rightarrow> ((int \<times> int option) list \<times> 's) result" where
  "run_ops add get [] s = Inr ([], s)"
| "run_ops add get (QAdd p v # ops) s =
     bindR (add p v s) (\<lambda>(r, s'). bindR (run_ops add get ops s') (\<lambda>(rs, s''). Inr ((r, None) # rs, s'')))"
| "run_ops add get (QGet # ops) s =
     bindR (get s) (\<lambda>(r, x, s'). bindR (run_ops add get ops s') (\<lambda>(rs, s''). Inr ((r, x) # rs, s'')))"

text \<open>Every insertion of the run gets a fresh node from \<open>malloc\<close>.\<close>

fun allocs_ok :: "(ptr \<Rightarrow> 's \<Rightarrow> bool) \<Rightarrow> (ptr \<Rightarrow> int \<Rightarrow> 's \<Rightarrow> (int \<times> 's) result) \<Rightarrow>
    ('s \<Rightarrow> (int \<times> int option \<times> 's) result) \<Rightarrow> qop list \<Rightarrow> 's \<Rightarrow> bool" where
  "allocs_ok env add get [] s \<longleftrightarrow> True"
| "allocs_ok env add get (QAdd p v # ops) s \<longleftrightarrow> p \<noteq> None \<and> env p s \<and>
     (case add p v s of Inl _ \<Rightarrow> True | Inr (_, s') \<Rightarrow> allocs_ok env add get ops s')"
| "allocs_ok env add get (QGet # ops) s \<longleftrightarrow>
     (case get s of Inl _ \<Rightarrow> True | Inr (_, _, s') \<Rightarrow> allocs_ok env add get ops s')"

text \<open>The abstract queue: a list of at most \<open>c\<close> values.\<close>

fun spec_ops :: "int \<Rightarrow> qop list \<Rightarrow> int list \<Rightarrow> (int \<times> int option) list \<times> int list" where
  "spec_ops c [] xs = ([], xs)"
| "spec_ops c (QAdd p v # ops) xs =
     (let (r, ys) = (if int (length xs) = c then (0, xs) else (1, xs @ [v]));
          (rs, zs) = spec_ops c ops ys in ((r, None) # rs, zs))"
| "spec_ops c (QGet # ops) xs =
     (let (r, x, ys) = (case xs of [] \<Rightarrow> (0, None, []) | x # ys \<Rightarrow> (1, Some x, ys));
          (rs, zs) = spec_ops c ops ys in ((r, x) # rs, zs))"

text \<open>The values a run accepted and the values it handed out.\<close>

fun accepted :: "qop list \<Rightarrow> (int \<times> int option) list \<Rightarrow> int list" where
  "accepted (QAdd p v # ops) ((r, x) # rs) = (if r = 1 then [v] else []) @ accepted ops rs"
| "accepted (QGet # ops) (_ # rs) = accepted ops rs"
| "accepted _ _ = []"

definition handed_out :: "(int \<times> int option) list \<Rightarrow> int list" where
  "handed_out rs = concat (map (\<lambda>(r, x). case x of None \<Rightarrow> [] | Some v \<Rightarrow> [v]) rs)"

lemma handed_out_simps [simp]:
  "handed_out [] = []" "handed_out ((r, None) # rs) = handed_out rs"
  "handed_out ((r, Some v) # rs) = v # handed_out rs"
  by (simp_all add: handed_out_def)

lemma spec_ops_fifo:
  "spec_ops c ops xs = (rs, ys) \<Longrightarrow> xs @ accepted ops rs = handed_out rs @ ys"
proof (induction c ops xs arbitrary: rs ys rule: spec_ops.induct)
  case (2 c p v ops xs)
  obtain rs' zs where rec:
    "spec_ops c ops (if int (length xs) = c then xs else xs @ [v]) = (rs', zs)"
    by (metis surj_pair)
  with "2.prems" have "rs = ((if int (length xs) = c then 0 else 1), None) # rs'" "ys = zs"
    by (auto split: if_splits)
  with rec "2.IH"[of "(if int (length xs) = c then 0 else 1, if int (length xs) = c then xs else xs @ [v])"]
  show ?case by (auto split: if_splits)
next
  case (3 c ops xs)
  show ?case
  proof (cases xs)
    case Nil
    with "3.prems" obtain rs' where "spec_ops c ops [] = (rs', ys)" "rs = (0, None) # rs'"
      by (auto split: prod.splits)
    with "3.IH" Nil show ?thesis by force
  next
    case (Cons x xs')
    with "3.prems" obtain rs' where "spec_ops c ops xs' = (rs', ys)" "rs = (1, Some x) # rs'"
      by (auto split: prod.splits)
    with "3.IH" Cons show ?thesis by force
  qed
qed simp

locale bounded_queue =
  fixes rep :: "'s \<Rightarrow> int list \<Rightarrow> bool" and cap :: "'s \<Rightarrow> int" and env :: "ptr \<Rightarrow> 's \<Rightarrow> bool"
    and add :: "ptr \<Rightarrow> int \<Rightarrow> 's \<Rightarrow> (int \<times> 's) result"
    and get :: "'s \<Rightarrow> (int \<times> int option \<times> 's) result"
  assumes rep_bound: "rep s xs \<Longrightarrow> int (length xs) \<le> cap s"
    and add_room: "rep s xs \<Longrightarrow> env (Some a) s \<Longrightarrow> int (length xs) < cap s \<Longrightarrow>
      \<exists>s'. add (Some a) v s = Inr (1, s') \<and> rep s' (xs @ [v]) \<and> cap s' = cap s"
    and add_full: "rep s xs \<Longrightarrow> env (Some a) s \<Longrightarrow> int (length xs) = cap s \<Longrightarrow>
      \<exists>s'. add (Some a) v s = Inr (0, s') \<and> rep s' xs \<and> cap s' = cap s"
    and get_first: "rep s (x # xs) \<Longrightarrow>
      \<exists>s'. get s = Inr (1, Some x, s') \<and> rep s' xs \<and> cap s' = cap s"
    and get_empty: "rep s [] \<Longrightarrow> \<exists>s'. get s = Inr (0, None, s') \<and> rep s' [] \<and> cap s' = cap s"
begin

lemma add_refines:
  assumes "rep s xs" "env p s" "p \<noteq> None"
  shows "\<exists>s'. add p v s = Inr (if int (length xs) = cap s then 0 else 1, s') \<and>
           rep s' (if int (length xs) = cap s then xs else xs @ [v]) \<and> cap s' = cap s"
proof (cases "int (length xs) = cap s")
  case True
  with assms add_full show ?thesis by auto
next
  case False
  with rep_bound[OF assms(1)] have "int (length xs) < cap s" by simp
  with assms add_room show ?thesis by auto
qed

lemma get_refines:
  assumes "rep s xs"
  shows "\<exists>s'. get s = Inr (case xs of [] \<Rightarrow> (0, None, s') | x # _ \<Rightarrow> (1, Some x, s')) \<and>
           rep s' (tl xs) \<and> cap s' = cap s"
  using assms get_first get_empty by (cases xs) auto

text \<open>Every run refines the abstract queue, and in particular never fails.\<close>

lemma run_refines:
  assumes "rep s xs" "allocs_ok env add get ops s"
  shows "\<exists>s'. run_ops add get ops s = Inr (fst (spec_ops (cap s) ops xs), s') \<and>
           rep s' (snd (spec_ops (cap s) ops xs)) \<and> cap s' = cap s"
  using assms
proof (induction ops arbitrary: s xs)
  case Nil
  then show ?case by simp
next
  case (Cons op ops)
  show ?case
  proof (cases op)
    case (QAdd p v)
    let ?ys = "if int (length xs) = cap s then xs else xs @ [v]"
    from Cons.prems QAdd obtain s1 where
      s1: "add p v s = Inr (if int (length xs) = cap s then 0 else 1, s1)"
        "rep s1 ?ys" "cap s1 = cap s"
      using add_refines[of s xs p v] by auto
    with Cons.prems QAdd have "allocs_ok env add get ops s1" by auto
    from Cons.IH[OF s1(2) this] s1(1,3) QAdd show ?thesis
      by (auto split: prod.splits)
  next
    case QGet
    from get_refines[OF Cons.prems(1)] obtain s1 where
      s1: "get s = Inr (case xs of [] \<Rightarrow> (0, None, s1) | x # _ \<Rightarrow> (1, Some x, s1))"
        "rep s1 (tl xs)" "cap s1 = cap s"
      by blast
    with Cons.prems QGet have "allocs_ok env add get ops s1" by (auto split: list.splits)
    from Cons.IH[OF s1(2) this] s1(1,3) QGet show ?thesis
      by (auto split: prod.splits list.splits)
  qed
qed

lemma run_fifo:
  assumes "rep s xs" "allocs_ok env add get ops s"
  shows "\<exists>rs s' ys. run_ops add get ops s = Inr (rs, s') \<and> rep s' ys \<and>
           xs @ accepted ops rs = handed_out rs @ ys \<and> int (length ys) \<le> cap s"
proof -
  obtain rs ys where sp: "spec_ops (cap s) ops xs = (rs, ys)" by force
  with run_refines[OF assms] obtain s' where
    "run_ops add get ops s = Inr (rs, s')" "rep s' ys" "cap s' = cap s" by auto
  with spec_ops_fifo[OF sp] rep_bound show ?thesis by force
qed

end

end
