(* ===== verification/Queue_Race.thy ===== *)
theory Queue_Race
  imports Queue_Core
begin

text \<open>
  \<open>queue-threads.c\<close> of \<open>task2_1\<close>: the same two threads over the queue without any
  synchronisation. \<open>count++\<close> and \<open>count--\<close> are a load and a store, so they are two steps
  here. A schedule is a list of thread identifiers; \<open>malloc\<close> hands out the addresses
  \<open>0, 1, 2, ...\<close>.
\<close>

section \<open>The unsynchronised threads\<close>

datatype race_tid = RaceWriter | RaceReader

datatype race_wpc = WR_Attempt | WR_Assert | WR_Full | WR_Malloc | WR_Test
  | WR_SetLast | WR_SetFirst | WR_Link | WR_Last | WR_LoadCount | WR_StoreCount | WR_AddCount

datatype race_rpc = RR_Attempt | RR_Assert | RR_Empty | RR_Tmp | RR_Val | RR_First | RR_Free
  | RR_LoadCount | RR_StoreCount | RR_GetCount | RR_Check

record race =
  rq :: queue
  rw_pc :: race_wpc
  rw_i :: int
  rw_new :: addr
  rw_count :: int
  rr_pc :: race_rpc
  rr_expected :: int
  rr_val :: int
  rr_tmp :: ptr
  rr_count :: int
  rr_errors :: nat
  next_addr :: addr

definition race_init :: "int \<Rightarrow> race" where
  "race_init n = \<lparr>rq = empty_queue n, rw_pc = WR_Attempt, rw_i = 0, rw_new = 0, rw_count = 0,
     rr_pc = RR_Attempt, rr_expected = 0, rr_val = -1, rr_tmp = None, rr_count = 0, rr_errors = 0,
     next_addr = 0\<rparr>"

definition race_writer :: "race \<Rightarrow> race result" where
  "race_writer s =
    (let q = rq s in
     case rw_pc s of
       WR_Attempt \<Rightarrow> Inr (s\<lparr>rq := q\<lparr>add_attempts := add_attempts q + 1\<rparr>, rw_pc := WR_Assert\<rparr>)
     | WR_Assert \<Rightarrow>
         if q_count q \<le> q_max_count q then Inr (s\<lparr>rw_pc := WR_Full\<rparr>) else Inl AssertFailed
     | WR_Full \<Rightarrow>
         Inr (s\<lparr>rw_pc := (if q_count q = q_max_count q then WR_Attempt else WR_Malloc)\<rparr>)
     | WR_Malloc \<Rightarrow>
         Inr (s\<lparr>rq := init_node (next_addr s) (rw_i s) q, rw_new := next_addr s,
                next_addr := next_addr s + 1, rw_pc := WR_Test\<rparr>)
     | WR_Test \<Rightarrow> Inr (s\<lparr>rw_pc := (if q_first q = None then WR_SetLast else WR_Link)\<rparr>)
     | WR_SetLast \<Rightarrow> Inr (s\<lparr>rq := q\<lparr>q_last := Some (rw_new s)\<rparr>, rw_pc := WR_SetFirst\<rparr>)
     | WR_SetFirst \<Rightarrow> Inr (s\<lparr>rq := q\<lparr>q_first := Some (rw_new s)\<rparr>, rw_pc := WR_LoadCount\<rparr>)
     | WR_Link \<Rightarrow>
         bindR (modify (q_heap q) (q_last q) (\<lambda>n. n\<lparr>qnext := Some (rw_new s)\<rparr>)) (\<lambda>h.
           Inr (s\<lparr>rq := q\<lparr>q_heap := h\<rparr>, rw_pc := WR_Last\<rparr>))
     | WR_Last \<Rightarrow>
         bindR (load (q_heap q) (q_last q)) (\<lambda>n.
           Inr (s\<lparr>rq := q\<lparr>q_last := qnext n\<rparr>, rw_pc := WR_LoadCount\<rparr>))
     | WR_LoadCount \<Rightarrow> Inr (s\<lparr>rw_count := q_count q, rw_pc := WR_StoreCount\<rparr>)
     | WR_StoreCount \<Rightarrow> Inr (s\<lparr>rq := q\<lparr>q_count := rw_count s + 1\<rparr>, rw_pc := WR_AddCount\<rparr>)
     | WR_AddCount \<Rightarrow>
         Inr (s\<lparr>rq := q\<lparr>add_count := add_count q + 1\<rparr>, rw_i := rw_i s + 1, rw_pc := WR_Attempt\<rparr>))"

definition race_reader :: "race \<Rightarrow> race result" where
  "race_reader s =
    (let q = rq s in
     case rr_pc s of
       RR_Attempt \<Rightarrow> Inr (s\<lparr>rq := q\<lparr>get_attempts := get_attempts q + 1\<rparr>, rr_pc := RR_Assert\<rparr>)
     | RR_Assert \<Rightarrow> if q_count q \<ge> 0 then Inr (s\<lparr>rr_pc := RR_Empty\<rparr>) else Inl AssertFailed
     | RR_Empty \<Rightarrow> Inr (s\<lparr>rr_pc := (if q_count q = 0 then RR_Attempt else RR_Tmp)\<rparr>)
     | RR_Tmp \<Rightarrow> Inr (s\<lparr>rr_tmp := q_first q, rr_pc := RR_Val\<rparr>)
     | RR_Val \<Rightarrow>
         bindR (load (q_heap q) (rr_tmp s)) (\<lambda>n. Inr (s\<lparr>rr_val := qval n, rr_pc := RR_First\<rparr>))
     | RR_First \<Rightarrow>
         bindR (load (q_heap q) (q_first q)) (\<lambda>n.
           Inr (s\<lparr>rq := q\<lparr>q_first := qnext n\<rparr>, rr_pc := RR_Free\<rparr>))
     | RR_Free \<Rightarrow>
         bindR (release (q_heap q) (rr_tmp s)) (\<lambda>h.
           Inr (s\<lparr>rq := q\<lparr>q_heap := h\<rparr>, rr_pc := RR_LoadCount\<rparr>))
     | RR_LoadCount \<Rightarrow> Inr (s\<lparr>rr_count := q_count q, rr_pc := RR_StoreCount\<rparr>)
     | RR_StoreCount \<Rightarrow> Inr (s\<lparr>rq := q\<lparr>q_count := rr_count s - 1\<rparr>, rr_pc := RR_GetCount\<rparr>)
     | RR_GetCount \<Rightarrow> Inr (s\<lparr>rq := q\<lparr>get_count := get_count q + 1\<rparr>, rr_pc := RR_Check\<rparr>)
     | RR_Check \<Rightarrow>
         Inr (s\<lparr>rr_errors := rr_errors s + (if rr_expected s \<noteq> rr_val s then 1 else 0),
                rr_expected := rr_val s + 1, rr_pc := RR_Attempt\<rparr>))"

text \<open>
  \<open>queue-threads.c\<close> of \<open>task2_2/d\<close> has the same threads over the same operations; its writer sleeps between two
  insertions, which does not order the threads.
\<close>

definition race_writer_d :: "race \<Rightarrow> race result" where
  "race_writer_d s = race_writer s"

definition race_reader_d :: "race \<Rightarrow> race result" where
  "race_reader_d s = race_reader s"

text \<open>Its \<open>main\<close>: the threads that run, or the exit status when one of them cannot be created.\<close>

definition race_main_d :: "bool \<Rightarrow> bool \<Rightarrow> race + int" where
  "race_main_d reader_created writer_created =
     (if \<not> reader_created then Inr (-1) else if \<not> writer_created then Inr (-1) else Inl (race_init 10000))"

definition race_step :: "race_tid \<Rightarrow> race \<Rightarrow> race result" where
  "race_step t s = (case t of RaceWriter \<Rightarrow> race_writer s | RaceReader \<Rightarrow> race_reader s)"

fun race_run :: "race_tid list \<Rightarrow> race \<Rightarrow> race result" where
  "race_run [] s = Inr s"
| "race_run (t # ts) s = bindR (race_step t s) (race_run ts)"

lemma race_run_append: "race_run (ts @ us) s = bindR (race_run ts s) (race_run us)"
  by (induction ts arbitrary: s) (auto simp: bindR_assoc intro: bindR_cong)

section \<open>Schedules that break the queue\<close>

text \<open>
  The writer has loaded \<open>count\<close> for its second \<open>count++\<close> when the reader takes the first
  value; the store of the writer then overwrites the reader's \<open>count--\<close>.
\<close>

definition lost_update :: "race_tid list" where
  "lost_update =
     replicate 10 RaceWriter @                 \<comment> \<open>\<open>queue_add(q, 0)\<close>\<close>
     replicate 8 RaceWriter @                  \<comment> \<open>\<open>queue_add(q, 1)\<close>: \<open>count\<close> loaded\<close>
     replicate 11 RaceReader @                 \<comment> \<open>\<open>queue_get\<close> returns 0\<close>
     replicate 2 RaceWriter                    \<comment> \<open>\<open>count\<close> stored\<close>"

text \<open>
  The writer has found the queue not empty when the reader takes and frees its only node,
  which \<open>last\<close> still points to.
\<close>

definition dangling_last :: "race_tid list" where
  "dangling_last =
     replicate 10 RaceWriter @                 \<comment> \<open>\<open>queue_add(q, 0)\<close>\<close>
     replicate 5 RaceWriter @                  \<comment> \<open>\<open>queue_add(q, 1)\<close>: \<open>first\<close> tested\<close>
     replicate 11 RaceReader @                 \<comment> \<open>\<open>queue_get\<close> returns 0\<close>
     [RaceWriter]"

text \<open>
  Without synchronisation the threads of \<open>task2_1\<close> destroy the queue. Under one
  schedule a decrement of \<open>count\<close> is lost: both threads are between two calls, one node
  is queued and \<open>count\<close> is 2, so that the reader, taking two values from it, follows a
  null pointer. Under another the writer appends to a node that the reader has freed.
\<close>

theorem unsynchronised_queue_breaks:
  "(case race_run lost_update (race_init 10000) of Inl _ \<Rightarrow> False
      | Inr s \<Rightarrow> q_count (rq s) = 2 \<and> node_vals (q_heap (rq s)) [1] = [1] \<and>
          q_first (rq s) = Some 1 \<and> map_option qnext (q_heap (rq s) 1) = Some None) \<and>
   failed (race_run (lost_update @ replicate 16 RaceReader) (race_init 10000)) = Some NullDeref \<and>
   failed (race_run dangling_last (race_init 10000)) = Some (BadAccess 0)"
  by code_simp

end
