(* ===== verification/Queue_Locked.thy ===== *)
theory Queue_Locked
  imports Queue_Core
begin

text \<open>
  The queues of \<open>task2_2\<close> that guard the operations by a lock: \<open>spinloc\<close>, \<open>mutex\<close>
  and \<open>semafors\<close>. Here each operation is a function of a state that includes the
  lock, run without interference; the interleaving of threads is in
  \<open>Queue_Threads\<close>. Each variant is interpreted as a bounded queue whose operations
  leave the lock released on every path. Only \<open>spinloc\<close> frees the node it allocated
  when the queue is full; the other two leak it.
\<close>

section \<open>The locks\<close>

record lqueue = queue +
  q_locked :: bool

record squeue = queue +
  q_sem :: nat

text \<open>\<open>pthread_spin_lock\<close>/\<open>pthread_mutex_lock\<close> by a thread that already holds it never return.\<close>

definition lock_queue :: "lqueue \<Rightarrow> lqueue result" where
  "lock_queue q = (if q_locked q then Inl Deadlock else Inr (q\<lparr>q_locked := True\<rparr>))"

definition unlock_queue :: "lqueue \<Rightarrow> lqueue" where
  "unlock_queue q = q\<lparr>q_locked := False\<rparr>"

definition sem_wait :: "squeue \<Rightarrow> squeue result" where
  "sem_wait q = (if q_sem q = 0 then Inl Deadlock else Inr (q\<lparr>q_sem := q_sem q - 1\<rparr>))"

definition sem_post :: "squeue \<Rightarrow> squeue" where
  "sem_post q = q\<lparr>q_sem := q_sem q + 1\<rparr>"

definition empty_lqueue :: "int \<Rightarrow> lqueue" where
  "empty_lqueue n = queue.extend (empty_queue n) (lqueue.fields False)"

definition empty_squeue :: "int \<Rightarrow> squeue" where
  "empty_squeue n = queue.extend (empty_queue n) (squeue.fields 1)"

section \<open>spinloc/queue.c\<close>

definition queue_init_spin :: "bool \<Rightarrow> int \<Rightarrow> int \<Rightarrow> int \<Rightarrow> lqueue result" where
  "queue_init_spin malloc_ok lock_err create_err max_count =
     (if \<not> malloc_ok then Inl Aborted
      else if lock_err \<noteq> 0 then Inl Aborted
      else if create_err \<noteq> 0 then Inl Aborted
      else Inr (empty_lqueue max_count))"

definition queue_add_spin :: "ptr \<Rightarrow> int \<Rightarrow> lqueue \<Rightarrow> (int \<times> lqueue) result" where
  "queue_add_spin new v q0 =
     (case new of
        None \<Rightarrow> Inl Aborted
      | Some a \<Rightarrow>
          bindR (lock_queue (init_node a v q0)) (\<lambda>q1.
          let q = q1\<lparr>add_attempts := add_attempts q1 + 1\<rparr> in
          if \<not> q_count q \<le> q_max_count q then Inl AssertFailed
          else if q_count q = q_max_count q then
            let q = unlock_queue q in
            bindR (release (q_heap q) (Some a)) (\<lambda>h. Inr (0, q\<lparr>q_heap := h\<rparr>))
          else
            bindR (append_node a q) (\<lambda>q.
              Inr (1, unlock_queue (q\<lparr>q_count := q_count q + 1, add_count := add_count q + 1\<rparr>)))))"

definition queue_get_spin :: "lqueue \<Rightarrow> (int \<times> int option \<times> lqueue) result" where
  "queue_get_spin q0 =
     bindR (lock_queue q0) (\<lambda>q1.
     let q = q1\<lparr>get_attempts := get_attempts q1 + 1\<rparr> in
     if \<not> q_count q \<ge> 0 then Inl AssertFailed
     else if q_count q = 0 then Inr (0, None, unlock_queue q)
     else let tmp = q_first q in
       bindR (load (q_heap q) tmp) (\<lambda>n.
       let q = unlock_queue (q\<lparr>q_first := qnext n, q_count := q_count q - 1,
                  get_count := get_count q + 1\<rparr>) in
       bindR (release (q_heap q) tmp) (\<lambda>h.
         Inr (1, Some (qval n), q\<lparr>q_heap := h\<rparr>))))"

text \<open>\<open>queue_destroy(NULL)\<close> does nothing; the queue struct itself is freed last.\<close>

definition queue_destroy_spin :: "nat \<Rightarrow> lqueue option \<Rightarrow> (addr \<rightharpoonup> qnode) result" where
  "queue_destroy_spin fuel p =
     (case p of None \<Rightarrow> Inr Map.empty
      | Some q \<Rightarrow> bindR (destroy_nodes fuel q) (\<lambda>q. Inr (q_heap q)))"

section \<open>mutex/queue.c\<close>

definition queue_init_mutex :: "bool \<Rightarrow> int \<Rightarrow> int \<Rightarrow> int \<Rightarrow> lqueue result" where
  "queue_init_mutex malloc_ok lock_err create_err max_count =
     (if \<not> malloc_ok then Inl Aborted
      else if lock_err \<noteq> 0 then Inl Aborted
      else if create_err \<noteq> 0 then Inl Aborted
      else Inr (empty_lqueue max_count))"

definition queue_add_mutex :: "ptr \<Rightarrow> int \<Rightarrow> lqueue \<Rightarrow> (int \<times> lqueue) result" where
  "queue_add_mutex new v q0 =
     (case new of
        None \<Rightarrow> Inl Aborted
      | Some a \<Rightarrow>
          bindR (lock_queue (init_node a v q0)) (\<lambda>q1.
          let q = q1\<lparr>add_attempts := add_attempts q1 + 1\<rparr> in
          if \<not> q_count q \<le> q_max_count q then Inl AssertFailed
          else if q_count q = q_max_count q then Inr (0, unlock_queue q)
          else
            bindR (append_node a q) (\<lambda>q.
              Inr (1, unlock_queue (q\<lparr>q_count := q_count q + 1, add_count := add_count q + 1\<rparr>)))))"

definition queue_get_mutex :: "lqueue \<Rightarrow> (int \<times> int option \<times> lqueue) result" where
  "queue_get_mutex q0 =
     bindR (lock_queue q0) (\<lambda>q1.
     let q = q1\<lparr>get_attempts := get_attempts q1 + 1\<rparr> in
     if \<not> q_count q \<ge> 0 then Inl AssertFailed
     else if q_count q = 0 then Inr (0, None, unlock_queue q)
     else let tmp = q_first q in
       bindR (load (q_heap q) tmp) (\<lambda>n.
       let q = unlock_queue (q\<lparr>q_first := qnext n, q_count := q_count q - 1,
                  get_count := get_count q + 1\<rparr>) in
       bindR (release (q_heap q) tmp) (\<lambda>h.
         Inr (1, Some (qval n), q\<lparr>q_heap := h\<rparr>))))"

definition queue_destroy_mutex :: "nat \<Rightarrow> lqueue option \<Rightarrow> (addr \<rightharpoonup> qnode) result" where
  "queue_destroy_mutex fuel p =
     (case p of None \<Rightarrow> Inr Map.empty
      | Some q \<Rightarrow> bindR (destroy_nodes fuel q) (\<lambda>q. Inr (q_heap q)))"

section \<open>semafors/queue.c\<close>

definition queue_init_sem :: "bool \<Rightarrow> int \<Rightarrow> int \<Rightarrow> squeue result" where
  "queue_init_sem malloc_ok create_err max_count =
     (if \<not> malloc_ok then Inl Aborted
      else if create_err \<noteq> 0 then Inl Aborted
      else Inr (empty_squeue max_count))"

definition queue_add_sem :: "ptr \<Rightarrow> int \<Rightarrow> squeue \<Rightarrow> (int \<times> squeue) result" where
  "queue_add_sem new v q0 =
     (case new of
        None \<Rightarrow> Inl Aborted
      | Some a \<Rightarrow>
          bindR (sem_wait (init_node a v q0)) (\<lambda>q1.
          let q = q1\<lparr>add_attempts := add_attempts q1 + 1\<rparr> in
          if \<not> q_count q \<le> q_max_count q then Inl AssertFailed
          else if q_count q = q_max_count q then Inr (0, sem_post q)
          else
            bindR (append_node a q) (\<lambda>q.
              Inr (1, sem_post (q\<lparr>q_count := q_count q + 1, add_count := add_count q + 1\<rparr>)))))"

definition queue_get_sem :: "squeue \<Rightarrow> (int \<times> int option \<times> squeue) result" where
  "queue_get_sem q0 =
     bindR (sem_wait q0) (\<lambda>q1.
     let q = q1\<lparr>get_attempts := get_attempts q1 + 1\<rparr> in
     if \<not> q_count q \<ge> 0 then Inl AssertFailed
     else if q_count q = 0 then Inr (0, None, sem_post q)
     else let tmp = q_first q in
       bindR (load (q_heap q) tmp) (\<lambda>n.
       let q = sem_post (q\<lparr>q_first := qnext n, q_count := q_count q - 1,
                  get_count := get_count q + 1\<rparr>) in
       bindR (release (q_heap q) tmp) (\<lambda>h.
         Inr (1, Some (qval n), q\<lparr>q_heap := h\<rparr>))))"

text \<open>
  This \<open>queue_destroy\<close> follows the links instead of \<open>count\<close>. A failed
  \<open>pthread_cancel\<close> is only printed: the source says \<open>abort;\<close>, which names the
  function and does not call it.
\<close>

fun free_chain :: "nat \<Rightarrow> ptr \<Rightarrow> (addr \<rightharpoonup> qnode) \<Rightarrow> (addr \<rightharpoonup> qnode) result" where
  "free_chain 0 current h = Inl OutOfFuel"
| "free_chain (Suc fuel) current h =
     (if current = None then Inr h
      else bindR (load h current) (\<lambda>n.
           bindR (release h current) (\<lambda>h'. free_chain fuel (qnext n) h')))"

definition queue_destroy_sem :: "int \<Rightarrow> int \<Rightarrow> nat \<Rightarrow> squeue \<Rightarrow> (addr \<rightharpoonup> qnode) result" where
  "queue_destroy_sem cancel_err join_err fuel q =
     (if join_err \<noteq> 0 then Inl Aborted else free_chain fuel (q_first q) (q_heap q))"

text \<open>\<open>queue_print_stats\<close> takes the semaphore around its reads.\<close>

definition queue_print_stats_sem :: "squeue \<Rightarrow> (int list \<times> squeue) result" where
  "queue_print_stats_sem q0 =
     bindR (sem_wait q0) (\<lambda>q.
       Inr ([q_count q, add_attempts q, get_attempts q, add_attempts q - get_attempts q,
             add_count q, get_count q, add_count q - get_count q], sem_post q))"

section \<open>Correctness of the operations\<close>

lemmas locked_defs =
  lock_queue_def unlock_queue_def sem_wait_def sem_post_def Let_def

lemma init_node_fields [simp]:
  "q_count (init_node a v q) = q_count q" "q_max_count (init_node a v q) = q_max_count q"
  "add_attempts (init_node a v q) = add_attempts q" "get_attempts (init_node a v q) = get_attempts q"
  "add_count (init_node a v q) = add_count q" "get_count (init_node a v q) = get_count q"
  "q_first (init_node a v q) = q_first q" "q_last (init_node a v q) = q_last q"
  "q_heap (init_node a v q) = (q_heap q)(a \<mapsto> \<lparr>qval = v, qnext = None\<rparr>)"
  "queue.more (init_node a v q) = queue.more q"
  by (simp_all add: init_node_def)

lemma locked_more [simp]:
  "q_locked (init_node a v q) = q_locked q" "q_sem (init_node a v r) = q_sem r"
  by (simp_all add: init_node_def)

lemma same_stats_more:
  "same_stats q' q \<Longrightarrow> q_locked q' = q_locked q" "same_stats r' r \<Longrightarrow> q_sem r' = q_sem r"
  by (cases q, cases q', simp add: same_stats_def, cases r, cases r', simp add: same_stats_def)

text \<open>The representation looks at the queue fields only.\<close>

lemma queue_at_locked [simp]:
  "queue_at (q\<lparr>q_locked := b\<rparr>) as xs = queue_at q as xs"
  "queue_at (r\<lparr>q_sem := n\<rparr>) as xs = queue_at r as xs"
  by (simp_all add: queue_at_def)

lemma queue_at_fresh: "queue_at q as xs \<Longrightarrow> q_heap q a = None \<Longrightarrow> a \<notin> set as"
  by (auto simp: queue_at_def dest!: chain_subset_dom)

lemma queue_at_unlinked_node:
  assumes "queue_at q as xs" "q_heap q a = None"
  shows "queue_at (init_node a v q) as xs"
  using assms queue_at_fresh[OF assms] by (simp add: queue_at_def del: fun_upd_apply)

lemma init_node_commute [simp]:
  "init_node a v (q\<lparr>add_attempts := n\<rparr>) = (init_node a v q)\<lparr>add_attempts := n\<rparr>"
  "init_node a v (r\<lparr>q_locked := b\<rparr>) = (init_node a v r)\<lparr>q_locked := b\<rparr>"
  "init_node a v (t\<lparr>q_sem := k\<rparr>) = (init_node a v t)\<lparr>q_sem := k\<rparr>"
  by (simp_all add: init_node_def)

lemma queue_at_bump [simp]:
  "queue_at q as xs \<Longrightarrow> queue_at (q\<lparr>add_attempts := add_attempts q + 1\<rparr>) as xs"
  "queue_at q as xs \<Longrightarrow> queue_at (q\<lparr>get_attempts := get_attempts q + 1\<rparr>) as xs"
  by (auto simp: queue_at_def)

text \<open>
  The critical section of an insertion into a queue with room, as all three variants
  perform it: the lock state \<open>upd\<close> changes commutes with the queue fields.
\<close>

lemma add_section:
  assumes at: "queue_at q as xs" and room: "int (length xs) < q_max_count q" and fr: "q_heap q a = None"
  shows "\<exists>q'. append_node a ((init_node a v q)\<lparr>add_attempts := add_attempts q + 1\<rparr>) = Inr q' \<and>
     queue_at (q'\<lparr>q_count := q_count q' + 1, add_count := add_count q' + 1\<rparr>) (as @ [a]) (xs @ [v]) \<and>
     dom (q_heap q') = insert a (dom (q_heap q)) \<and>
     same_stats q' (q\<lparr>add_attempts := add_attempts q + 1\<rparr>)"
proof -
  let ?q = "q\<lparr>add_attempts := add_attempts q + 1\<rparr>"
  have "queue_at ?q as xs" "add_count ?q < add_attempts ?q" "q_count ?q \<noteq> q_max_count ?q"
    using at room by (auto simp: queue_at_def)
  from append_node_at[OF this(1,3) _ this(2), of a v] fr show ?thesis by auto
qed

text \<open>
  A removal: the first node exists, and any state \<open>q'\<close> whose queue fields are updated as
  the critical section updates them represents the rest.
\<close>

lemma get_section:
  assumes "queue_at q as (x # xs)"
  obtains a n where "q_first q = Some a" "q_heap q a = Some n" "qval n = x" "a = hd as" "as \<noteq> []"
    "\<And>q'. q_first q' = qnext n \<Longrightarrow> q_heap q' = (q_heap q)(a := None) \<Longrightarrow> q_last q' = q_last q \<Longrightarrow>
       q_count q' = q_count q - 1 \<Longrightarrow> q_max_count q' = q_max_count q \<Longrightarrow>
       get_count q' = get_count q + 1 \<Longrightarrow> get_attempts q' = get_attempts q + 1 \<Longrightarrow>
       add_count q' = add_count q \<Longrightarrow> add_attempts q' = add_attempts q \<Longrightarrow> queue_at q' (tl as) xs"
proof -
  let ?q = "q\<lparr>get_attempts := get_attempts q + 1\<rparr>"
  have "queue_at ?q as (x # xs)" "get_count ?q < get_attempts ?q"
    using assms by (auto simp: queue_at_def)
  from queue_at_unlink[OF this] obtain a n where an: "q_first q = Some a" "q_heap q a = Some n"
    "qval n = x" "a = hd as" "as \<noteq> []"
    "queue_at (?q\<lparr>q_first := qnext n, q_heap := (q_heap q)(a := None), q_count := q_count q - 1,
                get_count := get_count q + 1\<rparr>) (tl as) xs"
    by auto
  show ?thesis
    by (rule that[OF an(1-5)]) (use an(6) in \<open>simp add: queue_at_def del: fun_upd_apply\<close>)
qed

text \<open>
  Outcome of each operation, by variant. The insertion into a full queue leaves the
  node of \<open>mutex\<close> and \<open>semafors\<close> on the heap, that of \<open>spinloc\<close> not.
\<close>

lemma add_spin_room:
  assumes "queue_at q as xs" "\<not> q_locked q" "int (length xs) < q_max_count q" "q_heap q a = None"
  shows "\<exists>q'. queue_add_spin (Some a) v q = Inr (1, q') \<and> queue_at q' (as @ [a]) (xs @ [v]) \<and>
     dom (q_heap q') = insert a (dom (q_heap q)) \<and> \<not> q_locked q' \<and> q_max_count q' = q_max_count q"
proof -
  from assms have "q_count q \<noteq> q_max_count q" "q_count q \<le> q_max_count q"
    by (auto simp: queue_at_def)
  with assms add_section[of "q\<lparr>q_locked := True\<rparr>" as xs a v] show ?thesis
    by (auto simp: queue_add_spin_def locked_defs same_stats_def)
qed

lemma add_spin_full:
  assumes "queue_at q as xs" "\<not> q_locked q" "int (length xs) = q_max_count q" "q_heap q a = None"
  shows "queue_add_spin (Some a) v q = Inr (0, q\<lparr>add_attempts := add_attempts q + 1\<rparr>)"
proof -
  from assms have "q_count q = q_max_count q" by (auto simp: queue_at_def)
  moreover have "(q_heap q)(a := None) = q_heap q" using assms(4) by (simp add: fun_upd_idem)
  ultimately show ?thesis using assms(2)
    by (simp add: queue_add_spin_def locked_defs init_node_def)
qed

lemma get_spin_cons:
  assumes "queue_at q as (x # xs)" "\<not> q_locked q"
  shows "\<exists>q'. queue_get_spin q = Inr (1, Some x, q') \<and> queue_at q' (tl as) xs \<and> as \<noteq> [] \<and>
     dom (q_heap q') = dom (q_heap q) - {hd as} \<and> \<not> q_locked q' \<and> q_max_count q' = q_max_count q"
proof -
  from assms have pos: "0 < q_count q" by (auto simp: queue_at_def)
  from assms(1) obtain a n where an: "q_first q = Some a" "q_heap q a = Some n" "qval n = x" "a = hd as" "as \<noteq> []"
    "\<And>q' :: lqueue. q_first q' = qnext n \<Longrightarrow> q_heap q' = (q_heap q)(a := None) \<Longrightarrow>
       q_last q' = q_last q \<Longrightarrow>
       q_count q' = q_count q - 1 \<Longrightarrow> q_max_count q' = q_max_count q \<Longrightarrow>
       get_count q' = get_count q + 1 \<Longrightarrow> get_attempts q' = get_attempts q + 1 \<Longrightarrow>
       add_count q' = add_count q \<Longrightarrow> add_attempts q' = add_attempts q \<Longrightarrow> queue_at q' (tl as) xs"
    by (rule get_section) blast
  with pos assms(2) show ?thesis
    by (auto simp: queue_get_spin_def locked_defs intro!: an(6))
qed

lemma get_spin_nil:
  assumes "queue_at q as []" "\<not> q_locked q"
  shows "queue_get_spin q = Inr (0, None, q\<lparr>get_attempts := get_attempts q + 1\<rparr>)"
  using assms by (auto simp: queue_get_spin_def locked_defs queue_at_def)

lemma mutex_get_same: "queue_get_mutex = queue_get_spin"
  by (simp add: fun_eq_iff queue_get_mutex_def queue_get_spin_def)

lemma add_mutex_room:
  assumes "queue_at q as xs" "\<not> q_locked q" "int (length xs) < q_max_count q" "q_heap q a = None"
  shows "\<exists>q'. queue_add_mutex (Some a) v q = Inr (1, q') \<and> queue_at q' (as @ [a]) (xs @ [v]) \<and>
     \<not> q_locked q' \<and> q_max_count q' = q_max_count q"
proof -
  from assms have "q_count q \<noteq> q_max_count q" "q_count q \<le> q_max_count q"
    by (auto simp: queue_at_def)
  with assms add_section[of "q\<lparr>q_locked := True\<rparr>" as xs a v] show ?thesis
    by (auto simp: queue_add_mutex_def locked_defs same_stats_def)
qed

lemma add_mutex_full:
  assumes "queue_at q as xs" "\<not> q_locked q" "int (length xs) = q_max_count q"
  shows "queue_add_mutex (Some a) v q =
     Inr (0, (init_node a v q)\<lparr>add_attempts := add_attempts q + 1\<rparr>)"
proof -
  from assms have "q_count q = q_max_count q" by (auto simp: queue_at_def)
  then show ?thesis using assms(2)
    by (simp add: queue_add_mutex_def locked_defs init_node_def)
qed

lemma add_sem_room:
  assumes "queue_at q as xs" "q_sem q = 1" "int (length xs) < q_max_count q" "q_heap q a = None"
  shows "\<exists>q'. queue_add_sem (Some a) v q = Inr (1, q') \<and> queue_at q' (as @ [a]) (xs @ [v]) \<and>
     q_sem q' = 1 \<and> q_max_count q' = q_max_count q"
proof -
  from assms have "q_count q \<noteq> q_max_count q" "q_count q \<le> q_max_count q"
    by (auto simp: queue_at_def)
  moreover from assms add_section[of "q\<lparr>q_sem := 0\<rparr>" as xs a v] obtain q' where q':
    "append_node a ((init_node a v q)\<lparr>q_sem := 0, add_attempts := add_attempts q + 1\<rparr>) = Inr q'"
    "queue_at (q'\<lparr>q_count := q_count q' + 1, add_count := add_count q' + 1\<rparr>) (as @ [a]) (xs @ [v])"
    "same_stats q' (q\<lparr>q_sem := 0, add_attempts := add_attempts q + 1\<rparr>)"
    by auto
  moreover have "q_sem q' = 0" using same_stats_more(2)[OF q'(3)] by simp
  ultimately show ?thesis using assms(2)
    by (auto simp: queue_add_sem_def locked_defs same_stats_def)
qed

lemma add_sem_full:
  assumes "queue_at q as xs" "q_sem q = 1" "int (length xs) = q_max_count q"
  shows "queue_add_sem (Some a) v q =
     Inr (0, (init_node a v q)\<lparr>q_sem := 1, add_attempts := add_attempts q + 1\<rparr>)"
proof -
  from assms have "q_count q = q_max_count q" by (auto simp: queue_at_def)
  then show ?thesis using assms(2)
    by (simp add: queue_add_sem_def locked_defs init_node_def)
qed

lemma get_sem_cons:
  assumes "queue_at q as (x # xs)" "q_sem q = 1"
  shows "\<exists>q'. queue_get_sem q = Inr (1, Some x, q') \<and> queue_at q' (tl as) xs \<and>
     q_sem q' = 1 \<and> q_max_count q' = q_max_count q"
proof -
  from assms have pos: "0 < q_count q" by (auto simp: queue_at_def)
  from assms(1) obtain a n where an: "q_first q = Some a" "q_heap q a = Some n" "qval n = x" "a = hd as" "as \<noteq> []"
    "\<And>q' :: squeue. q_first q' = qnext n \<Longrightarrow> q_heap q' = (q_heap q)(a := None) \<Longrightarrow>
       q_last q' = q_last q \<Longrightarrow>
       q_count q' = q_count q - 1 \<Longrightarrow> q_max_count q' = q_max_count q \<Longrightarrow>
       get_count q' = get_count q + 1 \<Longrightarrow> get_attempts q' = get_attempts q + 1 \<Longrightarrow>
       add_count q' = add_count q \<Longrightarrow> add_attempts q' = add_attempts q \<Longrightarrow> queue_at q' (tl as) xs"
    by (rule get_section) blast
  with pos assms(2) show ?thesis
    by (auto simp: queue_get_sem_def locked_defs intro!: an(6))
qed

lemma get_sem_nil:
  assumes "queue_at q as []" "q_sem q = 1"
  shows "queue_get_sem q = Inr (0, None, q\<lparr>q_sem := 1, get_attempts := get_attempts q + 1\<rparr>)"
  using assms by (auto simp: queue_get_sem_def locked_defs queue_at_def)

section \<open>The three variants are bounded queues\<close>

definition spin_rep :: "lqueue \<Rightarrow> int list \<Rightarrow> bool" where
  "spin_rep q xs \<longleftrightarrow> queue_exact q xs \<and> \<not> q_locked q"

definition mutex_rep :: "lqueue \<Rightarrow> int list \<Rightarrow> bool" where
  "mutex_rep q xs \<longleftrightarrow> queue_rep q xs \<and> \<not> q_locked q"

definition sem_rep :: "squeue \<Rightarrow> int list \<Rightarrow> bool" where
  "sem_rep q xs \<longleftrightarrow> queue_rep q xs \<and> q_sem q = 1"

lemma queue_rep_bound: "queue_rep q xs \<Longrightarrow> int (length xs) \<le> q_max_count q"
  by (auto simp: queue_rep_def queue_at_def)

interpretation spin: bounded_queue spin_rep q_max_count "\<lambda>p q. fresh (q_heap q) p"
  queue_add_spin queue_get_spin
proof
  fix q :: lqueue and xs x a v
  show "spin_rep q xs \<Longrightarrow> int (length xs) \<le> q_max_count q"
    by (auto simp: spin_rep_def dest: queue_exact_rep queue_rep_bound)
  show "\<exists>q'. queue_add_spin (Some a) v q = Inr (1, q') \<and> spin_rep q' (xs @ [v]) \<and>
      q_max_count q' = q_max_count q"
    if "spin_rep q xs" "fresh (q_heap q) (Some a)" "int (length xs) < q_max_count q"
    using that add_spin_room[of q _ xs a v] by (force simp: spin_rep_def queue_exact_def)
  show "\<exists>q'. queue_add_spin (Some a) v q = Inr (0, q') \<and> spin_rep q' xs \<and>
      q_max_count q' = q_max_count q"
    if "spin_rep q xs" "fresh (q_heap q) (Some a)" "int (length xs) = q_max_count q"
  proof -
    from that obtain as where as: "queue_at q as xs" "dom (q_heap q) = set as" "\<not> q_locked q"
      "q_heap q a = None" by (auto simp: spin_rep_def queue_exact_def)
    from add_spin_full[OF as(1,3) that(3) as(4)] queue_at_bump(1)[OF as(1)] as(2,3) show ?thesis
      by (auto simp: spin_rep_def queue_exact_def)
  qed
  show "\<exists>q'. queue_get_spin q = Inr (1, Some x, q') \<and> spin_rep q' xs \<and>
      q_max_count q' = q_max_count q" if "spin_rep q (x # xs)"
  proof -
    from that obtain as where as: "queue_at q as (x # xs)" "dom (q_heap q) = set as" "\<not> q_locked q"
      by (auto simp: spin_rep_def queue_exact_def)
    then have "distinct as" "as \<noteq> []" by (auto simp: queue_at_def dest: chain_distinct)
    then have "set (tl as) = set as - {hd as}" by (cases as) auto
    with as(2) have eq: "dom (q_heap q) - {hd as} = set (tl as)" by simp
    from get_spin_cons[OF as(1,3)] obtain q' where "queue_get_spin q = Inr (1, Some x, q')"
      "queue_at q' (tl as) xs" "dom (q_heap q') = set (tl as)" "\<not> q_locked q'"
      "q_max_count q' = q_max_count q" unfolding eq by blast
    then show ?thesis unfolding spin_rep_def queue_exact_def by blast
  qed
  show "\<exists>q'. queue_get_spin q = Inr (0, None, q') \<and> spin_rep q' [] \<and>
      q_max_count q' = q_max_count q" if "spin_rep q []"
  proof -
    from that obtain as where as: "queue_at q as []" "dom (q_heap q) = set as" "\<not> q_locked q"
      by (auto simp: spin_rep_def queue_exact_def)
    from get_spin_nil[OF as(1,3)] queue_at_bump(2)[OF as(1)] as(2,3) show ?thesis
      by (auto simp: spin_rep_def queue_exact_def)
  qed
qed

interpretation mutex: bounded_queue mutex_rep q_max_count "\<lambda>p q. fresh (q_heap q) p"
  queue_add_mutex queue_get_mutex
proof
  fix q :: lqueue and xs x a v
  show "mutex_rep q xs \<Longrightarrow> int (length xs) \<le> q_max_count q"
    by (auto simp: mutex_rep_def dest: queue_rep_bound)
  show "\<exists>q'. queue_add_mutex (Some a) v q = Inr (1, q') \<and> mutex_rep q' (xs @ [v]) \<and>
      q_max_count q' = q_max_count q"
    if "mutex_rep q xs" "fresh (q_heap q) (Some a)" "int (length xs) < q_max_count q"
    using that add_mutex_room[of q _ xs a v] by (force simp: mutex_rep_def queue_rep_def)
  show "\<exists>q'. queue_add_mutex (Some a) v q = Inr (0, q') \<and> mutex_rep q' xs \<and>
      q_max_count q' = q_max_count q"
    if "mutex_rep q xs" "fresh (q_heap q) (Some a)" "int (length xs) = q_max_count q"
  proof -
    from that obtain as where as: "queue_at q as xs" "\<not> q_locked q" "q_heap q a = None"
      by (auto simp: mutex_rep_def queue_rep_def)
    from add_mutex_full[OF as(1,2) that(3), of a v] as(2)
      queue_at_bump(1)[OF queue_at_unlinked_node[OF as(1,3), of v]] show ?thesis
      by (auto simp: mutex_rep_def queue_rep_def)
  qed
  show "\<exists>q'. queue_get_mutex q = Inr (1, Some x, q') \<and> mutex_rep q' xs \<and>
      q_max_count q' = q_max_count q" if "mutex_rep q (x # xs)"
  proof -
    from that obtain as where as: "queue_at q as (x # xs)" "\<not> q_locked q"
      by (auto simp: mutex_rep_def queue_rep_def)
    from get_spin_cons[OF as] show ?thesis
      by (auto simp: mutex_get_same mutex_rep_def queue_rep_def)
  qed
  show "\<exists>q'. queue_get_mutex q = Inr (0, None, q') \<and> mutex_rep q' [] \<and>
      q_max_count q' = q_max_count q" if "mutex_rep q []"
  proof -
    from that obtain as where as: "queue_at q as []" "\<not> q_locked q"
      by (auto simp: mutex_rep_def queue_rep_def)
    from get_spin_nil[OF as] queue_at_bump(2)[OF as(1)] as(2) show ?thesis
      by (auto simp: mutex_get_same mutex_rep_def queue_rep_def)
  qed
qed

interpretation semq: bounded_queue sem_rep q_max_count "\<lambda>p q. fresh (q_heap q) p"
  queue_add_sem queue_get_sem
proof
  fix q :: squeue and xs x a v
  show "sem_rep q xs \<Longrightarrow> int (length xs) \<le> q_max_count q"
    by (auto simp: sem_rep_def dest: queue_rep_bound)
  show "\<exists>q'. queue_add_sem (Some a) v q = Inr (1, q') \<and> sem_rep q' (xs @ [v]) \<and>
      q_max_count q' = q_max_count q"
    if "sem_rep q xs" "fresh (q_heap q) (Some a)" "int (length xs) < q_max_count q"
    using that add_sem_room[of q _ xs a v] by (force simp: sem_rep_def queue_rep_def)
  show "\<exists>q'. queue_add_sem (Some a) v q = Inr (0, q') \<and> sem_rep q' xs \<and>
      q_max_count q' = q_max_count q"
    if "sem_rep q xs" "fresh (q_heap q) (Some a)" "int (length xs) = q_max_count q"
  proof -
    from that obtain as where as: "queue_at q as xs" "q_heap q a = None" "q_sem q = 1"
      by (auto simp: sem_rep_def queue_rep_def)
    from queue_at_bump(1)[OF queue_at_unlinked_node[OF as(1,2), of v]]
    have "queue_at ((init_node a v q)\<lparr>q_sem := 1, add_attempts := add_attempts q + 1\<rparr>) as xs"
      by (simp add: queue_at_def)
    with add_sem_full[OF as(1,3) that(3)] show ?thesis
      by (auto simp: sem_rep_def queue_rep_def)
  qed
  show "\<exists>q'. queue_get_sem q = Inr (1, Some x, q') \<and> sem_rep q' xs \<and>
      q_max_count q' = q_max_count q" if "sem_rep q (x # xs)"
    using that get_sem_cons[of q _ x xs] by (force simp: sem_rep_def queue_rep_def)
  show "\<exists>q'. queue_get_sem q = Inr (0, None, q') \<and> sem_rep q' [] \<and>
      q_max_count q' = q_max_count q" if "sem_rep q []"
  proof -
    from that obtain as where as: "queue_at q as []" "q_sem q = 1"
      by (auto simp: sem_rep_def queue_rep_def)
    from queue_at_bump(2)[of "q\<lparr>q_sem := 1\<rparr>" as "[]"] as(1)
    have "queue_at (q\<lparr>q_sem := 1, get_attempts := get_attempts q + 1\<rparr>) as []" by simp
    with get_sem_nil[OF as] show ?thesis by (auto simp: sem_rep_def queue_rep_def)
  qed
qed

section \<open>Properties\<close>

text \<open>
  The spin-lock queue refines the bounded FIFO queue, releases its lock on every
  path of every operation and never leaks a node; \<open>spin_rep\<close> includes both.
\<close>

theorem spin_run_refines:
  assumes "spin_rep q xs" "allocs_ok (\<lambda>p q. fresh (q_heap q) p) queue_add_spin queue_get_spin ops q"
  shows "\<exists>q'. run_ops queue_add_spin queue_get_spin ops q =
             Inr (fst (spec_ops (q_max_count q) ops xs), q') \<and>
           spin_rep q' (snd (spec_ops (q_max_count q) ops xs)) \<and> q_max_count q' = q_max_count q"
  by (rule spin.run_refines[OF assms])

lemma empty_lqueue_reps:
  "0 \<le> n \<Longrightarrow> spin_rep (empty_lqueue n) []" "0 \<le> n \<Longrightarrow> mutex_rep (empty_lqueue n) []"
  "0 \<le> n \<Longrightarrow> sem_rep (empty_squeue n) []"
  by (auto simp: spin_rep_def mutex_rep_def sem_rep_def queue_exact_def queue_rep_def queue_at_def
      empty_lqueue_def empty_squeue_def empty_queue_def queue.defs lqueue.defs squeue.defs)

lemmas empty_locked_defs =
  empty_lqueue_def empty_squeue_def empty_queue_def queue.defs lqueue.defs squeue.defs

theorem spin_run_refines_witness:
  "\<exists>q'. run_ops queue_add_spin queue_get_spin [QAdd (Some 1) 7, QAdd (Some 2) 8, QGet] (empty_lqueue 1) =
     Inr ([(1, None), (0, None), (1, Some 7)], q') \<and> spin_rep q' []"
proof -
  have "allocs_ok (\<lambda>p q. fresh (q_heap q) p) queue_add_spin queue_get_spin
      [QAdd (Some 1) 7, QAdd (Some 2) 8, QGet] (empty_lqueue 1)"
    by (simp add: queue_add_spin_def empty_locked_defs append_node_def init_node_def
        queue_get_spin_def locked_defs)
  from spin_run_refines[OF empty_lqueue_reps(1) this] show ?thesis
    by (auto simp: empty_locked_defs)
qed

text \<open>
  The same for the semaphore queue, whose operations leave the semaphore at 1; its
  representation allows leaked nodes.
\<close>

theorem sem_run_refines:
  assumes "sem_rep q xs" "allocs_ok (\<lambda>p q. fresh (q_heap q) p) queue_add_sem queue_get_sem ops q"
  shows "\<exists>q'. run_ops queue_add_sem queue_get_sem ops q =
             Inr (fst (spec_ops (q_max_count q) ops xs), q') \<and>
           sem_rep q' (snd (spec_ops (q_max_count q) ops xs)) \<and> q_max_count q' = q_max_count q"
  by (rule semq.run_refines[OF assms])

theorem sem_run_refines_witness:
  "\<exists>q'. run_ops queue_add_sem queue_get_sem [QAdd (Some 1) 7, QAdd (Some 2) 8, QGet] (empty_squeue 1) =
     Inr ([(1, None), (0, None), (1, Some 7)], q') \<and> sem_rep q' []"
proof -
  have "allocs_ok (\<lambda>p q. fresh (q_heap q) p) queue_add_sem queue_get_sem
      [QAdd (Some 1) 7, QAdd (Some 2) 8, QGet] (empty_squeue 1)"
    by (simp add: queue_add_sem_def empty_locked_defs append_node_def init_node_def
        queue_get_sem_def locked_defs)
  from sem_run_refines[OF empty_lqueue_reps(3) this] show ?thesis
    by (auto simp: empty_locked_defs)
qed

text \<open>
  The mutex queue leaks: an insertion into a full queue returns 0 and leaves the node
  it allocated on the heap, outside the queue, where \<open>queue_destroy\<close> does not find it
  either.
\<close>

theorem mutex_add_full_leaks:
  assumes "mutex_rep q xs" "int (length xs) = q_max_count q" "q_heap q a = None" "length xs < fuel"
  shows "\<exists>q' h. queue_add_mutex (Some a) v q = Inr (0, q') \<and> mutex_rep q' xs \<and>
           q_heap q' = (q_heap q)(a \<mapsto> \<lparr>qval = v, qnext = None\<rparr>) \<and>
           queue_destroy_mutex fuel (Some q') = Inr h \<and> h a = Some \<lparr>qval = v, qnext = None\<rparr>"
proof -
  from assms(1) obtain as where as: "queue_at q as xs" "\<not> q_locked q"
    by (auto simp: mutex_rep_def queue_rep_def)
  let ?q = "(init_node a v q)\<lparr>add_attempts := add_attempts q + 1\<rparr>"
  have at: "queue_at ?q as xs"
    using queue_at_bump(1)[OF queue_at_unlinked_node[OF as(1) assms(3), of v]] by simp
  have "length as < fuel" using queue_at_length[OF as(1)] assms(4) by simp
  with destroy_nodes_ok[of ?q as fuel] at obtain r where
    "destroy_nodes fuel ?q = Inr r" "q_heap r = (\<lambda>b. if b \<in> set as then None else q_heap ?q b)"
    by (auto simp: queue_at_def)
  with queue_at_fresh[OF as(1) assms(3)] add_mutex_full[OF as assms(2), of a v] at as(2) show ?thesis
    by (auto simp: queue_destroy_mutex_def mutex_rep_def queue_rep_def)
qed

theorem mutex_add_full_leaks_witness:
  "\<exists>q' h. queue_add_mutex (Some 5) 9 (empty_lqueue 0) = Inr (0, q') \<and>
     queue_destroy_mutex 1 (Some q') = Inr h \<and> h 5 \<noteq> None"
  using mutex_add_full_leaks[OF empty_lqueue_reps(2)[of 0], of 5 1 9]
  by (auto simp: empty_locked_defs)

end
