(* ===== verification/Queue_Threads.thy ===== *)
theory Queue_Threads
  imports Queue_Locked
begin

text \<open>
  \<open>queue-threads.c\<close> over the locked queues of \<open>task2_2\<close>: one writer thread that inserts
  \<open>0, 1, 2, ...\<close>, retrying while the queue is full, and one reader thread that checks
  that it receives \<open>0, 1, 2, ...\<close>. The threads are interleaved statement by statement:
  each step below is one access of a thread to the shared queue, and the scheduler
  chooses the thread. The variants differ in what follows a failed insertion.
\<close>

section \<open>Threads and states\<close>

datatype variant = Spin | Mutex | Semaphore | CondVar

datatype tid = Writer | Reader

text \<open>Where each thread is: the statement of \<open>queue_add\<close> or \<open>queue_get\<close> it executes next.\<close>

datatype wpc = W_Malloc | W_Lock | W_Attempt | W_Assert | W_Full | W_Link | W_Last | W_Count
  | W_AddCount | W_Broadcast | W_Unlock | W_UnlockFull | W_FreeNew | W_CondWait | W_Waiting

datatype rpc = R_Lock | R_Attempt | R_Assert | R_Empty | R_Val | R_First | R_Count | R_GetCount
  | R_Broadcast | R_Unlock | R_UnlockEmpty | R_Free | R_Check | R_CondWait | R_Waiting

record sys =
  sq :: queue
  holder :: "tid option"
  w_pc :: wpc
  w_i :: int
  w_new :: addr
  w_waiting :: bool
  r_pc :: rpc
  r_expected :: int
  r_val :: int
  r_tmp :: ptr
  r_waiting :: bool
  r_errors :: nat

definition sys_init :: "int \<Rightarrow> sys" where
  "sys_init n = \<lparr>sq = empty_queue n, holder = None, w_pc = W_Malloc, w_i = 0, w_new = 0, w_waiting = False,
     r_pc = R_Lock, r_expected = 0, r_val = -1, r_tmp = None,
     r_waiting = False, r_errors = 0\<rparr>"

text \<open>
  One step of \<open>writer()\<close> inside \<open>queue_add(q, i)\<close>; \<open>new\<close> is what \<open>malloc\<close> returns.
  A thread that finds the lock taken waits. A failed insertion leads back to the
  \<open>malloc\<close> of the retry, through \<open>free(new)\<close> in \<open>spinloc\<close> only. In
  \<open>conditionalVarible\<close> it waits instead: \<open>pthread_cond_wait\<close> releases the lock and
  registers the thread in one step, and the thread re-acquires the lock and tests again
  once a broadcast has taken it off the condition variable.
\<close>

definition writer_step :: "variant \<Rightarrow> ptr \<Rightarrow> sys \<Rightarrow> sys result" where
  "writer_step var new s =
    (let q = sq s in
     case w_pc s of
       W_Malloc \<Rightarrow>
         (case new of None \<Rightarrow> Inl Aborted
          | Some a \<Rightarrow> Inr (s\<lparr>sq := init_node a (w_i s) q, w_new := a, w_pc := W_Lock\<rparr>))
     | W_Lock \<Rightarrow>
         Inr (if holder s = None then s\<lparr>holder := Some Writer, w_pc := W_Attempt\<rparr> else s)
     | W_Attempt \<Rightarrow> Inr (s\<lparr>sq := q\<lparr>add_attempts := add_attempts q + 1\<rparr>, w_pc := W_Assert\<rparr>)
     | W_Assert \<Rightarrow>
         if q_count q \<le> q_max_count q then Inr (s\<lparr>w_pc := W_Full\<rparr>) else Inl AssertFailed
     | W_Full \<Rightarrow>
         Inr (s\<lparr>w_pc := (if q_count q = q_max_count q
             then (if var = CondVar then W_CondWait else W_UnlockFull) else W_Link)\<rparr>)
     | W_Link \<Rightarrow>
         if q_first q = None
         then Inr (s\<lparr>sq := q\<lparr>q_first := Some (w_new s), q_last := Some (w_new s)\<rparr>, w_pc := W_Count\<rparr>)
         else bindR (modify (q_heap q) (q_last q) (\<lambda>n. n\<lparr>qnext := Some (w_new s)\<rparr>)) (\<lambda>h.
                Inr (s\<lparr>sq := q\<lparr>q_heap := h\<rparr>, w_pc := W_Last\<rparr>))
     | W_Last \<Rightarrow>
         bindR (load (q_heap q) (q_last q)) (\<lambda>n.
           Inr (s\<lparr>sq := q\<lparr>q_last := qnext n\<rparr>, w_pc := W_Count\<rparr>))
     | W_Count \<Rightarrow> Inr (s\<lparr>sq := q\<lparr>q_count := q_count q + 1\<rparr>, w_pc := W_AddCount\<rparr>)
     | W_AddCount \<Rightarrow> Inr (s\<lparr>sq := q\<lparr>add_count := add_count q + 1\<rparr>,
               w_pc := (if var = CondVar then W_Broadcast else W_Unlock)\<rparr>)
     | W_Broadcast \<Rightarrow> Inr (s\<lparr>r_waiting := False, w_pc := W_Unlock\<rparr>)
     | W_Unlock \<Rightarrow> Inr (s\<lparr>holder := None, w_i := w_i s + 1, w_pc := W_Malloc\<rparr>)
     | W_UnlockFull \<Rightarrow>
         Inr (s\<lparr>holder := None, w_pc := (case var of Spin \<Rightarrow> W_FreeNew | _ \<Rightarrow> W_Malloc)\<rparr>)
     | W_FreeNew \<Rightarrow>
         bindR (release (q_heap q) (Some (w_new s))) (\<lambda>h.
           Inr (s\<lparr>sq := q\<lparr>q_heap := h\<rparr>, w_pc := W_Malloc\<rparr>))
     | W_CondWait \<Rightarrow> Inr (s\<lparr>holder := None, w_waiting := True, w_pc := W_Waiting\<rparr>)
     | W_Waiting \<Rightarrow>
         Inr (if \<not> w_waiting s \<and> holder s = None
              then s\<lparr>holder := Some Writer, w_pc := W_Full\<rparr> else s))"

text \<open>One step of \<open>reader()\<close>: \<open>queue_get(q, &val)\<close>, then the comparison with \<open>expected\<close>.\<close>

definition reader_step :: "variant \<Rightarrow> sys \<Rightarrow> sys result" where
  "reader_step var s =
    (let q = sq s in
     case r_pc s of
       R_Lock \<Rightarrow>
         Inr (if holder s = None then s\<lparr>holder := Some Reader, r_pc := R_Attempt\<rparr> else s)
     | R_Attempt \<Rightarrow> Inr (s\<lparr>sq := q\<lparr>get_attempts := get_attempts q + 1\<rparr>, r_pc := R_Assert\<rparr>)
     | R_Assert \<Rightarrow> if q_count q \<ge> 0 then Inr (s\<lparr>r_pc := R_Empty\<rparr>) else Inl AssertFailed
     | R_Empty \<Rightarrow> Inr (s\<lparr>r_pc := (if q_count q = 0
             then (if var = CondVar then R_CondWait else R_UnlockEmpty) else R_Val)\<rparr>)
     | R_Val \<Rightarrow>
         bindR (load (q_heap q) (q_first q)) (\<lambda>n.
           Inr (s\<lparr>r_tmp := q_first q, r_val := qval n, r_pc := R_First\<rparr>))
     | R_First \<Rightarrow>
         bindR (load (q_heap q) (q_first q)) (\<lambda>n.
           Inr (s\<lparr>sq := q\<lparr>q_first := qnext n\<rparr>, r_pc := R_Count\<rparr>))
     | R_Count \<Rightarrow> Inr (s\<lparr>sq := q\<lparr>q_count := q_count q - 1\<rparr>, r_pc := R_GetCount\<rparr>)
     | R_GetCount \<Rightarrow> Inr (s\<lparr>sq := q\<lparr>get_count := get_count q + 1\<rparr>,
               r_pc := (if var = CondVar then R_Broadcast else R_Unlock)\<rparr>)
     | R_Broadcast \<Rightarrow> Inr (s\<lparr>w_waiting := False, r_pc := R_Unlock\<rparr>)
     | R_Unlock \<Rightarrow> Inr (s\<lparr>holder := None, r_pc := R_Free\<rparr>)
     | R_UnlockEmpty \<Rightarrow> Inr (s\<lparr>holder := None, r_pc := R_Lock\<rparr>)
     | R_Free \<Rightarrow>
         bindR (release (q_heap q) (r_tmp s)) (\<lambda>h.
           Inr (s\<lparr>sq := q\<lparr>q_heap := h\<rparr>, r_pc := R_Check\<rparr>))
     | R_Check \<Rightarrow>
         Inr (s\<lparr>r_errors := r_errors s + (if r_expected s \<noteq> r_val s then 1 else 0),
                r_expected := r_val s + 1, r_pc := R_Lock\<rparr>)
     | R_CondWait \<Rightarrow> Inr (s\<lparr>holder := None, r_waiting := True, r_pc := R_Waiting\<rparr>)
     | R_Waiting \<Rightarrow>
         Inr (if \<not> r_waiting s \<and> holder s = None
              then s\<lparr>holder := Some Reader, r_pc := R_Empty\<rparr> else s))"

text \<open>
  A step of the program: the scheduler runs the writer, whose \<open>malloc\<close> may return any
  address that is not allocated, or the reader, or a thread wakes up spuriously from
  \<open>pthread_cond_wait\<close>.
\<close>

datatype event = EvWriter ptr | EvReader | EvWakeWriter | EvWakeReader

definition event_ok :: "event \<Rightarrow> sys \<Rightarrow> bool" where
  "event_ok ev s \<longleftrightarrow> (case ev of EvWriter p \<Rightarrow> p \<noteq> None \<and> fresh (q_heap (sq s)) p | _ \<Rightarrow> True)"

definition sys_step :: "variant \<Rightarrow> event \<Rightarrow> sys \<Rightarrow> sys result" where
  "sys_step var ev s = (case ev of
       EvWriter p \<Rightarrow> writer_step var p s
     | EvReader \<Rightarrow> reader_step var s
     | EvWakeWriter \<Rightarrow> Inr (s\<lparr>w_waiting := False\<rparr>)
     | EvWakeReader \<Rightarrow> Inr (s\<lparr>r_waiting := False\<rparr>))"

inductive sys_trans :: "variant \<Rightarrow> sys \<Rightarrow> sys \<Rightarrow> bool" for var :: variant where
  "event_ok ev s \<Longrightarrow> sys_step var ev s = Inr t \<Longrightarrow> sys_trans var s t"

inductive_cases sys_transE: "sys_trans var s t"

text \<open>The program starts on an empty queue of any capacity.\<close>

definition sys_start :: "sys \<Rightarrow> bool" where
  "sys_start s \<longleftrightarrow> 0 \<le> q_max_count (sq s) \<and> s = sys_init (q_max_count (sq s))"

section \<open>The invariant\<close>

text \<open>
  In the middle of a critical section the fields of the queue disagree in a way that
  depends on the statement reached: how far \<open>count\<close> and the statistics lag behind the
  chain of nodes, and which node belongs to a thread.
\<close>

fun w_crit :: "wpc \<Rightarrow> bool" where
  "w_crit W_Malloc = False" | "w_crit W_Lock = False" | "w_crit W_FreeNew = False"
| "w_crit W_Waiting = False" | "w_crit _ = True"

fun r_crit :: "rpc \<Rightarrow> bool" where
  "r_crit R_Lock = False" | "r_crit R_Free = False" | "r_crit R_Check = False"
| "r_crit R_Waiting = False" | "r_crit _ = True"

fun w_linked :: "wpc \<Rightarrow> bool" where
  "w_linked W_Last = True" | "w_linked W_Count = True" | "w_linked W_AddCount = True"
| "w_linked W_Broadcast = True" | "w_linked W_Unlock = True" | "w_linked _ = False"

fun w_private :: "wpc \<Rightarrow> bool" where
  "w_private W_Malloc = False" | "w_private pc = (\<not> w_linked pc)"

fun w_count_lag :: "wpc \<Rightarrow> int" where
  "w_count_lag W_Last = 1" | "w_count_lag W_Count = 1" | "w_count_lag _ = 0"

fun w_add_lag :: "wpc \<Rightarrow> int" where
  "w_add_lag W_Last = 1" | "w_add_lag W_Count = 1" | "w_add_lag W_AddCount = 1" | "w_add_lag _ = 0"

fun w_attempt :: "wpc \<Rightarrow> int" where
  "w_attempt W_Assert = 1" | "w_attempt W_Full = 1" | "w_attempt W_Link = 1" | "w_attempt W_Last = 1"
| "w_attempt W_Count = 1" | "w_attempt W_AddCount = 1" | "w_attempt W_CondWait = 1"
| "w_attempt W_Waiting = 1" | "w_attempt _ = 0"

fun r_taken :: "rpc \<Rightarrow> bool" where
  "r_taken R_Count = True" | "r_taken R_GetCount = True" | "r_taken R_Broadcast = True"
| "r_taken R_Unlock = True"
| "r_taken R_Free = True" | "r_taken R_Check = True" | "r_taken _ = False"

fun r_owns_tmp :: "rpc \<Rightarrow> bool" where
  "r_owns_tmp R_Check = False" | "r_owns_tmp pc = r_taken pc"

fun r_count_lag :: "rpc \<Rightarrow> int" where
  "r_count_lag R_Count = 1" | "r_count_lag _ = 0"

fun r_get_lag :: "rpc \<Rightarrow> int" where
  "r_get_lag R_Count = 1" | "r_get_lag R_GetCount = 1" | "r_get_lag _ = 0"

fun r_attempt :: "rpc \<Rightarrow> int" where
  "r_attempt R_Assert = 1" | "r_attempt R_Empty = 1" | "r_attempt R_Val = 1" | "r_attempt R_First = 1"
| "r_attempt R_Count = 1" | "r_attempt R_GetCount = 1" | "r_attempt R_CondWait = 1"
| "r_attempt R_Waiting = 1" | "r_attempt _ = 0"

lemma not_w_crit: "\<not> w_crit pc \<Longrightarrow>
    \<not> w_linked pc \<and> w_count_lag pc = 0 \<and> w_add_lag pc = 0 \<and>
    pc \<noteq> W_Last \<and> pc \<noteq> W_Link"
  by (cases pc) auto

lemma not_r_crit: "\<not> r_crit pc \<Longrightarrow>
    r_count_lag pc = 0 \<and> r_get_lag pc = 0 \<and> pc \<noteq> R_Val \<and> pc \<noteq> R_First"
  by (cases pc) auto

text \<open>The nodes \<open>as\<close> of the queue, and the agreement of everything else with them.\<close>

definition counters_at :: "sys \<Rightarrow> nat \<Rightarrow> bool" where
  "counters_at s n \<longleftrightarrow>
     q_count (sq s) = int n - w_count_lag (w_pc s) + r_count_lag (r_pc s) \<and>
     int n \<le> q_max_count (sq s) \<and>
     add_count (sq s) - get_count (sq s) = int n - w_add_lag (w_pc s) + r_get_lag (r_pc s) \<and>
     add_count (sq s) + w_attempt (w_pc s) \<le> add_attempts (sq s) \<and>
     get_count (sq s) + r_attempt (r_pc s) \<le> get_attempts (sq s) \<and>
     (w_pc s = W_Link \<longrightarrow> q_count (sq s) < q_max_count (sq s))"

definition nodes_at :: "sys \<Rightarrow> addr list \<Rightarrow> bool" where
  "nodes_at s as \<longleftrightarrow>
     chain (q_heap (sq s)) qnext (q_first (sq s)) as None \<and>
     (w_pc s = W_Last \<longrightarrow> 2 \<le> length as) \<and>
     (as \<noteq> [] \<longrightarrow> q_last (sq s) = Some (if w_pc s = W_Last then last (butlast as) else last as)) \<and>
     (w_private (w_pc s) \<longrightarrow> q_heap (sq s) (w_new s) = Some \<lparr>qval = w_i s, qnext = None\<rparr> \<and>
        w_new s \<notin> set as) \<and>
     (w_linked (w_pc s) \<longrightarrow> as \<noteq> [] \<and> last as = w_new s) \<and>
     (r_pc s = R_Val \<longrightarrow> as \<noteq> []) \<and>
     (r_pc s = R_First \<longrightarrow> as \<noteq> [] \<and> r_tmp s = Some (hd as)) \<and>
     (r_owns_tmp (r_pc s) \<longrightarrow> (\<exists>t n. r_tmp s = Some t \<and> q_heap (sq s) t = Some n \<and>
        t \<notin> set as \<and> (w_private (w_pc s) \<longrightarrow> t \<noteq> w_new s)))"

text \<open>
  The values in the queue are consecutive, from the reader's next one to the writer's
  last one.
\<close>

definition values_at :: "sys \<Rightarrow> addr list \<Rightarrow> bool" where
  "values_at s as \<longleftrightarrow>
     (let lo = r_expected s + of_bool (r_taken (r_pc s));
          hi = w_i s + of_bool (w_linked (w_pc s))
      in node_vals (q_heap (sq s)) as = [lo..hi - 1] \<and> lo \<le> hi) \<and>
     (r_taken (r_pc s) \<or> r_pc s = R_First \<longrightarrow> r_val s = r_expected s) \<and> r_errors s = 0"

definition lock_ok :: "sys \<Rightarrow> bool" where
  "lock_ok s \<longleftrightarrow> (holder s = Some Writer \<longleftrightarrow> w_crit (w_pc s)) \<and> (holder s = Some Reader \<longleftrightarrow> r_crit (r_pc s))"

definition sys_inv :: "sys \<Rightarrow> bool" where
  "sys_inv s \<longleftrightarrow> lock_ok s \<and> (\<exists>as. counters_at s (length as) \<and> nodes_at s as \<and> values_at s as)"

lemma sys_invI:
  "lock_ok s \<Longrightarrow> counters_at s (length as) \<Longrightarrow> nodes_at s as \<Longrightarrow> values_at s as \<Longrightarrow> sys_inv s"
  by (auto simp: sys_inv_def)

lemma sys_inv_init: "0 \<le> n \<Longrightarrow> sys_inv (sys_init n)"
  by (rule sys_invI[of _ "[]"])
     (auto simp: sys_init_def empty_queue_def lock_ok_def counters_at_def nodes_at_def values_at_def)

lemmas part_defs = lock_ok_def counters_at_def nodes_at_def values_at_def

section \<open>Every step keeps the invariant and succeeds\<close>

text \<open>
  The four statements that change the chain, each for the thread inside its critical
  section (so that the other thread's lags vanish).
\<close>

lemma upto_snoc: "lo \<le> hi \<Longrightarrow> [lo..hi - 1] @ [hi] = [lo..(hi :: int)]"
  by (simp add: upto_rec2)

lemma Cons_eq_upto: "x # xs = [lo..(hi :: int)] \<Longrightarrow> x = lo \<and> xs = [lo + 1..hi] \<and> lo \<le> hi"
  by (subst (asm) upto.simps) (simp split: if_splits)

lemma step_link_first:
  assumes "nodes_at s as" "values_at s as" "counters_at s (length as)" "lock_ok s"
    "w_pc s = W_Link" "q_first (sq s) = None"
  shows "sys_inv (s\<lparr>sq := (sq s)\<lparr>q_first := Some (w_new s), q_last := Some (w_new s)\<rparr>, w_pc := W_Count\<rparr>)"
proof -
  from assms(1,6) have as: "as = []" by (auto simp: nodes_at_def)
  from assms(4,5) have nr: "\<not> r_crit (r_pc s)" by (auto simp: lock_ok_def)
  let ?t = "s\<lparr>sq := (sq s)\<lparr>q_first := Some (w_new s), q_last := Some (w_new s)\<rparr>, w_pc := W_Count\<rparr>"
  show ?thesis
  proof (rule sys_invI[of _ "[w_new s]"])
    show "nodes_at ?t [w_new s]"
      using assms(1,5) as not_r_crit[OF nr] by (auto simp: nodes_at_def chain_simps)
    have "r_expected s + of_bool (r_taken (r_pc s)) = w_i s"
      using assms(2,5) by (simp add: values_at_def Let_def as)
    then show "values_at ?t [w_new s]"
      using assms(1,2,5) by (simp add: values_at_def nodes_at_def Let_def)
  qed (use assms(3-5) as not_r_crit[OF nr] in \<open>auto simp: lock_ok_def counters_at_def\<close>)
qed

lemma last_butlast2 [simp]: "last (butlast (bs @ [b, a])) = b"
  by (simp add: butlast_append)

lemma step_link_last:
  assumes "nodes_at s as" "values_at s as" "counters_at s (length as)" "lock_ok s"
    "w_pc s = W_Link" "q_first (sq s) \<noteq> None"
  shows "\<exists>h. modify (q_heap (sq s)) (q_last (sq s)) (\<lambda>n. n\<lparr>qnext := Some (w_new s)\<rparr>) = Inr h \<and>
     sys_inv (s\<lparr>sq := (sq s)\<lparr>q_heap := h\<rparr>, w_pc := W_Last\<rparr>)"
proof -
  let ?h = "q_heap (sq s)" and ?a = "w_new s"
  from assms have ch: "chain ?h qnext (q_first (sq s)) as None" and "as \<noteq> []"
    and a: "?h ?a = Some \<lparr>qval = w_i s, qnext = None\<rparr>" "?a \<notin> set as"
    by (auto simp: nodes_at_def)
  then obtain bs b where as: "as = bs @ [b]" by (cases as rule: rev_cases) auto
  with ch obtain n where n: "?h b = Some n" "qnext n = None"
    and bs: "chain ?h qnext (q_first (sq s)) bs (Some b)" by (auto simp: chain_simps)
  from chain_distinct[OF ch] as have "b \<notin> set bs" by simp
  from a as have neq: "?a \<noteq> b" "b \<noteq> ?a" "?a \<notin> set bs" by auto
  let ?h' = "?h(b \<mapsto> n\<lparr>qnext := Some ?a\<rparr>)"
  have last: "q_last (sq s) = Some b" using assms(1,5) as by (auto simp: nodes_at_def)
  have ch': "chain ?h' qnext (q_first (sq s)) (as @ [?a]) None"
    using bs n a neq \<open>b \<notin> set bs\<close> by (simp add: as chain_simps)
  have vals: "node_vals ?h' (as @ [?a]) = node_vals ?h as @ [w_i s]"
    using n a neq \<open>b \<notin> set bs\<close> by (simp add: as)
  have "sys_inv (s\<lparr>sq := (sq s)\<lparr>q_heap := ?h'\<rparr>, w_pc := W_Last\<rparr>)"
  proof (rule sys_invI[of _ "as @ [?a]"])
    show "nodes_at (s\<lparr>sq := (sq s)\<lparr>q_heap := ?h'\<rparr>, w_pc := W_Last\<rparr>) (as @ [?a])"
      using assms(1,4,5) ch' last as neq n not_r_crit[of "r_pc s"]
      by (auto simp: nodes_at_def lock_ok_def simp del: fun_upd_apply) (auto simp: fun_upd_apply)
    show "values_at (s\<lparr>sq := (sq s)\<lparr>q_heap := ?h'\<rparr>, w_pc := W_Last\<rparr>) (as @ [?a])"
      using assms(2,5) vals by (auto simp: values_at_def Let_def upto_snoc simp del: fun_upd_apply)
  qed (use assms(3-5) not_r_crit[of "r_pc s"] in \<open>auto simp: lock_ok_def counters_at_def\<close>)
  with last n show ?thesis by simp
qed

lemma step_last:
  assumes "nodes_at s as" "values_at s as" "counters_at s (length as)" "lock_ok s" "w_pc s = W_Last"
  shows "\<exists>n. load (q_heap (sq s)) (q_last (sq s)) = Inr n \<and>
     sys_inv (s\<lparr>sq := (sq s)\<lparr>q_last := qnext n\<rparr>, w_pc := W_Count\<rparr>)"
proof -
  from assms have len: "2 \<le> length as" and ch: "chain (q_heap (sq s)) qnext (q_first (sq s)) as None"
    by (auto simp: nodes_at_def)
  from len obtain bs b a where as: "as = bs @ [b, a]"
    by (cases as rule: rev_cases; cases "butlast as" rule: rev_cases) auto
  with ch obtain n where n: "q_heap (sq s) b = Some n" "qnext n = Some a" by (auto simp: chain_simps)
  have "sys_inv (s\<lparr>sq := (sq s)\<lparr>q_last := qnext n\<rparr>, w_pc := W_Count\<rparr>)"
    by (rule sys_invI[of _ as]) (use assms as n in \<open>auto simp: part_defs Let_def\<close>)
  moreover have "q_last (sq s) = Some b" using assms as by (auto simp: nodes_at_def)
  ultimately show ?thesis using n by simp
qed

lemma step_unlink:
  assumes "nodes_at s as" "values_at s as" "counters_at s (length as)" "lock_ok s" "r_pc s = R_First"
  shows "\<exists>n. load (q_heap (sq s)) (q_first (sq s)) = Inr n \<and>
     sys_inv (s\<lparr>sq := (sq s)\<lparr>q_first := qnext n\<rparr>, r_pc := R_Count\<rparr>)"
proof -
  from assms have ch: "chain (q_heap (sq s)) qnext (q_first (sq s)) as None" and "as \<noteq> []"
    by (auto simp: nodes_at_def)
  then obtain a bs where as: "as = a # bs" by (cases as) auto
  with ch obtain n where n: "q_first (sq s) = Some a" "q_heap (sq s) a = Some n"
    "chain (q_heap (sq s)) qnext (qnext n) bs None" by (auto simp: chain_simps)
  from chain_distinct[OF ch] as have "a \<notin> set bs" by simp
  from assms(4,5) have nw: "\<not> w_crit (w_pc s)" by (auto simp: lock_ok_def)
  let ?t = "s\<lparr>sq := (sq s)\<lparr>q_first := qnext n\<rparr>, r_pc := R_Count\<rparr>"
  have "sys_inv ?t"
  proof (rule sys_invI[of _ bs])
    show "nodes_at ?t bs"
      using assms(1,5) as n \<open>a \<notin> set bs\<close> not_w_crit[OF nw] by (auto simp: nodes_at_def)
    have "node_vals (q_heap (sq s)) as = [r_expected s..w_i s - 1]" "r_expected s \<le> w_i s"
      using assms(2,5) not_w_crit[OF nw] by (auto simp: values_at_def Let_def)
    then have "node_vals (q_heap (sq s)) bs = [r_expected s + 1..w_i s - 1]" "r_expected s + 1 \<le> w_i s"
      using n Cons_eq_upto[of "qval n" "node_vals (q_heap (sq s)) bs" "r_expected s" "w_i s - 1"]
      by (auto simp: as)
    then show "values_at ?t bs"
      using assms(2,5) not_w_crit[OF nw] by (auto simp: values_at_def Let_def)
    show "counters_at ?t (length bs)" using assms(3,5) as not_w_crit[OF nw]
      by (auto simp: counters_at_def)
  qed (use assms(4,5) in \<open>auto simp: lock_ok_def\<close>)
  with n show ?thesis by simp
qed

lemma step_free:
  assumes "nodes_at s as" "values_at s as" "counters_at s (length as)" "lock_ok s" "r_pc s = R_Free"
  shows "\<exists>h. release (q_heap (sq s)) (r_tmp s) = Inr h \<and>
     sys_inv (s\<lparr>sq := (sq s)\<lparr>q_heap := h\<rparr>, r_pc := R_Check\<rparr>)"
proof -
  from assms(1,5) obtain t n where t: "r_tmp s = Some t" "q_heap (sq s) t = Some n" "t \<notin> set as"
    "w_private (w_pc s) \<longrightarrow> w_new s \<noteq> t" by (auto simp: nodes_at_def)
  have "sys_inv (s\<lparr>sq := (sq s)\<lparr>q_heap := (q_heap (sq s))(t := None)\<rparr>, r_pc := R_Check\<rparr>)"
  proof (rule sys_invI[of _ as])
    show "nodes_at (s\<lparr>sq := (sq s)\<lparr>q_heap := (q_heap (sq s))(t := None)\<rparr>, r_pc := R_Check\<rparr>) as"
      using assms(1,5) t by (auto simp: nodes_at_def simp del: fun_upd_apply) (auto simp: fun_upd_apply)
    show "values_at (s\<lparr>sq := (sq s)\<lparr>q_heap := (q_heap (sq s))(t := None)\<rparr>, r_pc := R_Check\<rparr>) as"
      using assms(2,5) t by (auto simp: values_at_def Let_def simp del: fun_upd_apply)
  qed (use assms(3-5) in \<open>auto simp: lock_ok_def counters_at_def\<close>)
  with t show ?thesis by simp
qed

lemma step_malloc:
  assumes "nodes_at s as" "values_at s as" "counters_at s (length as)" "lock_ok s"
    "w_pc s = W_Malloc" "q_heap (sq s) a = None"
  shows "sys_inv (s\<lparr>sq := init_node a (w_i s) (sq s), w_new := a, w_pc := W_Lock\<rparr>)"
proof (rule sys_invI[of _ as])
  from assms(1,6) have "a \<notin> set as" by (auto simp: nodes_at_def dest!: chain_subset_dom)
  then show "nodes_at (s\<lparr>sq := init_node a (w_i s) (sq s), w_new := a, w_pc := W_Lock\<rparr>) as"
    using assms(1,5,6) by (auto simp: nodes_at_def simp del: fun_upd_apply) (auto simp: fun_upd_apply)
  from \<open>a \<notin> set as\<close> show "values_at (s\<lparr>sq := init_node a (w_i s) (sq s), w_new := a, w_pc := W_Lock\<rparr>) as"
    using assms(2,5) by (auto simp: values_at_def Let_def simp del: fun_upd_apply)
qed (use assms(3-5) in \<open>auto simp: lock_ok_def counters_at_def\<close>)

lemma step_free_new:
  assumes "nodes_at s as" "values_at s as" "counters_at s (length as)" "lock_ok s" "w_pc s = W_FreeNew"
  shows "\<exists>h. release (q_heap (sq s)) (Some (w_new s)) = Inr h \<and>
     sys_inv (s\<lparr>sq := (sq s)\<lparr>q_heap := h\<rparr>, w_pc := W_Malloc\<rparr>)"
proof -
  let ?h = "(q_heap (sq s))(w_new s := None)"
  from assms have a: "q_heap (sq s) (w_new s) = Some \<lparr>qval = w_i s, qnext = None\<rparr>" "w_new s \<notin> set as"
    by (auto simp: nodes_at_def)
  have "sys_inv (s\<lparr>sq := (sq s)\<lparr>q_heap := ?h\<rparr>, w_pc := W_Malloc\<rparr>)"
  proof (rule sys_invI[of _ as])
    show "nodes_at (s\<lparr>sq := (sq s)\<lparr>q_heap := ?h\<rparr>, w_pc := W_Malloc\<rparr>) as"
      using assms(1,5) a by (auto simp: nodes_at_def simp del: fun_upd_apply) (auto simp: fun_upd_apply)
    show "values_at (s\<lparr>sq := (sq s)\<lparr>q_heap := ?h\<rparr>, w_pc := W_Malloc\<rparr>) as"
      using assms(2,5) a by (auto simp: values_at_def Let_def simp del: fun_upd_apply)
  qed (use assms(3-5) in \<open>auto simp: lock_ok_def counters_at_def\<close>)
  with a show ?thesis by simp
qed

text \<open>The remaining statements move a thread on or change one counter.\<close>

lemma writer_step_ok:
  assumes "sys_inv s" "new = Some a" "q_heap (sq s) a = None"
  shows "\<exists>t. writer_step var new s = Inr t \<and> sys_inv t"
proof -
  from assms(1) obtain as where lk: "lock_ok s" and cn: "counters_at s (length as)"
    and nd: "nodes_at s as" and vl: "values_at s as" by (auto simp: sys_inv_def)
  show ?thesis
  proof (cases "w_pc s")
    case W_Malloc
    with step_malloc[OF nd vl cn lk] assms(2,3) show ?thesis by (simp add: writer_step_def Let_def)
  next
    case W_Lock
    have "sys_inv (if holder s = None then s\<lparr>holder := Some Writer, w_pc := W_Attempt\<rparr> else s)"
      by (rule sys_invI[of _ as]) (use W_Lock lk cn nd vl in \<open>auto simp: part_defs\<close>)
    with W_Lock show ?thesis by (simp add: writer_step_def Let_def)
  next
    case W_Attempt
    have "sys_inv (s\<lparr>sq := (sq s)\<lparr>add_attempts := add_attempts (sq s) + 1\<rparr>, w_pc := W_Assert\<rparr>)"
      by (rule sys_invI[of _ as]) (use W_Attempt lk cn nd vl in \<open>auto simp: part_defs\<close>)
    with W_Attempt show ?thesis by (simp add: writer_step_def Let_def)
  next
    case W_Assert
    then have "\<not> r_crit (r_pc s)" using lk by (auto simp: lock_ok_def)
    with W_Assert cn have "q_count (sq s) \<le> q_max_count (sq s)"
      by (auto simp: counters_at_def dest: not_r_crit)
    moreover have "sys_inv (s\<lparr>w_pc := W_Full\<rparr>)"
      by (rule sys_invI[of _ as]) (use W_Assert lk cn nd vl in \<open>auto simp: part_defs\<close>)
    ultimately show ?thesis using W_Assert by (simp add: writer_step_def)
  next
    case W_Full
    then have "\<not> r_crit (r_pc s)" using lk by (auto simp: lock_ok_def)
    with W_Full lk cn nd vl
    have "sys_inv (s\<lparr>w_pc := (if q_count (sq s) = q_max_count (sq s)
        then (if var = CondVar then W_CondWait else W_UnlockFull) else W_Link)\<rparr>)"
      by (intro sys_invI[of _ as]) (auto simp: part_defs dest: not_r_crit)
    with W_Full show ?thesis by (simp add: writer_step_def Let_def)
  next
    case W_Link
    with step_link_first[OF nd vl cn lk] step_link_last[OF nd vl cn lk] show ?thesis
      by (auto simp: writer_step_def Let_def)
  next
    case W_Last
    with step_last[OF nd vl cn lk] show ?thesis by (auto simp: writer_step_def Let_def)
  next
    case W_Count
    have "sys_inv (s\<lparr>sq := (sq s)\<lparr>q_count := q_count (sq s) + 1\<rparr>, w_pc := W_AddCount\<rparr>)"
      by (rule sys_invI[of _ as]) (use W_Count lk cn nd vl in \<open>auto simp: part_defs\<close>)
    with W_Count show ?thesis by (simp add: writer_step_def Let_def)
  next
    case W_AddCount
    have "sys_inv (s\<lparr>sq := (sq s)\<lparr>add_count := add_count (sq s) + 1\<rparr>,
        w_pc := (if var = CondVar then W_Broadcast else W_Unlock)\<rparr>)"
      by (rule sys_invI[of _ as]) (use W_AddCount lk cn nd vl in \<open>auto simp: part_defs\<close>)
    with W_AddCount show ?thesis by (simp add: writer_step_def Let_def)
  next
    case W_Unlock
    have "sys_inv (s\<lparr>holder := None, w_i := w_i s + 1, w_pc := W_Malloc\<rparr>)"
      by (rule sys_invI[of _ as]) (use W_Unlock lk cn nd vl in \<open>auto simp: part_defs Let_def\<close>)
    with W_Unlock show ?thesis by (simp add: writer_step_def Let_def)
  next
    case W_UnlockFull
    have "sys_inv (s\<lparr>holder := None, w_pc := (case var of Spin \<Rightarrow> W_FreeNew | _ \<Rightarrow> W_Malloc)\<rparr>)"
      by (rule sys_invI[of _ as])
        (use W_UnlockFull lk cn nd vl in \<open>auto simp: part_defs Let_def split: variant.split\<close>)
    with W_UnlockFull show ?thesis by (simp add: writer_step_def Let_def)
  next
    case W_FreeNew
    with step_free_new[OF nd vl cn lk] show ?thesis by (auto simp: writer_step_def Let_def)
  next
    case W_Broadcast
    have "sys_inv (s\<lparr>r_waiting := False, w_pc := W_Unlock\<rparr>)"
      by (rule sys_invI[of _ as]) (use W_Broadcast lk cn nd vl in \<open>auto simp: part_defs\<close>)
    with W_Broadcast show ?thesis by (simp add: writer_step_def Let_def)
  next
    case W_CondWait
    have "sys_inv (s\<lparr>holder := None, w_waiting := True, w_pc := W_Waiting\<rparr>)"
      by (rule sys_invI[of _ as]) (use W_CondWait lk cn nd vl in \<open>auto simp: part_defs\<close>)
    with W_CondWait show ?thesis by (simp add: writer_step_def Let_def)
  next
    case W_Waiting
    have "sys_inv (if \<not> w_waiting s \<and> holder s = None then s\<lparr>holder := Some Writer, w_pc := W_Full\<rparr> else s)"
      by (rule sys_invI[of _ as]) (use W_Waiting lk cn nd vl in \<open>auto simp: part_defs\<close>)
    with W_Waiting show ?thesis by (simp add: writer_step_def Let_def)
  qed
qed

lemma reader_step_ok:
  assumes "sys_inv s"
  shows "\<exists>t. reader_step var s = Inr t \<and> sys_inv t"
proof -
  from assms(1) obtain as where lk: "lock_ok s" and cn: "counters_at s (length as)"
    and nd: "nodes_at s as" and vl: "values_at s as" by (auto simp: sys_inv_def)
  have nw: "\<not> w_crit (w_pc s)" if "r_crit (r_pc s)" using lk that by (auto simp: lock_ok_def)
  show ?thesis
  proof (cases "r_pc s")
    case R_Lock
    have "sys_inv (if holder s = None then s\<lparr>holder := Some Reader, r_pc := R_Attempt\<rparr> else s)"
      by (rule sys_invI[of _ as]) (use R_Lock lk cn nd vl in \<open>auto simp: part_defs\<close>)
    with R_Lock show ?thesis by (simp add: reader_step_def Let_def)
  next
    case R_Attempt
    have "sys_inv (s\<lparr>sq := (sq s)\<lparr>get_attempts := get_attempts (sq s) + 1\<rparr>, r_pc := R_Assert\<rparr>)"
      by (rule sys_invI[of _ as]) (use R_Attempt lk cn nd vl in \<open>auto simp: part_defs\<close>)
    with R_Attempt show ?thesis by (simp add: reader_step_def Let_def)
  next
    case R_Assert
    with cn not_w_crit[OF nw] have "0 \<le> q_count (sq s)" by (auto simp: counters_at_def)
    moreover have "sys_inv (s\<lparr>r_pc := R_Empty\<rparr>)"
      by (rule sys_invI[of _ as]) (use R_Assert lk cn nd vl in \<open>auto simp: part_defs\<close>)
    ultimately show ?thesis using R_Assert by (simp add: reader_step_def)
  next
    case R_Empty
    have "sys_inv (s\<lparr>r_pc := (if q_count (sq s) = 0
        then (if var = CondVar then R_CondWait else R_UnlockEmpty) else R_Val)\<rparr>)"
      by (rule sys_invI[of _ as])
        (use R_Empty lk cn nd vl not_w_crit[OF nw] in \<open>auto simp: part_defs\<close>)
    with R_Empty show ?thesis by (simp add: reader_step_def Let_def)
  next
    case R_Val
    with nd obtain a bs where as: "as = a # bs" by (cases as) (auto simp: nodes_at_def)
    with nd obtain n where n: "q_first (sq s) = Some a" "q_heap (sq s) a = Some n"
      by (auto simp: nodes_at_def chain_simps)
    have "node_vals (q_heap (sq s)) as = [r_expected s..w_i s - 1]"
      using vl R_Val not_w_crit[OF nw] by (auto simp: values_at_def Let_def)
    then have "qval n = r_expected s" using n Cons_eq_upto by (fastforce simp: as)
    then have "sys_inv (s\<lparr>r_tmp := q_first (sq s), r_val := qval n, r_pc := R_First\<rparr>)"
      by (intro sys_invI[of _ as])
        (use R_Val lk cn nd vl n as not_w_crit[OF nw] in \<open>auto simp: part_defs Let_def\<close>)
    with R_Val n show ?thesis by (simp add: reader_step_def Let_def)
  next
    case R_First
    with step_unlink[OF nd vl cn lk] show ?thesis by (auto simp: reader_step_def Let_def)
  next
    case R_Count
    have "sys_inv (s\<lparr>sq := (sq s)\<lparr>q_count := q_count (sq s) - 1\<rparr>, r_pc := R_GetCount\<rparr>)"
      by (rule sys_invI[of _ as])
        (use R_Count lk cn nd vl not_w_crit[OF nw] in \<open>auto simp: part_defs Let_def\<close>)
    with R_Count show ?thesis by (simp add: reader_step_def Let_def)
  next
    case R_GetCount
    have "sys_inv (s\<lparr>sq := (sq s)\<lparr>get_count := get_count (sq s) + 1\<rparr>,
        r_pc := (if var = CondVar then R_Broadcast else R_Unlock)\<rparr>)"
      by (rule sys_invI[of _ as])
        (use R_GetCount lk cn nd vl not_w_crit[OF nw] in \<open>auto simp: part_defs Let_def\<close>)
    with R_GetCount show ?thesis by (simp add: reader_step_def Let_def)
  next
    case R_Unlock
    have "sys_inv (s\<lparr>holder := None, r_pc := R_Free\<rparr>)"
      by (rule sys_invI[of _ as]) (use R_Unlock lk cn nd vl in \<open>auto simp: part_defs Let_def\<close>)
    with R_Unlock show ?thesis by (simp add: reader_step_def Let_def)
  next
    case R_UnlockEmpty
    have "sys_inv (s\<lparr>holder := None, r_pc := R_Lock\<rparr>)"
      by (rule sys_invI[of _ as]) (use R_UnlockEmpty lk cn nd vl in \<open>auto simp: part_defs Let_def\<close>)
    with R_UnlockEmpty show ?thesis by (simp add: reader_step_def Let_def)
  next
    case R_Free
    with step_free[OF nd vl cn lk] show ?thesis by (auto simp: reader_step_def Let_def)
  next
    case R_Check
    have "sys_inv (s\<lparr>r_errors := r_errors s + (if r_expected s \<noteq> r_val s then 1 else 0),
        r_expected := r_val s + 1, r_pc := R_Lock\<rparr>)"
      by (rule sys_invI[of _ as]) (use R_Check lk cn nd vl in \<open>auto simp: part_defs Let_def\<close>)
    with R_Check show ?thesis by (simp add: reader_step_def Let_def)
  next
    case R_Broadcast
    have "sys_inv (s\<lparr>w_waiting := False, r_pc := R_Unlock\<rparr>)"
      by (rule sys_invI[of _ as]) (use R_Broadcast lk cn nd vl in \<open>auto simp: part_defs\<close>)
    with R_Broadcast show ?thesis by (simp add: reader_step_def Let_def)
  next
    case R_CondWait
    have "sys_inv (s\<lparr>holder := None, r_waiting := True, r_pc := R_Waiting\<rparr>)"
      by (rule sys_invI[of _ as]) (use R_CondWait lk cn nd vl in \<open>auto simp: part_defs\<close>)
    with R_CondWait show ?thesis by (simp add: reader_step_def Let_def)
  next
    case R_Waiting
    have "sys_inv (if \<not> r_waiting s \<and> holder s = None then s\<lparr>holder := Some Reader, r_pc := R_Empty\<rparr> else s)"
      by (rule sys_invI[of _ as]) (use R_Waiting lk cn nd vl in \<open>auto simp: part_defs\<close>)
    with R_Waiting show ?thesis by (simp add: reader_step_def Let_def)
  qed
qed

lemma sys_step_ok:
  assumes "sys_inv s" "event_ok ev s"
  shows "\<exists>t. sys_step var ev s = Inr t \<and> sys_inv t"
proof (cases ev)
  case (EvWriter p)
  with assms writer_step_ok[OF assms(1)] show ?thesis by (auto simp: sys_step_def event_ok_def)
next
  case EvReader
  with reader_step_ok[OF assms(1)] show ?thesis by (simp add: sys_step_def)
qed (use assms(1) in \<open>auto simp: sys_step_def sys_inv_def part_defs\<close>)

lemma sys_start_init [simp]: "sys_start (sys_init n) \<longleftrightarrow> 0 \<le> n"
  by (simp add: sys_start_def sys_init_def empty_queue_def)

interpretation threads: transition_system sys_start "sys_trans var" sys_inv for var
proof
  show "sys_inv s" if "sys_start s" for s
    using that sys_inv_init[of "q_max_count (sq s)"] by (simp add: sys_start_def)
  show "sys_inv t" if "sys_inv s" "sys_trans var s t" for s t
    using that(2) by (rule sys_transE) (use that(1) sys_step_ok[of s _ var] in fastforce)
qed

end
