(* ===== verification/Queue_Sync.thy ===== *)
theory Queue_Sync
  imports Queue_Threads
begin

text \<open>
  What the two threads of \<open>queue-threads.c\<close> achieve together, for each of the four
  synchronised variants: no statement fails, the critical sections exclude each other,
  the reader sees the writer's values in order, and no wakeup is lost. The machines of
  the variants are the instances \<open>spin_step\<close>, \<open>mutex_step\<close>, \<open>sem_step\<close> and \<open>cond_step\<close>.
\<close>

section \<open>The four programs\<close>

definition spin_step :: "event \<Rightarrow> sys \<Rightarrow> sys result" where
  "spin_step = sys_step Spin"

definition mutex_step :: "event \<Rightarrow> sys \<Rightarrow> sys result" where
  "mutex_step = sys_step Mutex"

definition sem_step :: "event \<Rightarrow> sys \<Rightarrow> sys result" where
  "sem_step = sys_step Semaphore"

definition cond_step :: "event \<Rightarrow> sys \<Rightarrow> sys result" where
  "cond_step = sys_step CondVar"

text \<open>What \<open>main\<close> sets up before it waits for the two threads.\<close>

definition spin_main :: sys where "spin_main = sys_init 100000000"
definition mutex_main :: sys where "mutex_main = sys_init 100000000"
definition sem_main :: sys where "sem_main = sys_init 100000000"
definition cond_main :: sys where "cond_main = sys_init 100000000"

section \<open>Creation and destruction\<close>

text \<open>\<open>conditionalVarible/queue.c\<close>; the four arguments are results of library calls.\<close>

definition queue_init_cond :: "bool \<Rightarrow> int \<Rightarrow> int \<Rightarrow> int \<Rightarrow> int \<Rightarrow> int \<Rightarrow> lqueue result" where
  "queue_init_cond malloc_ok lock_err not_full_err not_empty_err create_err max_count =
     (if \<not> malloc_ok then Inl Aborted
      else if lock_err \<noteq> 0 then Inl Aborted
      else if not_full_err \<noteq> 0 then Inl Aborted
      else if not_empty_err \<noteq> 0 then Inl Aborted
      else if create_err \<noteq> 0 then Inl Aborted
      else Inr (empty_lqueue max_count))"

definition queue_destroy_cond :: "nat \<Rightarrow> lqueue option \<Rightarrow> (addr \<rightharpoonup> qnode) result" where
  "queue_destroy_cond fuel p =
     (case p of None \<Rightarrow> Inr Map.empty
      | Some q \<Rightarrow> bindR (destroy_nodes fuel q) (\<lambda>q. Inr (q_heap q)))"

lemma free_chain_ok:
  "chain h qnext p as None \<Longrightarrow> length as < fuel \<Longrightarrow>
     free_chain fuel p h = Inr (\<lambda>b. if b \<in> set as then None else h b)"
proof (induction as arbitrary: p h fuel)
  case Nil
  then obtain f where "fuel = Suc f" by (cases fuel) auto
  with Nil show ?case by simp
next
  case (Cons a as)
  then obtain f n where fuel: "fuel = Suc f" "length as < f" and n: "p = Some a" "h a = Some n"
    and ch: "chain h qnext (qnext n) as None" by (cases fuel) (auto simp: chain_simps)
  from chain_distinct[OF Cons.prems(1)] have "a \<notin> set as" by simp
  then have "chain (h(a := None)) qnext (qnext n) as None" using ch by (simp del: fun_upd_apply)
  from Cons.IH[OF this fuel(2)] n fuel have
    "free_chain fuel p h = Inr (\<lambda>b. if b \<in> set as then None else (h(a := None)) b)"
    by (simp del: fun_upd_apply)
  moreover have "(\<lambda>b. if b \<in> set as then None else (h(a := None)) b) =
      (\<lambda>b. if b \<in> set (a # as) then None else h b)" by auto
  ultimately show ?case by simp
qed

lemma queue_at_destroy:
  assumes "queue_at q as xs" "length xs < fuel"
  shows "bindR (destroy_nodes fuel q) (\<lambda>q. Inr (q_heap q)) =
           Inr (\<lambda>b. if b \<in> set as then None else q_heap q b)"
  using assms queue_at_length[OF assms(1)] destroy_nodes_ok[of q as fuel] by (auto simp: queue_at_def)

section \<open>No wakeup is lost\<close>

text \<open>
  A thread that sleeps on its condition variable has a reason: the queue is still full
  (or empty), or the other thread is between changing \<open>count\<close> and its broadcast.
\<close>

definition wait_ok :: "variant \<Rightarrow> sys \<Rightarrow> bool" where
  "wait_ok var s \<longleftrightarrow>
     (w_waiting s \<longrightarrow> w_pc s = W_Waiting \<and>
        (q_count (sq s) = q_max_count (sq s) \<or> r_pc s = R_GetCount \<or> r_pc s = R_Broadcast)) \<and>
     (w_pc s = W_CondWait \<longrightarrow> q_count (sq s) = q_max_count (sq s)) \<and>
     (r_waiting s \<longrightarrow> r_pc s = R_Waiting \<and>
        (q_count (sq s) = 0 \<or> w_pc s = W_AddCount \<or> w_pc s = W_Broadcast)) \<and>
     (r_pc s = R_CondWait \<longrightarrow> q_count (sq s) = 0) \<and>
     (var \<noteq> CondVar \<longrightarrow> \<not> w_waiting s \<and> \<not> r_waiting s \<and> w_pc s \<noteq> W_CondWait \<and> r_pc s \<noteq> R_CondWait)"

lemma wait_ok_writer:
  assumes "lock_ok s" "wait_ok var s"
  shows "okR (wait_ok var) (writer_step var new s)"
proof -
  have "r_pc s \<noteq> R_CondWait" if "w_crit (w_pc s)" using assms(1) that by (auto simp: lock_ok_def)
  with assms(2) show ?thesis
    unfolding writer_step_def Let_def
    by (cases "w_pc s") (auto simp: wait_ok_def split: option.split variant.split)
qed

lemma wait_ok_reader:
  assumes "lock_ok s" "wait_ok var s"
  shows "okR (wait_ok var) (reader_step var s)"
proof -
  have "w_pc s \<noteq> W_CondWait" if "r_crit (r_pc s)" using assms(1) that by (auto simp: lock_ok_def)
  with assms(2) show ?thesis
    unfolding reader_step_def Let_def by (cases "r_pc s") (auto simp: wait_ok_def)
qed

lemma wait_ok_step: "lock_ok s \<Longrightarrow> wait_ok var s \<Longrightarrow> okR (wait_ok var) (sys_step var ev s)"
  using wait_ok_writer[of s var] wait_ok_reader[of s var]
  by (cases ev) (auto simp: sys_step_def wait_ok_def)

abbreviation finite_heap :: "sys \<Rightarrow> bool" where
  "finite_heap s \<equiv> finite (dom (q_heap (sq s)))"

lemma finite_heap_step: "finite_heap s \<Longrightarrow> okR finite_heap (sys_step var ev s)"
proof (cases ev)
  case (EvWriter p)
  assume "finite_heap s"
  then have "okR finite_heap (writer_step var p s)" unfolding writer_step_def Let_def
    by (cases "w_pc s") (auto split: option.split)
  then show ?thesis by (simp add: sys_step_def EvWriter)
next
  case EvReader
  assume "finite_heap s"
  then have "okR finite_heap (reader_step var s)" unfolding reader_step_def Let_def
    by (cases "r_pc s") auto
  then show ?thesis by (simp add: sys_step_def EvReader)
qed (auto simp: sys_step_def)

definition live_inv :: "variant \<Rightarrow> sys \<Rightarrow> bool" where
  "live_inv var s \<longleftrightarrow> sys_inv s \<and> wait_ok var s \<and> finite_heap s"

interpretation live: transition_system sys_start "sys_trans var" "live_inv var" for var
proof
  show "live_inv var s" if "sys_start s" for s
  proof -
    have "wait_ok var (sys_init n)" "finite_heap (sys_init n)" for n
      by (simp_all add: wait_ok_def sys_init_def empty_queue_def)
    with that threads.inv_start[OF that] show ?thesis unfolding live_inv_def sys_start_def by metis
  qed
  show "live_inv var t" if "live_inv var s" "sys_trans var s t" for s t
  proof -
    from that(2) obtain ev where ev: "sys_step var ev s = Inr t" by (rule sys_transE)
    from that(1) have "lock_ok s" by (simp add: live_inv_def sys_inv_def)
    with that ev threads.inv_step[of s var t] show ?thesis unfolding live_inv_def
      by (auto dest: okRD[OF finite_heap_step] okRD[OF wait_ok_step])
  qed
qed

section \<open>Progress\<close>

lemma w_crit_moves:
  assumes "w_crit (w_pc s)" "writer_step var new s = Inr t"
  shows "w_pc t \<noteq> w_pc s"
proof -
  from assms(1) have "okR (\<lambda>t. w_pc t \<noteq> w_pc s) (writer_step var new s)"
    unfolding writer_step_def Let_def by (cases "w_pc s") (auto split: variant.split)
  with assms(2) show ?thesis by simp
qed

lemma r_crit_moves:
  assumes "r_crit (r_pc s)" "reader_step var s = Inr t"
  shows "r_pc t \<noteq> r_pc s"
proof -
  from assms(1) have "okR (\<lambda>t. r_pc t \<noteq> r_pc s) (reader_step var s)"
    unfolding reader_step_def Let_def by (cases "r_pc s") auto
  with assms(2) show ?thesis by simp
qed

definition moves :: "variant \<Rightarrow> sys \<Rightarrow> bool" where
  "moves var s \<longleftrightarrow> (\<exists>ev t. (ev = EvReader \<or> (\<exists>a. ev = EvWriter (Some a) \<and> q_heap (sq s) a = None)) \<and>
     sys_step var ev s = Inr t \<and> (w_pc t \<noteq> w_pc s \<or> r_pc t \<noteq> r_pc s))"

lemma moves_writer:
  "q_heap (sq s) a = None \<Longrightarrow> writer_step var (Some a) s = Inr t \<Longrightarrow> w_pc t \<noteq> w_pc s \<Longrightarrow> moves var s"
  unfolding moves_def by (intro exI[of _ "EvWriter (Some a)"] exI[of _ t]) (simp add: sys_step_def)

lemma moves_reader: "reader_step var s = Inr t \<Longrightarrow> r_pc t \<noteq> r_pc s \<Longrightarrow> moves var s"
  unfolding moves_def by (intro exI[of _ EvReader] exI[of _ t]) (simp add: sys_step_def)

lemma live_moves:
  assumes "live_inv var s" "var = CondVar \<longrightarrow> 0 < q_max_count (sq s)"
  shows "moves var s"
proof -
  from assms(1) have inv: "sys_inv s" and wt: "wait_ok var s" and fin: "finite_heap s"
    and lk: "lock_ok s" by (auto simp: live_inv_def sys_inv_def)
  obtain a where a: "q_heap (sq s) a = None"
    using fin ex_new_if_finite[OF infinite_UNIV_nat fin] by (auto simp: dom_def)
  obtain t where t: "writer_step var (Some a) s = Inr t" using writer_step_ok[OF inv refl a] by blast
  obtain u where u: "reader_step var s = Inr u" using reader_step_ok[OF inv] by blast
  show ?thesis
  proof (cases "w_crit (w_pc s) \<or> r_crit (r_pc s)")
    case True
    with moves_writer[OF a t w_crit_moves[OF _ t]] moves_reader[OF u r_crit_moves[OF _ u]]
    show ?thesis by blast
  next
    case False
    then have free: "holder s = None" using lk by (cases "holder s") (auto simp: lock_ok_def intro: tid.exhaust)
    consider (wake_w) "\<not> w_waiting s" | (wake_r) "\<not> r_waiting s" | (both) "w_waiting s" "r_waiting s" by blast
    then show ?thesis
    proof cases
      case wake_w
      have "okR (\<lambda>t. w_pc t \<noteq> w_pc s) (writer_step var (Some a) s)"
        using False free wake_w unfolding writer_step_def Let_def by (cases "w_pc s") auto
      then show ?thesis using moves_writer[OF a t] t by simp
    next
      case wake_r
      have "okR (\<lambda>t. r_pc t \<noteq> r_pc s) (reader_step var s)"
        using False free wake_r unfolding reader_step_def Let_def by (cases "r_pc s") auto
      then show ?thesis using moves_reader[OF u] u by simp
    next
      case both
      with wt assms(2) show ?thesis by (auto simp: wait_ok_def)
    qed
  qed
qed

section \<open>Properties\<close>

text \<open>
  \<open>queue_destroy\<close> of the spinlock, mutex, semaphore and condition-variable queue
  returns and frees exactly the nodes of the queue: the first, second and fourth count
  the nodes down, the third follows the links. One iteration more than nodes is enough.
\<close>

theorem locked_destroy_frees:
  assumes "queue_at lq as xs" "queue_at tq bs ys" "length xs < fuel" "length ys < fuel"
  shows "queue_destroy_spin fuel (Some lq) = Inr (\<lambda>b. if b \<in> set as then None else q_heap lq b) \<and>
    queue_destroy_mutex fuel (Some lq) = Inr (\<lambda>b. if b \<in> set as then None else q_heap lq b) \<and>
    queue_destroy_cond fuel (Some lq) = Inr (\<lambda>b. if b \<in> set as then None else q_heap lq b) \<and>
    queue_destroy_sem err 0 fuel tq = Inr (\<lambda>b. if b \<in> set bs then None else q_heap tq b)"
  using queue_at_destroy[OF assms(1,3)] queue_at_length[OF assms(2)] assms(2,4)
    free_chain_ok[of "q_heap tq" "q_first tq" bs fuel]
  by (simp_all add: queue_destroy_spin_def queue_destroy_mutex_def queue_destroy_cond_def
      queue_destroy_sem_def queue_at_def)

theorem locked_destroy_frees_witness:
  "queue_destroy_cond 1 (Some (empty_lqueue 2)) = Inr Map.empty \<and>
   queue_destroy_sem 0 0 1 (empty_squeue 2) = Inr Map.empty"
proof -
  have "queue_at (empty_lqueue 2) [] []" "queue_at (empty_squeue 2) [] []"
    by (simp_all add: queue_at_def empty_locked_defs)
  from locked_destroy_frees[OF this, of 1 0] show ?thesis by (simp add: empty_locked_defs)
qed

text \<open>Running the program under a schedule that is given as a list of events.\<close>

fun run_events :: "variant \<Rightarrow> event list \<Rightarrow> sys \<Rightarrow> sys result" where
  "run_events var [] s = Inr s"
| "run_events var (ev # evs) s =
     (if event_ok ev s then bindR (sys_step var ev s) (run_events var evs) else Inl Aborted)"

lemma run_events_reachable:
  "reachable sys_start (sys_trans var) s \<Longrightarrow> run_events var evs s = Inr t \<Longrightarrow>
     reachable sys_start (sys_trans var) t"
proof (induction evs arbitrary: s)
  case (Cons ev evs)
  then obtain u where "event_ok ev s" "sys_step var ev s = Inr u" "run_events var evs u = Inr t"
    by (auto simp: result_simps split: if_splits)
  with Cons show ?case by (blast intro: reach_step sys_trans.intros)
qed simp

text \<open>The writer inserts one value and blocks on the second in a queue of capacity one.\<close>

definition blocked_writer :: "event list" where
  "blocked_writer = EvWriter (Some 0) # replicate 10 (EvWriter (Some 1)) @ replicate 5 (EvWriter (Some 2))"

lemma blocked_writer_run:
  "case run_events CondVar blocked_writer (sys_init 1) of Inl _ \<Rightarrow> False
     | Inr s \<Rightarrow> w_waiting s \<and> q_max_count (sq s) = 1"
  by code_simp

lemma reachable_main: "0 \<le> n \<Longrightarrow> reachable sys_start (sys_trans var) (sys_init n)"
  by (rule reach_start) simp

text \<open>
  In every state the two threads can reach, with any of the four kinds of
  synchronisation, every statement of either thread executes without error: no null or
  dangling pointer is followed, no node is freed twice, no assertion fails.
\<close>

theorem threads_never_fail:
  assumes "reachable sys_start (sys_trans var) s" "event_ok ev s"
  shows "\<exists>t. sys_step var ev s = Inr t"
  using threads.reachable_inv[OF assms(1)] sys_step_ok[OF _ assms(2)] by blast

theorem threads_never_fail_witness: "\<exists>t. sys_step CondVar (EvWriter (Some 5)) cond_main = Inr t"
  using threads_never_fail[OF reachable_main[of 100000000 CondVar], of "EvWriter (Some 5)"]
  by (simp add: cond_main_def event_ok_def sys_init_def empty_queue_def)

text \<open>
  The writer and the reader are never both between the acquisition and the release
  of the lock, and the holder of the lock is the thread that is.
\<close>

theorem threads_exclude:
  assumes "reachable sys_start (sys_trans var) s"
  shows "\<not> (w_crit (w_pc s) \<and> r_crit (r_pc s)) \<and>
    holder s = (if w_crit (w_pc s) then Some Writer else if r_crit (r_pc s) then Some Reader else None)"
  using threads.reachable_inv[OF assms]
  by (cases "holder s") (auto simp: sys_inv_def lock_ok_def intro: tid.exhaust)

theorem threads_exclude_witness: "\<not> (w_crit (w_pc spin_main) \<and> r_crit (r_pc spin_main))"
  using threads_exclude[OF reachable_main[of 100000000 Spin]] by (simp add: spin_main_def)

text \<open>
  C1. The reader never prints its error message: the values it has received are
  \<open>0, 1, 2, ...\<close> without a gap, and whenever no thread is inside a critical section the
  queue holds exactly the values inserted and not yet received, in order, \<open>count\<close> is
  their number, and both are within the capacity.
\<close>

theorem threads_fifo:
  assumes "reachable sys_start (sys_trans var) s"
  shows "r_errors s = 0 \<and> (holder s = None \<longrightarrow>
    (\<exists>as. chain (q_heap (sq s)) qnext (q_first (sq s)) as None \<and>
       node_vals (q_heap (sq s)) as = [r_expected s + of_bool (r_taken (r_pc s))..w_i s - 1] \<and>
       q_count (sq s) = int (length as) \<and> q_count (sq s) \<le> q_max_count (sq s)))"
proof -
  from threads.reachable_inv[OF assms] obtain as where lk: "lock_ok s"
    and inv: "counters_at s (length as)" "nodes_at s as" "values_at s as" by (auto simp: sys_inv_def)
  have "\<exists>as. chain (q_heap (sq s)) qnext (q_first (sq s)) as None \<and>
       node_vals (q_heap (sq s)) as = [r_expected s + of_bool (r_taken (r_pc s))..w_i s - 1] \<and>
       q_count (sq s) = int (length as) \<and> q_count (sq s) \<le> q_max_count (sq s)" if "holder s = None"
  proof (intro exI[of _ as] conjI)
    from lk that have "\<not> w_crit (w_pc s)" "\<not> r_crit (r_pc s)" by (auto simp: lock_ok_def)
    note n = not_w_crit[OF this(1)] not_r_crit[OF this(2)]
    show "chain (q_heap (sq s)) qnext (q_first (sq s)) as None" using inv(2) by (simp add: nodes_at_def)
    show "node_vals (q_heap (sq s)) as = [r_expected s + of_bool (r_taken (r_pc s))..w_i s - 1]"
      using inv(3) n by (simp add: values_at_def Let_def)
    show "q_count (sq s) = int (length as)" "q_count (sq s) \<le> q_max_count (sq s)"
      using inv(1) n by (simp_all add: counters_at_def)
  qed
  with inv(3) show ?thesis by (auto simp: values_at_def)
qed

theorem threads_fifo_witness: "r_errors mutex_main = 0 \<and>
    (\<exists>as. q_count (sq mutex_main) = int (length as) \<and> node_vals (q_heap (sq mutex_main)) as = [])"
  using threads_fifo[OF reachable_main[of 100000000 Mutex]]
  by (auto simp: mutex_main_def sys_init_def empty_queue_def)

text \<open>
  C16. No deadlock and no lost wakeup: in every reachable state one of the threads can
  execute a statement that moves it on. With the condition variables this needs a
  capacity of at least one, and it does not rely on spurious wakeups.
\<close>

theorem threads_progress:
  assumes "reachable sys_start (sys_trans var) s" "var = CondVar \<longrightarrow> 0 < q_max_count (sq s)"
  shows "moves var s"
  by (rule live_moves[OF live.reachable_inv[OF assms(1)] assms(2)])

theorem threads_progress_witness:
  "\<exists>s. run_events CondVar blocked_writer (sys_init 1) = Inr s \<and> w_waiting s \<and> moves CondVar s"
proof -
  obtain s where s: "run_events CondVar blocked_writer (sys_init 1) = Inr s"
    and w: "w_waiting s \<and> q_max_count (sq s) = 1" using blocked_writer_run by (auto simp: okR_def split: sum.splits)
  from s have "reachable sys_start (sys_trans CondVar) s"
    by (rule run_events_reachable[OF reachable_main, rotated]) simp
  from threads_progress[OF this] s w show ?thesis by auto
qed

end
