(* ===== verification/Queue_Plain.thy ===== *)
theory Queue_Plain
  imports Queue_Core
begin

text \<open>
  The unsynchronised queues: \<open>task2_1/queue.c\<close> and its copy \<open>task2_2/d/queue.c\<close>.
  Both are interpreted as bounded queues that never leak a node. The example program
  \<open>queue-example.c\<close> is run on the first.
\<close>

section \<open>sem2/lab2/task2_1/queue.c\<close>

text \<open>
  The arguments besides the source's are what the library calls return: whether
  \<open>malloc\<close> of the queue succeeded and the error code of \<open>pthread_create\<close>; the
  pointer \<open>malloc\<close> returns for a new node.
\<close>

definition queue_init :: "bool \<Rightarrow> int \<Rightarrow> int \<Rightarrow> queue result" where
  "queue_init malloc_ok create_err max_count =
     (if \<not> malloc_ok then Inl Aborted
      else if create_err \<noteq> 0 then Inl Aborted
      else Inr (empty_queue max_count))"

definition queue_add :: "ptr \<Rightarrow> int \<Rightarrow> queue \<Rightarrow> (int \<times> queue) result" where
  "queue_add new v q0 =
     (let q = q0\<lparr>add_attempts := add_attempts q0 + 1\<rparr> in
      if \<not> q_count q \<le> q_max_count q then Inl AssertFailed
      else if q_count q = q_max_count q then Inr (0, q)
      else case new of
        None \<Rightarrow> Inl Aborted
      | Some a \<Rightarrow>
          bindR (append_node a (init_node a v q)) (\<lambda>q.
            Inr (1, q\<lparr>q_count := q_count q + 1, add_count := add_count q + 1\<rparr>)))"

text \<open>The value stored through \<open>val\<close> is \<open>None\<close> when nothing is stored.\<close>

definition queue_get :: "queue \<Rightarrow> (int \<times> int option \<times> queue) result" where
  "queue_get q0 =
     (let q = q0\<lparr>get_attempts := get_attempts q0 + 1\<rparr> in
      if \<not> q_count q \<ge> 0 then Inl AssertFailed
      else if q_count q = 0 then Inr (0, None, q)
      else let tmp = q_first q in
        bindR (load (q_heap q) tmp) (\<lambda>n.
        bindR (release (q_heap q) tmp) (\<lambda>h.
          Inr (1, Some (qval n),
            q\<lparr>q_first := qnext n, q_heap := h, q_count := q_count q - 1,
              get_count := get_count q + 1\<rparr>))))"

text \<open>
  \<open>queue_destroy\<close>: what is left on the heap, after cancelling and joining the monitor
  (whose failures are only printed) and freeing the nodes.
\<close>

definition queue_destroy :: "nat \<Rightarrow> queue \<Rightarrow> (addr \<rightharpoonup> qnode) result" where
  "queue_destroy fuel q = bindR (destroy_nodes fuel q) (\<lambda>q. Inr (q_heap q))"

definition queue_stats :: "'x queue_scheme \<Rightarrow> int list" where
  "queue_stats q =
     [q_count q, add_attempts q, get_attempts q, add_attempts q - get_attempts q,
      add_count q, get_count q, add_count q - get_count q]"

section \<open>sem2/lab2/task2_2/d/queue.c\<close>

definition queue_init_d :: "bool \<Rightarrow> int \<Rightarrow> int \<Rightarrow> queue result" where
  "queue_init_d malloc_ok create_err max_count =
     (if \<not> malloc_ok then Inl Aborted
      else if create_err \<noteq> 0 then Inl Aborted
      else Inr (empty_queue max_count))"

definition queue_add_d :: "ptr \<Rightarrow> int \<Rightarrow> queue \<Rightarrow> (int \<times> queue) result" where
  "queue_add_d new v q0 =
     (let q = q0\<lparr>add_attempts := add_attempts q0 + 1\<rparr> in
      if \<not> q_count q \<le> q_max_count q then Inl AssertFailed
      else if q_count q = q_max_count q then Inr (0, q)
      else case new of
        None \<Rightarrow> Inl Aborted
      | Some a \<Rightarrow>
          bindR (append_node a (init_node a v q)) (\<lambda>q.
            Inr (1, q\<lparr>q_count := q_count q + 1, add_count := add_count q + 1\<rparr>)))"

definition queue_get_d :: "queue \<Rightarrow> (int \<times> int option \<times> queue) result" where
  "queue_get_d q0 =
     (let q = q0\<lparr>get_attempts := get_attempts q0 + 1\<rparr> in
      if \<not> q_count q \<ge> 0 then Inl AssertFailed
      else if q_count q = 0 then Inr (0, None, q)
      else let tmp = q_first q in
        bindR (load (q_heap q) tmp) (\<lambda>n.
        bindR (release (q_heap q) tmp) (\<lambda>h.
          Inr (1, Some (qval n),
            q\<lparr>q_first := qnext n, q_heap := h, q_count := q_count q - 1,
              get_count := get_count q + 1\<rparr>))))"

definition queue_destroy_d :: "nat \<Rightarrow> queue \<Rightarrow> (addr \<rightharpoonup> qnode) result" where
  "queue_destroy_d fuel q = bindR (destroy_nodes fuel q) (\<lambda>q. Inr (q_heap q))"

lemma d_same: "queue_add_d = queue_add" "queue_get_d = queue_get"
  by (auto simp: fun_eq_iff queue_add_d_def queue_add_def queue_get_d_def queue_get_def)

section \<open>Correctness of the operations\<close>

lemma queue_add_full:
  "queue_at q as xs \<Longrightarrow> q_count q = q_max_count q \<Longrightarrow>
     queue_add p v q = Inr (0, q\<lparr>add_attempts := add_attempts q + 1\<rparr>)"
  by (simp add: queue_add_def)

lemma queue_add_room:
  assumes at: "queue_at q as xs" and room: "q_count q \<noteq> q_max_count q"
    and fr: "q_heap q a = None"
  shows "\<exists>q'. queue_add (Some a) v q = Inr (1, q') \<and> queue_at q' (as @ [a]) (xs @ [v]) \<and>
     dom (q_heap q') = insert a (dom (q_heap q)) \<and> q_max_count q' = q_max_count q"
proof -
  let ?q = "q\<lparr>add_attempts := add_attempts q + 1\<rparr>"
  from at have "queue_at ?q as xs" "add_count ?q < add_attempts ?q" "q_count q \<le> q_max_count q"
    by (auto simp: queue_at_def)
  with append_node_at[of ?q as xs a v] room fr obtain q' where
    "append_node a (init_node a v ?q) = Inr q'"
    "queue_at (q'\<lparr>q_count := q_count q' + 1, add_count := add_count q' + 1\<rparr>) (as @ [a]) (xs @ [v])"
    "dom (q_heap q') = insert a (dom (q_heap q))" "same_stats q' ?q"
    by auto
  with \<open>q_count q \<le> q_max_count q\<close> room show ?thesis
    by (auto simp: queue_add_def same_stats_def)
qed

lemma queue_get_cons:
  assumes "queue_at q as (x # xs)"
  shows "\<exists>q'. queue_get q = Inr (1, Some x, q') \<and> queue_at q' (tl as) xs \<and>
     dom (q_heap q') = dom (q_heap q) - {hd as} \<and> q_max_count q' = q_max_count q"
proof -
  let ?q = "q\<lparr>get_attempts := get_attempts q + 1\<rparr>"
  from assms have "queue_at ?q as (x # xs)" "get_count ?q < get_attempts ?q" "0 < q_count q"
    by (auto simp: queue_at_def)
  from queue_at_unlink[OF this(1,2)] \<open>0 < q_count q\<close> show ?thesis
    by (auto simp: queue_get_def Let_def)
qed

lemma queue_get_nil:
  "queue_at q as [] \<Longrightarrow> queue_get q = Inr (0, None, q\<lparr>get_attempts := get_attempts q + 1\<rparr>)"
  by (auto simp: queue_get_def queue_at_def)

lemma queue_at_attempts:
  "queue_at q as xs \<Longrightarrow> queue_at (q\<lparr>add_attempts := add_attempts q + 1\<rparr>) as xs"
  "queue_at q as xs \<Longrightarrow> queue_at (q\<lparr>get_attempts := get_attempts q + 1\<rparr>) as xs"
  by (auto simp: queue_at_def)

interpretation plain: bounded_queue queue_exact q_max_count "\<lambda>p q. fresh (q_heap q) p"
  queue_add queue_get
proof
  fix q :: queue and xs x a v
  show "queue_exact q xs \<Longrightarrow> int (length xs) \<le> q_max_count q"
    by (auto simp: queue_exact_def queue_at_def)
  show "\<exists>q'. queue_add (Some a) v q = Inr (1, q') \<and> queue_exact q' (xs @ [v]) \<and>
      q_max_count q' = q_max_count q"
    if ex: "queue_exact q xs" and fr: "fresh (q_heap q) (Some a)"
      and room: "int (length xs) < q_max_count q"
  proof -
    from ex obtain as where as: "queue_at q as xs" "dom (q_heap q) = set as"
      by (auto simp: queue_exact_def)
    with room have "q_count q \<noteq> q_max_count q" by (auto simp: queue_at_def)
    from queue_add_room[OF as(1) this, of a v] fr as(2) show ?thesis
      by (force simp: queue_exact_def)
  qed
  show "\<exists>q'. queue_add (Some a) v q = Inr (0, q') \<and> queue_exact q' xs \<and>
      q_max_count q' = q_max_count q"
    if "queue_exact q xs" "int (length xs) = q_max_count q"
  proof -
    from that obtain as where as: "queue_at q as xs" "dom (q_heap q) = set as"
      by (auto simp: queue_exact_def)
    with that have "q_count q = q_max_count q" by (auto simp: queue_at_def)
    from queue_add_full[OF as(1) this] queue_at_attempts(1)[OF as(1)] as(2) show ?thesis
      by (auto simp: queue_exact_def)
  qed
  show "\<exists>q'. queue_get q = Inr (1, Some x, q') \<and> queue_exact q' xs \<and>
      q_max_count q' = q_max_count q" if "queue_exact q (x # xs)"
  proof -
    from that obtain as where as: "queue_at q as (x # xs)" "dom (q_heap q) = set as"
      by (auto simp: queue_exact_def)
    then have "distinct as" "as \<noteq> []" by (auto simp: queue_at_def dest: chain_distinct)
    then have "set (tl as) = set as - {hd as}" by (cases as) auto
    with queue_get_cons[OF as(1)] as(2) show ?thesis
      by (force simp: queue_exact_def)
  qed
  show "\<exists>q'. queue_get q = Inr (0, None, q') \<and> queue_exact q' [] \<and>
      q_max_count q' = q_max_count q" if "queue_exact q []"
  proof -
    from that obtain as where as: "queue_at q as []" "dom (q_heap q) = set as"
      by (auto simp: queue_exact_def)
    from queue_get_nil[OF as(1)] queue_at_attempts(2)[OF as(1)] as(2) show ?thesis
      by (auto simp: queue_exact_def)
  qed
qed

interpretation plain_d: bounded_queue queue_exact q_max_count "\<lambda>p q. fresh (q_heap q) p"
  queue_add_d queue_get_d
  unfolding d_same by (rule plain.bounded_queue_axioms)

lemma queue_destroy_exact:
  assumes "queue_exact q xs" "length xs < fuel"
  shows "queue_destroy fuel q = Inr Map.empty"
proof -
  from assms obtain as where as: "queue_at q as xs" "dom (q_heap q) = set as"
    by (auto simp: queue_exact_def)
  with assms queue_at_length[OF as(1)] destroy_nodes_ok[of q as fuel]
  obtain q' where "destroy_nodes fuel q = Inr q'"
    "q_heap q' = (\<lambda>b. if b \<in> set as then None else q_heap q b)"
    by (auto simp: queue_at_def)
  with as(2) show ?thesis by (auto simp: queue_destroy_def fun_eq_iff)
qed

section \<open>sem2/lab2/task2_1/queue-example.c\<close>

text \<open>
  \<open>main\<close>: ten insertions of \<open>0..9\<close> with nodes at addresses the caller supplies, then
  twelve removals, then the destruction; the result is what the program prints.
\<close>

definition example_ops :: "(nat \<Rightarrow> addr) \<Rightarrow> qop list" where
  "example_ops node = map (\<lambda>i. QAdd (Some (node i)) (int i)) [0..<10] @ replicate 12 QGet"

definition example_main :: "(nat \<Rightarrow> addr) \<Rightarrow> ((int \<times> int option) list \<times> (addr \<rightharpoonup> qnode)) result" where
  "example_main node =
     bindR (queue_init True 0 1000) (\<lambda>q.
     bindR (run_ops queue_add queue_get (example_ops node) q) (\<lambda>(rs, q).
     bindR (queue_destroy 1 q) (\<lambda>h. Inr (rs, h))))"

text \<open>\<open>queue-example.c\<close> of \<open>task2_2/d\<close>, over the operations of its own \<open>queue.c\<close>.\<close>

definition example_main_d :: "(nat \<Rightarrow> addr) \<Rightarrow> ((int \<times> int option) list \<times> (addr \<rightharpoonup> qnode)) result" where
  "example_main_d node =
     bindR (queue_init_d True 0 1000) (\<lambda>q.
     bindR (run_ops queue_add_d queue_get_d (example_ops node) q) (\<lambda>(rs, q).
     bindR (queue_destroy_d 1 q) (\<lambda>h. Inr (rs, h))))"

lemma example_main_d_same: "example_main_d = example_main"
  by (simp add: fun_eq_iff example_main_d_def example_main_def d_same queue_init_d_def queue_init_def queue_destroy_d_def queue_destroy_def)

section \<open>Properties\<close>

text \<open>
  C23. Every run of insertions and removals on the queue of \<open>task2_1\<close> refines the
  bounded abstract FIFO queue: no operation fails (no failed \<open>assert\<close>, no invalid
  pointer), every return code and value is the abstract one, and the memory
  represents the abstract list with no node leaked.
\<close>

theorem queue_run_refines:
  assumes "queue_exact q xs" "allocs_ok (\<lambda>p q. fresh (q_heap q) p) queue_add queue_get ops q"
  shows "\<exists>q'. run_ops queue_add queue_get ops q =
             Inr (fst (spec_ops (q_max_count q) ops xs), q') \<and>
           queue_exact q' (snd (spec_ops (q_max_count q) ops xs)) \<and> q_max_count q' = q_max_count q"
  by (rule plain.run_refines[OF assms])

theorem queue_run_refines_witness:
  "\<exists>q'. run_ops queue_add queue_get [QAdd (Some 1) 7, QAdd (Some 2) 8, QGet] (empty_queue 1) =
             Inr ([(1, None), (0, None), (1, Some 7)], q') \<and> queue_exact q' []"
proof -
  have "allocs_ok (\<lambda>p q. fresh (q_heap q) p) queue_add queue_get
      [QAdd (Some 1) 7, QAdd (Some 2) 8, QGet] (empty_queue 1)"
    by (simp add: queue_add_def empty_queue_def append_node_def init_node_def queue_get_def)
  from queue_run_refines[OF queue_exact_empty this] show ?thesis
    by (auto simp: empty_queue_def)
qed

text \<open>
  First in, first out, and nothing lost: from any queue, the values in it followed
  by the values a run inserts are the values the run hands out followed by those that
  remain, and never more than \<open>max_count\<close> remain.
\<close>

theorem queue_run_fifo:
  assumes "queue_exact q xs" "allocs_ok (\<lambda>p q. fresh (q_heap q) p) queue_add queue_get ops q"
  shows "\<exists>rs q' ys. run_ops queue_add queue_get ops q = Inr (rs, q') \<and> queue_exact q' ys \<and>
           xs @ accepted ops rs = handed_out rs @ ys \<and> int (length ys) \<le> q_max_count q"
  by (rule plain.run_fifo[OF assms])

theorem queue_run_fifo_witness:
  "\<exists>rs q' ys. run_ops queue_add queue_get [QAdd (Some 1) 7, QGet] (empty_queue 1) = Inr (rs, q') \<and>
     queue_exact q' ys \<and> accepted [QAdd (Some 1) 7, QGet] rs = handed_out rs @ ys"
proof -
  have "allocs_ok (\<lambda>p q. fresh (q_heap q) p) queue_add queue_get
      [QAdd (Some 1) 7, QGet] (empty_queue 1)"
    by (simp add: queue_add_def empty_queue_def append_node_def init_node_def queue_get_def)
  from queue_run_fifo[OF queue_exact_empty this] show ?thesis by auto
qed

text \<open>
  After any run that starts from \<open>queue_init\<close>, \<open>queue_destroy\<close> returns (one more
  test of its guard than nodes is enough) and leaves no node allocated.
\<close>

theorem queue_destroy_frees_all:
  assumes "0 \<le> n" "queue_init True 0 n = Inr q"
    and "allocs_ok (\<lambda>p q. fresh (q_heap q) p) queue_add queue_get ops q"
    and "run_ops queue_add queue_get ops q = Inr (rs, q')" "nat n < fuel"
  shows "queue_destroy fuel q' = Inr Map.empty"
proof -
  from assms(1,2) have "queue_exact q []" "q_max_count q = n"
    using queue_exact_empty[of n] by (auto simp: queue_init_def empty_queue_def)
  with plain.run_refines[OF _ assms(3)] assms(4) obtain ys where
    "queue_exact q' ys" "q_max_count q' = n" by auto
  with plain.rep_bound[of q' ys] assms(5) show ?thesis
    by (intro queue_destroy_exact) auto
qed

theorem queue_destroy_frees_all_witness:
  "\<exists>rs q'. run_ops queue_add queue_get [QAdd (Some 1) 7] (empty_queue 3) = Inr (rs, q') \<and>
     queue_destroy 4 q' = Inr Map.empty"
proof -
  have a: "allocs_ok (\<lambda>p q. fresh (q_heap q) p) queue_add queue_get
      [QAdd (Some 1) 7] (empty_queue 3)" by (simp add: empty_queue_def)
      (simp add: queue_add_def append_node_def init_node_def)
  obtain rs q' where r: "run_ops queue_add queue_get [QAdd (Some 1) 7] (empty_queue 3) = Inr (rs, q')"
    using plain.run_refines[OF queue_exact_empty a] by auto
  have "queue_destroy 4 q' = Inr Map.empty"
    by (rule queue_destroy_frees_all[OF _ _ a r, where n = 3]) (simp_all add: queue_init_def)
  with r show ?thesis by blast
qed

text \<open>
  The example program, whatever distinct addresses \<open>malloc\<close> chooses: ten successful
  insertions, the values \<open>0..9\<close> in order, two failed removals, and nothing left
  allocated at the end.
\<close>

lemma example_spec:
  "spec_ops 1000 (example_ops node) [] =
     (replicate 10 (1, None) @ map (\<lambda>i. (1, Some (int i))) [0..<10] @ replicate 2 (0, None), [])"
  by (simp add: example_ops_def upt_rec numeral_eq_Suc)

lemma fresh_run_adds:
  assumes "queue_at q as xs" "set as \<union> set (map node is) \<subseteq> A" "dom (q_heap q) = set as"
    "distinct (as @ map node is)"
    "int (length as + length is) \<le> q_max_count q"
    "\<And>q'. allocs_ok (\<lambda>p q. fresh (q_heap q) p) queue_add queue_get (replicate n QGet) q'"
  shows "allocs_ok (\<lambda>p q. fresh (q_heap q) p) queue_add queue_get
     (map (\<lambda>i. QAdd (Some (node i)) (int i)) is @ replicate n QGet) q"
  using assms
proof (induction "is" arbitrary: q as xs)
  case (Cons i "is")
  from Cons.prems have "q_heap q (node i) = None" "q_count q \<noteq> q_max_count q"
    by (auto simp: queue_at_def domIff)
  from queue_add_room[OF Cons.prems(1) this(2) this(1), of "int i"] obtain q' where
    q': "queue_add (Some (node i)) (int i) q = Inr (1, q')" "queue_at q' (as @ [node i]) (xs @ [int i])"
      "dom (q_heap q') = insert (node i) (dom (q_heap q))" "q_max_count q' = q_max_count q" by blast
  have "allocs_ok (\<lambda>p q. fresh (q_heap q) p) queue_add queue_get
     (map (\<lambda>i. QAdd (Some (node i)) (int i)) is @ replicate n QGet) q'"
    by (rule Cons.IH[OF q'(2)]) (use Cons.prems q' in auto)
  with q'(1) \<open>q_heap q (node i) = None\<close> show ?case by simp
qed simp

lemma allocs_ok_gets:
  "allocs_ok env add get (replicate n QGet) q"
  by (induction n arbitrary: q) (auto split: sum.splits)

theorem example_main_output:
  assumes "inj node"
  shows "example_main node =
     Inr (replicate 10 (1, None) @ map (\<lambda>i. (1, Some (int i))) [0..<10] @ replicate 2 (0, None),
          Map.empty)"
proof -
  have ok: "allocs_ok (\<lambda>p q. fresh (q_heap q) p) queue_add queue_get (example_ops node)
      (empty_queue 1000)"
    unfolding example_ops_def
    by (rule fresh_run_adds[where as = "[]" and xs = "[]" and A = UNIV])
      (use assms queue_at_empty[of 1000] in \<open>auto simp: empty_queue_def distinct_map inj_on_def inj_def
         intro: allocs_ok_gets\<close>)
  have "q_max_count (empty_queue 1000) = 1000" by (simp add: empty_queue_def)
  with plain.run_refines[OF queue_exact_empty ok] obtain q' where q':
    "run_ops queue_add queue_get (example_ops node) (empty_queue 1000) =
       Inr (fst (spec_ops 1000 (example_ops node) []), q')"
    "queue_exact q' (snd (spec_ops 1000 (example_ops node) []))" by auto
  with queue_destroy_exact[of q' "[]" 1] show ?thesis
    by (simp add: example_main_def queue_init_def example_spec)
qed

theorem example_main_output_witness:
  "inj Suc \<and> map_option snd (case example_main Suc of Inl e \<Rightarrow> None | Inr r \<Rightarrow> Some r) = Some Map.empty"
  using example_main_output[OF inj_Suc] by simp

end
