(* ===== verification/Swap_List.thy ===== *)
theory Swap_List
  imports OS_Prelude
begin

text \<open>
  \<open>task2_3\<close>: a linked list whose nodes each carry a lock. Three threads walk over it
  comparing neighbours and three threads swap neighbours, all hand over hand. The three
  implementations differ in the lock of a node: a mutex, a spinlock, or a read-write lock
  that the walking threads take for reading. This theory holds the construction of the
  list and the statement-level machine of the threads; \<open>Swap_Inv\<close> holds its invariant.
\<close>

section \<open>Nodes and their locks\<close>

datatype lock_mode = Shared | Exclusive

type_synonym thread_id = nat

text \<open>A node; \<open>value\<close> is the string in its buffer, \<open>sync\<close> lists who holds its lock.\<close>

record lnode =
  lvalue :: string
  lnext :: ptr
  lsync :: "(thread_id \<times> lock_mode) list"

type_synonym lheap = "addr \<rightharpoonup> lnode"

definition max_str :: nat where "max_str = 100"

definition can_lock :: "lock_mode \<Rightarrow> (thread_id \<times> lock_mode) list \<Rightarrow> bool" where
  "can_lock m holders \<longleftrightarrow>
     (case m of Exclusive \<Rightarrow> holders = [] | Shared \<Rightarrow> list_all (\<lambda>(t, m'). m' = Shared) holders)"

section \<open>Construction and destruction\<close>

text \<open>
  \<open>rand\<close> lists what the library's \<open>rand()\<close> returns after \<open>srand(1)\<close>. The string and its
  terminating zero must fit the buffer.
\<close>

definition alphabet :: string where "alphabet = ''abcdefghijklmnopqrstuvwxyz''"

definition random_string :: "nat \<Rightarrow> (nat \<Rightarrow> nat) \<Rightarrow> nat \<Rightarrow> string result" where
  "random_string cap rand len =
     (if len < cap then Inr (map (\<lambda>i. alphabet ! (rand i mod length alphabet)) [0..<len])
      else Inl Overrun)"

text \<open>
  The loop of \<open>list_init\<close>: \<open>node i\<close> and \<open>lock_err i\<close> are what \<open>malloc\<close> and the
  initialisation of the lock return for the node of iteration \<open>i\<close>. The random generator
  is seeded anew in every iteration.
\<close>

fun add_nodes ::
  "(nat \<Rightarrow> nat) \<Rightarrow> (nat \<Rightarrow> ptr) \<Rightarrow> (nat \<Rightarrow> int) \<Rightarrow> nat \<Rightarrow> nat \<Rightarrow> addr \<Rightarrow> lheap \<Rightarrow> lheap result" where
  "add_nodes rand node lock_err i 0 prev h = Inr h"
| "add_nodes rand node lock_err i (Suc k) prev h =
     (case node i of None \<Rightarrow> Inl Aborted
      | Some a \<Rightarrow>
          let len = 1 + rand 0 mod (max_str - 1) in
          bindR (random_string max_str (\<lambda>j. rand (Suc j)) len) (\<lambda>v.
          if lock_err i \<noteq> 0 then Inl Aborted
          else bindR (modify (h(a \<mapsto> \<lparr>lvalue = v, lnext = None, lsync = []\<rparr>)) (Some prev)
                        (\<lambda>n. n\<lparr>lnext := Some a\<rparr>)) (\<lambda>h.
               add_nodes rand node lock_err (Suc i) k a h)))"

definition start_node :: lnode where
  "start_node = \<lparr>lvalue = [], lnext = None, lsync = []\<rparr>"

definition list_init_mutex ::
  "(nat \<Rightarrow> nat) \<Rightarrow> bool \<Rightarrow> ptr \<Rightarrow> int \<Rightarrow> (nat \<Rightarrow> ptr) \<Rightarrow> (nat \<Rightarrow> int) \<Rightarrow> nat \<Rightarrow> (addr \<times> lheap) result" where
  "list_init_mutex rand list_ok first first_err node lock_err n =
     (if \<not> list_ok then Inl Aborted
      else case first of None \<Rightarrow> Inl Aborted
        | Some a \<Rightarrow>
            if first_err \<noteq> 0 then Inl Aborted
            else bindR (add_nodes rand node lock_err 0 n a [a \<mapsto> start_node]) (\<lambda>h. Inr (a, h)))"

definition list_init_spin ::
  "(nat \<Rightarrow> nat) \<Rightarrow> bool \<Rightarrow> ptr \<Rightarrow> int \<Rightarrow> (nat \<Rightarrow> ptr) \<Rightarrow> (nat \<Rightarrow> int) \<Rightarrow> nat \<Rightarrow> (addr \<times> lheap) result" where
  "list_init_spin rand list_ok first first_err node lock_err n =
     (if \<not> list_ok then Inl Aborted
      else case first of None \<Rightarrow> Inl Aborted
        | Some a \<Rightarrow>
            if first_err \<noteq> 0 then Inl Aborted
            else bindR (add_nodes rand node lock_err 0 n a [a \<mapsto> start_node]) (\<lambda>h. Inr (a, h)))"

text \<open>The result of \<open>pthread_rwlock_init\<close> is not looked at.\<close>

definition list_init_rwlock ::
  "(nat \<Rightarrow> nat) \<Rightarrow> bool \<Rightarrow> ptr \<Rightarrow> (nat \<Rightarrow> ptr) \<Rightarrow> nat \<Rightarrow> (addr \<times> lheap) result" where
  "list_init_rwlock rand list_ok first node n =
     (if \<not> list_ok then Inl Aborted
      else case first of None \<Rightarrow> Inl Aborted
        | Some a \<Rightarrow>
            bindR (add_nodes rand node (\<lambda>_. 0) 0 n a [a \<mapsto> start_node]) (\<lambda>h. Inr (a, h)))"

text \<open>
  The loop of \<open>list_destroy\<close>; a lock that is still held may not be destroyed.
\<close>

fun destroy_list :: "nat \<Rightarrow> ptr \<Rightarrow> lheap \<Rightarrow> lheap result" where
  "destroy_list 0 cur h = Inl OutOfFuel"
| "destroy_list (Suc fuel) cur h =
     (if cur = None then Inr h
      else bindR (load h cur) (\<lambda>n.
           if lsync n \<noteq> [] then Inl BadUnlock
           else bindR (release h cur) (\<lambda>h'. destroy_list fuel (lnext n) h')))"

section \<open>Threads\<close>

datatype list_variant = LMutex | LSpin | LRwlock

datatype walk = Increasing | Decreasing | Equal

datatype thread_kind = Walker walk | Swapper nat

text \<open>
  The statement a thread executes next. \<open>R_*\<close> are the statements of \<open>increasing_thread\<close>,
  \<open>decreasing_thread\<close> and \<open>equal_thread\<close>, \<open>S_*\<close> those of \<open>swap_thread\<close>.
\<close>

datatype lpc = T_Done
  | R_Start | R_LockPrev | R_ReadCur | R_UnlockEmpty | R_LockCur | R_Test | R_UnlockPrev
  | R_ReadNext | R_LockNext | R_Compare | R_UnlockCur | R_UnlockEnd | R_Count
  | S_Start | S_Inner | S_LockPrev | S_ReadCur | S_LockCur | S_ReadNext | S_Rand | S_LockNext
  | S_Check | S_ReadNN | S_Write1 | S_Write2 | S_Write3 | S_Success
  | S_UnlockNext | S_UnlockCur | S_UnlockPrev | S_BreakCur | S_BreakPrev
  | S_ElseCur | S_ElsePrev | S_Advance

record lthread =
  t_kind :: thread_kind
  t_pc :: lpc
  t_prev :: ptr
  t_cur :: ptr
  t_next :: ptr
  t_nn :: ptr
  t_counter :: int

record lsys =
  l_heap :: lheap
  l_start :: addr
  l_stop :: bool
  l_thread :: "thread_id \<Rightarrow> lthread"
  l_iters :: "walk \<Rightarrow> int"
  l_swaps :: "nat \<Rightarrow> int"

definition put_thread :: "thread_id \<Rightarrow> lthread \<Rightarrow> lsys \<Rightarrow> lsys" where
  "put_thread t th s = s\<lparr>l_thread := (l_thread s)(t := th)\<rparr>"

text \<open>The mode in which a thread takes the lock of a node.\<close>

definition walk_mode :: "list_variant \<Rightarrow> lock_mode" where
  "walk_mode var = (case var of LRwlock \<Rightarrow> Shared | _ \<Rightarrow> Exclusive)"

text \<open>
  Taking the lock of node \<open>p\<close> and going on with \<open>th\<close>; the thread stays where it is while
  the lock is not free. Giving up the lock of \<open>p\<close>.
\<close>

definition acquire :: "lock_mode \<Rightarrow> ptr \<Rightarrow> thread_id \<Rightarrow> lthread \<Rightarrow> lsys \<Rightarrow> lsys result" where
  "acquire m p t th s =
     bindR (load (l_heap s) p) (\<lambda>n.
       if can_lock m (lsync n)
       then bindR (modify (l_heap s) p (\<lambda>n. n\<lparr>lsync := (t, m) # lsync n\<rparr>)) (\<lambda>h.
              Inr (put_thread t th (s\<lparr>l_heap := h\<rparr>)))
       else Inr s)"

definition unlock :: "ptr \<Rightarrow> thread_id \<Rightarrow> lthread \<Rightarrow> lsys \<Rightarrow> lsys result" where
  "unlock p t th s =
     bindR (load (l_heap s) p) (\<lambda>n.
       if t \<in> set (map fst (lsync n))
       then bindR (modify (l_heap s) p (\<lambda>n. n\<lparr>lsync := filter (\<lambda>(u, m). u \<noteq> t) (lsync n)\<rparr>)) (\<lambda>h.
              Inr (put_thread t th (s\<lparr>l_heap := h\<rparr>)))
       else Inl BadUnlock)"

definition set_next :: "ptr \<Rightarrow> ptr \<Rightarrow> thread_id \<Rightarrow> lthread \<Rightarrow> lsys \<Rightarrow> lsys result" where
  "set_next p q t th s =
     bindR (modify (l_heap s) p (\<lambda>n. n\<lparr>lnext := q\<rparr>)) (\<lambda>h. Inr (put_thread t th (s\<lparr>l_heap := h\<rparr>)))"

section \<open>The walking threads\<close>

text \<open>\<open>counter\<close> counts the neighbours in a row whose lengths compare as the thread asks.\<close>

definition walk_counts :: "walk \<Rightarrow> string \<Rightarrow> string \<Rightarrow> bool" where
  "walk_counts w v v' \<longleftrightarrow> (case w of
       Increasing \<Rightarrow> length v < length v'
     | Decreasing \<Rightarrow> length v > length v'
     | Equal \<Rightarrow> length v = length v')"

definition walk_step :: "list_variant \<Rightarrow> walk \<Rightarrow> thread_id \<Rightarrow> lsys \<Rightarrow> lsys result" where
  "walk_step var w t s =
    (let th = l_thread s t; h = l_heap s; m = walk_mode var in
     case t_pc th of
       R_Start \<Rightarrow>
         Inr (put_thread t (if l_stop s then th\<lparr>t_pc := T_Done\<rparr>
                            else th\<lparr>t_prev := Some (l_start s), t_pc := R_LockPrev\<rparr>) s)
     | R_LockPrev \<Rightarrow> acquire m (t_prev th) t (th\<lparr>t_pc := R_ReadCur\<rparr>) s
     | R_ReadCur \<Rightarrow>
         bindR (load h (t_prev th)) (\<lambda>n.
           Inr (put_thread t (th\<lparr>t_cur := lnext n,
             t_pc := (if lnext n = None then R_UnlockEmpty else R_LockCur)\<rparr>) s))
     | R_UnlockEmpty \<Rightarrow> unlock (t_prev th) t (th\<lparr>t_pc := R_Count\<rparr>) s
     | R_LockCur \<Rightarrow> acquire m (t_cur th) t (th\<lparr>t_counter := 0, t_pc := R_Test\<rparr>) s
     | R_Test \<Rightarrow>
         bindR (load h (t_cur th)) (\<lambda>n.
           Inr (put_thread t (th\<lparr>t_pc := (if lnext n = None then R_UnlockCur else R_UnlockPrev)\<rparr>) s))
     | R_UnlockPrev \<Rightarrow> unlock (t_prev th) t (th\<lparr>t_pc := R_ReadNext\<rparr>) s
     | R_ReadNext \<Rightarrow>
         bindR (load h (t_cur th)) (\<lambda>n.
           Inr (put_thread t (th\<lparr>t_next := lnext n, t_pc := R_LockNext\<rparr>) s))
     | R_LockNext \<Rightarrow> acquire m (t_next th) t (th\<lparr>t_pc := R_Compare\<rparr>) s
     | R_Compare \<Rightarrow>
         bindR (load h (t_cur th)) (\<lambda>n. bindR (load h (t_next th)) (\<lambda>n'.
           Inr (put_thread t (th\<lparr>
             t_counter := (if walk_counts w (lvalue n) (lvalue n') then t_counter th + 1 else 0),
             t_prev := t_cur th, t_cur := (if var = LRwlock then t_next th else lnext n),
             t_pc := R_Test\<rparr>) s)))
     | R_UnlockCur \<Rightarrow> unlock (t_cur th) t (th\<lparr>t_pc := R_UnlockEnd\<rparr>) s
     | R_UnlockEnd \<Rightarrow> unlock (t_prev th) t (th\<lparr>t_pc := R_Count\<rparr>) s
     | R_Count \<Rightarrow>
         Inr (put_thread t (th\<lparr>t_pc := R_Start\<rparr>) (s\<lparr>l_iters := (l_iters s)(w := l_iters s w + 1)\<rparr>))
     | _ \<Rightarrow> Inr s)"

section \<open>The swapping threads\<close>

text \<open>
  \<open>lucky\<close> is whether \<open>rand() % 25\<close> is zero. The last statement of the other branch reads
  \<open>prev->next\<close> without holding the lock.
\<close>

definition swap_step :: "list_variant \<Rightarrow> nat \<Rightarrow> bool \<Rightarrow> thread_id \<Rightarrow> lsys \<Rightarrow> lsys result" where
  "swap_step var tid lucky t s =
    (let th = l_thread s t; h = l_heap s in
     case t_pc th of
       S_Start \<Rightarrow>
         Inr (put_thread t (if l_stop s then th\<lparr>t_pc := T_Done\<rparr>
                            else th\<lparr>t_prev := Some (l_start s), t_pc := S_Inner\<rparr>) s)
     | S_Inner \<Rightarrow> Inr (put_thread t (th\<lparr>t_pc := (if l_stop s then S_Start else S_LockPrev)\<rparr>) s)
     | S_LockPrev \<Rightarrow> acquire Exclusive (t_prev th) t (th\<lparr>t_pc := S_ReadCur\<rparr>) s
     | S_ReadCur \<Rightarrow>
         bindR (load h (t_prev th)) (\<lambda>n.
           Inr (put_thread t (th\<lparr>t_cur := lnext n,
             t_pc := (if lnext n = None then S_BreakPrev else S_LockCur)\<rparr>) s))
     | S_LockCur \<Rightarrow> acquire Exclusive (t_cur th) t (th\<lparr>t_pc := S_ReadNext\<rparr>) s
     | S_ReadNext \<Rightarrow>
         bindR (load h (t_cur th)) (\<lambda>n.
           Inr (put_thread t (th\<lparr>t_next := lnext n,
             t_pc := (if lnext n = None then S_BreakCur else S_Rand)\<rparr>) s))
     | S_Rand \<Rightarrow> Inr (put_thread t (th\<lparr>t_pc := (if lucky then S_LockNext else S_ElseCur)\<rparr>) s)
     | S_LockNext \<Rightarrow> acquire Exclusive (t_next th) t (th\<lparr>t_pc := S_Check\<rparr>) s
     | S_Check \<Rightarrow>
         bindR (load h (t_prev th)) (\<lambda>n. bindR (load h (t_cur th)) (\<lambda>n'.
           Inr (put_thread t (th\<lparr>t_pc := (if lnext n = t_cur th \<and> lnext n' = t_next th
             then S_ReadNN else S_UnlockNext)\<rparr>) s)))
     | S_ReadNN \<Rightarrow>
         bindR (load h (t_next th)) (\<lambda>n.
           Inr (put_thread t (th\<lparr>t_nn := lnext n, t_pc := S_Write1\<rparr>) s))
     | S_Write1 \<Rightarrow> set_next (t_prev th) (t_next th) t (th\<lparr>t_pc := S_Write2\<rparr>) s
     | S_Write2 \<Rightarrow> set_next (t_cur th) (t_nn th) t (th\<lparr>t_pc := S_Write3\<rparr>) s
     | S_Write3 \<Rightarrow> set_next (t_next th) (t_cur th) t (th\<lparr>t_pc := S_Success\<rparr>) s
     | S_Success \<Rightarrow>
         Inr (put_thread t (th\<lparr>t_pc := S_UnlockNext\<rparr>)
           (s\<lparr>l_swaps := (l_swaps s)(tid := l_swaps s tid + 1)\<rparr>))
     | S_UnlockNext \<Rightarrow> unlock (t_next th) t (th\<lparr>t_pc := S_UnlockCur\<rparr>) s
     | S_UnlockCur \<Rightarrow> unlock (t_cur th) t (th\<lparr>t_pc := S_UnlockPrev\<rparr>) s
     | S_UnlockPrev \<Rightarrow> unlock (t_prev th) t (th\<lparr>t_pc := S_Inner\<rparr>) s
     | S_BreakCur \<Rightarrow> unlock (t_cur th) t (th\<lparr>t_pc := S_BreakPrev\<rparr>) s
     | S_BreakPrev \<Rightarrow> unlock (t_prev th) t (th\<lparr>t_pc := S_Start\<rparr>) s
     | S_ElseCur \<Rightarrow> unlock (t_cur th) t (th\<lparr>t_pc := S_ElsePrev\<rparr>) s
     | S_ElsePrev \<Rightarrow> unlock (t_prev th) t (th\<lparr>t_pc := S_Advance\<rparr>) s
     | S_Advance \<Rightarrow>
         bindR (load h (t_prev th)) (\<lambda>n.
           Inr (put_thread t (th\<lparr>t_prev := lnext n,
             t_pc := (if lnext n = None then S_Start else S_Inner)\<rparr>) s))
     | _ \<Rightarrow> Inr s)"

section \<open>The program\<close>

text \<open>One step of thread \<open>t\<close>, or \<open>main\<close> setting \<open>stop_flag\<close>.\<close>

datatype list_event = Run thread_id bool | Stop

definition list_step :: "list_variant \<Rightarrow> list_event \<Rightarrow> lsys \<Rightarrow> lsys result" where
  "list_step var ev s = (case ev of
       Run t lucky \<Rightarrow> (case t_kind (l_thread s t) of
           Walker w \<Rightarrow> walk_step var w t s
         | Swapper i \<Rightarrow> swap_step var i lucky t s)
     | Stop \<Rightarrow> Inr (s\<lparr>l_stop := True\<rparr>))"

inductive list_trans :: "list_variant \<Rightarrow> lsys \<Rightarrow> lsys \<Rightarrow> bool" for var :: list_variant where
  "list_step var ev s = Inr s' \<Longrightarrow> list_trans var s s'"

inductive_cases list_transE: "list_trans var s s'"

text \<open>\<open>main\<close> starts three walkers and three swappers; no other thread touches the list.\<close>

definition idle_thread :: lthread where
  "idle_thread = \<lparr>t_kind = Walker Equal, t_pc = T_Done, t_prev = None, t_cur = None, t_next = None,
     t_nn = None, t_counter = 0\<rparr>"

definition main_threads :: "thread_id \<Rightarrow> lthread" where
  "main_threads t =
     (if t < 6 then
        idle_thread\<lparr>t_kind := [Walker Increasing, Walker Decreasing, Walker Equal,
                      Swapper 0, Swapper 1, Swapper 2] ! t,
                    t_pc := (if t < 3 then R_Start else S_Start)\<rparr>
      else idle_thread)"

definition list_main :: "addr \<Rightarrow> lheap \<Rightarrow> lsys" where
  "list_main start h = \<lparr>l_heap = h, l_start = start, l_stop = False, l_thread = main_threads,
     l_iters = (\<lambda>_. 0), l_swaps = (\<lambda>_. 0)\<rparr>"

definition list_init :: "list_variant \<Rightarrow> (nat \<Rightarrow> nat) \<Rightarrow> ptr \<Rightarrow> (nat \<Rightarrow> ptr) \<Rightarrow> nat \<Rightarrow> (addr \<times> lheap) result" where
  "list_init var rand first node n = (case var of
       LMutex \<Rightarrow> list_init_mutex rand True first 0 node (\<lambda>_. 0) n
     | LSpin \<Rightarrow> list_init_spin rand True first 0 node (\<lambda>_. 0) n
     | LRwlock \<Rightarrow> list_init_rwlock rand True first node n)"

text \<open>The states in which \<open>main\<close> has started the threads on a list of some length.\<close>

definition list_start :: "list_variant \<Rightarrow> lsys \<Rightarrow> bool" where
  "list_start var s \<longleftrightarrow> (\<exists>rand first node n h.
     distinct (first # map (\<lambda>i. node i) [0..<n]) \<and>
     list_init var rand first node n = Inr (l_start s, h) \<and> s = list_main (l_start s) h)"

end
