(* ===== verification/Swap_Inv.thy ===== *)
theory Swap_Inv
  imports Swap_List
begin

text \<open>
  The invariant of the threads on the list of \<open>task2_3\<close>. While a thread is between the
  three stores of a swap, the links in memory are not a list; the invariant speaks of the
  \<open>logical\<close> links \<open>L\<close>, in which a swap happens all at once at its last store. It says who
  holds which lock, what each thread knows of the nodes it holds, and how memory differs
  from the logical list.
\<close>

section \<open>Which locks a thread holds\<close>

definition has_prev :: "lpc \<Rightarrow> bool" where
  "has_prev pc \<longleftrightarrow> pc \<in> {R_ReadCur, R_UnlockEmpty, R_LockCur, R_Test, R_UnlockPrev, R_UnlockCur,
     R_UnlockEnd, S_ReadCur, S_LockCur, S_ReadNext, S_Rand, S_LockNext, S_Check, S_ReadNN, S_Write1,
     S_Write2, S_Write3, S_Success, S_UnlockNext, S_UnlockCur, S_UnlockPrev, S_BreakCur, S_BreakPrev,
     S_ElseCur, S_ElsePrev}"

definition has_cur :: "lpc \<Rightarrow> bool" where
  "has_cur pc \<longleftrightarrow> pc \<in> {R_Test, R_UnlockPrev, R_ReadNext, R_LockNext, R_Compare, R_UnlockCur,
     S_ReadNext, S_Rand, S_LockNext, S_Check, S_ReadNN, S_Write1, S_Write2, S_Write3, S_Success,
     S_UnlockNext, S_UnlockCur, S_BreakCur, S_ElseCur}"

definition has_next :: "lpc \<Rightarrow> bool" where
  "has_next pc \<longleftrightarrow> pc \<in> {R_Compare, S_Check, S_ReadNN, S_Write1, S_Write2, S_Write3, S_Success,
     S_UnlockNext}"

definition walker_pc :: "lpc \<Rightarrow> bool" where
  "walker_pc pc \<longleftrightarrow> pc \<in> {R_Start, R_LockPrev, R_ReadCur, R_UnlockEmpty, R_LockCur, R_Test,
     R_UnlockPrev, R_ReadNext, R_LockNext, R_Compare, R_UnlockCur, R_UnlockEnd, R_Count}"

definition pc_mode :: "list_variant \<Rightarrow> lpc \<Rightarrow> lock_mode" where
  "pc_mode var pc = (if walker_pc pc then walk_mode var else Exclusive)"

lemmas pc_defs = has_prev_def has_cur_def has_next_def walker_pc_def

definition holds :: "lthread \<Rightarrow> addr \<Rightarrow> bool" where
  "holds th a \<longleftrightarrow> (has_prev (t_pc th) \<and> t_prev th = Some a) \<or> (has_cur (t_pc th) \<and> t_cur th = Some a) \<or>
     (has_next (t_pc th) \<and> t_next th = Some a)"

text \<open>The nodes whose links a thread has overwritten in an unfinished swap.\<close>

definition mid :: "lthread \<Rightarrow> addr \<Rightarrow> bool" where
  "mid th a \<longleftrightarrow> (t_pc th \<in> {S_Write2, S_Write3} \<and> t_prev th = Some a) \<or>
     (t_pc th = S_Write3 \<and> t_cur th = Some a)"

lemma mid_holds: "mid th a \<Longrightarrow> holds th a \<and> pc_mode var (t_pc th) = Exclusive"
  by (auto simp: mid_def holds_def pc_defs pc_mode_def)

section \<open>What a thread knows\<close>

definition valid :: "(addr \<rightharpoonup> ptr) \<Rightarrow> ptr \<Rightarrow> bool" where
  "valid L p \<longleftrightarrow> (\<exists>a. p = Some a \<and> a \<in> dom L)"

definition link :: "(addr \<rightharpoonup> ptr) \<Rightarrow> ptr \<Rightarrow> ptr \<Rightarrow> bool" where
  "link L p q \<longleftrightarrow> (\<exists>a b. p = Some a \<and> q = Some b \<and> L a = Some (Some b))"

fun local_at :: "lpc \<Rightarrow> (addr \<rightharpoonup> ptr) \<Rightarrow> ptr \<Rightarrow> ptr \<Rightarrow> ptr \<Rightarrow> ptr \<Rightarrow> bool" where
  "local_at R_LockPrev L p c x y \<longleftrightarrow> valid L p"
| "local_at R_ReadCur L p c x y \<longleftrightarrow> valid L p"
| "local_at R_UnlockEmpty L p c x y \<longleftrightarrow> valid L p"
| "local_at R_LockCur L p c x y \<longleftrightarrow> link L p c"
| "local_at R_Test L p c x y \<longleftrightarrow> link L p c"
| "local_at R_UnlockPrev L p c x y \<longleftrightarrow> link L p c \<and> (\<exists>q. link L c q)"
| "local_at R_ReadNext L p c x y \<longleftrightarrow> (\<exists>q. link L c q)"
| "local_at R_LockNext L p c x y \<longleftrightarrow> link L c x"
| "local_at R_Compare L p c x y \<longleftrightarrow> link L c x"
| "local_at R_UnlockCur L p c x y \<longleftrightarrow> link L p c"
| "local_at R_UnlockEnd L p c x y \<longleftrightarrow> valid L p"
| "local_at S_Inner L p c x y \<longleftrightarrow> valid L p"
| "local_at S_LockPrev L p c x y \<longleftrightarrow> valid L p"
| "local_at S_ReadCur L p c x y \<longleftrightarrow> valid L p"
| "local_at S_LockCur L p c x y \<longleftrightarrow> link L p c"
| "local_at S_ReadNext L p c x y \<longleftrightarrow> link L p c"
| "local_at S_Rand L p c x y \<longleftrightarrow> link L p c \<and> link L c x"
| "local_at S_LockNext L p c x y \<longleftrightarrow> link L p c \<and> link L c x"
| "local_at S_Check L p c x y \<longleftrightarrow> link L p c \<and> link L c x"
| "local_at S_ReadNN L p c x y \<longleftrightarrow> link L p c \<and> link L c x"
| "local_at S_Write1 L p c x y \<longleftrightarrow> link L p c \<and> link L c x \<and> L (the x) = Some y"
| "local_at S_Write2 L p c x y \<longleftrightarrow> link L p c \<and> link L c x \<and> L (the x) = Some y"
| "local_at S_Write3 L p c x y \<longleftrightarrow> link L p c \<and> link L c x \<and> L (the x) = Some y"
| "local_at S_Success L p c x y \<longleftrightarrow> link L p x \<and> link L x c"
| "local_at S_UnlockNext L p c x y \<longleftrightarrow> link L p x \<and> link L x c"
| "local_at S_UnlockCur L p c x y \<longleftrightarrow> valid L p \<and> valid L c \<and> p \<noteq> c"
| "local_at S_UnlockPrev L p c x y \<longleftrightarrow> valid L p"
| "local_at S_BreakCur L p c x y \<longleftrightarrow> link L p c"
| "local_at S_BreakPrev L p c x y \<longleftrightarrow> valid L p"
| "local_at S_ElseCur L p c x y \<longleftrightarrow> link L p c"
| "local_at S_ElsePrev L p c x y \<longleftrightarrow> valid L p"
| "local_at S_Advance L p c x y \<longleftrightarrow> valid L p"
| "local_at _ L p c x y \<longleftrightarrow> True"

definition local_ok :: "(addr \<rightharpoonup> ptr) \<Rightarrow> lthread \<Rightarrow> bool" where
  "local_ok L th \<longleftrightarrow> local_at (t_pc th) L (t_prev th) (t_cur th) (t_next th) (t_nn th) \<and>
     (t_pc th \<noteq> T_Done \<longrightarrow> (walker_pc (t_pc th) \<longleftrightarrow> (\<exists>w. t_kind th = Walker w)))"

text \<open>What a thread in the middle of a swap has already written.\<close>

definition mid_ok :: "lheap \<Rightarrow> lthread \<Rightarrow> bool" where
  "mid_ok h th \<longleftrightarrow>
     (t_pc th \<in> {S_Write2, S_Write3} \<longrightarrow> map_option lnext (h (the (t_prev th))) = Some (t_next th)) \<and>
     (t_pc th = S_Write3 \<longrightarrow> map_option lnext (h (the (t_cur th))) = Some (t_nn th))"

section \<open>The invariant\<close>

definition node_lock_ok ::
  "list_variant \<Rightarrow> (thread_id \<Rightarrow> lthread) \<Rightarrow> addr \<Rightarrow> (thread_id \<times> lock_mode) list \<Rightarrow> bool" where
  "node_lock_ok var ths a hs \<longleftrightarrow>
     (\<forall>t m. (t, m) \<in> set hs \<longleftrightarrow> holds (ths t) a \<and> m = pc_mode var (t_pc (ths t))) \<and>
     ((\<forall>t m. (t, m) \<in> set hs \<longrightarrow> m = Shared) \<or> (\<forall>t m u k. (t, m) \<in> set hs \<longrightarrow> (u, k) \<in> set hs \<longrightarrow> t = u))"

definition list_at ::
  "list_variant \<Rightarrow> lheap \<Rightarrow> addr \<Rightarrow> (thread_id \<Rightarrow> lthread) \<Rightarrow> (addr \<rightharpoonup> ptr) \<Rightarrow> addr list \<Rightarrow> bool" where
  "list_at var h start ths L order \<longleftrightarrow>
     chain L id (Some start) order None \<and> dom L = set order \<and> dom h = set order \<and>
     (\<forall>t. local_ok L (ths t)) \<and> (\<forall>t. mid_ok h (ths t)) \<and>
     (\<forall>a n. h a = Some n \<longrightarrow> node_lock_ok var ths a (lsync n)) \<and>
     (\<forall>a n. h a = Some n \<longrightarrow> (\<forall>t. \<not> mid (ths t) a) \<longrightarrow> L a = Some (lnext n))"

definition list_inv :: "list_variant \<Rightarrow> lsys \<Rightarrow> bool" where
  "list_inv var s \<longleftrightarrow> (\<exists>L order. list_at var (l_heap s) (l_start s) (l_thread s) L order)"

section \<open>Consequences\<close>

lemma node_lock_excl:
  assumes "node_lock_ok var ths a hs" "holds (ths t) a" "holds (ths u) a" "t \<noteq> u"
  shows "pc_mode var (t_pc (ths t)) = Shared \<and> pc_mode var (t_pc (ths u)) = Shared"
  using assms unfolding node_lock_ok_def by blast

lemma chain_link_neq:
  assumes "chain L id p order None" "L a = Some (Some b)"
  shows "a \<in> set order \<Longrightarrow> a \<noteq> b \<and> b \<in> set order"
proof -
  assume "a \<in> set order"
  then obtain us vs where o: "order = us @ a # vs" by (auto dest: split_list)
  with assms have "chain L id (Some b) vs None" by (auto simp: chain_simps)
  then obtain ws where "vs = b # ws" by (blast dest: chain_Some_None)
  with o chain_distinct[OF assms(1)] show "a \<noteq> b \<and> b \<in> set order" by auto
qed

lemma chain_end_dom:
  assumes "chain L id p order None" "L a = Some q" "a \<in> set order"
  shows "q = None \<or> (\<exists>b. q = Some b \<and> b \<in> set order)"
  using chain_link_neq[OF assms(1)] assms(2,3) by (cases q) auto

text \<open>What follows from the invariant for the node a thread is about to access.\<close>

lemma list_atD:
  assumes "list_at var h start ths L order"
  shows "chain L id (Some start) order None" "dom L = set order" "dom h = set order"
    "local_ok L (ths t)" "mid_ok h (ths t)"
    "h a = Some n \<Longrightarrow> node_lock_ok var ths a (lsync n)"
    "h a = Some n \<Longrightarrow> (\<forall>t. \<not> mid (ths t) a) \<Longrightarrow> L a = Some (lnext n)"
  using assms unfolding list_at_def by auto

lemma held_link:
  assumes "list_at var h start ths L order" "holds (ths t) a" "\<not> mid (ths t) a" "h a = Some n"
  shows "L a = Some (lnext n)"
proof -
  have "\<not> mid (ths u) a" for u
  proof
    assume m: "mid (ths u) a"
    with assms(3) have "u \<noteq> t" by auto
    then show False
      using node_lock_excl[OF list_atD(6)[OF assms(1,4)] assms(2) mid_holds[OF m, THEN conjunct1]]
        mid_holds[OF m, of var] by auto
  qed
  then show ?thesis using list_atD(7)[OF assms(1,4)] by blast
qed

lemma linkD:
  assumes "list_at var h start ths L order" "link L p q"
  shows "\<exists>a b n k. p = Some a \<and> q = Some b \<and> a \<noteq> b \<and> h a = Some n \<and> h b = Some k \<and>
    L a = Some (Some b) \<and> a \<in> set order \<and> b \<in> set order"
proof -
  from assms(2) obtain a b where ab: "p = Some a" "q = Some b" "L a = Some (Some b)" by (auto simp: link_def)
  moreover from ab(3) list_atD(2)[OF assms(1)] have "a \<in> set order" by auto
  moreover note chain_link_neq[OF list_atD(1)[OF assms(1)] ab(3) this]
  ultimately show ?thesis using list_atD(3)[OF assms(1)] by (metis domD)
qed

lemma validD:
  assumes "list_at var h start ths L order" "valid L p"
  shows "\<exists>a n. p = Some a \<and> h a = Some n \<and> a \<in> set order"
  using assms(2) list_atD(2,3)[OF assms(1)] by (auto simp: valid_def) (metis domD domI)

lemma any_next_valid:
  assumes inv: "list_at var h start ths L order" and n: "h a = Some n"
  shows "lnext n = None \<or> valid L (lnext n)"
proof (cases "\<exists>t. mid (ths t) a")
  case True
  then obtain t where m: "mid (ths t) a" by blast
  note lo = list_atD(4)[OF inv, of t, unfolded local_ok_def] and mo = list_atD(5)[OF inv, of t]
  have pcs: "t_pc (ths t) = S_Write2 \<or> t_pc (ths t) = S_Write3" using m by (auto simp: mid_def)
  with lo have "link L (t_prev (ths t)) (t_cur (ths t))" "link L (t_cur (ths t)) (t_next (ths t))"
    "L (the (t_next (ths t))) = Some (t_nn (ths t))" by auto
  note lk = linkD[OF inv this(1)] linkD[OF inv this(2)] this(3)
  from m mo n pcs have "lnext n = t_next (ths t) \<or> lnext n = t_nn (ths t)"
    by (auto simp: mid_def mid_ok_def)
  moreover have "t_nn (ths t) = None \<or> valid L (t_nn (ths t))"
    using lk chain_end_dom[OF list_atD(1)[OF inv], of "the (t_next (ths t))" "t_nn (ths t)"]
      list_atD(2)[OF inv] by (auto simp: valid_def)
  moreover have "valid L (t_next (ths t))" using lk list_atD(2)[OF inv] by (auto simp: valid_def)
  ultimately show ?thesis by auto
next
  case False
  with list_atD(7)[OF inv n] have "L a = Some (lnext n)" by blast
  with chain_end_dom[OF list_atD(1)[OF inv], of a "lnext n"] list_atD(2)[OF inv] show ?thesis
    by (auto simp: valid_def)
qed

section \<open>Steps that keep the logical list\<close>

text \<open>A thread moves on without touching a node or a lock.\<close>

lemma list_at_local:
  assumes "list_at var h start ths L order" "holds th = holds (ths t)"
    "pc_mode var (t_pc th) = pc_mode var (t_pc (ths t)) \<or> (\<forall>a. \<not> holds th a)"
    "local_ok L th" "mid th = mid (ths t)" "mid_ok h th"
  shows "list_at var h start (ths(t := th)) L order"
proof -
  have ho: "holds ((ths(t := th)) u) = holds (ths u)" for u using assms(2) by simp
  have mi: "mid ((ths(t := th)) u) = mid (ths u)" for u using assms(5) by simp
  have "node_lock_ok var (ths(t := th)) a hs" if "node_lock_ok var ths a hs" for a hs
  proof -
    have "holds (ths u) a \<and> m = pc_mode var (t_pc ((ths(t := th)) u)) \<longleftrightarrow>
      holds (ths u) a \<and> m = pc_mode var (t_pc (ths u))" for u m using assms(2,3) by auto
    with that show ?thesis unfolding node_lock_ok_def ho by blast
  qed
  with assms(1,4,6) show ?thesis unfolding list_at_def mi by auto
qed

text \<open>A thread takes the lock of a node it does not hold.\<close>

lemma list_at_acquire:
  assumes inv: "list_at var h start ths L order" and n: "h a = Some n" and free: "can_lock m (lsync n)"
    and ho: "\<not> holds (ths t) a" "\<And>b. holds th b \<longleftrightarrow> holds (ths t) b \<or> b = a"
    and m: "m = pc_mode var (t_pc th)"
      "pc_mode var (t_pc th) = pc_mode var (t_pc (ths t)) \<or> (\<forall>b. \<not> holds (ths t) b)"
    and th: "local_ok L th" "\<And>b. \<not> mid th b" "\<And>b. \<not> mid (ths t) b" "mid_ok h th"
  shows "list_at var (h(a \<mapsto> n\<lparr>lsync := (t, m) # lsync n\<rparr>)) start (ths(t := th)) L order"
proof -
  let ?ths = "ths(t := th)" and ?h = "h(a \<mapsto> n\<lparr>lsync := (t, m) # lsync n\<rparr>)"
  have mi: "mid (?ths u) = mid (ths u)" for u using th(2,3) by auto
  have nx: "map_option lnext (?h b) = map_option lnext (h b)" for b using n by auto
  have lk: "node_lock_ok var ?ths b hs" if "node_lock_ok var ths b hs" "b \<noteq> a" for b hs
  proof -
    have "holds (?ths u) b \<and> k = pc_mode var (t_pc (?ths u)) \<longleftrightarrow>
      holds (ths u) b \<and> k = pc_mode var (t_pc (ths u))" for u k
      by (cases "u = t") (use ho(2)[of b] m that(2) in auto)
    with that(1) show ?thesis unfolding node_lock_ok_def by blast
  qed
  have lka: "node_lock_ok var ?ths a ((t, m) # lsync n)"
  proof -
    note old = list_atD(6)[OF inv n]
    have e: "(u, k) \<in> set ((t, m) # lsync n) \<longleftrightarrow> holds (?ths u) a \<and> k = pc_mode var (t_pc (?ths u))" for u k
      using old ho m unfolding node_lock_ok_def by auto
    have "(\<forall>u k. (u, k) \<in> set ((t, m) # lsync n) \<longrightarrow> k = Shared) \<or>
        (\<forall>u k v l. (u, k) \<in> set ((t, m) # lsync n) \<longrightarrow> (v, l) \<in> set ((t, m) # lsync n) \<longrightarrow> u = v)"
      using free by (cases m) (auto simp: can_lock_def list_all_iff)
    with e show ?thesis unfolding node_lock_ok_def by blast
  qed
  show ?thesis unfolding list_at_def
  proof (intro conjI allI impI)
    show "chain L id (Some start) order None" "dom L = set order" by (rule list_atD[OF inv])+
    show "dom ?h = set order" using list_atD(3)[OF inv] n by auto
    show "local_ok L (?ths u)" for u using list_atD(4)[OF inv] th(1) by simp
    show "mid_ok ?h (?ths u)" for u using list_atD(5)[OF inv, of u] th(4) unfolding mid_ok_def nx by simp
    show "node_lock_ok var ?ths b (lsync k)" if "?h b = Some k" for b k
      using that lk[OF list_atD(6)[OF inv]] lka by (auto split: if_splits)
    show "L b = Some (lnext k)" if "?h b = Some k" "\<forall>u. \<not> mid (?ths u) b" for b k
      using that(1) list_atD(7)[OF inv, of b] that(2)[unfolded mi] n by (auto split: if_splits)
  qed
qed

text \<open>A thread gives up the lock of a node.\<close>

lemma list_at_unlock:
  assumes inv: "list_at var h start ths L order" and n: "h a = Some n"
    and ho: "holds (ths t) a" "\<And>b. holds th b \<longleftrightarrow> holds (ths t) b \<and> b \<noteq> a"
    and m: "pc_mode var (t_pc th) = pc_mode var (t_pc (ths t)) \<or> (\<forall>b. \<not> holds th b)"
    and th: "local_ok L th" "\<And>b. \<not> mid th b" "\<And>b. \<not> mid (ths t) b" "mid_ok h th"
  shows "t \<in> set (map fst (lsync n)) \<and>
    list_at var (h(a \<mapsto> n\<lparr>lsync := filter (\<lambda>(u, m). u \<noteq> t) (lsync n)\<rparr>)) start (ths(t := th)) L order"
proof
  let ?hs = "filter (\<lambda>(u, m). u \<noteq> t) (lsync n)"
  let ?ths = "ths(t := th)" and ?h = "h(a \<mapsto> n\<lparr>lsync := ?hs\<rparr>)"
  note old = list_atD(6)[OF inv n]
  from old ho(1) have "(t, pc_mode var (t_pc (ths t))) \<in> set (lsync n)" unfolding node_lock_ok_def by blast
  then show "t \<in> set (map fst (lsync n))" unfolding set_map by (rule image_eqI[rotated]) simp
  have mi: "mid (?ths u) = mid (ths u)" for u using th(2,3) by auto
  have nx: "map_option lnext (?h b) = map_option lnext (h b)" for b using n by auto
  have lk: "node_lock_ok var ?ths b hs" if "node_lock_ok var ths b hs" "b \<noteq> a" for b hs
  proof -
    have "holds (?ths u) b \<and> k = pc_mode var (t_pc (?ths u)) \<longleftrightarrow>
      holds (ths u) b \<and> k = pc_mode var (t_pc (ths u))" for u k
      by (cases "u = t") (use ho(2)[of b] m that(2) in auto)
    with that(1) show ?thesis unfolding node_lock_ok_def by blast
  qed
  have lka: "node_lock_ok var ?ths a ?hs"
  proof -
    have "(u, k) \<in> set (lsync n) \<longleftrightarrow> holds (ths u) a \<and> k = pc_mode var (t_pc (ths u))" for u k
      using old unfolding node_lock_ok_def by blast
    then have e: "(u, k) \<in> set ?hs \<longleftrightarrow> holds (?ths u) a \<and> k = pc_mode var (t_pc (?ths u))" for u k
      using ho(2)[of a] by simp
    moreover have "set ?hs \<subseteq> set (lsync n)" by auto
    ultimately show ?thesis using old unfolding node_lock_ok_def by blast
  qed
  show "list_at var ?h start ?ths L order" unfolding list_at_def
  proof (intro conjI allI impI)
    show "chain L id (Some start) order None" "dom L = set order" by (rule list_atD[OF inv])+
    show "dom ?h = set order" using list_atD(3)[OF inv] n by auto
    show "local_ok L (?ths u)" for u using list_atD(4)[OF inv] th(1) by simp
    show "mid_ok ?h (?ths u)" for u using list_atD(5)[OF inv, of u] th(4) unfolding mid_ok_def nx by simp
    show "node_lock_ok var ?ths b (lsync k)" if "?h b = Some k" for b k
      using that lk[OF list_atD(6)[OF inv]] lka by (auto split: if_splits)
    show "L b = Some (lnext k)" if "?h b = Some k" "\<forall>u. \<not> mid (?ths u) b" for b k
      using that(1) list_atD(7)[OF inv, of b] that(2)[unfolded mi] n by (auto split: if_splits)
  qed
qed

section \<open>The stores of a swap\<close>

lemma mid_ok_frame:
  assumes "local_ok L th" "mid_ok h th" "\<And>b. mid th b \<Longrightarrow> map_option lnext (h' b) = map_option lnext (h b)"
  shows "mid_ok h' th"
proof (cases "t_pc th \<in> {S_Write2, S_Write3}")
  case True
  with assms(1) obtain p c where pc: "t_prev th = Some p" "t_cur th = Some c"
    by (auto simp: local_ok_def link_def)
  with True assms(3)[of p] have "map_option lnext (h' p) = map_option lnext (h p)" by (simp add: mid_def)
  moreover have "map_option lnext (h' c) = map_option lnext (h c)" if "t_pc th = S_Write3"
    using assms(3)[of c] pc that by (simp add: mid_def)
  ultimately show ?thesis using assms(2) pc by (auto simp: mid_ok_def)
qed (auto simp: mid_ok_def)

text \<open>Another thread has nothing half-written in a node this thread holds exclusively.\<close>

lemma exclusive_not_mid:
  assumes "list_at var h start ths L order" "h a = Some n" "holds (ths t) a" "u \<noteq> t"
    "pc_mode var (t_pc (ths t)) = Exclusive"
  shows "\<not> holds (ths u) a"
  using node_lock_excl[OF list_atD(6)[OF assms(1,2)] assms(3), of u] assms(4,5) by auto

text \<open>The first two stores change memory only, at a node whose link is half-written afterwards.\<close>

lemma list_at_write:
  assumes inv: "list_at var h start ths L order" and n: "h a = Some n"
    and ho: "holds (ths t) a" "holds th = holds (ths t)"
    and m: "pc_mode var (t_pc (ths t)) = Exclusive" "pc_mode var (t_pc th) = Exclusive"
    and th: "local_ok L th" "\<And>b. mid th b \<longleftrightarrow> mid (ths t) b \<or> b = a"
    and mo: "mid_ok (h(a \<mapsto> n\<lparr>lnext := q\<rparr>)) th"
  shows "list_at var (h(a \<mapsto> n\<lparr>lnext := q\<rparr>)) start (ths(t := th)) L order"
proof -
  let ?ths = "ths(t := th)" and ?h = "h(a \<mapsto> n\<lparr>lnext := q\<rparr>)"
  have nm: "\<not> mid (ths u) a" if "u \<noteq> t" for u
    using exclusive_not_mid[OF inv n ho(1) that m(1)] mid_holds by blast
  have "node_lock_ok var ?ths b hs" if "node_lock_ok var ths b hs" for b hs
  proof -
    have "holds (?ths u) b \<and> k = pc_mode var (t_pc (?ths u)) \<longleftrightarrow>
      holds (ths u) b \<and> k = pc_mode var (t_pc (ths u))" for u k using ho(2) m by simp
    with that show ?thesis unfolding node_lock_ok_def by blast
  qed
  note lk = this
  show ?thesis unfolding list_at_def
  proof (intro conjI allI impI)
    show "chain L id (Some start) order None" "dom L = set order" by (rule list_atD[OF inv])+
    show "dom ?h = set order" using list_atD(3)[OF inv] n by auto
    show "local_ok L (?ths u)" for u using list_atD(4)[OF inv] th(1) by simp
    show "mid_ok ?h (?ths u)" for u
    proof (cases "u = t")
      case False
      have "mid_ok ?h (ths u)"
        by (rule mid_ok_frame[OF list_atD(4)[OF inv] list_atD(5)[OF inv]]) (use nm[OF False] in auto)
      with False show ?thesis by simp
    qed (use mo in simp)
    show "node_lock_ok var ?ths b (lsync k)" if "?h b = Some k" for b k
      using that lk[OF list_atD(6)[OF inv, of b]] n by (auto split: if_splits)
    show "L b = Some (lnext k)" if k: "?h b = Some k" and "\<forall>u. \<not> mid (?ths u) b" for b k
    proof -
      from that(2)[rule_format, of t] th(2) have b: "\<not> mid (ths t) b" "b \<noteq> a" by auto
      have "\<not> mid (ths u) b" for u using that(2)[rule_format, of u] b by (cases "u = t") auto
      with list_atD(7)[OF inv, of b k] k b show ?thesis by auto
    qed
  qed
qed

text \<open>The third store completes the swap in the logical list as well.\<close>

lemma chain_swap:
  assumes ch: "chain L id (Some start) order None" and p: "L p = Some (Some c)" "p \<in> set order"
    and c: "L c = Some (Some x)" and x: "L x = Some y"
  shows "\<exists>us vs. order = us @ p # c # x # vs \<and>
    chain (L(p \<mapsto> Some x, c \<mapsto> y, x \<mapsto> Some c)) id (Some start) (us @ p # x # c # vs) None"
proof -
  from p(2) obtain us ws where o: "order = us @ p # ws" by (auto dest: split_list)
  with ch p(1) have us: "chain L id (Some start) us (Some p)" and ws: "chain L id (Some c) ws None"
    by (auto simp: chain_simps)
  from ws obtain ws' where ws': "ws = c # ws'" by (blast dest: chain_Some_None)
  with ws c have "chain L id (Some x) ws' None" by (auto simp: chain_simps)
  moreover from this obtain vs where vs: "ws' = x # vs" by (blast dest: chain_Some_None)
  ultimately have vs': "chain L id y vs None" using x by (auto simp: chain_simps)
  let ?L = "L(p \<mapsto> Some x, c \<mapsto> y, x \<mapsto> Some c)"
  from chain_distinct[OF ch] o ws' vs have d: "distinct (us @ p # c # x # vs)" by simp
  have "chain ?L id (Some start) us (Some p)" "chain ?L id y vs None"
    using us vs' d by (simp_all del: fun_upd_apply)
  with d have "chain ?L id (Some start) (us @ p # x # c # vs) None" by (auto simp: chain_simps)
  with o ws' vs show ?thesis by blast
qed

text \<open>What a thread knows depends on the links of the nodes it holds only.\<close>

lemma local_ok_frame:
  assumes "local_ok L th" "dom L' = dom L" "\<And>b. holds th b \<Longrightarrow> L' b = L b"
  shows "local_ok L' th"
proof -
  have va: "valid L' p \<longleftrightarrow> valid L p" for p using assms(2) by (auto simp: valid_def)
  have li: "link L' p q \<longleftrightarrow> link L p q" if "\<And>b. p = Some b \<Longrightarrow> holds th b" for p q
    using assms(3) that by (auto simp: link_def)
  have xx: "L' (the p) = L (the p)" if "valid L p" "\<And>b. p = Some b \<Longrightarrow> holds th b" for p
    using assms(3) that by (auto simp: valid_def)
  have lv: "link L p q \<Longrightarrow> valid L p" for p q by (auto simp: link_def valid_def)
  have h: "has_prev (t_pc th) \<Longrightarrow> t_prev th = Some b \<Longrightarrow> holds th b"
    "has_cur (t_pc th) \<Longrightarrow> t_cur th = Some b \<Longrightarrow> holds th b"
    "has_next (t_pc th) \<Longrightarrow> t_next th = Some b \<Longrightarrow> holds th b" for b by (auto simp: holds_def)
  note li' = li[of "t_prev th", OF h(1)] li[of "t_cur th", OF h(2)] li[of "t_next th", OF h(3)]
  have x: "L' (the (t_next th)) = L (the (t_next th))" if "has_next (t_pc th)" "t_next th \<noteq> None"
    using assms(3)[OF h(3)[OF that(1)]] that(2) by auto
  show ?thesis using assms(1) li' x unfolding local_ok_def
    by (cases "t_pc th") (auto simp: va has_prev_def has_cur_def has_next_def link_def[of L _ "t_next th"])
qed

lemma list_at_commit:
  assumes inv: "list_at var h start ths L order" and pc: "t_pc (ths t) = S_Write3"
    and x: "t_next (ths t) = Some x" "h x = Some n"
  shows "\<exists>L' order'. list_at var (h(x \<mapsto> n\<lparr>lnext := t_cur (ths t)\<rparr>)) start
    (ths(t := (ths t)\<lparr>t_pc := S_Success\<rparr>)) L' order'"
proof -
  let ?th = "(ths t)\<lparr>t_pc := S_Success\<rparr>"
  let ?ths = "ths(t := ?th)" and ?h = "h(x \<mapsto> n\<lparr>lnext := t_cur (ths t)\<rparr>)"
  from list_atD(4)[OF inv, of t] pc have lo: "link L (t_prev (ths t)) (t_cur (ths t))"
    "link L (t_cur (ths t)) (t_next (ths t))" "L (the (t_next (ths t))) = Some (t_nn (ths t))"
    and kind: "\<not> (\<exists>w. t_kind (ths t) = Walker w)"
    by (auto simp: local_ok_def walker_pc_def)
  from linkD[OF inv lo(1)] linkD[OF inv lo(2)] x obtain p c np nc where
    pcx: "t_prev (ths t) = Some p" "t_cur (ths t) = Some c" "p \<noteq> c" "c \<noteq> x"
    and n: "h p = Some np" "h c = Some nc" and L: "L p = Some (Some c)" "L c = Some (Some x)"
    and so: "p \<in> set order" "c \<in> set order" "x \<in> set order" by auto
  from lo(3) x have Lx: "L x = Some (t_nn (ths t))" by simp
  from chain_swap[OF list_atD(1)[OF inv] L(1) so(1) L(2) Lx] obtain us vs where
    o: "order = us @ p # c # x # vs" and
    ch: "chain (L(p \<mapsto> Some x, c \<mapsto> t_nn (ths t), x \<mapsto> Some c)) id (Some start) (us @ p # x # c # vs) None"
    by blast
  from chain_distinct[OF list_atD(1)[OF inv]] o have px: "p \<noteq> x" by auto
  let ?L = "L(p \<mapsto> Some x, c \<mapsto> t_nn (ths t), x \<mapsto> Some c)" and ?o = "us @ p # x # c # vs"
  have ex: "\<not> holds (ths u) p" "\<not> holds (ths u) c" "\<not> holds (ths u) x" if "u \<noteq> t" for u
    using exclusive_not_mid[OF inv _ _ that, of p] exclusive_not_mid[OF inv _ _ that, of c]
      exclusive_not_mid[OF inv _ _ that, of x] n x pc pcx
    by (auto simp: holds_def pc_defs pc_mode_def)
  have m: "np = np \<and> lnext np = Some x" "lnext nc = t_nn (ths t)"
    using list_atD(5)[OF inv, of t] pc pcx n x by (auto simp: mid_ok_def)
  have ho: "holds ?th = holds (ths t)" using pc by (auto simp: holds_def pc_defs)
  have lk: "node_lock_ok var ?ths b hs" if "node_lock_ok var ths b hs" for b hs
  proof -
    have "holds (?ths u) b \<and> k = pc_mode var (t_pc (?ths u)) \<longleftrightarrow>
      holds (ths u) b \<and> k = pc_mode var (t_pc (ths u))" for u k
      using ho pc by (simp add: pc_mode_def walker_pc_def)
    with that show ?thesis unfolding node_lock_ok_def by blast
  qed
  have dom: "dom ?L = set order" using list_atD(2)[OF inv] so by auto
  have "list_at var ?h start ?ths ?L ?o" unfolding list_at_def
  proof (intro conjI allI impI)
    show "chain ?L id (Some start) ?o None" by (rule ch)
    show "dom ?L = set ?o" using dom o by auto
    show "dom ?h = set ?o" using list_atD(3)[OF inv] x o by auto
    show "local_ok ?L (?ths u)" for u
    proof (cases "u = t")
      case True
      have "link ?L (Some p) (Some x)" "link ?L (Some x) (Some c)"
        using pcx px by (auto simp: link_def)
      with True pcx x kind show ?thesis by (simp add: local_ok_def walker_pc_def)
    next
      case False
      have "local_ok ?L (ths u)"
        by (rule local_ok_frame[OF list_atD(4)[OF inv]])
          (use dom list_atD(2)[OF inv] ex[OF False] in auto)
      with False show ?thesis by simp
    qed
    show "mid_ok ?h (?ths u)" for u
    proof (cases "u = t")
      case False
      have "mid_ok ?h (ths u)"
        by (rule mid_ok_frame[OF list_atD(4)[OF inv] list_atD(5)[OF inv]])
          (use ex[OF False] mid_holds[of "ths u"] in auto)
      with False show ?thesis by simp
    qed (simp add: mid_ok_def)
    show "node_lock_ok var ?ths b (lsync k)" if "?h b = Some k" for b k
      using that lk[OF list_atD(6)[OF inv, of b]] x by (auto split: if_splits)
    show "?L b = Some (lnext k)" if k: "?h b = Some k" and nm: "\<forall>u. \<not> mid (?ths u) b" for b k
    proof (cases "b \<in> {p, c, x}")
      case True
      with k n m pcx px show ?thesis by auto
    next
      case False
      have "\<not> mid (ths u) b" for u
        using nm[rule_format, of u] False pcx pc by (cases "u = t") (auto simp: mid_def)
      with list_atD(7)[OF inv, of b k] k False show ?thesis by auto
    qed
  qed
  then show ?thesis by blast
qed

section \<open>Every step keeps the invariant\<close>

lemma list_invI: "list_at var (l_heap s) (l_start s) (l_thread s) L order \<Longrightarrow> list_inv var s"
  by (auto simp: list_inv_def)

lemma put_thread_simps [simp]:
  "l_heap (put_thread t th s) = l_heap s" "l_start (put_thread t th s) = l_start s"
  "l_thread (put_thread t th s) = (l_thread s)(t := th)" "l_stop (put_thread t th s) = l_stop s"
  by (simp_all add: put_thread_def)

lemma returns_acquire:
  assumes inv: "list_at var (l_heap s) (l_start s) (l_thread s) L order" and p: "p = Some a" "l_heap s a = Some n"
    and ho: "\<not> holds (l_thread s t) a" "\<And>b. holds th b \<longleftrightarrow> holds (l_thread s t) b \<or> b = a"
    and m: "m = pc_mode var (t_pc th)"
      "pc_mode var (t_pc th) = pc_mode var (t_pc (l_thread s t)) \<or> (\<forall>b. \<not> holds (l_thread s t) b)"
    and th: "local_ok L th" "\<And>b. \<not> mid th b" "\<And>b. \<not> mid (l_thread s t) b" "mid_ok (l_heap s) th"
  shows "returns (list_inv var) (acquire m p t th s)"
proof (cases "can_lock m (lsync n)")
  case True
  from list_at_acquire[OF inv p(2) True ho m th]
  have "list_inv var (put_thread t th (s\<lparr>l_heap := (l_heap s)(a \<mapsto> n\<lparr>lsync := (t, m) # lsync n\<rparr>)\<rparr>))"
    by (intro list_invI) (simp del: fun_upd_apply)
  with p True show ?thesis by (simp add: acquire_def)
next
  case False
  with p list_invI[OF inv] show ?thesis by (simp add: acquire_def)
qed

lemma returns_unlock:
  assumes inv: "list_at var (l_heap s) (l_start s) (l_thread s) L order" and p: "p = Some a" "l_heap s a = Some n"
    and ho: "holds (l_thread s t) a" "\<And>b. holds th b \<longleftrightarrow> holds (l_thread s t) b \<and> b \<noteq> a"
    and m: "pc_mode var (t_pc th) = pc_mode var (t_pc (l_thread s t)) \<or> (\<forall>b. \<not> holds th b)"
    and th: "local_ok L th" "\<And>b. \<not> mid th b" "\<And>b. \<not> mid (l_thread s t) b" "mid_ok (l_heap s) th"
  shows "returns (list_inv var) (unlock p t th s)"
proof -
  note u = list_at_unlock[OF inv p(2) ho m th]
  then have "list_inv var (put_thread t th (s\<lparr>l_heap := (l_heap s)(a \<mapsto>
      n\<lparr>lsync := filter (\<lambda>(u, m). u \<noteq> t) (lsync n)\<rparr>)\<rparr>))"
    by (intro list_invI[where L = L and order = order]) (simp del: fun_upd_apply)
  with p u show ?thesis by (simp add: unlock_def)
qed

lemma inv_local:
  assumes "list_at var (l_heap s) (l_start s) (l_thread s) L order" "holds th = holds (l_thread s t)"
    "pc_mode var (t_pc th) = pc_mode var (t_pc (l_thread s t)) \<or> (\<forall>a. \<not> holds th a)"
    "local_ok L th" "mid th = mid (l_thread s t)" "mid_ok (l_heap s) th"
    "l_heap s' = l_heap s" "l_start s' = l_start s" "l_thread s' = l_thread s"
  shows "list_inv var (put_thread t th s')"
  using list_at_local[OF assms(1-6)] assms(7-9) by (auto simp: list_inv_def)

text \<open>The three neighbours of a swap, before and after it.\<close>

lemma pcx_nodes:
  assumes inv: "list_at var h start ths L order" and "link L (t_prev (ths t)) (t_cur (ths t))"
    "link L (t_cur (ths t)) (t_next (ths t))"
  shows "\<exists>p c x np nc nx. t_prev (ths t) = Some p \<and> t_cur (ths t) = Some c \<and> t_next (ths t) = Some x \<and>
    h p = Some np \<and> h c = Some nc \<and> h x = Some nx \<and> L p = Some (Some c) \<and> L c = Some (Some x) \<and>
    p \<noteq> c \<and> c \<noteq> x \<and> p \<noteq> x"
proof -
  from linkD[OF inv assms(2)] linkD[OF inv assms(3)] obtain p c x np nc nx where
    a: "t_prev (ths t) = Some p" "t_cur (ths t) = Some c" "t_next (ths t) = Some x"
    "h p = Some np" "h c = Some nc" "h x = Some nx" "L p = Some (Some c)" "L c = Some (Some x)"
    "p \<noteq> c" "c \<noteq> x" "p \<in> set order" "x \<in> set order" by auto
  from list_atD(2)[OF inv] a(12) obtain y where y: "L x = Some y" by auto
  from chain_swap[OF list_atD(1)[OF inv] a(7,11,8) y] chain_distinct[OF list_atD(1)[OF inv]]
  have "p \<noteq> x" by auto
  with a show ?thesis by blast
qed

lemma pxc_nodes:
  assumes inv: "list_at var h start ths L order" and "link L (t_prev (ths t)) (t_next (ths t))"
    "link L (t_next (ths t)) (t_cur (ths t))"
  shows "\<exists>p c x nx. t_prev (ths t) = Some p \<and> t_cur (ths t) = Some c \<and> t_next (ths t) = Some x \<and>
    h x = Some nx \<and> p \<in> set order \<and> c \<in> set order \<and> p \<noteq> c \<and> c \<noteq> x \<and> p \<noteq> x"
proof -
  let ?ths = "ths(t := (ths t)\<lparr>t_pc := T_Done, t_cur := t_next (ths t), t_next := t_cur (ths t)\<rparr>)"
  from linkD[OF inv assms(2)] linkD[OF inv assms(3)] obtain p c x nx where
    a: "t_prev (ths t) = Some p" "t_next (ths t) = Some x" "t_cur (ths t) = Some c" "h x = Some nx"
    "L p = Some (Some x)" "L x = Some (Some c)" "p \<noteq> x" "x \<noteq> c" "p \<in> set order" "c \<in> set order" by auto
  from list_atD(2)[OF inv] a(10) obtain y where y: "L c = Some y" by auto
  from chain_swap[OF list_atD(1)[OF inv] a(5,9,6) y] chain_distinct[OF list_atD(1)[OF inv]]
  have "p \<noteq> c" by auto
  with a show ?thesis by auto
qed

lemma start_valid: "list_at var h start ths L order \<Longrightarrow> valid L (Some start)"
  using list_atD(1,2)[of var h start ths L order] by (auto simp: valid_def dest!: chain_Some_None)

text \<open>The nodes of a thread's knowledge as addresses, for the cases of a step.\<close>

lemmas thread_defs = local_ok_def holds_def mid_def mid_ok_def pc_defs pc_mode_def

lemma walk_step_ok:
  assumes inv: "list_at var (l_heap s) (l_start s) (l_thread s) L order"
    and k: "t_kind (l_thread s t) = Walker w"
  shows "returns (list_inv var) (walk_step var w t s)"
proof -
  let ?th = "l_thread s t"
  have lo: "local_ok L ?th" by (rule list_atD(4)[OF inv])
  have st: "valid L (Some (l_start s))" by (rule start_valid[OF inv])
  show ?thesis
  proof (cases "t_pc ?th")
    case R_Start
    have "list_inv var (put_thread t (?th\<lparr>t_pc := T_Done\<rparr>) s)"
      by (rule inv_local[OF inv]) (use R_Start k in \<open>auto simp: thread_defs fun_eq_iff\<close>)
    moreover have "list_inv var (put_thread t (?th\<lparr>t_prev := Some (l_start s), t_pc := R_LockPrev\<rparr>) s)"
      by (rule inv_local[OF inv]) (use R_Start st k in \<open>auto simp: thread_defs fun_eq_iff\<close>)
    ultimately show ?thesis using R_Start by (simp add: walk_step_def Let_def)
  next
    case R_LockPrev
    with lo validD[OF inv, of "t_prev ?th"] obtain a n where a: "t_prev ?th = Some a" "l_heap s a = Some n"
      by (auto simp: local_ok_def)
    show ?thesis unfolding walk_step_def Let_def R_LockPrev
      by (simp, rule returns_acquire[OF inv a(1,2)]) (use R_LockPrev lo a k in \<open>auto simp: thread_defs\<close>)
  next
    case R_ReadCur
    with lo validD[OF inv, of "t_prev ?th"] obtain a n where a: "t_prev ?th = Some a" "l_heap s a = Some n"
      by (auto simp: local_ok_def)
    with held_link[OF inv, of t a n] R_ReadCur have L: "L a = Some (lnext n)" by (auto simp: thread_defs)
    have "list_inv var (put_thread t (?th\<lparr>t_cur := lnext n,
        t_pc := (if lnext n = None then R_UnlockEmpty else R_LockCur)\<rparr>) s)"
      by (rule inv_local[OF inv]) (use R_ReadCur lo a L k in \<open>auto simp: thread_defs fun_eq_iff link_def\<close>)
    with a R_ReadCur show ?thesis by (simp add: walk_step_def Let_def)
  next
    case R_UnlockEmpty
    with lo validD[OF inv, of "t_prev ?th"] obtain a n where a: "t_prev ?th = Some a" "l_heap s a = Some n"
      by (auto simp: local_ok_def)
    show ?thesis unfolding walk_step_def Let_def R_UnlockEmpty
      by (simp, rule returns_unlock[OF inv a(1,2)]) (use R_UnlockEmpty lo a k in \<open>auto simp: thread_defs valid_def\<close>)
  next
    case R_LockCur
    with lo linkD[OF inv, of "t_prev ?th" "t_cur ?th"] obtain a n b where
      a: "t_cur ?th = Some a" "l_heap s a = Some n" "t_prev ?th = Some b" "b \<noteq> a"
      by (auto simp: local_ok_def)
    show ?thesis unfolding walk_step_def Let_def R_LockCur
      by (simp, rule returns_acquire[OF inv a(1,2)]) (use R_LockCur lo a k in \<open>auto simp: thread_defs\<close>)
  next
    case R_Test
    with lo linkD[OF inv, of "t_prev ?th" "t_cur ?th"] obtain a n where a: "t_cur ?th = Some a" "l_heap s a = Some n"
      by (auto simp: local_ok_def)
    with held_link[OF inv, of t a n] R_Test have L: "L a = Some (lnext n)" by (auto simp: thread_defs)
    have "list_inv var (put_thread t (?th\<lparr>t_pc := (if lnext n = None then R_UnlockCur else R_UnlockPrev)\<rparr>) s)"
      by (rule inv_local[OF inv]) (use R_Test lo a L k in \<open>auto simp: thread_defs fun_eq_iff link_def\<close>)
    with a R_Test show ?thesis by (simp add: walk_step_def Let_def)
  next
    case R_UnlockPrev
    with lo linkD[OF inv, of "t_prev ?th" "t_cur ?th"] obtain a n b where
      a: "t_prev ?th = Some a" "l_heap s a = Some n" "t_cur ?th = Some b" "a \<noteq> b" "b \<in> dom L" "a \<in> dom L"
      by (auto simp: local_ok_def list_atD(2)[OF inv])
    show ?thesis unfolding walk_step_def Let_def R_UnlockPrev
      by (simp, rule returns_unlock[OF inv a(1,2)]) (use R_UnlockPrev lo a k in \<open>auto simp: thread_defs valid_def\<close>)
  next
    case R_ReadNext
    with lo obtain q where "link L (t_cur ?th) q" by (auto simp: local_ok_def)
    from linkD[OF inv this] obtain a n where a: "t_cur ?th = Some a" "l_heap s a = Some n"
      "L a \<noteq> Some None" by auto
    with held_link[OF inv, of t a n] R_ReadNext have L: "L a = Some (lnext n)" by (auto simp: thread_defs)
    have "list_inv var (put_thread t (?th\<lparr>t_next := lnext n, t_pc := R_LockNext\<rparr>) s)"
      by (rule inv_local[OF inv]) (use R_ReadNext lo a L k in \<open>auto simp: thread_defs fun_eq_iff link_def\<close>)
    with a R_ReadNext show ?thesis by (simp add: walk_step_def Let_def)
  next
    case R_LockNext
    with lo linkD[OF inv, of "t_cur ?th" "t_next ?th"] obtain a n b where
      a: "t_next ?th = Some a" "l_heap s a = Some n" "t_cur ?th = Some b" "b \<noteq> a"
      by (auto simp: local_ok_def)
    show ?thesis unfolding walk_step_def Let_def R_LockNext
      by (simp, rule returns_acquire[OF inv a(1,2)]) (use R_LockNext lo a k in \<open>auto simp: thread_defs\<close>)
  next
    case R_Compare
    with lo linkD[OF inv, of "t_cur ?th" "t_next ?th"] obtain a n b k' where
      a: "t_cur ?th = Some a" "l_heap s a = Some n" "t_next ?th = Some b" "l_heap s b = Some k'"
      "L a = Some (Some b)" by (auto simp: local_ok_def)
    with held_link[OF inv, of t a n] R_Compare have L: "lnext n = Some b" by (auto simp: thread_defs)
    have "list_inv var (put_thread t (?th\<lparr>t_counter := i, t_prev := Some a, t_cur := Some b,
        t_pc := R_Test\<rparr>) s)" for i
      by (rule inv_local[OF inv]) (use R_Compare lo a k in \<open>auto simp: thread_defs fun_eq_iff link_def\<close>)
    with a L R_Compare show ?thesis by (cases "var = LRwlock") (simp_all add: walk_step_def Let_def)
  next
    case R_UnlockCur
    with lo linkD[OF inv, of "t_prev ?th" "t_cur ?th"] obtain a n b where
      a: "t_cur ?th = Some a" "l_heap s a = Some n" "t_prev ?th = Some b" "a \<noteq> b" "b \<in> dom L" "a \<in> dom L"
      by (auto simp: local_ok_def list_atD(2)[OF inv])
    show ?thesis unfolding walk_step_def Let_def R_UnlockCur
      by (simp, rule returns_unlock[OF inv a(1,2)]) (use R_UnlockCur lo a k in \<open>auto simp: thread_defs valid_def\<close>)
  next
    case R_UnlockEnd
    with lo validD[OF inv, of "t_prev ?th"] obtain a n where a: "t_prev ?th = Some a" "l_heap s a = Some n"
      by (auto simp: local_ok_def)
    show ?thesis unfolding walk_step_def Let_def R_UnlockEnd
      by (simp, rule returns_unlock[OF inv a(1,2)]) (use R_UnlockEnd lo a k in \<open>auto simp: thread_defs valid_def\<close>)
  next
    case R_Count
    show ?thesis unfolding walk_step_def Let_def R_Count
      by (simp, rule inv_local[OF inv]) (use R_Count k in \<open>auto simp: thread_defs fun_eq_iff\<close>)
  qed (simp_all add: walk_step_def list_invI[OF inv])
qed

lemma swap_step_ok:
  assumes inv: "list_at var (l_heap s) (l_start s) (l_thread s) L order"
    and k: "t_kind (l_thread s t) = Swapper i"
  shows "returns (list_inv var) (swap_step var i lucky t s)"
proof -
  let ?th = "l_thread s t"
  have lo: "local_ok L ?th" by (rule list_atD(4)[OF inv])
  have st: "valid L (Some (l_start s))" by (rule start_valid[OF inv])
  show ?thesis
  proof (cases "t_pc ?th")
    case S_Start
    have "list_inv var (put_thread t (?th\<lparr>t_pc := T_Done\<rparr>) s)"
      by (rule inv_local[OF inv]) (use S_Start k in \<open>auto simp: thread_defs fun_eq_iff\<close>)
    moreover have "list_inv var (put_thread t (?th\<lparr>t_prev := Some (l_start s), t_pc := S_Inner\<rparr>) s)"
      by (rule inv_local[OF inv]) (use S_Start st k in \<open>auto simp: thread_defs fun_eq_iff\<close>)
    ultimately show ?thesis using S_Start by (simp add: swap_step_def Let_def)
  next
    case S_Inner
    have "list_inv var (put_thread t (?th\<lparr>t_pc := S_Start\<rparr>) s)"
      "list_inv var (put_thread t (?th\<lparr>t_pc := S_LockPrev\<rparr>) s)"
      by (rule inv_local[OF inv]; use S_Inner lo k in \<open>auto simp: thread_defs fun_eq_iff\<close>)+
    then show ?thesis using S_Inner by (simp add: swap_step_def Let_def)
  next
    case S_LockPrev
    with lo validD[OF inv, of "t_prev ?th"] obtain a n where a: "t_prev ?th = Some a" "l_heap s a = Some n"
      by (auto simp: local_ok_def)
    show ?thesis unfolding swap_step_def Let_def S_LockPrev
      by (simp, rule returns_acquire[OF inv a(1,2)]) (use S_LockPrev lo a k in \<open>auto simp: thread_defs\<close>)
  next
    case S_ReadCur
    with lo validD[OF inv, of "t_prev ?th"] obtain a n where a: "t_prev ?th = Some a" "l_heap s a = Some n"
      by (auto simp: local_ok_def)
    with held_link[OF inv, of t a n] S_ReadCur have L: "L a = Some (lnext n)" by (auto simp: thread_defs)
    have "list_inv var (put_thread t (?th\<lparr>t_cur := lnext n,
        t_pc := (if lnext n = None then S_BreakPrev else S_LockCur)\<rparr>) s)"
      by (rule inv_local[OF inv]) (use S_ReadCur lo a L k in \<open>auto simp: thread_defs fun_eq_iff link_def\<close>)
    with a S_ReadCur show ?thesis by (simp add: swap_step_def Let_def)
  next
    case S_LockCur
    with lo linkD[OF inv, of "t_prev ?th" "t_cur ?th"] obtain a n b where
      a: "t_cur ?th = Some a" "l_heap s a = Some n" "t_prev ?th = Some b" "b \<noteq> a"
      by (auto simp: local_ok_def)
    show ?thesis unfolding swap_step_def Let_def S_LockCur
      by (simp, rule returns_acquire[OF inv a(1,2)]) (use S_LockCur lo a k in \<open>auto simp: thread_defs\<close>)
  next
    case S_ReadNext
    with lo linkD[OF inv, of "t_prev ?th" "t_cur ?th"] obtain a n where a: "t_cur ?th = Some a" "l_heap s a = Some n"
      by (auto simp: local_ok_def)
    with held_link[OF inv, of t a n] S_ReadNext have L: "L a = Some (lnext n)" by (auto simp: thread_defs)
    have "list_inv var (put_thread t (?th\<lparr>t_next := lnext n,
        t_pc := (if lnext n = None then S_BreakCur else S_Rand)\<rparr>) s)"
      by (rule inv_local[OF inv]) (use S_ReadNext lo a L k in \<open>auto simp: thread_defs fun_eq_iff link_def\<close>)
    with a S_ReadNext show ?thesis by (simp add: swap_step_def Let_def)
  next
    case S_Rand
    have "list_inv var (put_thread t (?th\<lparr>t_pc := S_LockNext\<rparr>) s)"
      "list_inv var (put_thread t (?th\<lparr>t_pc := S_ElseCur\<rparr>) s)"
      by (rule inv_local[OF inv]; use S_Rand lo k in \<open>auto simp: thread_defs fun_eq_iff\<close>)+
    then show ?thesis using S_Rand by (simp add: swap_step_def Let_def)
  next
    case S_LockNext
    note pcx = pcx_nodes[OF inv, of t]
    from S_LockNext lo pcx obtain a b c n where a: "t_next ?th = Some a" "l_heap s a = Some n"
      "t_prev ?th = Some b" "t_cur ?th = Some c" "b \<noteq> a" "c \<noteq> a" by (auto simp: local_ok_def)
    show ?thesis unfolding swap_step_def Let_def S_LockNext
      by (simp, rule returns_acquire[OF inv a(1,2)]) (use S_LockNext lo a k in \<open>auto simp: thread_defs\<close>)
  next
    case S_Check
    note pcx = pcx_nodes[OF inv, of t]
    from S_Check lo pcx obtain p c x n m where a: "t_prev ?th = Some p" "t_cur ?th = Some c"
      "t_next ?th = Some x" "l_heap s p = Some n" "l_heap s c = Some m" "L p = Some (Some c)" "L c = Some (Some x)"
      by (auto simp: local_ok_def)
    with held_link[OF inv, of t p n] held_link[OF inv, of t c m] S_Check
    have L: "lnext n = Some c" "lnext m = Some x" by (auto simp: thread_defs)
    have "list_inv var (put_thread t (?th\<lparr>t_pc := S_ReadNN\<rparr>) s)"
      by (rule inv_local[OF inv]) (use S_Check lo k in \<open>auto simp: thread_defs fun_eq_iff\<close>)
    with a L S_Check show ?thesis by (simp add: swap_step_def Let_def)
  next
    case S_ReadNN
    note pcx = pcx_nodes[OF inv, of t]
    from S_ReadNN lo pcx obtain a n where a: "t_next ?th = Some a" "l_heap s a = Some n"
      by (auto simp: local_ok_def)
    with held_link[OF inv, of t a n] S_ReadNN have L: "L a = Some (lnext n)" by (auto simp: thread_defs)
    have "list_inv var (put_thread t (?th\<lparr>t_nn := lnext n, t_pc := S_Write1\<rparr>) s)"
      by (rule inv_local[OF inv]) (use S_ReadNN lo a L k in \<open>auto simp: thread_defs fun_eq_iff\<close>)
    with a S_ReadNN show ?thesis by (simp add: swap_step_def Let_def)
  next
    case S_Write1
    note pcx = pcx_nodes[OF inv, of t]
    from S_Write1 lo pcx obtain p n where a: "t_prev ?th = Some p" "l_heap s p = Some n"
      by (auto simp: local_ok_def)
    have "list_inv var (put_thread t (?th\<lparr>t_pc := S_Write2\<rparr>)
        (s\<lparr>l_heap := (l_heap s)(p \<mapsto> n\<lparr>lnext := t_next ?th\<rparr>)\<rparr>))"
      by (rule list_invI, simp del: fun_upd_apply, rule list_at_write[OF inv a(2)])
        (use S_Write1 lo a k in \<open>auto simp: thread_defs fun_eq_iff\<close>)
    with a S_Write1 show ?thesis by (simp add: swap_step_def set_next_def Let_def)
  next
    case S_Write2
    note pcx = pcx_nodes[OF inv, of t]
    from S_Write2 lo pcx obtain p c n where a: "t_prev ?th = Some p" "t_cur ?th = Some c"
      "l_heap s c = Some n" "p \<noteq> c" by (auto simp: local_ok_def)
    have "list_inv var (put_thread t (?th\<lparr>t_pc := S_Write3\<rparr>)
        (s\<lparr>l_heap := (l_heap s)(c \<mapsto> n\<lparr>lnext := t_nn ?th\<rparr>)\<rparr>))"
      by (rule list_invI, simp del: fun_upd_apply, rule list_at_write[OF inv a(3)])
        (use S_Write2 lo a k list_atD(5)[OF inv, of t] in \<open>auto simp: thread_defs fun_eq_iff\<close>)
    with a S_Write2 show ?thesis by (simp add: swap_step_def set_next_def Let_def)
  next
    case S_Write3
    note pcx = pcx_nodes[OF inv, of t]
    from S_Write3 lo pcx obtain x n where a: "t_next ?th = Some x" "l_heap s x = Some n"
      by (auto simp: local_ok_def)
    from list_at_commit[OF inv S_Write3 a] have "list_inv var (put_thread t (?th\<lparr>t_pc := S_Success\<rparr>)
        (s\<lparr>l_heap := (l_heap s)(x \<mapsto> n\<lparr>lnext := t_cur ?th\<rparr>)\<rparr>))"
      by (auto simp: list_inv_def simp del: fun_upd_apply)
    with a S_Write3 show ?thesis by (simp add: swap_step_def set_next_def Let_def)
  next
    case S_Success
    show ?thesis unfolding swap_step_def Let_def S_Success
      by (simp, rule inv_local[OF inv]) (use S_Success lo k in \<open>auto simp: thread_defs fun_eq_iff\<close>)
  next
    case S_UnlockNext
    note pcx = pxc_nodes[OF inv, of t]
    from S_UnlockNext lo pcx obtain a b c n where a: "t_next ?th = Some a" "l_heap s a = Some n"
      "t_prev ?th = Some b" "t_cur ?th = Some c" "b \<noteq> a" "c \<noteq> a" "b \<noteq> c" "b \<in> dom L" "c \<in> dom L"
      by (auto simp: local_ok_def list_atD(2)[OF inv])
    show ?thesis unfolding swap_step_def Let_def S_UnlockNext
      by (simp, rule returns_unlock[OF inv a(1,2)]) (use S_UnlockNext lo a k in \<open>auto simp: thread_defs valid_def\<close>)
  next
    case S_UnlockCur
    with lo validD[OF inv, of "t_cur ?th"] validD[OF inv, of "t_prev ?th"] obtain a n b where
      a: "t_cur ?th = Some a" "l_heap s a = Some n" "t_prev ?th = Some b" "a \<noteq> b" by (auto simp: local_ok_def)
    show ?thesis unfolding swap_step_def Let_def S_UnlockCur
      by (simp, rule returns_unlock[OF inv a(1,2)]) (use S_UnlockCur lo a k in \<open>auto simp: thread_defs valid_def\<close>)
  next
    case S_UnlockPrev
    with lo validD[OF inv, of "t_prev ?th"] obtain a n where a: "t_prev ?th = Some a" "l_heap s a = Some n"
      by (auto simp: local_ok_def)
    show ?thesis unfolding swap_step_def Let_def S_UnlockPrev
      by (simp, rule returns_unlock[OF inv a(1,2)]) (use S_UnlockPrev lo a k in \<open>auto simp: thread_defs valid_def\<close>)
  next
    case S_BreakCur
    with lo linkD[OF inv, of "t_prev ?th" "t_cur ?th"] obtain a n b where
      a: "t_cur ?th = Some a" "l_heap s a = Some n" "t_prev ?th = Some b" "a \<noteq> b" "b \<in> dom L" "a \<in> dom L"
      by (auto simp: local_ok_def list_atD(2)[OF inv])
    show ?thesis unfolding swap_step_def Let_def S_BreakCur
      by (simp, rule returns_unlock[OF inv a(1,2)]) (use S_BreakCur lo a k in \<open>auto simp: thread_defs valid_def\<close>)
  next
    case S_BreakPrev
    with lo validD[OF inv, of "t_prev ?th"] obtain a n where a: "t_prev ?th = Some a" "l_heap s a = Some n"
      by (auto simp: local_ok_def)
    show ?thesis unfolding swap_step_def Let_def S_BreakPrev
      by (simp, rule returns_unlock[OF inv a(1,2)]) (use S_BreakPrev lo a k in \<open>auto simp: thread_defs valid_def\<close>)
  next
    case S_ElseCur
    with lo linkD[OF inv, of "t_prev ?th" "t_cur ?th"] obtain a n b where
      a: "t_cur ?th = Some a" "l_heap s a = Some n" "t_prev ?th = Some b" "a \<noteq> b" "b \<in> dom L" "a \<in> dom L"
      by (auto simp: local_ok_def list_atD(2)[OF inv])
    show ?thesis unfolding swap_step_def Let_def S_ElseCur
      by (simp, rule returns_unlock[OF inv a(1,2)]) (use S_ElseCur lo a k in \<open>auto simp: thread_defs valid_def\<close>)
  next
    case S_ElsePrev
    with lo validD[OF inv, of "t_prev ?th"] obtain a n where a: "t_prev ?th = Some a" "l_heap s a = Some n"
      by (auto simp: local_ok_def)
    show ?thesis unfolding swap_step_def Let_def S_ElsePrev
      by (simp, rule returns_unlock[OF inv a(1,2)]) (use S_ElsePrev lo a k in \<open>auto simp: thread_defs valid_def\<close>)
  next
    case S_Advance
    with lo validD[OF inv, of "t_prev ?th"] obtain a n where a: "t_prev ?th = Some a" "l_heap s a = Some n"
      by (auto simp: local_ok_def)
    note v = any_next_valid[OF inv a(2)]
    have "list_inv var (put_thread t (?th\<lparr>t_prev := lnext n,
        t_pc := (if lnext n = None then S_Start else S_Inner)\<rparr>) s)"
      by (rule inv_local[OF inv]) (use S_Advance lo a v k in \<open>auto simp: thread_defs fun_eq_iff\<close>)
    with a S_Advance show ?thesis by (simp add: swap_step_def Let_def)
  qed (simp_all add: swap_step_def list_invI[OF inv])
qed

lemma list_step_ok:
  assumes "list_inv var s"
  shows "returns (list_inv var) (list_step var ev s)"
proof -
  from assms obtain L order where inv: "list_at var (l_heap s) (l_start s) (l_thread s) L order"
    by (auto simp: list_inv_def)
  show ?thesis
  proof (cases ev)
    case (Run t lucky)
    show ?thesis
    proof (cases "t_kind (l_thread s t)")
      case (Walker w)
      with Run walk_step_ok[OF inv Walker] show ?thesis by (simp add: list_step_def)
    next
      case (Swapper i)
      with Run swap_step_ok[OF inv Swapper] show ?thesis by (simp add: list_step_def)
    qed
  next
    case Stop
    with assms show ?thesis by (simp add: list_step_def list_inv_def)
  qed
qed

end
