(* ===== verification/Swap_Threads.thy ===== *)
theory Swap_Threads
  imports Swap_Inv "HOL-Library.Multiset"
begin

text \<open>
  What the threads on the list of \<open>task2_3\<close> achieve for all three kinds of lock: the
  nodes stay one list and are only permuted, no access is to freed or null memory, the
  locks exclude each other, there is no deadlock, and the list can be destroyed when all
  threads have ended. The thread functions of the three directories are the instances
  named at the start.
\<close>

section \<open>The thread functions of the three implementations\<close>

definition increasing_mutex :: "thread_id \<Rightarrow> lsys \<Rightarrow> lsys result" where
  "increasing_mutex = walk_step LMutex Increasing"

definition decreasing_mutex :: "thread_id \<Rightarrow> lsys \<Rightarrow> lsys result" where
  "decreasing_mutex = walk_step LMutex Decreasing"

definition equal_mutex :: "thread_id \<Rightarrow> lsys \<Rightarrow> lsys result" where
  "equal_mutex = walk_step LMutex Equal"

definition swap_mutex :: "nat \<Rightarrow> bool \<Rightarrow> thread_id \<Rightarrow> lsys \<Rightarrow> lsys result" where
  "swap_mutex = swap_step LMutex"

definition increasing_spin :: "thread_id \<Rightarrow> lsys \<Rightarrow> lsys result" where
  "increasing_spin = walk_step LSpin Increasing"

definition decreasing_spin :: "thread_id \<Rightarrow> lsys \<Rightarrow> lsys result" where
  "decreasing_spin = walk_step LSpin Decreasing"

definition equal_spin :: "thread_id \<Rightarrow> lsys \<Rightarrow> lsys result" where
  "equal_spin = walk_step LSpin Equal"

definition swap_spin :: "nat \<Rightarrow> bool \<Rightarrow> thread_id \<Rightarrow> lsys \<Rightarrow> lsys result" where
  "swap_spin = swap_step LSpin"

definition increasing_rwlock :: "thread_id \<Rightarrow> lsys \<Rightarrow> lsys result" where
  "increasing_rwlock = walk_step LRwlock Increasing"

definition decreasing_rwlock :: "thread_id \<Rightarrow> lsys \<Rightarrow> lsys result" where
  "decreasing_rwlock = walk_step LRwlock Decreasing"

definition equal_rwlock :: "thread_id \<Rightarrow> lsys \<Rightarrow> lsys result" where
  "equal_rwlock = walk_step LRwlock Equal"

definition swap_rwlock :: "nat \<Rightarrow> bool \<Rightarrow> thread_id \<Rightarrow> lsys \<Rightarrow> lsys result" where
  "swap_rwlock = swap_step LRwlock"

text \<open>
  The programs: each \<open>main\<close> builds a list of 100 nodes and starts the six threads on it. \<open>first\<close> and
  \<open>node\<close> are what \<open>malloc\<close> returns.
\<close>

definition main_mutex :: "(nat \<Rightarrow> nat) \<Rightarrow> ptr \<Rightarrow> (nat \<Rightarrow> ptr) \<Rightarrow> lsys result" where
  "main_mutex rand first node = bindR (list_init_mutex rand True first 0 node (\<lambda>_. 0) 100) (\<lambda>(l, h). Inr (list_main l h))"

definition main_spin :: "(nat \<Rightarrow> nat) \<Rightarrow> ptr \<Rightarrow> (nat \<Rightarrow> ptr) \<Rightarrow> lsys result" where
  "main_spin rand first node = bindR (list_init_spin rand True first 0 node (\<lambda>_. 0) 100) (\<lambda>(l, h). Inr (list_main l h))"

definition main_rwlock :: "(nat \<Rightarrow> nat) \<Rightarrow> ptr \<Rightarrow> (nat \<Rightarrow> ptr) \<Rightarrow> lsys result" where
  "main_rwlock rand first node = bindR (list_init_rwlock rand True first node 100) (\<lambda>(l, h). Inr (list_main l h))"

lemma programs_start:
  assumes "distinct (first # map node [0..<100])"
  shows "main_mutex rand first node = Inr s \<Longrightarrow> list_start LMutex s"
    "main_spin rand first node = Inr s \<Longrightarrow> list_start LSpin s"
    "main_rwlock rand first node = Inr s \<Longrightarrow> list_start LRwlock s"
proof -
  have "list_start var s" if "list_init var rand first node 100 = Inr (l, h)" "s = list_main l h" for var l h
    using that assms unfolding list_start_def
    by (intro exI [of _ rand] exI [of _ first] exI [of _ node] exI [of _ 100] exI [of _ h]) (simp add: list_main_def)
  note start = this [of LMutex] this [of LSpin] this [of LRwlock]
  show "main_mutex rand first node = Inr s \<Longrightarrow> list_start LMutex s"
    "main_spin rand first node = Inr s \<Longrightarrow> list_start LSpin s"
    "main_rwlock rand first node = Inr s \<Longrightarrow> list_start LRwlock s"
    using start by (auto simp: main_mutex_def main_spin_def main_rwlock_def list_init_def bindR_eq_Inr)
qed

section \<open>The list that \<open>list_init\<close> builds\<close>

text \<open>The string every node gets: the generator restarts at the same seed for each of them.\<close>

definition node_value :: "(nat \<Rightarrow> nat) \<Rightarrow> string" where
  "node_value rand = map (\<lambda>i. alphabet ! (rand (Suc i) mod length alphabet)) [0..<1 + rand 0 mod (max_str - 1)]"

lemma random_string_fits:
  "random_string max_str (\<lambda>j. rand (Suc j)) (1 + rand 0 mod (max_str - 1)) = Inr (node_value rand)"
proof -
  have "rand 0 mod 99 < 99" by simp
  then show ?thesis by (simp add: random_string_def node_value_def max_str_def)
qed

lemma node_value_length: "0 < length (node_value rand) \<and> length (node_value rand) < max_str"
proof -
  have "rand 0 mod 99 < 99" by simp
  then show ?thesis by (simp add: node_value_def max_str_def)
qed

lemma add_nodes_ok:
  assumes "chain h lnext (Some s) (us @ [prev]) None" "dom h = set (us @ [prev])"
    "\<And>a k. h a = Some k \<Longrightarrow> lsync k = []"
    "add_nodes rand node err i n prev h = Inr h'"
    "distinct (map Some (us @ [prev]) @ map node [i..<i + n])"
  shows "\<exists>as. map Some as = map node [i..<i + n] \<and> chain h' lnext (Some s) (us @ prev # as) None \<and>
    dom h' = set (us @ prev # as) \<and> (\<forall>a k. h' a = Some k \<longrightarrow> lsync k = []) \<and>
    (\<forall>a k. h' a = Some k \<longrightarrow> lvalue k = (if a \<in> set as then node_value rand else lvalue (the (h a))))"
  using assms
proof (induction n arbitrary: i us prev h)
  case 0
  then show ?case by auto
next
  case (Suc n)
  from Suc.prems(2) obtain kp where kp: "h prev = Some kp" by auto
  from Suc.prems(4) obtain a where a: "node i = Some a" by (auto split: option.splits)
  have up: "[i..<i + Suc n] = i # [Suc i..<Suc i + n]" by (simp add: upt_rec)
  from Suc.prems(5) a have na: "a \<notin> set (us @ [prev])" unfolding up by auto
  let ?h = "(h(a \<mapsto> \<lparr>lvalue = node_value rand, lnext = None, lsync = []\<rparr>))(prev \<mapsto> kp\<lparr>lnext := Some a\<rparr>)"
  have st: "add_nodes rand node err (Suc i) n a ?h = Inr h'"
    using Suc.prems(4) a kp na random_string_fits[of rand]
    by (auto simp: result_simps Let_def split: if_splits)
  have "\<exists>as. map Some as = map node [Suc i..<Suc i + n] \<and> chain h' lnext (Some s) ((us @ [prev]) @ a # as) None \<and>
    dom h' = set ((us @ [prev]) @ a # as) \<and> (\<forall>a k. h' a = Some k \<longrightarrow> lsync k = []) \<and>
    (\<forall>b k. h' b = Some k \<longrightarrow> lvalue k = (if b \<in> set as then node_value rand else lvalue (the (?h b))))"
  proof (rule Suc.IH)
    have "prev \<notin> set us" using chain_distinct[OF Suc.prems(1)] by simp
    with Suc.prems(1) na kp show "chain ?h lnext (Some s) ((us @ [prev]) @ [a]) None"
      by (auto simp: chain_simps)
    show "dom ?h = set ((us @ [prev]) @ [a])" using Suc.prems(2) by auto
    show "lsync k = []" if "?h b = Some k" for b k
      using that Suc.prems(3)[of b k] Suc.prems(3)[OF kp] by (auto split: if_splits)
    show "add_nodes rand node err (Suc i) n a ?h = Inr h'" by (rule st)
    show "distinct (map Some ((us @ [prev]) @ [a]) @ map node [Suc i..<Suc i + n])"
      using Suc.prems(5) a unfolding up by auto
  qed
  then obtain as where as: "map Some as = map node [Suc i..<Suc i + n]"
    "chain h' lnext (Some s) (us @ prev # a # as) None" "dom h' = set (us @ prev # a # as)"
    "\<forall>a k. h' a = Some k \<longrightarrow> lsync k = []"
    "\<forall>b k. h' b = Some k \<longrightarrow> lvalue k = (if b \<in> set as then node_value rand else lvalue (the (?h b)))"
    by auto
  have "lvalue k = (if b \<in> set (a # as) then node_value rand else lvalue (the (h b)))" if "h' b = Some k" for b k
    using as(5)[rule_format, OF that] kp na by (auto split: if_splits)
  with as(1-4) a show ?case unfolding up by (intro exI[of _ "a # as"]) auto
qed

lemma list_init_nodes:
  assumes "list_init var rand first node n = Inr (start, h)"
    and "distinct (first # map (\<lambda>i. node i) [0..<n])"
  shows "\<exists>as. first = Some start \<and> map Some as = map node [0..<n] \<and> chain h lnext (Some start) (start # as) None \<and>
    dom h = set (start # as) \<and> (\<forall>a k. h a = Some k \<longrightarrow> lsync k = []) \<and>
    (\<forall>a k. h a = Some k \<longrightarrow> lvalue k = (if a = start then [] else node_value rand))"
proof -
  from assms(1) obtain err where first: "first = Some start"
    and add: "add_nodes rand node err 0 n start [start \<mapsto> start_node] = Inr h"
    by (auto simp: list_init_def list_init_mutex_def list_init_spin_def list_init_rwlock_def result_simps
        split: list_variant.splits option.splits)
  have "\<exists>as. map Some as = map node [0..<0 + n] \<and> chain h lnext (Some start) ([] @ start # as) None \<and>
    dom h = set ([] @ start # as) \<and> (\<forall>a k. h a = Some k \<longrightarrow> lsync k = []) \<and>
    (\<forall>a k. h a = Some k \<longrightarrow> lvalue k = (if a \<in> set as then node_value rand
       else lvalue (the ([start \<mapsto> start_node] a))))"
    by (rule add_nodes_ok[OF _ _ _ add])
      (use assms(2) first in \<open>auto simp: chain_simps start_node_def split: if_splits\<close>)
  then obtain as where as: "map Some as = map node [0..<n]" "chain h lnext (Some start) (start # as) None"
    "dom h = set (start # as)" "\<forall>a k. h a = Some k \<longrightarrow> lsync k = []"
    "\<forall>a k. h a = Some k \<longrightarrow> lvalue k = (if a \<in> set as then node_value rand
       else lvalue (the ([start \<mapsto> start_node] a)))" by auto
  have "lvalue k = (if a = start then [] else node_value rand)" if k: "h a = Some k" for a k
  proof -
    from k as(3) have "a \<in> set (start # as)" by blast
    with as(5)[rule_format, OF k] chain_distinct[OF as(2)] show ?thesis by (auto simp: start_node_def)
  qed
  with first as(1-4) show ?thesis by blast
qed

lemma chain_links: "chain h nx p as q \<Longrightarrow> chain (\<lambda>a. map_option nx (h a)) id p as q"
  by (induction as arbitrary: p) (auto simp: chain_simps)

lemma main_threads_pc: "t_pc (main_threads t) = T_Done \<or>
    t_pc (main_threads t) = R_Start \<and> (\<exists>w. t_kind (main_threads t) = Walker w) \<or>
    t_pc (main_threads t) = S_Start \<and> \<not> (\<exists>w. t_kind (main_threads t) = Walker w)"
proof -
  have "t = 0 \<or> t = 1 \<or> t = 2 \<or> t = 3 \<or> t = 4 \<or> t = 5 \<or> 6 \<le> t" by auto
  then show ?thesis by (auto simp: main_threads_def idle_thread_def)
qed

lemma list_start_inv:
  assumes "list_start var s"
  shows "list_inv var s"
proof -
  from assms obtain rand first node n h where
    i: "list_init var rand first node n = Inr (l_start s, h)" and s: "s = list_main (l_start s) h"
    and d: "distinct (first # map (\<lambda>i. node i) [0..<n])" unfolding list_start_def by blast
  from list_init_nodes[OF i d] obtain as where as: "chain h lnext (Some (l_start s)) (l_start s # as) None"
    "dom h = set (l_start s # as)" "\<forall>a k. h a = Some k \<longrightarrow> lsync k = []" by blast
  note th = main_threads_pc
  have nh: "\<not> holds (main_threads t) a" "\<not> mid (main_threads t) a" for t a
    using th[of t] by (auto simp: thread_defs)
  have "list_at var h (l_start s) main_threads (\<lambda>a. map_option lnext (h a)) (l_start s # as)"
    unfolding list_at_def
  proof (intro conjI allI impI)
    show "local_ok (\<lambda>a. map_option lnext (h a)) (main_threads t)" for t
      using th[of t] by (auto simp: local_ok_def walker_pc_def)
    show "mid_ok h (main_threads t)" for t using th[of t] by (auto simp: mid_ok_def)
    show "node_lock_ok var main_threads a (lsync k)" if "h a = Some k" for a k
      using as(3) that nh by (simp add: node_lock_ok_def)
  qed (use as chain_links in \<open>auto simp: dom_def\<close>)
  then have "list_inv var (list_main (l_start s) h)" by (auto simp: list_inv_def list_main_def)
  then show ?thesis using s by simp
qed

interpretation swap_list: transition_system "list_start var" "list_trans var" "list_inv var" for var
proof
  show "list_inv var s" if "list_start var s" for s using list_start_inv[OF that] .
  show "list_inv var s'" if "list_inv var s" "list_trans var s s'" for s s'
    using that(2) by (rule list_transE) (rule okRD[OF returns_okR[OF list_step_ok[OF that(1)]]])
qed

section \<open>What no step changes\<close>

lemma okR_acquire:
  "(\<And>h. (\<forall>a. map_option lvalue (h a) = map_option lvalue (l_heap s a)) \<Longrightarrow>
      P (put_thread t th (s\<lparr>l_heap := h\<rparr>))) \<Longrightarrow> P s \<Longrightarrow> okR P (acquire m p t th s)"
  by (auto simp: acquire_def)

lemma okR_unlock:
  "(\<And>h. (\<forall>a. map_option lvalue (h a) = map_option lvalue (l_heap s a)) \<Longrightarrow>
      P (put_thread t th (s\<lparr>l_heap := h\<rparr>))) \<Longrightarrow> okR P (unlock p t th s)"
  by (auto simp: unlock_def)

lemma okR_set_next:
  "(\<And>h. (\<forall>a. map_option lvalue (h a) = map_option lvalue (l_heap s a)) \<Longrightarrow>
      P (put_thread t th (s\<lparr>l_heap := h\<rparr>))) \<Longrightarrow> okR P (set_next p q t th s)"
  by (auto simp: set_next_def)

lemmas okR_list = okR_acquire okR_unlock okR_set_next

text \<open>The nodes and their strings, the start of the list, and the threads that do not exist.\<close>

definition list_same :: "lsys \<Rightarrow> lsys \<Rightarrow> bool" where
  "list_same s s' \<longleftrightarrow> l_start s' = l_start s \<and>
     (\<forall>a. map_option lvalue (l_heap s' a) = map_option lvalue (l_heap s a)) \<and>
     (\<forall>t. t_pc (l_thread s t) = T_Done \<longrightarrow> t_pc (l_thread s' t) = T_Done)"

lemma list_same_put:
  "list_same s s \<Longrightarrow> t_pc (l_thread s t) \<noteq> T_Done \<Longrightarrow> l_start s' = l_start s \<Longrightarrow> l_thread s' = l_thread s \<Longrightarrow>
     (\<forall>a. map_option lvalue (l_heap s' a) = map_option lvalue (l_heap s a)) \<Longrightarrow>
     list_same s (put_thread t th s')"
  by (simp add: list_same_def)

lemma list_same_refl: "list_same s s"
  by (simp add: list_same_def)

lemma walk_step_same: "okR (list_same s) (walk_step var w t s)"
  unfolding walk_step_def Let_def
  by (cases "t_pc (l_thread s t)")
    (auto intro!: okR_list list_same_put list_same_refl)

lemma swap_step_same: "okR (list_same s) (swap_step var i lucky t s)"
  unfolding swap_step_def Let_def
  by (cases "t_pc (l_thread s t)")
    (auto intro!: okR_list list_same_put list_same_refl)

lemma list_step_same: "okR (list_same s) (list_step var ev s)"
  unfolding list_step_def using walk_step_same swap_step_same
  by (cases ev; cases "\<exists>w. t_kind (l_thread s (case ev of Run t b \<Rightarrow> t)) = Walker w")
    (auto simp: list_same_def split: thread_kind.split)

lemma list_steps_same: "(list_trans var)\<^sup>*\<^sup>* s s' \<Longrightarrow> list_same s s'"
proof (induction rule: rtranclp_induct)
  case (step y z)
  from step(2) obtain ev where "list_step var ev y = Inr z" by (rule list_transE)
  with list_step_same[of y var ev] have "list_same y z" by simp
  with step(3) show ?case by (auto simp: list_same_def)
qed (simp add: list_same_refl)

section \<open>No deadlock\<close>

definition lock_pc :: "lpc \<Rightarrow> bool" where
  "lock_pc pc \<longleftrightarrow> pc \<in> {R_LockPrev, R_LockCur, R_LockNext, S_LockPrev, S_LockCur, S_LockNext}"

text \<open>The lock a thread asks for.\<close>

definition wanted :: "lthread \<Rightarrow> ptr" where
  "wanted th = (if t_pc th \<in> {R_LockPrev, S_LockPrev} then t_prev th
     else if t_pc th \<in> {R_LockCur, S_LockCur} then t_cur th else t_next th)"

text \<open>Some thread can execute a statement that moves it on.\<close>

definition list_moves :: "list_variant \<Rightarrow> lsys \<Rightarrow> bool" where
  "list_moves var s \<longleftrightarrow> (\<exists>t lucky s'. list_step var (Run t lucky) s = Inr s' \<and>
     t_pc (l_thread s' t) \<noteq> t_pc (l_thread s t))"

abbreviation moved :: "lsys \<Rightarrow> thread_id \<Rightarrow> lsys \<Rightarrow> bool" where
  "moved s t s' \<equiv> t_pc (l_thread s' t) \<noteq> t_pc (l_thread s t)"

lemma okR_moved:
  "t_pc th \<noteq> pc \<Longrightarrow> okR (\<lambda>s'. t_pc (l_thread s' t) \<noteq> pc) (unlock p t th s)"
  "t_pc th \<noteq> pc \<Longrightarrow> okR (\<lambda>s'. t_pc (l_thread s' t) \<noteq> pc) (set_next p q t th s)"
  by (auto simp: unlock_def set_next_def)

lemma list_inv_kind:
  "list_inv var s \<Longrightarrow> t_pc (l_thread s t) \<noteq> T_Done \<Longrightarrow>
     walker_pc (t_pc (l_thread s t)) \<longleftrightarrow> (\<exists>w. t_kind (l_thread s t) = Walker w)"
  unfolding list_inv_def by (elim exE) (drule list_atD(4)[of _ _ _ _ _ _ t], simp add: local_ok_def)

lemma other_pc_moves:
  assumes "list_inv var s" "t_pc (l_thread s t) \<noteq> T_Done" "\<not> lock_pc (t_pc (l_thread s t))"
  shows "list_moves var s"
proof -
  note k = list_inv_kind[OF assms(1,2)]
  have "okR (moved s t) (list_step var (Run t True) s)"
  proof (cases "t_kind (l_thread s t)")
    case (Walker w)
    with assms(2,3) k have "okR (moved s t) (walk_step var w t s)" unfolding walk_step_def Let_def
      by (cases "t_pc (l_thread s t)") (auto simp: lock_pc_def walker_pc_def intro!: okR_moved)
    with Walker show ?thesis by (simp add: list_step_def)
  next
    case (Swapper i)
    with assms(2,3) k have "okR (moved s t) (swap_step var i True t s)" unfolding swap_step_def Let_def
      by (cases "t_pc (l_thread s t)") (auto simp: lock_pc_def walker_pc_def intro!: okR_moved)
    with Swapper show ?thesis by (simp add: list_step_def)
  qed
  with list_step_ok[OF assms(1), of "Run t True"] show ?thesis
    unfolding list_moves_def returns_iff by (auto intro!: exI[of _ t] exI[of _ True])
qed

text \<open>A thread at a lock that is free takes it.\<close>

lemma free_lock_moves:
  assumes inv: "list_inv var s" and pc: "lock_pc (t_pc (l_thread s t))"
    and w: "wanted (l_thread s t) = Some a" "l_heap s a = Some n"
    and free: "can_lock (pc_mode var (t_pc (l_thread s t))) (lsync n)"
  shows "list_moves var s"
proof -
  from pc have "t_pc (l_thread s t) \<noteq> T_Done" by (auto simp: lock_pc_def)
  note k = list_inv_kind[OF inv this]
  have "okR (moved s t) (list_step var (Run t True) s)"
  proof (cases "t_kind (l_thread s t)")
    case (Walker w)
    with pc w free k have "okR (moved s t) (walk_step var w t s)"
      unfolding walk_step_def Let_def lock_pc_def
      by (auto simp: wanted_def acquire_def pc_mode_def walker_pc_def)
    with Walker show ?thesis by (simp add: list_step_def)
  next
    case (Swapper i)
    with pc w free k have "okR (moved s t) (swap_step var i True t s)"
      unfolding swap_step_def Let_def lock_pc_def
      by (auto simp: wanted_def acquire_def pc_mode_def walker_pc_def)
    with Swapper show ?thesis by (simp add: list_step_def)
  qed
  with list_step_ok[OF inv, of "Run t True"] show ?thesis
    unfolding list_moves_def returns_iff by (auto intro!: exI[of _ t] exI[of _ True])
qed

text \<open>Positions in the list: a thread waits for a node behind the nodes it holds.\<close>

definition position :: "addr list \<Rightarrow> addr \<Rightarrow> nat" where
  "position order a = length (takeWhile (\<lambda>b. b \<noteq> a) order)"

lemma position_bound: "a \<in> set order \<Longrightarrow> position order a < length order"
  unfolding position_def by (induction order) auto

lemma position_append: "a \<notin> set us \<Longrightarrow> position (us @ a # vs) a = length us"
  unfolding position_def by (induction us) auto

lemma position_link:
  assumes "chain L id p order None" "L a = Some (Some b)" "a \<in> set order"
  shows "position order b = Suc (position order a)"
proof -
  from assms(3) obtain us vs where o: "order = us @ a # vs" by (auto dest: split_list)
  with assms(1,2) have "chain L id (Some b) vs None" by (auto simp: chain_simps)
  then obtain ws where ws: "vs = b # ws" by (blast dest: chain_Some_None)
  from chain_distinct[OF assms(1)] o ws have "a \<notin> set us" "b \<notin> set (us @ [a])" by auto
  with position_append[of a us vs] position_append[of b "us @ [a]" ws] o ws show ?thesis by simp
qed

lemma wanted_behind:
  assumes inv: "list_at var h start ths L order" and "lock_pc (t_pc (ths u))" "holds (ths u) a"
  shows "\<exists>b. wanted (ths u) = Some b \<and> b \<in> set order \<and> position order a < position order b"
proof -
  have next_of: "\<exists>b. q = Some b \<and> b \<in> set order \<and> position order x < position order b"
    if "link L (Some x) q" for x q
    using linkD[OF inv that] position_link[OF list_atD(1)[OF inv]] by auto
  have lo: "local_ok L (ths u)" by (rule list_atD(4)[OF inv])
  from assms(2,3) consider "t_pc (ths u) = R_LockCur" | "t_pc (ths u) = S_LockCur"
    | "t_pc (ths u) = R_LockNext" | "t_pc (ths u) = S_LockNext"
    by (auto simp: lock_pc_def holds_def pc_defs)
  then show ?thesis
  proof cases
    case 1
    with lo assms(3) next_of[of a "t_cur (ths u)"] show ?thesis
      by (simp add: local_ok_def holds_def pc_defs wanted_def)
  next
    case 2
    with lo assms(3) next_of[of a "t_cur (ths u)"] show ?thesis
      by (simp add: local_ok_def holds_def pc_defs wanted_def)
  next
    case 3
    with lo assms(3) next_of[of a "t_next (ths u)"] show ?thesis
      by (simp add: local_ok_def holds_def pc_defs wanted_def)
  next
    case 4
    with lo have lk: "link L (t_prev (ths u)) (t_cur (ths u))" "link L (t_cur (ths u)) (t_next (ths u))"
      by (simp_all add: local_ok_def)
    then obtain c where c: "t_cur (ths u) = Some c" by (auto simp: link_def)
    with lk next_of[of c "t_next (ths u)"] obtain b where
      b: "t_next (ths u) = Some b" "b \<in> set order" "position order c < position order b" by auto
    have "position order a \<le> position order c"
      using assms(3) 4 c lk(1) next_of[of a "t_cur (ths u)"] by (auto simp: holds_def pc_defs)
    with b 4 show ?thesis by (simp add: wanted_def)
  qed
qed

lemma wanted_valid:
  assumes inv: "list_at var h start ths L order" and "lock_pc (t_pc (ths t))"
  shows "\<exists>a n. wanted (ths t) = Some a \<and> h a = Some n \<and> a \<in> set order"
  using list_atD(4)[OF inv, of t] assms(2) validD[OF inv, of "t_prev (ths t)"]
    linkD[OF inv, of "t_prev (ths t)" "t_cur (ths t)"] linkD[OF inv, of "t_cur (ths t)" "t_next (ths t)"]
  unfolding lock_pc_def local_ok_def wanted_def by auto

lemma can_lock_free:
  "node_lock_ok var ths a hs \<Longrightarrow> (\<And>u. \<not> holds (ths u) a) \<Longrightarrow> can_lock m hs"
  by (cases hs) (auto simp: node_lock_ok_def can_lock_def split: lock_mode.split)

lemma waiting_moves:
  assumes inv: "list_at var (l_heap s) (l_start s) (l_thread s) L order"
  shows "lock_pc (t_pc (l_thread s t)) \<Longrightarrow> wanted (l_thread s t) = Some a \<Longrightarrow> a \<in> set order \<Longrightarrow> list_moves var s"
proof (induction "length order - position order a" arbitrary: t a rule: less_induct)
  case less
  have li: "list_inv var s" by (rule list_invI[OF inv])
  from less.prems(3) list_atD(3)[OF inv] obtain n where n: "l_heap s a = Some n" by blast
  show ?case
  proof (cases "\<exists>u. holds (l_thread s u) a")
    case False
    with free_lock_moves[OF li less.prems(1,2) n] can_lock_free[OF list_atD(6)[OF inv n]] show ?thesis by blast
  next
    case True
    then obtain u where u: "holds (l_thread s u) a" by blast
    show ?thesis
    proof (cases "lock_pc (t_pc (l_thread s u))")
      case True
      from wanted_behind[OF inv True u] obtain b where
        b: "wanted (l_thread s u) = Some b" "b \<in> set order" "position order a < position order b" by blast
      have "length order - position order b < length order - position order a"
        using b(3) position_bound[OF b(2)] by arith
      from less.hyps[OF this True b(1,2)] show ?thesis .
    next
      case False
      have "t_pc (l_thread s u) \<noteq> T_Done" using u by (auto simp: holds_def pc_defs)
      from other_pc_moves[OF li this False] show ?thesis .
    qed
  qed
qed

lemma list_progress:
  assumes "list_inv var s" "t_pc (l_thread s t) \<noteq> T_Done"
  shows "list_moves var s"
proof (cases "lock_pc (t_pc (l_thread s t))")
  case True
  from assms(1) obtain L order where inv: "list_at var (l_heap s) (l_start s) (l_thread s) L order"
    by (auto simp: list_inv_def)
  from wanted_valid[OF inv True] waiting_moves[OF inv True] show ?thesis by blast
next
  case False
  from other_pc_moves[OF assms this] show ?thesis .
qed

section \<open>Reading the list off memory\<close>

text \<open>No thread is between two stores of a swap; all threads have ended.\<close>

definition no_swap_open :: "lsys \<Rightarrow> bool" where
  "no_swap_open s \<longleftrightarrow> list_all (\<lambda>t. t_pc (l_thread s t) \<noteq> S_Write2 \<and> t_pc (l_thread s t) \<noteq> S_Write3) [0..<6]"

definition all_done :: "lsys \<Rightarrow> bool" where
  "all_done s \<longleftrightarrow> list_all (\<lambda>t. t_pc (l_thread s t) = T_Done) [0..<6]"

lemma list_start_same:
  assumes "list_start var s0" "(list_trans var)\<^sup>*\<^sup>* s0 s"
  shows "list_inv var s" "list_same s0 s" "6 \<le> t \<Longrightarrow> t_pc (l_thread s t) = T_Done"
proof -
  show "list_inv var s" using swap_list.inv_steps[OF list_start_inv[OF assms(1)] assms(2)] .
  show same: "list_same s0 s" by (rule list_steps_same[OF assms(2)])
  show "t_pc (l_thread s t) = T_Done" if "6 \<le> t"
  proof -
    from assms(1) obtain a h where "s0 = list_main a h" unfolding list_start_def by blast
    with that have "t_pc (l_thread s0 t) = T_Done"
      by (simp add: list_main_def main_threads_def idle_thread_def)
    with same show ?thesis by (simp add: list_same_def)
  qed
qed

lemma all_threads:
  assumes "list_all (\<lambda>t. P (t_pc (l_thread s t))) [0..<6]" "P T_Done"
    "\<And>t. 6 \<le> t \<Longrightarrow> t_pc (l_thread s t) = T_Done"
  shows "P (t_pc (l_thread s t))"
  using assms(1,2) assms(3)[of t] by (cases "t < 6") (auto simp: list_all_iff)

lemma list_at_memory:
  assumes "list_at var h start ths L order" "\<And>t a. \<not> mid (ths t) a"
  shows "chain h lnext (Some start) order None"
proof -
  have eq: "map_option lnext (h a) = L a" for a
  proof (cases "h a")
    case None
    then have "a \<notin> dom L" using list_atD(2,3)[OF assms(1)] by blast
    with None show ?thesis by (simp add: domIff)
  next
    case (Some n)
    with list_atD(7)[OF assms(1), of a n] assms(2) show ?thesis by simp
  qed
  have "chain L id p as q \<Longrightarrow> chain h lnext p as q" for p as q
  proof (induction as arbitrary: p)
    case (Cons a as)
    then obtain r where "p = Some a" "L a = Some r" "chain L id r as q"
      unfolding chain_Cons_iff id_apply by blast
    with eq[of a] Cons.IH[OF this(3)] show ?case by (auto simp: chain_simps)
  qed simp
  from this[OF list_atD(1)[OF assms(1)]] show ?thesis .
qed

lemma list_inv_memory:
  assumes "list_inv var s" "\<And>t. t_pc (l_thread s t) \<noteq> S_Write2 \<and> t_pc (l_thread s t) \<noteq> S_Write3"
  shows "\<exists>order. chain (l_heap s) lnext (Some (l_start s)) order None \<and> dom (l_heap s) = set order"
proof -
  from assms(1) obtain L order where inv: "list_at var (l_heap s) (l_start s) (l_thread s) L order"
    by (auto simp: list_inv_def)
  from list_at_memory[OF inv] list_atD(3)[OF inv] assms(2) show ?thesis by (auto simp: mid_def)
qed

lemma destroy_list_ok:
  "chain h lnext p as None \<Longrightarrow> (\<And>a n. h a = Some n \<Longrightarrow> lsync n = []) \<Longrightarrow> length as < fuel \<Longrightarrow>
     \<exists>h'. destroy_list fuel p h = Inr h' \<and> (\<forall>b. h' b = (if b \<in> set as then None else h b))"
proof (induction as arbitrary: p h fuel)
  case Nil
  then obtain f where "fuel = Suc f" by (cases fuel) auto
  with Nil show ?case by simp
next
  case (Cons a as)
  then obtain f n where fuel: "fuel = Suc f" "length as < f" and n: "p = Some a" "h a = Some n"
    and ch: "chain h lnext (lnext n) as None" by (cases fuel) (auto simp: chain_simps)
  from chain_distinct[OF Cons.prems(1)] have "a \<notin> set as" by simp
  then have "chain (h(a := None)) lnext (lnext n) as None" using ch by (simp del: fun_upd_apply)
  moreover have "lsync k = []" if "(h(a := None)) b = Some k" for b k
    using that Cons.prems(2)[of b k] by (simp split: if_splits)
  ultimately obtain h' where
    "destroy_list f (lnext n) (h(a := None)) = Inr h'" "\<forall>b. h' b = (if b \<in> set as then None else (h(a := None)) b)"
    using Cons.IH[of "h(a := None)" "lnext n" f] fuel(2) by blast
  with n fuel Cons.prems(2)[OF n(2)] show ?case by auto
qed

section \<open>A run for the witnesses\<close>

fun run_list :: "list_variant \<Rightarrow> list_event list \<Rightarrow> lsys \<Rightarrow> lsys result" where
  "run_list var [] s = Inr s"
| "run_list var (ev # evs) s = bindR (list_step var ev s) (run_list var evs)"

lemma run_list_steps: "run_list var evs s = Inr s' \<Longrightarrow> (list_trans var)\<^sup>*\<^sup>* s s'"
proof (induction evs arbitrary: s)
  case (Cons ev evs)
  then obtain u where "list_step var ev s = Inr u" "run_list var evs u = Inr s'" by (auto simp: result_simps)
  with Cons.IH show ?case by (meson converse_rtranclp_into_rtranclp list_trans.intros)
qed simp

text \<open>A list of two nodes, and the events of a swap of both by the first swapper.\<close>

definition demo_heap :: lheap where
  "demo_heap = [0 \<mapsto> start_node\<lparr>lnext := Some 1\<rparr>, 1 \<mapsto> \<lparr>lvalue = ''a'', lnext = Some 2, lsync = []\<rparr>,
     2 \<mapsto> \<lparr>lvalue = ''a'', lnext = None, lsync = []\<rparr>]"

definition demo_swap :: "list_event list" where
  "demo_swap = replicate 17 (Run 3 True)"

lemma demo_list: "list_init var (\<lambda>_. 0) (Some 0) (\<lambda>i. Some (Suc i)) 2 = Inr (0, demo_heap)"
proof -
  have "(2::nat) = Suc (Suc 0)" by simp
  then show ?thesis
    by (cases var) (simp_all add: list_init_def list_init_mutex_def list_init_spin_def list_init_rwlock_def
        demo_heap_def random_string_def max_str_def alphabet_def start_node_def Let_def fun_eq_iff
        numeral_2_eq_2)
qed

lemma demo_start: "list_start var (list_main 0 demo_heap)"
  unfolding list_start_def
  using demo_list[of var] by (intro exI[of _ "\<lambda>_. 0"] exI[of _ "Some 0"] exI[of _ "\<lambda>i. Some (Suc i)"] exI[of _ 2]
      exI[of _ demo_heap]) (simp add: list_main_def numeral_2_eq_2)

lemma demo_swap_run:
  "case run_list LRwlock demo_swap (list_main 0 demo_heap) of Inl _ \<Rightarrow> False
   | Inr s \<Rightarrow> no_swap_open s \<and> l_start s = 0 \<and> chain (l_heap s) lnext (Some 0) [0, 2, 1] None \<and>
       l_swaps s 0 = 1 \<and> t_pc (l_thread s 3) = S_Inner"
  by code_simp

section \<open>Properties\<close>

text \<open>
  C4. Swapping only permutes: in every state the program can reach from the list that
  \<open>list_init\<close> built, if no thread is between two stores of a swap, the links in memory
  form one list that ends in \<open>NULL\<close>, begins with the same node and visits exactly the
  initial nodes, each once, with their strings unchanged.
\<close>

theorem swap_list_permuted:
  assumes "list_start var s0" "(list_trans var)\<^sup>*\<^sup>* s0 s" "no_swap_open s"
  shows "\<exists>order0 order. chain (l_heap s0) lnext (Some (l_start s0)) order0 None \<and>
    chain (l_heap s) lnext (Some (l_start s0)) order None \<and> mset order = mset order0 \<and>
    dom (l_heap s) = set order0 \<and>
    (\<forall>a. map_option lvalue (l_heap s a) = map_option lvalue (l_heap s0 a))"
proof -
  note r = list_start_same[OF assms(1,2)] and r0 = list_start_same[OF assms(1) rtranclp.rtrancl_refl]
  from assms(1) obtain a h where "s0 = list_main a h" unfolding list_start_def by blast
  then have th0: "l_thread s0 = main_threads" by (simp add: list_main_def)
  have "t_pc (l_thread s t) \<noteq> S_Write2 \<and> t_pc (l_thread s t) \<noteq> S_Write3" for t
    by (rule all_threads[OF assms(3)[unfolded no_swap_open_def]]) (use r(3) in auto)
  from list_inv_memory[OF r(1) this] r(2) obtain order where
    o: "chain (l_heap s) lnext (Some (l_start s0)) order None" "dom (l_heap s) = set order"
    by (auto simp: list_same_def)
  have "t_pc (l_thread s0 t) \<noteq> S_Write2 \<and> t_pc (l_thread s0 t) \<noteq> S_Write3" for t
    using main_threads_pc[of t] by (auto simp: th0)
  from list_inv_memory[OF r0(1) this] obtain order0 where
    o0: "chain (l_heap s0) lnext (Some (l_start s0)) order0 None" "dom (l_heap s0) = set order0" by blast
  have "dom (l_heap s) = dom (l_heap s0)" using r(2) unfolding list_same_def dom_def
    by (metis (no_types, lifting) map_option_is_None)
  with o o0 have "mset order = mset order0"
    using chain_distinct[OF o(1)] chain_distinct[OF o0(1)] by (simp add: set_eq_iff_mset_eq_distinct[symmetric])
  with o o0 r(2) \<open>dom (l_heap s) = dom (l_heap s0)\<close> show ?thesis unfolding list_same_def by blast
qed

theorem swap_list_permuted_witness:
  "\<exists>s order0. run_list LRwlock demo_swap (list_main 0 demo_heap) = Inr s \<and>
    chain (l_heap s) lnext (Some 0) [0, 2, 1] None \<and> mset [0, 2, 1] = mset order0 \<and>
    chain demo_heap lnext (Some 0) order0 None"
proof -
  obtain s where s: "run_list LRwlock demo_swap (list_main 0 demo_heap) = Inr s"
    and q: "no_swap_open s" "chain (l_heap s) lnext (Some 0) [0, 2, 1] None"
    using demo_swap_run by (auto split: sum.splits)
  from swap_list_permuted[OF demo_start run_list_steps[OF s] q(1)] obtain order0 order where
    "chain demo_heap lnext (Some 0) order0 None" "chain (l_heap s) lnext (Some 0) order None"
    "mset order = mset order0" by (auto simp: list_main_def)
  with s q(2) chain_unique[OF q(2), of order] show ?thesis by blast
qed

text \<open>
  C18. No statement of any thread fails: none follows a null pointer or leaves the list,
  also in the unlocked read \<open>prev = prev->next\<close>, and none releases a lock it does not
  hold.
\<close>

theorem swap_list_safe:
  assumes "list_start var s0" "(list_trans var)\<^sup>*\<^sup>* s0 s"
  shows "\<exists>s'. list_step var ev s = Inr s'"
  using list_step_ok[OF list_start_same(1)[OF assms], of ev] by (auto simp: returns_iff)

theorem swap_list_safe_witness: "\<exists>s'. list_step LSpin (Run 3 True) (list_main 0 demo_heap) = Inr s'"
  by (rule swap_list_safe[OF demo_start]) simp

text \<open>
  The holders recorded in the lock of a node are the threads between their lock and
  unlock statements for it; two different holders are both walkers of the \<open>rwlock\<close>
  version. In particular no thread reads a node under its lock during a swap of it.
\<close>

theorem swap_list_exclusion:
  assumes "list_start var s0" "(list_trans var)\<^sup>*\<^sup>* s0 s" "l_heap s a = Some n"
    and "holds (l_thread s t) a" "holds (l_thread s u) a" "t \<noteq> u"
  shows "var = LRwlock \<and> walker_pc (t_pc (l_thread s t)) \<and> walker_pc (t_pc (l_thread s u)) \<and>
    (t, Shared) \<in> set (lsync n) \<and> (u, Shared) \<in> set (lsync n)"
proof -
  from list_start_same(1)[OF assms(1,2)] obtain L order where
    "list_at var (l_heap s) (l_start s) (l_thread s) L order" by (auto simp: list_inv_def)
  from list_atD(6)[OF this assms(3)] have nl: "node_lock_ok var (l_thread s) a (lsync n)" .
  have "pc_mode var pc = Shared \<longleftrightarrow> walker_pc pc \<and> var = LRwlock" for pc
    by (auto simp: pc_mode_def walk_mode_def split: list_variant.splits)
  with node_lock_excl[OF nl assms(4-6)] nl assms(4,5) show ?thesis unfolding node_lock_ok_def by metis
qed

text \<open>Two walkers of the read-write lock version on the first node.\<close>

definition demo_walk :: "list_event list" where
  "demo_walk = [Run 0 True, Run 0 True, Run 1 True, Run 1 True]"

lemma demo_walk_run:
  "case run_list LRwlock demo_walk (list_main 0 demo_heap) of Inl _ \<Rightarrow> False
   | Inr s \<Rightarrow> l_heap s 0 \<noteq> None \<and> t_pc (l_thread s 0) = R_ReadCur \<and> t_prev (l_thread s 0) = Some 0 \<and>
       t_pc (l_thread s 1) = R_ReadCur \<and> t_prev (l_thread s 1) = Some 0"
  by (simp add: demo_walk_def list_main_def demo_heap_def list_step_def main_threads_def idle_thread_def
      walk_step_def walk_mode_def acquire_def put_thread_def can_lock_def start_node_def Let_def)

theorem swap_list_exclusion_witness:
  "\<exists>s n. run_list LRwlock demo_walk (list_main 0 demo_heap) = Inr s \<and> l_heap s 0 = Some n \<and>
     (0, Shared) \<in> set (lsync n) \<and> (1, Shared) \<in> set (lsync n)"
proof -
  obtain s n where s: "run_list LRwlock demo_walk (list_main 0 demo_heap) = Inr s" "l_heap s 0 = Some n"
    and pc: "t_pc (l_thread s 0) = R_ReadCur" "t_prev (l_thread s 0) = Some 0"
      "t_pc (l_thread s 1) = R_ReadCur" "t_prev (l_thread s 1) = Some 0"
    using demo_walk_run by (auto split: sum.splits)
  have "holds (l_thread s 0) 0" "holds (l_thread s 1) 0" using pc by (simp_all add: holds_def has_prev_def)
  from swap_list_exclusion[OF demo_start run_list_steps[OF s(1)] s(2) this] s show ?thesis by simp
qed

text \<open>
  C17. There is no deadlock: as long as some thread has not ended, some thread can execute
  a statement that moves it on.
\<close>

theorem swap_list_progress:
  assumes "list_start var s0" "(list_trans var)\<^sup>*\<^sup>* s0 s" "t_pc (l_thread s t) \<noteq> T_Done"
  shows "list_moves var s"
  by (rule list_progress[OF list_start_same(1)[OF assms(1,2)] assms(3)])

theorem swap_list_progress_witness: "list_moves LMutex (list_main 0 demo_heap)"
  using swap_list_progress[OF demo_start rtranclp.rtrancl_refl, where t = 0]
  by (simp add: list_main_def main_threads_def)

text \<open>
  The test \<open>prev->next == current && current->next == next\<close> that guards a swap always
  succeeds: with the three locks held the neighbours cannot have changed.
\<close>

theorem swap_check_succeeds:
  assumes "list_start var s0" "(list_trans var)\<^sup>*\<^sup>* s0 s"
    and "t_kind (l_thread s t) = Swapper i" "t_pc (l_thread s t) = S_Check"
  shows "\<exists>s'. swap_step var i lucky t s = Inr s' \<and> t_pc (l_thread s' t) = S_ReadNN"
proof -
  let ?th = "l_thread s t"
  from list_start_same(1)[OF assms(1,2)] obtain L order where
    inv: "list_at var (l_heap s) (l_start s) (l_thread s) L order" by (auto simp: list_inv_def)
  from list_atD(4)[OF inv, of t] assms(4) have lk: "link L (t_prev ?th) (t_cur ?th)" "link L (t_cur ?th) (t_next ?th)"
    by (simp_all add: local_ok_def)
  from pcx_nodes[OF inv lk] obtain p c x n m where a: "t_prev ?th = Some p" "t_cur ?th = Some c"
    "t_next ?th = Some x" "l_heap s p = Some n" "l_heap s c = Some m" "L p = Some (Some c)" "L c = Some (Some x)"
    by blast
  with held_link[OF inv, of t p n] held_link[OF inv, of t c m] assms(4)
  have "lnext n = Some c" "lnext m = Some x" by (auto simp: thread_defs)
  with a assms(4) show ?thesis by (simp add: swap_step_def Let_def)
qed

lemma demo_check_run:
  "case run_list LMutex (replicate 8 (Run 3 True)) (list_main 0 demo_heap) of Inl _ \<Rightarrow> False
   | Inr s \<Rightarrow> t_pc (l_thread s 3) = S_Check \<and> t_kind (l_thread s 3) = Swapper 0"
  by code_simp

theorem swap_check_succeeds_witness:
  "\<exists>s s'. run_list LMutex (replicate 8 (Run 3 True)) (list_main 0 demo_heap) = Inr s \<and>
     swap_step LMutex 0 True 3 s = Inr s' \<and> t_pc (l_thread s' 3) = S_ReadNN"
proof -
  obtain s where s: "run_list LMutex (replicate 8 (Run 3 True)) (list_main 0 demo_heap) = Inr s"
    and pc: "t_pc (l_thread s 3) = S_Check" "t_kind (l_thread s 3) = Swapper 0"
    using demo_check_run by (auto split: sum.splits)
  from swap_check_succeeds[OF demo_start run_list_steps[OF s] pc(2,1)] s show ?thesis by blast
qed

text \<open>
  \<open>list_init\<close> writes within the buffers and links \<open>n\<close> nodes behind the start node, but
  all of them hold the same string, because the generator is seeded with the same value
  for every node. Hence between these nodes \<open>increasing_thread\<close> and \<open>decreasing_thread\<close>
  never count and \<open>equal_thread\<close> always does, however the nodes are swapped.
\<close>

theorem list_init_same_strings:
  assumes "list_init var rand first node n = Inr (start, h)" "distinct (first # map (\<lambda>i. node i) [0..<n])"
  shows "\<exists>as. first = Some start \<and> chain h lnext (Some start) (start # as) None \<and> length as = n \<and>
    (\<forall>a k. h a = Some k \<longrightarrow> length (lvalue k) < max_str) \<and>
    (\<forall>a b k k'. a \<noteq> start \<longrightarrow> b \<noteq> start \<longrightarrow> h a = Some k \<longrightarrow> h b = Some k' \<longrightarrow>
       \<not> walk_counts Increasing (lvalue k) (lvalue k') \<and> \<not> walk_counts Decreasing (lvalue k) (lvalue k') \<and>
       walk_counts Equal (lvalue k) (lvalue k'))"
proof -
  from list_init_nodes[OF assms] obtain as where as: "first = Some start" "map Some as = map node [0..<n]"
    "chain h lnext (Some start) (start # as) None"
    "\<forall>a k. h a = Some k \<longrightarrow> lvalue k = (if a = start then [] else node_value rand)" by blast
  from as(2) have "length as = n" using map_eq_imp_length_eq by fastforce
  moreover have "length (lvalue k) < max_str" if "h a = Some k" for a k
    using as(4) that node_value_length[of rand] by (auto simp: max_str_def)
  ultimately show ?thesis using as(1,3,4) by (intro exI[of _ as]) (auto simp: walk_counts_def)
qed

theorem list_init_same_strings_witness:
  "\<exists>as. chain demo_heap lnext (Some 0) (0 # as) None \<and> length as = 2"
  using list_init_same_strings[OF demo_list[of LSpin]] by (auto simp: numeral_2_eq_2)

text \<open>
  When all threads have ended, \<open>list_destroy\<close> frees every node: no lock is held any
  more, and one more iteration than nodes is enough.
\<close>

theorem list_destroy_frees_all:
  assumes "list_start var s0" "(list_trans var)\<^sup>*\<^sup>* s0 s" "all_done s" "card (dom (l_heap s0)) < fuel"
  shows "destroy_list fuel (Some (l_start s)) (l_heap s) = Inr Map.empty"
proof -
  note r = list_start_same[OF assms(1,2)]
  have d: "t_pc (l_thread s t) = T_Done" for t
    using assms(3) r(3)[of t] by (cases "t < 6") (auto simp: all_done_def list_all_iff)
  from list_inv_memory[OF r(1)] d obtain order where
    o: "chain (l_heap s) lnext (Some (l_start s)) order None" "dom (l_heap s) = set order" by auto
  have "dom (l_heap s) = dom (l_heap s0)" using r(2) unfolding list_same_def dom_def
    by (metis (no_types, lifting) map_option_is_None)
  with o assms(4) have "length order < fuel" using distinct_card[OF chain_distinct[OF o(1)]] by simp
  moreover have "lsync k = []" if "l_heap s a = Some k" for a k
  proof -
    from r(1) that have "node_lock_ok var (l_thread s) a (lsync k)"
      unfolding list_inv_def using list_atD(6) by blast
    then show ?thesis using d by (cases "lsync k") (auto simp: node_lock_ok_def holds_def pc_defs)
  qed
  ultimately obtain h' where "destroy_list fuel (Some (l_start s)) (l_heap s) = Inr h'"
    "\<forall>b. h' b = (if b \<in> set order then None else l_heap s b)" using destroy_list_ok[OF o(1)] by blast
  moreover from this o(2) have "h' = Map.empty" by (auto simp: fun_eq_iff domIff[symmetric])
  ultimately show ?thesis by simp
qed

text \<open>A run that sets the flag and lets the threads see it.\<close>

lemma demo_stop_run:
  "case run_list LMutex (Stop # map (\<lambda>t. Run t True) [0..<6]) (list_main 0 demo_heap) of Inl _ \<Rightarrow> False
   | Inr s \<Rightarrow> all_done s"
  by code_simp

theorem list_destroy_frees_all_witness:
  "\<exists>s. run_list LMutex (Stop # map (\<lambda>t. Run t True) [0..<6]) (list_main 0 demo_heap) = Inr s \<and>
     destroy_list 4 (Some (l_start s)) (l_heap s) = Inr Map.empty"
proof -
  obtain s where s: "run_list LMutex (Stop # map (\<lambda>t. Run t True) [0..<6]) (list_main 0 demo_heap) = Inr s"
    and q: "all_done s" using demo_stop_run by (auto split: sum.splits)
  have "dom demo_heap = {0, 1, 2}" by (auto simp: demo_heap_def)
  then have "card (dom (l_heap (list_main 0 demo_heap))) < 4" by (simp add: list_main_def)
  from list_destroy_frees_all[OF demo_start run_list_steps[OF s] q this] s show ?thesis by blast
qed

end
