(* ===== verification/Locks.thy ===== *)
theory Locks
  imports OS_Prelude
begin

text \<open>
  The locks of \<open>task2_4\<close>: \<open>my_mutex\<close>, a mutex over a futex with three types, and
  \<open>my_spinlock\<close>. Any number of threads call the lock operations in any order; a step is one
  access to the lock's fields. The contract of a lock is the locale \<open>exclusive_lock\<close>, which
  extends \<open>transition_system\<close>.
\<close>

section \<open>The contract of a lock\<close>

locale exclusive_lock = transition_system start step inv
  for start :: "'s \<Rightarrow> bool" and step :: "'s \<Rightarrow> 's \<Rightarrow> bool" and inv :: "'s \<Rightarrow> bool" +
  fixes owns :: "'s \<Rightarrow> nat \<Rightarrow> bool"
  assumes one_owner: "inv s \<Longrightarrow> owns s t \<Longrightarrow> owns s u \<Longrightarrow> t = u"
begin

lemma exclusion: "reachable start step s \<Longrightarrow> owns s t \<Longrightarrow> owns s u \<Longrightarrow> t = u"
  using one_owner[OF reachable_inv] .

end

text \<open>A lock whose waiters sleep: as long as one does, somebody owns the lock or will act on it.\<close>

locale blocking_lock = exclusive_lock start step inv owns
  for start :: "'s \<Rightarrow> bool" and step :: "'s \<Rightarrow> 's \<Rightarrow> bool" and inv :: "'s \<Rightarrow> bool"
    and owns :: "'s \<Rightarrow> nat \<Rightarrow> bool" +
  fixes asleep :: "'s \<Rightarrow> nat \<Rightarrow> bool" and active :: "'s \<Rightarrow> nat \<Rightarrow> bool"
  assumes not_forgotten: "inv s \<Longrightarrow> asleep s u \<Longrightarrow> (\<exists>t. owns s t) \<or> (\<exists>t. active s t)"
begin

lemma no_lost_wakeup:
  "reachable start step s \<Longrightarrow> asleep s u \<Longrightarrow> (\<exists>t. owns s t) \<or> (\<exists>t. active s t)"
  using not_forgotten[OF reachable_inv] .

end

section \<open>my_mutex\<close>

datatype mutex_type = MY_MUTEX_NORMAL | MY_MUTEX_RECURSIVE | MY_MUTEX_ERRORCHECK

text \<open>
  Where a thread is: outside or inside with \<open>d\<close> acquisitions it has not given back, or at a
  statement of \<open>my_mutex_lock\<close> (\<open>ML\<close>) or \<open>my_mutex_unlock\<close> (\<open>MU\<close>), where \<open>d\<close> is the number with
  which it made the call.
\<close>

datatype mpc = M_Out | M_In nat
  | ML_Load nat | ML_Owner nat | ML_Relock nat | ML_Cas | ML_SetOwner | ML_SetRec | ML_Wait | ML_Sleep
  | MU_Owner nat | MU_Dec nat | MU_ClearOwner | MU_ClearRec | MU_Store | MU_Wake

record my_mutex =
  m_lock :: int
  m_owner :: nat
  m_recursion :: int
  m_type :: mutex_type
  m_pc :: "nat \<Rightarrow> mpc"

definition my_mutex_init :: "mutex_type \<Rightarrow> my_mutex" where
  "my_mutex_init ty = \<lparr>m_lock = 1, m_owner = 0, m_recursion = 0, m_type = ty, m_pc = (\<lambda>_. M_Out)\<rparr>"

definition goto :: "nat \<Rightarrow> mpc \<Rightarrow> my_mutex \<Rightarrow> my_mutex" where
  "goto t pc s = s\<lparr>m_pc := (m_pc s)(t := pc)\<rparr>"

definition caller :: "nat \<Rightarrow> mpc" where
  "caller d = (if d = 0 then M_Out else M_In d)"

text \<open>
  \<open>FUTEX_WAIT\<close> sleeps if the lock is still 0 and returns \<open>EAGAIN\<close> otherwise. A sleeping thread
  takes a step of its own when it wakes up for no reason, or for a signal (\<open>intr\<close>): then the call
  fails with \<open>EINTR\<close>, which the code takes for a fatal error.
\<close>

definition my_mutex_lock :: "nat \<Rightarrow> bool \<Rightarrow> my_mutex \<Rightarrow> my_mutex result" where
  "my_mutex_lock t intr s = (case m_pc s t of
       ML_Load d \<Rightarrow> Inr (goto t (if m_lock s = 0 then ML_Owner d else ML_Cas) s)
     | ML_Owner d \<Rightarrow> Inr (goto t (if m_owner s = t then ML_Relock d else ML_Cas) s)
     | ML_Relock d \<Rightarrow>
         (case m_type s of
            MY_MUTEX_RECURSIVE \<Rightarrow> Inr (goto t (M_In (d + 1)) (s\<lparr>m_recursion := m_recursion s + 1\<rparr>))
          | MY_MUTEX_ERRORCHECK \<Rightarrow> Inr (goto t (M_In d) s)
          | MY_MUTEX_NORMAL \<Rightarrow> Inl Aborted)
     | ML_Cas \<Rightarrow>
         Inr (if m_lock s = 1 then goto t ML_SetOwner (s\<lparr>m_lock := 0\<rparr>) else goto t ML_Wait s)
     | ML_SetOwner \<Rightarrow> Inr (goto t ML_SetRec (s\<lparr>m_owner := t\<rparr>))
     | ML_SetRec \<Rightarrow> Inr (goto t (M_In 1) (s\<lparr>m_recursion := 1\<rparr>))
     | ML_Wait \<Rightarrow> Inr (goto t (if m_lock s = 0 then ML_Sleep else ML_Cas) s)
     | ML_Sleep \<Rightarrow> if intr then Inl Aborted else Inr (goto t ML_Cas s)
     | _ \<Rightarrow> Inr s)"

text \<open>\<open>FUTEX_WAKE\<close> wakes one sleeping thread, \<open>w\<close>, if there is one.\<close>

definition my_mutex_unlock :: "nat \<Rightarrow> nat option \<Rightarrow> my_mutex \<Rightarrow> my_mutex result" where
  "my_mutex_unlock t w s = (case m_pc s t of
       MU_Owner d \<Rightarrow>
         if m_owner s \<noteq> t
         then (if m_type s = MY_MUTEX_ERRORCHECK then Inl Aborted else Inr (goto t (caller d) s))
         else Inr (goto t (MU_Dec d) s)
     | MU_Dec d \<Rightarrow>
         if m_type s = MY_MUTEX_RECURSIVE
         then Inr (goto t (if m_recursion s - 1 > 0 then caller (d - 1) else MU_ClearOwner)
                     (s\<lparr>m_recursion := m_recursion s - 1\<rparr>))
         else Inr (goto t MU_ClearOwner s)
     | MU_ClearOwner \<Rightarrow> Inr (goto t MU_ClearRec (s\<lparr>m_owner := 0\<rparr>))
     | MU_ClearRec \<Rightarrow> Inr (goto t MU_Store (s\<lparr>m_recursion := 0\<rparr>))
     | MU_Store \<Rightarrow> Inr (goto t MU_Wake (s\<lparr>m_lock := 1\<rparr>))
     | MU_Wake \<Rightarrow>
         (case w of None \<Rightarrow> Inr (goto t M_Out s) | Some u \<Rightarrow> Inr (goto t M_Out (goto u ML_Cas s)))
     | _ \<Rightarrow> Inr s)"

text \<open>
  The events: thread \<open>ev_tid\<close> takes a step. Outside a call it enters \<open>my_mutex_lock\<close> or
  \<open>my_mutex_unlock\<close>, whether it holds the mutex or not. Thread identifiers are positive, and the
  kernel wakes a thread that sleeps, if there is one.
\<close>

record mutex_event =
  ev_tid :: nat
  ev_lock :: bool
  ev_intr :: bool
  ev_wake :: "nat option"

definition mutex_event_ok :: "mutex_event \<Rightarrow> my_mutex \<Rightarrow> bool" where
  "mutex_event_ok ev s \<longleftrightarrow> 0 < ev_tid ev \<and>
     (case ev_wake ev of
        None \<Rightarrow> m_pc s (ev_tid ev) = MU_Wake \<longrightarrow> (\<forall>u. m_pc s u \<noteq> ML_Sleep)
      | Some u \<Rightarrow> m_pc s u = ML_Sleep)"

fun in_unlock :: "mpc \<Rightarrow> bool" where
  "in_unlock (MU_Owner _) = True"
| "in_unlock (MU_Dec _) = True"
| "in_unlock MU_ClearOwner = True"
| "in_unlock MU_ClearRec = True"
| "in_unlock MU_Store = True"
| "in_unlock MU_Wake = True"
| "in_unlock _ = False"

definition my_mutex_step :: "mutex_event \<Rightarrow> my_mutex \<Rightarrow> my_mutex result" where
  "my_mutex_step ev s =
     (let t = ev_tid ev; pc = m_pc s t in
      case pc of
        M_Out \<Rightarrow> Inr (goto t (if ev_lock ev then ML_Load 0 else MU_Owner 0) s)
      | M_In d \<Rightarrow> Inr (goto t (if ev_lock ev then ML_Load d else MU_Owner d) s)
      | _ \<Rightarrow> if in_unlock pc then my_mutex_unlock t (ev_wake ev) s else my_mutex_lock t (ev_intr ev) s)"

inductive mutex_trans :: "my_mutex \<Rightarrow> my_mutex \<Rightarrow> bool" where
  mutex_transI: "mutex_event_ok ev s \<Longrightarrow> my_mutex_step ev s = Inr s' \<Longrightarrow> mutex_trans s s'"

inductive_cases mutex_transE: "mutex_trans s s'"

section \<open>The invariant of the mutex\<close>

text \<open>From its successful exchange to its store of 1 a thread owns the mutex.\<close>

fun owning :: "mpc \<Rightarrow> bool" where
  "owning (M_In d) = True"
| "owning (ML_Load d) = (0 < d)"
| "owning (ML_Owner d) = (0 < d)"
| "owning (ML_Relock d) = True"
| "owning ML_SetOwner = True"
| "owning ML_SetRec = True"
| "owning (MU_Owner d) = (0 < d)"
| "owning (MU_Dec d) = True"
| "owning MU_ClearOwner = True"
| "owning MU_ClearRec = True"
| "owning MU_Store = True"
| "owning _ = False"

text \<open>The value of \<open>owner\<close> while thread \<open>t\<close> owns the mutex.\<close>

fun owner_field :: "nat \<Rightarrow> mpc \<Rightarrow> nat" where
  "owner_field t ML_SetOwner = 0"
| "owner_field t MU_ClearRec = 0"
| "owner_field t MU_Store = 0"
| "owner_field t _ = t"

text \<open>The acquisitions not given back, between the calls and at the tests of a call.\<close>

fun depth :: "mpc \<Rightarrow> nat option" where
  "depth (M_In d) = Some d"
| "depth (ML_Load d) = Some d"
| "depth (ML_Owner d) = Some d"
| "depth (ML_Relock d) = Some d"
| "depth (MU_Owner d) = Some d"
| "depth (MU_Dec d) = Some d"
| "depth _ = None"

definition mutex_owned :: "nat option \<Rightarrow> my_mutex \<Rightarrow> bool" where
  "mutex_owned h s \<longleftrightarrow>
     (\<forall>t. owning (m_pc s t) \<longleftrightarrow> h = Some t) \<and>
     (case h of
        None \<Rightarrow> m_lock s = 1 \<and> m_owner s = 0
      | Some t \<Rightarrow> m_lock s = 0 \<and> 0 < t \<and> m_owner s = owner_field t (m_pc s t) \<and>
          (\<forall>d. depth (m_pc s t) = Some d \<longrightarrow>
             0 < d \<and> (m_type s = MY_MUTEX_RECURSIVE \<longrightarrow> m_recursion s = int d)
                   \<and> (m_type s \<noteq> MY_MUTEX_RECURSIVE \<longrightarrow> d = 1 \<and> m_recursion s = 1)))"

text \<open>A thread that will wake a sleeper or try the exchange again.\<close>

fun lively :: "mpc \<Rightarrow> bool" where
  "lively ML_Cas = True"
| "lively ML_Wait = True"
| "lively MU_Wake = True"
| "lively _ = False"

definition mutex_wakes :: "my_mutex \<Rightarrow> bool" where
  "mutex_wakes s \<longleftrightarrow> (\<forall>u. m_pc s u = ML_Sleep \<longrightarrow> m_lock s = 0 \<or> (\<exists>v. lively (m_pc s v)))"

definition mutex_inv :: "my_mutex \<Rightarrow> bool" where
  "mutex_inv s \<longleftrightarrow> (\<exists>h. mutex_owned h s) \<and> mutex_wakes s"

lemma mutex_inv_init: "mutex_inv (my_mutex_init ty)"
  by (auto simp: mutex_inv_def mutex_owned_def mutex_wakes_def my_mutex_init_def intro: exI[of _ None])

lemma goto_simps [simp]:
  "m_pc (goto t pc s) = (m_pc s)(t := pc)" "m_lock (goto t pc s) = m_lock s"
  "m_owner (goto t pc s) = m_owner s" "m_recursion (goto t pc s) = m_recursion s"
  "m_type (goto t pc s) = m_type s"
  by (simp_all add: goto_def)

text \<open>The owner moves, or another thread moves and does not become the owner.\<close>

lemma mutex_owned_goto:
  assumes "\<And>u. u \<noteq> t \<Longrightarrow> \<not> owning (m_pc s u)"
  shows "mutex_owned (Some t) (goto t pc s) \<longleftrightarrow>
    owning pc \<and> m_lock s = 0 \<and> 0 < t \<and> m_owner s = owner_field t pc \<and>
    (\<forall>d. depth pc = Some d \<longrightarrow> 0 < d \<and> (m_type s = MY_MUTEX_RECURSIVE \<longrightarrow> m_recursion s = int d)
           \<and> (m_type s \<noteq> MY_MUTEX_RECURSIVE \<longrightarrow> d = 1 \<and> m_recursion s = 1))"
  using assms by (auto simp: mutex_owned_def)

lemma mutex_owned_other:
  assumes "mutex_owned h s" "h \<noteq> Some t" "\<not> owning pc"
  shows "mutex_owned h (goto t pc s)"
  using assms by (auto simp: mutex_owned_def split: option.splits)

lemma mutex_owned_take:
  assumes "mutex_owned h s" "m_lock s = 1" "0 < t"
  shows "mutex_owned (Some t) (goto t ML_SetOwner (s\<lparr>m_lock := 0\<rparr>))"
  using assms by (auto simp: mutex_owned_def split: option.splits)

lemma mutex_owned_give:
  assumes "mutex_owned (Some t) s" "m_pc s t = MU_Store"
  shows "mutex_owned None (goto t MU_Wake (s\<lparr>m_lock := 1\<rparr>))"
  using assms by (auto simp: mutex_owned_def)

lemma mutex_owned_iff: "mutex_owned h s \<Longrightarrow> owning (m_pc s t) \<longleftrightarrow> h = Some t"
  by (simp add: mutex_owned_def)

lemma mutex_owned_SomeD:
  "mutex_owned (Some t) s \<Longrightarrow> m_lock s = 0 \<and> 0 < t \<and> m_owner s = owner_field t (m_pc s t)"
  by (simp add: mutex_owned_def)

lemma mutex_owned_depth:
  "mutex_owned (Some t) s \<Longrightarrow> depth (m_pc s t) = Some d \<Longrightarrow>
     0 < d \<and> (m_type s = MY_MUTEX_RECURSIVE \<longrightarrow> m_recursion s = int d)
           \<and> (m_type s \<noteq> MY_MUTEX_RECURSIVE \<longrightarrow> d = 1 \<and> m_recursion s = 1)"
  by (simp add: mutex_owned_def)

lemma mutex_owner_other: "mutex_owned h s \<Longrightarrow> h \<noteq> Some t \<Longrightarrow> 0 < t \<Longrightarrow> m_owner s \<noteq> t"
proof (cases h)
  case (Some u)
  assume "mutex_owned h s" "h \<noteq> Some t" "0 < t"
  then have "m_owner s = owner_field u (m_pc s u)" using Some mutex_owned_SomeD by blast
  then show ?thesis using Some \<open>h \<noteq> Some t\<close> \<open>0 < t\<close> by (cases "m_pc s u") auto
qed (simp add: mutex_owned_def)

lemma mutex_owned_lock_step:
  assumes h: "mutex_owned h s" and t: "0 < t"
  shows "okR (\<lambda>s'. \<exists>h'. mutex_owned h' s') (my_mutex_lock t intr s)"
proof (cases "h = Some t")
  case True
  then have o: "mutex_owned (Some t) s" using h by simp
  note own = o mutex_owned_iff[OF o, of t] mutex_owned_SomeD[OF o] mutex_owned_depth[OF o]
  have others: "\<not> owning (m_pc s u)" if "u \<noteq> t" for u
    using mutex_owned_iff[OF o, of u] that by simp
  show ?thesis
    using own
    by (cases "m_pc s t")
      (auto simp: my_mutex_lock_def mutex_owned_goto others split: mutex_type.splits
         intro!: exI[of _ "Some t"])
next
  case False
  note own = h mutex_owned_iff[OF h, of t] mutex_owner_other[OF h False t]
  have move: "\<exists>h'. mutex_owned h' (goto t pc s)" if "\<not> owning pc" for pc
    using mutex_owned_other[OF h False that] by (rule exI)
  show ?thesis
    using own False t
    by (cases "m_pc s t")
      (auto simp: my_mutex_lock_def move split: mutex_type.splits
         intro: exI[of _ "Some t"] mutex_owned_take[OF h])
qed

lemma mutex_owned_unlock_step:
  assumes h: "mutex_owned h s" and t: "0 < t" and w: "\<And>u. w = Some u \<Longrightarrow> m_pc s u = ML_Sleep"
  shows "okR (\<lambda>s'. \<exists>h'. mutex_owned h' s') (my_mutex_unlock t w s)"
proof (cases "h = Some t")
  case True
  then have o: "mutex_owned (Some t) s" using h by simp
  note own = o mutex_owned_iff[OF o, of t] mutex_owned_SomeD[OF o] mutex_owned_depth[OF o]
  have others: "\<not> owning (m_pc s u)" if "u \<noteq> t" for u
    using mutex_owned_iff[OF o, of u] that by simp
  show ?thesis
    using own
    by (cases "m_pc s t")
      (auto simp: my_mutex_unlock_def caller_def mutex_owned_goto others
         intro: exI[of _ "Some t"] exI[of _ None] mutex_owned_give[OF o])
next
  case False
  note own = h mutex_owned_iff[OF h, of t] mutex_owner_other[OF h False t]
  have move: "\<exists>h'. mutex_owned h' (goto t pc s)" if "\<not> owning pc" for pc
    using mutex_owned_other[OF h False that] by (rule exI)
  have "mutex_owned h (goto t M_Out (goto u ML_Cas s))" if "w = Some u" for u
    using mutex_owned_iff[OF h, of u] w[OF that] False
    by (intro mutex_owned_other mutex_owned_other[OF h]) auto
  then show ?thesis
    using own False t
    by (cases "m_pc s t")
      (auto simp: my_mutex_unlock_def caller_def move split: option.splits intro: exI[of _ h])
qed

lemma mutex_wakes_locked: "m_lock s = 0 \<Longrightarrow> mutex_wakes s"
  by (simp add: mutex_wakes_def)

lemma mutex_wakes_lively: "lively (m_pc s v) \<Longrightarrow> mutex_wakes s"
  by (auto simp: mutex_wakes_def)

lemma mutex_wakes_move:
  assumes "mutex_wakes s" "m_lock s' = m_lock s" "m_pc s' = (m_pc s)(t := pc)" "pc \<noteq> ML_Sleep"
    and "lively (m_pc s t) \<Longrightarrow> lively pc"
  shows "mutex_wakes s'"
  using assms unfolding mutex_wakes_def by (metis fun_upd_apply)

lemma mutex_wakes_lock_step:
  assumes "mutex_wakes s"
  shows "okR mutex_wakes (my_mutex_lock t intr s)"
  by (cases "m_pc s t")
    (auto simp: my_mutex_lock_def split: mutex_type.splits
       intro: mutex_wakes_locked mutex_wakes_lively[of _ t] mutex_wakes_move[OF assms, of _ t] assms)

lemma mutex_wakes_unlock_step:
  assumes "mutex_wakes s" and w: "\<And>u. w = Some u \<Longrightarrow> m_pc s u = ML_Sleep"
    and n: "w = None \<Longrightarrow> m_pc s t = MU_Wake \<Longrightarrow> (\<forall>u. m_pc s u \<noteq> ML_Sleep)"
  shows "okR mutex_wakes (my_mutex_unlock t w s)"
proof (cases "m_pc s t = MU_Wake")
  case True
  show ?thesis
  proof (cases w)
    case None
    then show ?thesis using n True by (simp add: my_mutex_unlock_def mutex_wakes_def)
  next
    case (Some u)
    then have "u \<noteq> t" using w True by force
    then show ?thesis using Some True by (simp add: my_mutex_unlock_def mutex_wakes_lively[of _ u])
  qed
next
  case False
  then show ?thesis
    by (cases "m_pc s t")
      (auto simp: my_mutex_unlock_def caller_def
         intro: mutex_wakes_lively[of _ t] mutex_wakes_move[OF assms(1), of _ t] assms)
qed

lemma mutex_inv_step:
  assumes "mutex_inv s" "mutex_event_ok ev s"
  shows "okR mutex_inv (my_mutex_step ev s)"
proof -
  let ?t = "ev_tid ev"
  obtain h where h: "mutex_owned h s" and wk: "mutex_wakes s" using assms by (auto simp: mutex_inv_def)
  have t: "0 < ?t" and w: "\<And>u. ev_wake ev = Some u \<Longrightarrow> m_pc s u = ML_Sleep"
    and n: "ev_wake ev = None \<Longrightarrow> m_pc s ?t = MU_Wake \<Longrightarrow> (\<forall>u. m_pc s u \<noteq> ML_Sleep)"
    using assms by (auto simp: mutex_event_ok_def)
  have both: "okR mutex_inv r"
    if "okR (\<lambda>s'. \<exists>h'. mutex_owned h' s') r" "okR mutex_wakes r" for r
    using that by (cases r) (auto simp: mutex_inv_def)
  note lock = both[OF mutex_owned_lock_step[OF h t] mutex_wakes_lock_step[OF wk]]
  note unlock = both[OF mutex_owned_unlock_step[OF h t w] mutex_wakes_unlock_step[OF wk w n]]
  have enter: "mutex_inv (goto ?t pc s)"
    if "owning pc = owning (m_pc s ?t)" "depth pc = depth (m_pc s ?t) \<or> \<not> owning pc"
      "owner_field ?t pc = ?t" "owner_field ?t (m_pc s ?t) = ?t" "pc \<noteq> ML_Sleep" "\<not> lively (m_pc s ?t)" for pc
  proof -
    have "mutex_owned h (goto ?t pc s)" using h that by (cases h) (auto simp: mutex_owned_def)
    then show ?thesis using mutex_wakes_move[OF wk, of "goto ?t pc s" ?t pc] that
      by (auto simp: mutex_inv_def)
  qed
  have "0 < d" if "m_pc s ?t = M_In d" for d
    using h that mutex_owned_iff[OF h, of ?t] mutex_owned_depth[of ?t s d] by auto
  then show ?thesis
    using lock unlock by (cases "m_pc s ?t") (auto simp: my_mutex_step_def intro!: enter)
qed

lemma goto_goto [simp]: "goto t pc (goto t pc' s) = goto t pc s"
  by (simp add: goto_def)

lemma mutex_inv_ownerD:
  assumes "mutex_inv s" "owning (m_pc s t)"
  shows "mutex_owned (Some t) s"
  using assms mutex_owned_iff by (auto simp: mutex_inv_def)

interpretation mx: blocking_lock "\<lambda>s. s = my_mutex_init ty" mutex_trans mutex_inv
  "\<lambda>s t. owning (m_pc s t)" "\<lambda>s u. m_pc s u = ML_Sleep" "\<lambda>s t. lively (m_pc s t)" for ty
proof unfold_locales
  show "mutex_inv s" if "s = my_mutex_init ty" for s using that mutex_inv_init by simp
  show "mutex_inv s'" if "mutex_inv s" "mutex_trans s s'" for s s'
    using that by (auto elim!: mutex_transE dest: okRD[OF mutex_inv_step])
  show "t = u" if "mutex_inv s" "owning (m_pc s t)" "owning (m_pc s u)" for s t u
    using mutex_owned_iff[OF mutex_inv_ownerD[OF that(1,2)], of u] that by simp
  show "(\<exists>t. owning (m_pc s t)) \<or> (\<exists>t. lively (m_pc s t))" if "mutex_inv s" "m_pc s u = ML_Sleep" for s u
    using that by (auto simp: mutex_inv_def mutex_wakes_def mutex_owned_def split: option.splits)
qed

lemma mutex_type_lock: "okR (\<lambda>s'. m_type s' = m_type s) (my_mutex_lock t i s)"
  by (cases "m_pc s t") (auto simp: my_mutex_lock_def split: mutex_type.splits)

lemma mutex_type_unlock: "okR (\<lambda>s'. m_type s' = m_type s) (my_mutex_unlock t w s)"
  by (cases "m_pc s t") (auto simp: my_mutex_unlock_def split: option.splits)

lemma mutex_type_const:
  "reachable (\<lambda>s. s = my_mutex_init ty) mutex_trans s \<Longrightarrow> m_type s = ty"
proof (induction rule: reachable.induct)
  case (reach_step s s')
  have "okR (\<lambda>s'. m_type s' = m_type s) (my_mutex_step ev s)" for ev
    using mutex_type_lock mutex_type_unlock by (cases "m_pc s (ev_tid ev)") (auto simp: my_mutex_step_def)
  then show ?case using reach_step by (auto elim!: mutex_transE dest: okRD)
qed (simp add: my_mutex_init_def)

text \<open>Runs, for the concrete instances: the thread that wakes is chosen when there is one.\<close>

fun mutex_run :: "mutex_event list \<Rightarrow> my_mutex \<Rightarrow> my_mutex result" where
  "mutex_run [] s = Inr s"
| "mutex_run (ev # evs) s =
     (if 0 < ev_tid ev \<and>
         (case ev_wake ev of None \<Rightarrow> m_pc s (ev_tid ev) \<noteq> MU_Wake | Some u \<Rightarrow> m_pc s u = ML_Sleep)
      then bindR (my_mutex_step ev s) (mutex_run evs) else Inl AssertFailed)"

lemma mutex_run_reachable:
  "reachable st mutex_trans s \<Longrightarrow> okR (reachable st mutex_trans) (mutex_run evs s)"
proof (induction evs arbitrary: s)
  case (Cons ev evs)
  show ?case
  proof (cases "my_mutex_step ev s")
    case (Inr s')
    have "okR (reachable st mutex_trans) (mutex_run evs s')" if "mutex_event_ok ev s"
      using Cons mutex_transI[OF that Inr] by (blast intro: reach_step)
    then show ?thesis using Inr by (auto simp: mutex_event_ok_def split: option.splits)
  qed auto
qed simp

lemma mutex_run_witness:
  assumes "returns P (mutex_run evs (my_mutex_init ty))"
  shows "\<exists>s. reachable (\<lambda>s. s = my_mutex_init ty) mutex_trans s \<and> P s"
  using assms mutex_run_reachable[OF reach_start, of "\<lambda>s. s = my_mutex_init ty" "my_mutex_init ty" evs]
  by (auto simp: returns_iff)

definition ev_call :: "nat \<Rightarrow> bool \<Rightarrow> mutex_event" where
  "ev_call t lock = \<lparr>ev_tid = t, ev_lock = lock, ev_intr = False, ev_wake = None\<rparr>"

section \<open>Properties of my_mutex\<close>

text \<open>
  C13. Mutual exclusion: whatever the calls of any number of threads, at most one owns the mutex
  at a time; while one does, \<open>lock\<close> is 0 and \<open>owner\<close> names it, apart from the statements between
  the exchange and the two assignments to \<open>owner\<close>.
\<close>

theorem mutex_exclusion:
  assumes "reachable (\<lambda>s. s = my_mutex_init ty) mutex_trans s" and "owning (m_pc s t)"
  shows "(\<forall>u. owning (m_pc s u) \<longrightarrow> u = t) \<and> m_lock s = 0 \<and> m_owner s = owner_field t (m_pc s t)"
  using mx.exclusion[OF assms] mutex_owned_SomeD[OF mutex_inv_ownerD[OF mx.reachable_inv[OF assms(1)] assms(2)]]
  by auto

theorem mutex_exclusion_witness:
  "\<exists>s. reachable (\<lambda>s. s = my_mutex_init MY_MUTEX_NORMAL) mutex_trans s \<and> m_pc s 1 = M_In 1 \<and>
     m_pc s 2 = ML_Sleep \<and> \<not> owning (m_pc s 2) \<and> m_owner s = 1"
proof -
  let ?P = "\<lambda>s. m_pc s 1 = M_In 1 \<and> m_pc s 2 = ML_Sleep"
  have "returns ?P (mutex_run (replicate 5 (ev_call 1 True) @ replicate 5 (ev_call 2 True))
          (my_mutex_init MY_MUTEX_NORMAL))"
    by code_simp
  then obtain s where s: "reachable (\<lambda>s. s = my_mutex_init MY_MUTEX_NORMAL) mutex_trans s" "?P s"
    using mutex_run_witness by blast
  then show ?thesis using mutex_exclusion[OF s(1), of 1] by auto
qed

text \<open>
  C14. No lost wakeup: as long as a thread sleeps in \<open>my_mutex_lock\<close>, some thread owns the mutex,
  or is about to wake a sleeper, or has still to try the exchange. \<open>FUTEX_WAIT\<close> compares the
  lock with 0, so a thread cannot fall asleep after the release.
\<close>

theorem mutex_no_lost_wakeup:
  assumes "reachable (\<lambda>s. s = my_mutex_init ty) mutex_trans s" and "m_pc s u = ML_Sleep"
  shows "(\<exists>t. owning (m_pc s t)) \<or> (\<exists>t. m_pc s t \<in> {ML_Cas, ML_Wait, MU_Wake})"
proof -
  have "m_pc s t \<in> {ML_Cas, ML_Wait, MU_Wake}" if "lively (m_pc s t)" for t
    using that by (cases "m_pc s t") auto
  then show ?thesis using mx.no_lost_wakeup[OF assms] by blast
qed

theorem mutex_no_lost_wakeup_witness:
  "\<exists>s. reachable (\<lambda>s. s = my_mutex_init MY_MUTEX_NORMAL) mutex_trans s \<and> m_pc s 2 = ML_Sleep \<and>
     ((\<exists>t. owning (m_pc s t)) \<or> (\<exists>t. m_pc s t \<in> {ML_Cas, ML_Wait, MU_Wake}))"
proof -
  let ?P = "\<lambda>s. m_pc s 1 = MU_Wake \<and> m_pc s 2 = ML_Sleep"
  have "returns ?P (mutex_run (replicate 5 (ev_call 1 True) @ replicate 5 (ev_call 2 True)
          @ replicate 6 (ev_call 1 False)) (my_mutex_init MY_MUTEX_NORMAL))"
    by code_simp
  then obtain s where s: "reachable (\<lambda>s. s = my_mutex_init MY_MUTEX_NORMAL) mutex_trans s" "?P s"
    using mutex_run_witness by blast
  then show ?thesis using mutex_no_lost_wakeup[OF s(1), of 2] by blast
qed

text \<open>
  Locking again a mutex that the caller owns: the three tests of \<open>my_mutex_lock\<close> see it, and a
  recursive mutex counts one more acquisition, a normal one aborts the program, and an
  error-checking one returns with nothing changed.
\<close>

theorem mutex_relock:
  assumes "reachable (\<lambda>s. s = my_mutex_init ty) mutex_trans s" and "m_pc s t = ML_Load d" and "0 < d"
  shows "bindR (my_mutex_lock t i s) (\<lambda>s. bindR (my_mutex_lock t i s) (my_mutex_lock t i)) =
    (case ty of
       MY_MUTEX_RECURSIVE \<Rightarrow> Inr (goto t (M_In (d + 1)) (s\<lparr>m_recursion := int d + 1\<rparr>))
     | MY_MUTEX_NORMAL \<Rightarrow> Inl Aborted
     | MY_MUTEX_ERRORCHECK \<Rightarrow> Inr (goto t (M_In d) s))"
proof -
  have o: "mutex_owned (Some t) s" using mutex_inv_ownerD[OF mx.reachable_inv[OF assms(1)]] assms by simp
  show ?thesis
    using assms mutex_type_const[OF assms(1)] mutex_owned_SomeD[OF o] mutex_owned_depth[OF o, of d]
    by (cases ty) (auto simp: my_mutex_lock_def goto_def)
qed

theorem mutex_relock_witness:
  "\<exists>s. reachable (\<lambda>s. s = my_mutex_init MY_MUTEX_RECURSIVE) mutex_trans s \<and>
     bindR (my_mutex_lock 1 False s) (\<lambda>s. bindR (my_mutex_lock 1 False s) (my_mutex_lock 1 False)) =
       Inr (goto 1 (M_In 2) (s\<lparr>m_recursion := 2\<rparr>))"
proof -
  let ?P = "\<lambda>s. m_pc s 1 = ML_Load 1"
  have "returns ?P (mutex_run (replicate 6 (ev_call 1 True)) (my_mutex_init MY_MUTEX_RECURSIVE))"
    by code_simp
  then obtain s where s: "reachable (\<lambda>s. s = my_mutex_init MY_MUTEX_RECURSIVE) mutex_trans s" "?P s"
    using mutex_run_witness by blast
  then show ?thesis
    using mutex_relock[OF s(1), of 1 1 False] by (auto simp: numeral_2_eq_2 intro!: exI[of _ s])
qed

text \<open>
  The owner of a recursive mutex releases it with as many calls of \<open>my_mutex_unlock\<close> as it made
  of \<open>my_mutex_lock\<close>: at the test of the count, any but the last call returns to the caller with
  the lock still taken, and the last goes on to clear the owner and release.
\<close>

theorem mutex_unlock_depth:
  assumes "reachable (\<lambda>s. s = my_mutex_init MY_MUTEX_RECURSIVE) mutex_trans s" and "m_pc s t = MU_Dec d"
  shows "0 < d \<and> m_lock s = 0 \<and> m_owner s = t \<and>
    my_mutex_unlock t w s =
      Inr (goto t (if d = 1 then MU_ClearOwner else M_In (d - 1)) (s\<lparr>m_recursion := int d - 1\<rparr>))"
proof -
  have o: "mutex_owned (Some t) s" using mutex_inv_ownerD[OF mx.reachable_inv[OF assms(1)]] assms by simp
  show ?thesis
    using assms mutex_type_const[OF assms(1)] mutex_owned_SomeD[OF o] mutex_owned_depth[OF o, of d]
    by (auto simp: my_mutex_unlock_def caller_def)
qed

theorem mutex_unlock_depth_witness:
  "\<exists>s. reachable (\<lambda>s. s = my_mutex_init MY_MUTEX_RECURSIVE) mutex_trans s \<and>
     my_mutex_unlock 1 None s = Inr (goto 1 (M_In 1) (s\<lparr>m_recursion := 1\<rparr>))"
proof -
  let ?P = "\<lambda>s. m_pc s 1 = MU_Dec 2"
  have "returns ?P (mutex_run (replicate 9 (ev_call 1 True) @ replicate 2 (ev_call 1 False))
          (my_mutex_init MY_MUTEX_RECURSIVE))"
    by code_simp
  then obtain s where s: "reachable (\<lambda>s. s = my_mutex_init MY_MUTEX_RECURSIVE) mutex_trans s" "?P s"
    using mutex_run_witness by blast
  then show ?thesis using mutex_unlock_depth[OF s(1), of 1 2 None] by (auto intro!: exI[of _ s])
qed

section \<open>my_spinlock\<close>

text \<open>
  The spinlock is an integer that each operation accesses by one compare-and-exchange. The weak
  exchange of \<open>my_spinlock_lock\<close> may fail although the lock is free (\<open>spurious\<close>). Its clients
  (the counting threads of \<open>main.c\<close>) unlock what they have locked.
\<close>

datatype spc = S_Out | SL_Cas | S_In | SU_Cas

record my_spinlock =
  s_lock :: int
  s_pc :: "nat \<Rightarrow> spc"

definition my_spinlock_init :: my_spinlock where
  "my_spinlock_init = \<lparr>s_lock = 1, s_pc = (\<lambda>_. S_Out)\<rparr>"

definition my_spinlock_lock :: "nat \<Rightarrow> bool \<Rightarrow> my_spinlock \<Rightarrow> my_spinlock" where
  "my_spinlock_lock t spurious s =
     (if s_lock s = 1 \<and> \<not> spurious then s\<lparr>s_lock := 0, s_pc := (s_pc s)(t := S_In)\<rparr> else s)"

definition my_spinlock_unlock :: "nat \<Rightarrow> my_spinlock \<Rightarrow> my_spinlock" where
  "my_spinlock_unlock t s =
     (if s_lock s = 0 then s\<lparr>s_lock := 1, s_pc := (s_pc s)(t := S_Out)\<rparr>
      else s\<lparr>s_pc := (s_pc s)(t := S_Out)\<rparr>)"

definition spinlock_step :: "nat \<Rightarrow> bool \<Rightarrow> my_spinlock \<Rightarrow> my_spinlock" where
  "spinlock_step t spurious s = (case s_pc s t of
       S_Out \<Rightarrow> s\<lparr>s_pc := (s_pc s)(t := SL_Cas)\<rparr>
     | SL_Cas \<Rightarrow> my_spinlock_lock t spurious s
     | S_In \<Rightarrow> s\<lparr>s_pc := (s_pc s)(t := SU_Cas)\<rparr>
     | SU_Cas \<Rightarrow> my_spinlock_unlock t s)"

inductive spinlock_trans :: "my_spinlock \<Rightarrow> my_spinlock \<Rightarrow> bool" where
  spinlock_transI: "spinlock_trans s (spinlock_step t spurious s)"

lemma spinlock_reach: "reachable st spinlock_trans s \<Longrightarrow> reachable st spinlock_trans (spinlock_step t spurious s)"
  by (erule reach_step) (rule spinlock_transI)

inductive_simps spinlock_trans_iff: "spinlock_trans s s'"

definition spinlock_holds :: "my_spinlock \<Rightarrow> nat \<Rightarrow> bool" where
  "spinlock_holds s t \<longleftrightarrow> s_pc s t = S_In \<or> s_pc s t = SU_Cas"

definition spinlock_inv :: "my_spinlock \<Rightarrow> bool" where
  "spinlock_inv s \<longleftrightarrow> (\<exists>h. (\<forall>t. spinlock_holds s t \<longleftrightarrow> h = Some t) \<and> s_lock s = (if h = None then 1 else 0))"

lemma spinlock_invI: "(\<And>t. spinlock_holds s t \<longleftrightarrow> h = Some t) \<Longrightarrow> s_lock s = (if h = None then 1 else 0) \<Longrightarrow> spinlock_inv s"
  by (auto simp: spinlock_inv_def)

lemma spinlock_inv_step:
  assumes "spinlock_inv s"
  shows "spinlock_inv (spinlock_step t spurious s)"
proof -
  obtain h where h: "\<And>t. spinlock_holds s t \<longleftrightarrow> h = Some t" and l: "s_lock s = (if h = None then 1 else 0)"
    using assms by (auto simp: spinlock_inv_def)
  have holds: "(s_pc s u = S_In \<or> s_pc s u = SU_Cas) \<longleftrightarrow> h = Some u" for u
    using h[of u] by (simp add: spinlock_holds_def)
  show ?thesis
  proof (cases "s_pc s t")
    case S_Out
    show ?thesis
      by (rule spinlock_invI[of _ h]) (use S_Out holds holds[of t] l in \<open>auto simp: spinlock_step_def spinlock_holds_def\<close>)
  next
    case S_In
    show ?thesis
      by (rule spinlock_invI[of _ h]) (use S_In holds holds[of t] l in \<open>auto simp: spinlock_step_def spinlock_holds_def\<close>)
  next
    case SL_Cas
    show ?thesis
    proof (cases "s_lock s = 1 \<and> \<not> spurious")
      case True
      then show ?thesis
        by (intro spinlock_invI[of _ "Some t"])
          (use SL_Cas holds l in \<open>auto simp: spinlock_step_def my_spinlock_lock_def spinlock_holds_def split: if_splits\<close>)
    next
      case False
      then have "spinlock_step t spurious s = s" using SL_Cas by (auto simp: spinlock_step_def my_spinlock_lock_def)
      then show ?thesis using assms by simp
    qed
  next
    case SU_Cas
    then have "h = Some t" using holds[of t] by simp
    moreover have "s_pc s u \<noteq> S_In \<and> s_pc s u \<noteq> SU_Cas" if "u \<noteq> t" for u
      using holds[of u] that \<open>h = Some t\<close> by simp
    ultimately show ?thesis
      by (intro spinlock_invI[of _ None])
        (use SU_Cas l in \<open>auto simp: spinlock_step_def my_spinlock_unlock_def spinlock_holds_def\<close>)
  qed
qed

interpretation sp: exclusive_lock "\<lambda>s. s = my_spinlock_init" spinlock_trans spinlock_inv spinlock_holds
proof unfold_locales
  show "spinlock_inv s" if "s = my_spinlock_init" for s
    using that by (auto simp: my_spinlock_init_def spinlock_holds_def intro: spinlock_invI[of _ None])
  show "spinlock_inv s'" if "spinlock_inv s" "spinlock_trans s s'" for s s'
    using that spinlock_inv_step by (auto simp: spinlock_trans_iff)
  show "t = u" if "spinlock_inv s" "spinlock_holds s t" "spinlock_holds s u" for s t u
    using that by (auto simp: spinlock_inv_def)
qed

text \<open>
  The spinlock excludes: at most one thread is between its exchange of 1 for 0 and its
  exchange back, the lock is 0 exactly while there is one, and when there is none a thread that
  spins gets the lock at its next exchange, unless that fails spuriously.
\<close>

theorem spinlock_exclusion:
  assumes "reachable (\<lambda>s. s = my_spinlock_init) spinlock_trans s"
  shows "(\<forall>t u. spinlock_holds s t \<longrightarrow> spinlock_holds s u \<longrightarrow> t = u) \<and>
    (s_lock s = 0 \<longleftrightarrow> (\<exists>t. spinlock_holds s t)) \<and>
    (\<forall>t. (\<forall>u. \<not> spinlock_holds s u) \<longrightarrow> s_pc s t = SL_Cas \<longrightarrow> s_pc (spinlock_step t False s) t = S_In)"
proof -
  have inv: "spinlock_inv s" by (rule sp.reachable_inv[OF assms])
  have "s_pc (spinlock_step t False s) t = S_In" if "\<forall>u. \<not> spinlock_holds s u" "s_pc s t = SL_Cas" for t
    using inv that by (auto simp: spinlock_inv_def spinlock_step_def my_spinlock_lock_def split: if_splits)
  moreover have "s_lock s = 0 \<longleftrightarrow> (\<exists>t. spinlock_holds s t)"
    using inv by (auto simp: spinlock_inv_def split: if_splits)
  ultimately show ?thesis using sp.exclusion[OF assms] by blast
qed

theorem spinlock_exclusion_witness:
  "\<exists>s. reachable (\<lambda>s. s = my_spinlock_init) spinlock_trans s \<and> spinlock_holds s 1 \<and>
     s_pc s 2 = SL_Cas \<and> (\<forall>u. spinlock_holds s u \<longrightarrow> u = 1)"
proof -
  let ?s = "spinlock_step 2 False (spinlock_step 2 False (spinlock_step 1 False (spinlock_step 1 False my_spinlock_init)))"
  have r: "reachable (\<lambda>s. s = my_spinlock_init) spinlock_trans ?s"
    by (intro spinlock_reach reach_start refl)
  have "s_pc ?s 1 = S_In" "s_pc ?s 2 = SL_Cas"
    by code_simp+
  then show ?thesis using r spinlock_exclusion[OF r] by (intro exI[of _ ?s]) (auto simp: spinlock_holds_def)
qed

text \<open>Nothing stops a thread that does not hold the spinlock from freeing it.\<close>

lemma spin_rogue_unlock: "s_lock s = 0 \<Longrightarrow> s_lock (my_spinlock_unlock t s) = 1"
  by (simp add: my_spinlock_unlock_def)

end
