(* ===== verification/Heap.thy ===== *)
theory Heap
  imports OS_Prelude
begin

text \<open>
  The memory allocator of \<open>my_heap.c\<close>: a first-fit free list inside one mapped region. The
  block headers are objects at their addresses; sizes are 64-bit words, as in the code. The loops
  follow \<open>next\<close> links, so they are partial functions whose value \<open>None\<close> means that they do
  not return. The file proves the allocator against a list of segments.
\<close>

section \<open>The data\<close>

record block =
  b_size :: "64 word"
  b_next :: ptr
  b_free :: bool

record my_heap =
  heap :: ptr
  blocks :: "addr \<rightharpoonup> block"
  bytes :: "addr \<Rightarrow> 8 word"

definition sizeof_block :: "64 word" where
  "sizeof_block = 24"

definition HEAP :: "64 word" where
  "HEAP = 10485760"

section \<open>The operations\<close>

text \<open>\<open>initialize\<close> exits the program when \<open>mmap\<close> fails; \<open>base\<close> is the address it returns.\<close>

definition initialize :: "ptr \<Rightarrow> my_heap \<Rightarrow> my_heap result" where
  "initialize base s = (case base of None \<Rightarrow> Inl Aborted
     | Some a \<Rightarrow> Inr (s\<lparr>heap := Some a,
         blocks := (blocks s)(a \<mapsto> \<lparr>b_size = HEAP - sizeof_block, b_next = None, b_free = True\<rparr>)\<rparr>))"

text \<open>The body of \<open>myMalloc\<close> for the block found: split it if a header and a byte more fit behind.\<close>

definition take_block :: "addr \<Rightarrow> block \<Rightarrow> 64 word \<Rightarrow> (addr \<rightharpoonup> block) \<Rightarrow> (addr \<rightharpoonup> block)" where
  "take_block a b n h =
     (if b_size b > n + sizeof_block then
        let m = a + unat sizeof_block + unat n in
        h(m \<mapsto> \<lparr>b_size = b_size b - n - sizeof_block, b_next = b_next b, b_free = True\<rparr>,
          a \<mapsto> b\<lparr>b_size := n, b_free := False, b_next := Some m\<rparr>)
      else h(a \<mapsto> b\<lparr>b_free := False\<rparr>))"

partial_function (option) malloc_loop ::
  "(addr \<rightharpoonup> block) \<Rightarrow> 64 word \<Rightarrow> ptr \<Rightarrow> ((addr \<rightharpoonup> block) \<times> ptr) result option" where
  "malloc_loop h n p = (case p of None \<Rightarrow> Some (Inr (h, None))
     | Some a \<Rightarrow> (case h a of None \<Rightarrow> Some (Inl (BadAccess a))
         | Some b \<Rightarrow>
             if b_free b \<and> b_size b \<ge> n
             then Some (Inr (take_block a b n h, Some (a + unat sizeof_block)))
             else malloc_loop h n (b_next b)))"

definition myMalloc :: "64 word \<Rightarrow> my_heap \<Rightarrow> (my_heap \<times> ptr) result option" where
  "myMalloc n s = map_option (\<lambda>r. bindR r (\<lambda>(h, p). Inr (s\<lparr>blocks := h\<rparr>, p))) (malloc_loop (blocks s) n (heap s))"

partial_function (option) mergeBlocks ::
  "(addr \<rightharpoonup> block) \<Rightarrow> ptr \<Rightarrow> (addr \<rightharpoonup> block) result option" where
  "mergeBlocks h p = (case p of None \<Rightarrow> Some (Inr h)
     | Some a \<Rightarrow> (case h a of None \<Rightarrow> Some (Inl (BadAccess a))
         | Some b \<Rightarrow> (case b_next b of None \<Rightarrow> Some (Inr h)
             | Some c \<Rightarrow> (case h c of None \<Rightarrow> Some (Inl (BadAccess c))
                 | Some d \<Rightarrow>
                     if b_free b \<and> b_free d
                     then mergeBlocks (h(a \<mapsto> b\<lparr>b_size := b_size b + (b_size d + sizeof_block),
                                             b_next := b_next d\<rparr>)) (Some a)
                     else mergeBlocks h (Some c)))))"

text \<open>\<open>memset\<close> of the bytes from \<open>a\<close> to 1.\<close>

definition memset1 :: "addr \<Rightarrow> nat \<Rightarrow> (addr \<Rightarrow> 8 word) \<Rightarrow> (addr \<Rightarrow> 8 word)" where
  "memset1 a n m = (\<lambda>x. if a \<le> x \<and> x < a + n then 1 else m x)"

definition myFree :: "ptr \<Rightarrow> my_heap \<Rightarrow> my_heap result option" where
  "myFree memory s = (case memory of None \<Rightarrow> Some (Inr s)
     | Some m \<Rightarrow>
         let a = m - unat sizeof_block in
         (case blocks s a of None \<Rightarrow> Some (Inl (BadAccess a))
          | Some b \<Rightarrow>
              let s = s\<lparr>blocks := (blocks s)(a \<mapsto> b\<lparr>b_free := True\<rparr>),
                        bytes := memset1 m (unat (b_size b)) (bytes s)\<rparr> in
              map_option (\<lambda>r. bindR r (\<lambda>h. Inr (s\<lparr>blocks := h\<rparr>))) (mergeBlocks (blocks s) (heap s))))"

declare malloc_loop.simps [simp del] mergeBlocks.simps [simp del]

lemma malloc_loop_simps:
  "malloc_loop h n None = Some (Inr (h, None))"
  "h a = Some b \<Longrightarrow> malloc_loop h n (Some a) =
     (if b_free b \<and> n \<le> b_size b then Some (Inr (take_block a b n h, Some (a + unat sizeof_block)))
      else malloc_loop h n (b_next b))"
  by (subst malloc_loop.simps, simp)+

lemma mergeBlocks_simps:
  "mergeBlocks h None = Some (Inr h)"
  "h a = Some b \<Longrightarrow> b_next b = None \<Longrightarrow> mergeBlocks h (Some a) = Some (Inr h)"
  "h a = Some b \<Longrightarrow> b_next b = Some c \<Longrightarrow> h c = Some d \<Longrightarrow> mergeBlocks h (Some a) =
     (if b_free b \<and> b_free d
      then mergeBlocks (h(a \<mapsto> b\<lparr>b_size := b_size b + (b_size d + sizeof_block), b_next := b_next d\<rparr>)) (Some a)
      else mergeBlocks h (Some c))"
  by (subst mergeBlocks.simps, simp)+

section \<open>The specification: a list of segments\<close>

text \<open>
  A segment is the size of a block's memory and whether it is free; each has a header of
  24 bytes in front. First fit and coalescing on lists:
\<close>

type_synonym segment = "nat \<times> bool"

fun span :: "segment list \<Rightarrow> nat" where
  "span [] = 0"
| "span ((k, _) # ss) = 24 + k + span ss"

fun first_fit :: "nat \<Rightarrow> segment list \<Rightarrow> (nat \<times> segment list) option" where
  "first_fit n [] = None"
| "first_fit n ((k, f) # ss) =
     (if f \<and> n \<le> k
      then Some (24, if n + 24 < k then (n, False) # (k - n - 24, True) # ss else (k, False) # ss)
      else map_option (\<lambda>(off, ss'). (24 + k + off, (k, f) # ss')) (first_fit n ss))"

fun coalesce :: "segment list \<Rightarrow> segment list" where
  "coalesce ((k, f) # (m, g) # ss) =
     (if f \<and> g then coalesce ((k + m + 24, True) # ss) else (k, f) # coalesce ((m, g) # ss))"
| "coalesce ss = ss"

text \<open>No two neighbours are free.\<close>

fun coalesced :: "segment list \<Rightarrow> bool" where
  "coalesced ((_, f) # (m, g) # ss) = (\<not> (f \<and> g) \<and> coalesced ((m, g) # ss))"
| "coalesced _ = True"

text \<open>\<open>rep h p lo ss\<close>: the list from \<open>p\<close> lays out the segments \<open>ss\<close> without gaps from address \<open>lo\<close>.\<close>

fun rep :: "(addr \<rightharpoonup> block) \<Rightarrow> ptr \<Rightarrow> addr \<Rightarrow> segment list \<Rightarrow> bool" where
  "rep h p lo [] = (p = None)"
| "rep h p lo ((k, f) # ss) =
     (p = Some lo \<and> (\<exists>b. h lo = Some b \<and> unat (b_size b) = k \<and> b_free b = f \<and> rep h (b_next b) (lo + 24 + k) ss))"

lemma span_append [simp]: "span (xs @ ys) = span xs + span ys"
  by (induction xs rule: span.induct) simp_all

lemma span_coalesce [simp]: "span (coalesce ss) = span ss"
  by (induction ss rule: coalesce.induct) auto

lemma coalesced_coalesce: "coalesced (coalesce ss)"
proof (induction ss rule: coalesce.induct)
  case (1 k f m g ss)
  have "(\<exists>k' ss'. coalesce ((m, g) # ss) = (k', g) # ss')" for m ss
    by (induction ss arbitrary: m) (auto split: if_splits)
  then obtain k' ss' where "coalesce ((m, g) # ss) = (k', g) # ss'" by blast
  then show ?case using 1 by auto
qed simp_all

lemma rep_agree:
  "(\<And>x. lo \<le> x \<Longrightarrow> x < lo + span ss \<Longrightarrow> h' x = h x) \<Longrightarrow> rep h' p lo ss \<longleftrightarrow> rep h p lo ss"
  by (induction h p lo ss rule: rep.induct) auto

lemma span_first_fit: "first_fit n ss = Some (off, ss') \<Longrightarrow> span ss' = span ss"
  by (induction n ss arbitrary: off ss' rule: first_fit.induct) (auto split: if_splits)

lemma span_first_fit_off: "first_fit n ss = Some (off, ss') \<Longrightarrow> off + n \<le> span ss"
  by (induction n ss arbitrary: off ss' rule: first_fit.induct) (fastforce split: if_splits)+

section \<open>The loops implement the specification\<close>

lemma rep_split:
  "rep h p lo (xs @ (k, f) # ys) \<Longrightarrow>
     \<exists>b. h (lo + span xs) = Some b \<and> unat (b_size b) = k \<and> b_free b = f \<and>
         rep (h(lo + span xs \<mapsto> b\<lparr>b_free := True\<rparr>)) p lo (xs @ (k, True) # ys)"
proof (induction xs arbitrary: p lo)
  case Nil
  then obtain b where b: "p = Some lo" "h lo = Some b" "unat (b_size b) = k" "b_free b = f"
    "rep h (b_next b) (lo + 24 + k) ys" by auto
  then have "rep (h(lo \<mapsto> b\<lparr>b_free := True\<rparr>)) (b_next b) (lo + 24 + k) ys"
    by (subst rep_agree[of _ _ _ h]) auto
  then show ?case using b by (auto simp del: fun_upd_apply simp: fun_upd_same)
next
  case (Cons s xs)
  obtain m g where s: "s = (m, g)" by (cases s)
  from Cons.prems s obtain c where c: "p = Some lo" "h lo = Some c" "unat (b_size c) = m" "b_free c = g"
    "rep h (b_next c) (lo + 24 + m) (xs @ (k, f) # ys)" by auto
  from Cons.IH[OF c(5)] obtain b where "h (lo + 24 + m + span xs) = Some b" "unat (b_size b) = k"
    "b_free b = f"
    "rep (h(lo + 24 + m + span xs \<mapsto> b\<lparr>b_free := True\<rparr>)) (b_next c) (lo + 24 + m) (xs @ (k, True) # ys)"
    by blast
  then show ?case using s c by (auto simp del: fun_upd_apply simp: algebra_simps fun_upd_same fun_upd_other)
qed

lemma unat_24: "unat sizeof_block = 24"
  by (simp add: sizeof_block_def)

lemma take_block_rep:
  assumes "h lo = Some b" "b_free b" "n \<le> b_size b" "unat (b_size b) + 24 < 2 ^ 64"
    and "rep h (b_next b) (lo + 24 + unat (b_size b)) ss"
  shows "rep (take_block lo b n h) (Some lo) lo
    (if unat n + 24 < unat (b_size b) then (unat n, False) # (unat (b_size b) - unat n - 24, True) # ss
     else (unat (b_size b), False) # ss)"
proof -
  have n: "unat n \<le> unat (b_size b)" using assms(3) by (simp add: word_le_nat_alt)
  have sum: "unat (n + sizeof_block) = unat n + 24"
    using n assms(4) by (simp add: unat_word_ariths unat_24)
  show ?thesis
  proof (cases "unat n + 24 < unat (b_size b)")
    case True
    have "unat (b_size b - n - sizeof_block) = unat (b_size b) - unat n - 24"
      using True n by (simp add: unat_sub_if_size unat_24 word_size unat_sub_if')
    moreover have "b_size b > n + sizeof_block" using True sum by (simp add: word_less_nat_alt)
    moreover have "rep (take_block lo b n h) (b_next b) (lo + 24 + unat (b_size b)) ss"
      using assms(5) True by (subst rep_agree[of _ _ _ h]) (auto simp: take_block_def Let_def unat_24)
    then have "rep (take_block lo b n h) (b_next b) (24 + (lo + unat (b_size b))) ss"
      by (simp only: ac_simps)
    ultimately show ?thesis using True
      by (simp add: take_block_def Let_def unat_24)
  next
    case False
    then have "\<not> b_size b > n + sizeof_block" using sum by (simp add: word_less_nat_alt)
    moreover have "rep (take_block lo b n h) (b_next b) (lo + 24 + unat (b_size b)) ss"
      using assms(5) calculation by (subst rep_agree[of _ _ _ h]) (auto simp: take_block_def)
    ultimately show ?thesis using False by (simp add: take_block_def)
  qed
qed

lemma take_block_outside:
  assumes "unat (b_size b) + 24 < 2 ^ 64" "n \<le> b_size b" "x < lo \<or> lo + 24 + unat (b_size b) \<le> x"
  shows "take_block lo b n h x = h x"
proof -
  have n: "unat n \<le> unat (b_size b)" using assms(2) by (simp add: word_le_nat_alt)
  then have "unat (n + sizeof_block) = unat n + 24"
    using assms(1) by (simp add: unat_word_ariths unat_24)
  then show ?thesis using assms n by (auto simp: take_block_def Let_def unat_24 word_less_nat_alt)
qed

text \<open>The search of \<open>myMalloc\<close>: it returns, and changes nothing outside the segments.\<close>

lemma malloc_loop_refines:
  assumes "rep h p lo ss" "span ss < 2 ^ 64"
  shows "\<exists>h'. (case first_fit (unat n) ss of
       None \<Rightarrow> malloc_loop h n p = Some (Inr (h, None)) \<and> h' = h
     | Some (off, ss') \<Rightarrow> malloc_loop h n p = Some (Inr (h', Some (lo + off))) \<and> rep h' p lo ss') \<and>
     (\<forall>x. x < lo \<or> lo + span ss \<le> x \<longrightarrow> h' x = h x)"
  using assms
proof (induction ss arbitrary: p lo)
  case Nil
  then show ?case by (simp add: malloc_loop_simps)
next
  case (Cons s ss)
  obtain k f where s: "s = (k, f)" by (cases s)
  from Cons.prems s obtain b where b: "p = Some lo" "h lo = Some b" "unat (b_size b) = k" "b_free b = f"
    "rep h (b_next b) (lo + 24 + k) ss" by auto
  have fit: "n \<le> b_size b \<longleftrightarrow> unat n \<le> k" using b by (simp add: word_le_nat_alt)
  show ?case
  proof (cases "f \<and> unat n \<le> k")
    case True
    then show ?thesis
      using b s fit Cons.prems take_block_rep[of h lo b n ss] take_block_outside[of b n _ lo h]
      by (intro exI[of _ "take_block lo b n h"]) (auto simp: malloc_loop_simps unat_24)
  next
    case False
    then have loop: "malloc_loop h n p = malloc_loop h n (b_next b)"
      using b fit by (auto simp: malloc_loop_simps)
    have "span ss < 2 ^ 64" using Cons.prems s by simp
    from Cons.IH[OF b(5) this] obtain h' where h': "case first_fit (unat n) ss of
         None \<Rightarrow> malloc_loop h n (b_next b) = Some (Inr (h, None)) \<and> h' = h
       | Some (off, ss') \<Rightarrow> malloc_loop h n (b_next b) = Some (Inr (h', Some (lo + 24 + k + off))) \<and>
           rep h' (b_next b) (lo + 24 + k) ss'"
      and out: "\<forall>x. x < lo + 24 + k \<or> lo + 24 + k + span ss \<le> x \<longrightarrow> h' x = h x" by blast
    show ?thesis using h' out b s False loop
      by (intro exI[of _ h']) (auto split: option.splits simp: algebra_simps)
  qed
qed

lemma mergeBlocks_refines:
  assumes "rep h p lo ss" "span ss < 2 ^ 64"
  shows "\<exists>h'. mergeBlocks h p = Some (Inr h') \<and> rep h' p lo (coalesce ss) \<and>
     (\<forall>x. x < lo \<or> lo + span ss \<le> x \<longrightarrow> h' x = h x)"
  using assms
proof (induction ss arbitrary: h p lo rule: coalesce.induct)
  case (1 k f m g ss)
  from "1.prems" obtain b d where b: "p = Some lo" "h lo = Some b" "unat (b_size b) = k" "b_free b = f"
    and nx: "b_next b = Some (lo + 24 + k)"
    and d: "h (lo + 24 + k) = Some d" "unat (b_size d) = m" "b_free d = g"
      "rep h (b_next d) (lo + 24 + k + 24 + m) ss" by auto
  note unfold = mergeBlocks_simps(3)[OF b(2) nx d(1)]
  show ?case
  proof (cases "f \<and> g")
    case True
    let ?b = "b\<lparr>b_size := b_size b + (b_size d + sizeof_block), b_next := b_next d\<rparr>"
    have "unat (b_size b + (b_size d + sizeof_block)) = k + m + 24"
      using "1.prems"(2) b d by (simp add: unat_word_ariths unat_24)
    moreover have "rep (h(lo \<mapsto> ?b)) (b_next d) (lo + 24 + (k + m + 24)) ss"
      using d(4) by (subst rep_agree[of _ _ _ h]) (auto simp: algebra_simps)
    ultimately have "rep (h(lo \<mapsto> ?b)) p lo ((k + m + 24, True) # ss)"
      using b True by simp
    from "1.IH"(1)[OF True this] "1.prems"(2) obtain h' where
      "mergeBlocks (h(lo \<mapsto> ?b)) p = Some (Inr h')" "rep h' p lo (coalesce ((k + m + 24, True) # ss))"
      "\<forall>x. x < lo \<or> lo + span ((k + m + 24, True) # ss) \<le> x \<longrightarrow> h' x = (h(lo \<mapsto> ?b)) x"
      by (auto simp del: fun_upd_apply)
    then show ?thesis using True unfold b d by (intro exI[of _ h']) auto
  next
    case False
    have "rep h (b_next b) (lo + 24 + k) ((m, g) # ss)" using nx d by simp
    from "1.IH"(2)[OF False this] "1.prems"(2) obtain h' where h':
      "mergeBlocks h (b_next b) = Some (Inr h')" "rep h' (b_next b) (lo + 24 + k) (coalesce ((m, g) # ss))"
      "\<forall>x. x < lo + 24 + k \<or> lo + 24 + k + span ((m, g) # ss) \<le> x \<longrightarrow> h' x = h x" by auto
    then show ?thesis using False unfold b d nx by (intro exI[of _ h']) auto
  qed
qed (auto simp: mergeBlocks_simps)

section \<open>The allocated segments\<close>

fun allocs :: "addr \<Rightarrow> segment list \<Rightarrow> (addr \<times> nat) set" where
  "allocs lo [] = {}"
| "allocs lo ((k, f) # ss) = (if f then {} else {(lo + 24, k)}) \<union> allocs (lo + 24 + k) ss"

lemma allocs_append [simp]: "allocs lo (xs @ ys) = allocs lo xs \<union> allocs (lo + span xs) ys"
  by (induction lo xs rule: allocs.induct) (auto simp: algebra_simps)

lemma allocs_coalesce [simp]: "allocs lo (coalesce ss) = allocs lo ss"
  by (induction ss arbitrary: lo rule: coalesce.induct) (auto simp: algebra_simps)

lemma allocs_bounds: "(p, k) \<in> allocs lo ss \<Longrightarrow> lo + 24 \<le> p \<and> p + k \<le> lo + span ss"
  by (induction lo ss rule: allocs.induct) (fastforce split: if_splits)+

lemma allocs_disjoint:
  "(p, k) \<in> allocs lo ss \<Longrightarrow> (q, m) \<in> allocs lo ss \<Longrightarrow> (p, k) = (q, m) \<or> p + k + 24 \<le> q \<or> q + m + 24 \<le> p"
proof (induction lo ss rule: allocs.induct)
  case (2 lo k' f ss)
  note bounds = allocs_bounds[of p k "lo + 24 + k'" ss] allocs_bounds[of q m "lo + 24 + k'" ss]
  from 2 show ?case
    using bounds by (simp split: if_splits) (elim disjE; simp)
qed simp

lemma allocs_split:
  "(p, k) \<in> allocs lo ss \<Longrightarrow> \<exists>xs ys. ss = xs @ (k, False) # ys \<and> p = lo + span xs + 24"
proof (induction lo ss rule: allocs.induct)
  case (2 lo m f ss)
  show ?case
  proof (cases "(p, k) \<in> allocs (lo + 24 + m) ss")
    case True
    from "2.IH"[OF True] obtain xs ys where "ss = xs @ (k, False) # ys" "p = lo + 24 + m + span xs + 24" by blast
    then show ?thesis by (intro exI[of _ "(m, f) # xs"] exI[of _ ys]) simp
  next
    case False
    then show ?thesis using "2.prems" by (intro exI[of _ "[]"] exI[of _ ss]) (auto split: if_splits)
  qed
qed simp

lemma allocs_mark:
  "allocs lo (xs @ (k, True) # ys) = allocs lo (xs @ (k, False) # ys) - {(lo + span xs + 24, k)}"
  using allocs_bounds[of "lo + span xs + 24" k lo xs] allocs_bounds[of "lo + span xs + 24" k "lo + span xs + 24 + k" ys]
  by auto

text \<open>First fit allocates one segment more, at a new address and of at least the size asked for.\<close>

lemma allocs_first_fit:
  "first_fit n ss = Some (off, ss') \<Longrightarrow>
     \<exists>k. n \<le> k \<and> k \<le> n + 24 \<and> allocs lo ss' = insert (lo + off, k) (allocs lo ss) \<and> lo + off \<notin> fst ` allocs lo ss"
proof (induction n ss arbitrary: off ss' lo rule: first_fit.induct)
  case (2 n k f ss)
  show ?case
  proof (cases "f \<and> n \<le> k")
    case True
    have "lo + 24 \<notin> fst ` allocs (lo + 24 + k) ss" using allocs_bounds by force
    then show ?thesis using True "2.prems"
      by (intro exI[of _ "if n + 24 < k then n else k"]) (auto split: if_splits simp: algebra_simps)
  next
    case False
    then obtain off' ss'' where f: "first_fit n ss = Some (off', ss'')" "off = 24 + k + off'"
      "ss' = (k, f) # ss''" using "2.prems" by (auto split: if_splits)
    from "2.IH"[OF False f(1), of "lo + 24 + k"] obtain k' where k': "n \<le> k'" "k' \<le> n + 24"
      "allocs (lo + 24 + k) ss'' = insert (lo + 24 + k + off', k') (allocs (lo + 24 + k) ss)"
      "lo + 24 + k + off' \<notin> fst ` allocs (lo + 24 + k) ss" by blast
    then have "lo + off \<notin> fst ` allocs (lo + 24 + k) ss" and "lo + 24 \<noteq> lo + off \<or> k + off' = 0"
      using f by (auto simp: algebra_simps)
    moreover have "24 \<le> off'" using f(1)
      by (induction n ss arbitrary: off' ss'' rule: first_fit.induct) (auto split: if_splits)
    ultimately show ?thesis using k' f by (intro exI[of _ k']) (auto simp: algebra_simps)
  qed
qed simp

lemma first_fit_None: "first_fit n ss = None \<Longrightarrow> (k, True) \<in> set ss \<Longrightarrow> k < n"
  by (induction n ss rule: first_fit.induct) (auto split: if_splits)

lemma coalesced_first_fit:
  "first_fit n ss = Some (off, ss') \<Longrightarrow> coalesced ss \<Longrightarrow>
     coalesced ss' \<and> (\<forall>k f ts. ss' = (k, f) # ts \<longrightarrow> f \<longrightarrow> snd (hd ss))"
proof (induction n ss arbitrary: off ss' rule: first_fit.induct)
  case (2 n k f ss)
  show ?case
  proof (cases "f \<and> n \<le> k")
    case True
    then show ?thesis using "2.prems" by (cases ss) (auto split: if_splits)
  next
    case False
    then obtain off' ss'' where f: "first_fit n ss = Some (off', ss'')" "ss' = (k, f) # ss''"
      using "2.prems" by (auto split: if_splits)
    have c: "coalesced ss" using "2.prems"(2) by (cases ss) auto
    note ih = "2.IH"[OF False f(1) c]
    obtain m g ts where ss: "ss = (m, g) # ts" using f(1) by (cases ss) auto
    show ?thesis
    proof (cases ss'')
      case (Cons a us)
      then show ?thesis using ih f ss "2.prems"(2) by (cases a) auto
    qed (use f in simp)
  qed
qed simp

lemma coalesced_no_allocs:
  assumes "coalesced ss" "allocs lo ss = {}" "ss \<noteq> []"
  shows "\<exists>k. ss = [(k, True)]"
proof -
  obtain k f ts where ss: "ss = (k, f) # ts" using assms(3) by (cases ss) auto
  then have "f" using assms(2) by (auto split: if_splits)
  moreover have "ts = []"
  proof (rule ccontr)
    assume "ts \<noteq> []"
    then obtain m g us where "ts = (m, g) # us" by (cases ts) auto
    then show False using assms ss \<open>f\<close> by (auto split: if_splits)
  qed
  ultimately show ?thesis using ss by simp
qed

section \<open>The operations on a heap\<close>

definition heap_layout :: "my_heap \<Rightarrow> addr \<Rightarrow> segment list \<Rightarrow> bool" where
  "heap_layout s base ss \<longleftrightarrow>
     heap s = Some base \<and> rep (blocks s) (Some base) base ss \<and> span ss = unat HEAP \<and> coalesced ss"

lemma unat_HEAP: "unat HEAP = 10485760"
  by (simp add: HEAP_def)

lemma heap_layout_initialize:
  "initialize (Some base) s = Inr s' \<Longrightarrow> heap_layout s' base [(unat HEAP - 24, True)]"
  by (auto simp: initialize_def heap_layout_def HEAP_def sizeof_block_def)

lemma myMalloc_first_fit:
  assumes "heap_layout s base ss"
  shows "case first_fit (unat n) ss of
      None \<Rightarrow> myMalloc n s = Some (Inr (s, None))
    | Some (off, ss') \<Rightarrow>
        \<exists>h. myMalloc n s = Some (Inr (s\<lparr>blocks := h\<rparr>, Some (base + off))) \<and>
            heap_layout (s\<lparr>blocks := h\<rparr>) base ss'"
proof -
  have s: "heap s = Some base" "rep (blocks s) (Some base) base ss" "span ss = unat HEAP" "coalesced ss"
    using assms by (auto simp: heap_layout_def)
  obtain h where "case first_fit (unat n) ss of
       None \<Rightarrow> malloc_loop (blocks s) n (Some base) = Some (Inr (blocks s, None)) \<and> h = blocks s
     | Some (off, ss') \<Rightarrow> malloc_loop (blocks s) n (Some base) = Some (Inr (h, Some (base + off))) \<and>
         rep h (Some base) base ss'"
    using malloc_loop_refines[OF s(2), of n] s(3) by (auto simp: unat_HEAP)
  then show ?thesis
    using s span_first_fit coalesced_first_fit
    by (auto simp: myMalloc_def heap_layout_def split: option.splits)
qed

lemma myFree_coalesce:
  assumes "heap_layout s base (xs @ (k, False) # ys)"
  shows "\<exists>s'. myFree (Some (base + span xs + 24)) s = Some (Inr s') \<and>
    heap_layout s' base (coalesce (xs @ (k, True) # ys)) \<and>
    bytes s' = memset1 (base + span xs + 24) k (bytes s)"
proof -
  let ?a = "base + span xs"
  have s: "heap s = Some base" "rep (blocks s) (Some base) base (xs @ (k, False) # ys)"
    "span (xs @ (k, False) # ys) = unat HEAP"
    using assms by (auto simp: heap_layout_def)
  from rep_split[OF s(2)] obtain b where b: "blocks s ?a = Some b" "unat (b_size b) = k"
    "rep ((blocks s)(?a \<mapsto> b\<lparr>b_free := True\<rparr>)) (Some base) base (xs @ (k, True) # ys)"
    by blast
  from mergeBlocks_refines[OF b(3)] s(3) obtain h where
    "mergeBlocks ((blocks s)(?a \<mapsto> b\<lparr>b_free := True\<rparr>)) (Some base) = Some (Inr h)"
    "rep h (Some base) base (coalesce (xs @ (k, True) # ys))"
    by (auto simp: unat_HEAP)
  then show ?thesis using s b
    by (simp add: myFree_def unat_24 Let_def heap_layout_def coalesced_coalesce)
qed

text \<open>A heap mapped at address 4096, for the concrete instances.\<close>

definition heap_example :: my_heap where
  "heap_example = \<lparr>heap = Some 4096, blocks = [4096 \<mapsto> \<lparr>b_size = HEAP - sizeof_block, b_next = None, b_free = True\<rparr>],
     bytes = (\<lambda>_. 0)\<rparr>"

lemma heap_example_layout: "heap_layout heap_example 4096 [(10485736, True)]"
  by (simp add: heap_example_def heap_layout_def HEAP_def sizeof_block_def)

text \<open>
  C21. \<open>myMalloc\<close> returns on every heap laid out in segments, and it is first fit: the memory of
  the first free segment that is large enough, cut to the size asked for when more than a header
  is left over, or \<open>NULL\<close> and no change when no free segment is large enough. No size computation
  of the code wraps around.
\<close>

theorem myMalloc_refines:
  assumes "heap_layout s base ss"
  shows "(case first_fit (unat n) ss of
      None \<Rightarrow> myMalloc n s = Some (Inr (s, None)) \<and> (\<forall>k. (k, True) \<in> set ss \<longrightarrow> k < unat n)
    | Some (off, ss') \<Rightarrow>
        \<exists>h k. myMalloc n s = Some (Inr (s\<lparr>blocks := h\<rparr>, Some (base + off))) \<and>
          heap_layout (s\<lparr>blocks := h\<rparr>) base ss' \<and> unat n \<le> k \<and> k \<le> unat n + 24 \<and>
          allocs base ss' = insert (base + off, k) (allocs base ss))"
proof (cases "first_fit (unat n) ss")
  case None
  then show ?thesis using myMalloc_first_fit[OF assms, of n] first_fit_None by auto
next
  case (Some r)
  obtain off ss' where r: "r = (off, ss')" by (cases r)
  then show ?thesis
    using myMalloc_first_fit[OF assms, of n] Some allocs_first_fit[of "unat n" ss off ss' base] by auto
qed

theorem myMalloc_refines_witness:
  "\<exists>h. myMalloc 100 heap_example = Some (Inr (heap_example\<lparr>blocks := h\<rparr>, Some 4120)) \<and>
     heap_layout (heap_example\<lparr>blocks := h\<rparr>) 4096 [(100, False), (10485612, True)]"
  using myMalloc_refines[OF heap_example_layout, of 100] by auto

text \<open>
  C22. \<open>myFree\<close> of the memory of an allocated block returns, overwrites exactly that memory with
  ones, and leaves the list of segments with the block free and every run of free neighbours
  merged into one.
\<close>

theorem myFree_refines:
  assumes "heap_layout s base (xs @ (k, False) # ys)"
  shows "\<exists>s' ss'. myFree (Some (base + span xs + 24)) s = Some (Inr s') \<and>
    ss' = coalesce (xs @ (k, True) # ys) \<and> heap_layout s' base ss' \<and>
    allocs base ss' = allocs base (xs @ (k, False) # ys) - {(base + span xs + 24, k)} \<and>
    bytes s' = memset1 (base + span xs + 24) k (bytes s)"
proof -
  have "allocs base (coalesce (xs @ (k, True) # ys)) =
      allocs base (xs @ (k, False) # ys) - {(base + span xs + 24, k)}"
    by (simp only: allocs_coalesce allocs_mark)
  then show ?thesis using myFree_coalesce[OF assms] by blast
qed

theorem myFree_refines_witness:
  "\<exists>s s'. heap_layout s 4096 [(100, False), (10485612, True)] \<and> myFree (Some 4120) s = Some (Inr s') \<and>
     heap_layout s' 4096 [(10485736, True)] \<and> bytes s' 4219 = 1"
proof -
  obtain h where h: "heap_layout (heap_example\<lparr>blocks := h\<rparr>) 4096 ([] @ (100, False) # [(10485612, True)])"
    using myMalloc_first_fit[OF heap_example_layout, of 100] by auto
  show ?thesis using myFree_refines[OF h] h by (auto simp: memset1_def)
qed

section \<open>Clients of the heap\<close>

text \<open>
  A client asks for memory, frees what it got, and writes into it. The state carries, for every
  pointer it was given and has not freed, the bytes it last saw or wrote there.
\<close>

type_synonym client = "my_heap \<times> (addr \<rightharpoonup> 8 word list)"

inductive heap_step :: "client \<Rightarrow> client \<Rightarrow> bool" where
  step_malloc: "myMalloc n s = Some (Inr (s', Some p)) \<Longrightarrow>
     heap_step (s, l) (s', l(p \<mapsto> map (bytes s') [p..<p + unat n]))"
| step_malloc_fails: "myMalloc n s = Some (Inr (s', None)) \<Longrightarrow> heap_step (s, l) (s', l)"
| step_free: "l p = Some cs \<Longrightarrow> myFree (Some p) s = Some (Inr s') \<Longrightarrow> heap_step (s, l) (s', l(p := None))"
| step_write: "l p = Some cs \<Longrightarrow> i < length cs \<Longrightarrow>
     heap_step (s, l) (s\<lparr>bytes := (bytes s)(p + i := v)\<rparr>, l(p \<mapsto> cs[i := v]))"

definition heap_start :: "addr \<Rightarrow> client \<Rightarrow> bool" where
  "heap_start base c \<longleftrightarrow> snd c = Map.empty \<and> (\<exists>s. initialize (Some base) s = Inr (fst c))"

definition client_ok :: "(addr \<times> nat) set \<Rightarrow> my_heap \<Rightarrow> (addr \<rightharpoonup> 8 word list) \<Rightarrow> bool" where
  "client_ok as s l \<longleftrightarrow> dom l = fst ` as \<and>
     (\<forall>p cs. l p = Some cs \<longrightarrow>
        (\<exists>k. (p, k) \<in> as \<and> length cs \<le> k) \<and> (\<forall>i < length cs. cs ! i = bytes s (p + i)))"

definition client_inv :: "addr \<Rightarrow> client \<Rightarrow> bool" where
  "client_inv base c \<longleftrightarrow> (\<exists>ss. heap_layout (fst c) base ss \<and> client_ok (allocs base ss) (fst c) (snd c))"

lemma client_okD:
  assumes "client_ok as s l" "l p = Some cs"
  obtains k where "(p, k) \<in> as" "length cs \<le> k" "\<And>i. i < length cs \<Longrightarrow> cs ! i = bytes s (p + i)"
  using assms unfolding client_ok_def by blast

lemma client_inv_start: "heap_start base c \<Longrightarrow> client_inv base c"
  using heap_layout_initialize
  by (force simp: heap_start_def client_inv_def client_ok_def)

lemma client_inv_malloc:
  assumes "client_inv base (s, l)" "myMalloc n s = Some (Inr (s', Some p))"
  shows "client_inv base (s', l(p \<mapsto> map (bytes s') [p..<p + unat n]))"
proof -
  obtain ss where ss: "heap_layout s base ss" "client_ok (allocs base ss) s l"
    using assms(1) by (auto simp: client_inv_def)
  from myMalloc_first_fit[OF ss(1), of n] assms(2) obtain off ss' where
    f: "first_fit (unat n) ss = Some (off, ss')" and p: "p = base + off" "bytes s' = bytes s"
      "heap_layout s' base ss'"
    by (auto split: option.splits)
  from allocs_first_fit[OF f, of base] obtain k where k: "unat n \<le> k"
    "allocs base ss' = insert (p, k) (allocs base ss)" "p \<notin> fst ` allocs base ss" using p by blast
  have "client_ok (allocs base ss') s' (l(p \<mapsto> map (bytes s') [p..<p + unat n]))"
    using ss(2) k p(2) unfolding client_ok_def by (auto simp del: upt_Suc)
  then show ?thesis using p(3) by (auto simp: client_inv_def)
qed

lemma client_inv_malloc_fails:
  assumes "client_inv base (s, l)" "myMalloc n s = Some (Inr (s', None))"
  shows "s' = s"
proof -
  obtain ss where ss: "heap_layout s base ss" using assms(1) by (auto simp: client_inv_def)
  show ?thesis using myMalloc_first_fit[OF ss, of n] assms(2) by (auto split: option.splits)
qed

lemma client_free_returns:
  assumes "heap_layout s base ss" "(p, k) \<in> allocs base ss"
  obtains s' ss' where "myFree (Some p) s = Some (Inr s')" "heap_layout s' base ss'"
    "allocs base ss' = allocs base ss - {(p, k)}" "bytes s' = memset1 p k (bytes s)"
proof -
  from allocs_split[OF assms(2)] obtain xs ys where xs: "ss = xs @ (k, False) # ys" "p = base + span xs + 24"
    by blast
  with myFree_coalesce[of s base xs k ys] assms(1) obtain s' where
    "myFree (Some p) s = Some (Inr s')" "heap_layout s' base (coalesce (xs @ (k, True) # ys))"
    "bytes s' = memset1 p k (bytes s)" by blast
  moreover have "allocs base (coalesce (xs @ (k, True) # ys)) = allocs base ss - {(p, k)}"
    using xs by (simp only: allocs_coalesce allocs_mark)
  ultimately show thesis using that by blast
qed

lemma client_inv_free:
  assumes "client_inv base (s, l)" "l p = Some cs" "myFree (Some p) s = Some (Inr s')"
  shows "client_inv base (s', l(p := None))"
proof -
  obtain ss where ss: "heap_layout s base ss" "client_ok (allocs base ss) s l"
    using assms(1) by (auto simp: client_inv_def)
  obtain k where k: "(p, k) \<in> allocs base ss" using client_okD[OF ss(2) assms(2)] by blast
  obtain ss' where s': "heap_layout s' base ss'" "allocs base ss' = allocs base ss - {(p, k)}"
    "bytes s' = memset1 p k (bytes s)"
    using client_free_returns[OF ss(1) k] assms(3) by (metis Inr_inject option.inject)
  have one: "m = k" if "(p, m) \<in> allocs base ss" for m
    using allocs_disjoint[OF that k] by auto
  have "(\<exists>m. (q, m) \<in> allocs base ss' \<and> length ds \<le> m) \<and> (\<forall>i < length ds. ds ! i = bytes s' (q + i))"
    if q: "q \<noteq> p" "l q = Some ds" for q ds
  proof -
    obtain m where m: "(q, m) \<in> allocs base ss" "length ds \<le> m"
      "\<And>i. i < length ds \<Longrightarrow> ds ! i = bytes s (q + i)" using client_okD[OF ss(2) q(2)] by blast
    have "bytes s' (q + i) = bytes s (q + i)" if "i < length ds" for i
      using allocs_disjoint[OF m(1) k] \<open>q \<noteq> p\<close> m(2) that s'(3) by (auto simp: memset1_def)
    moreover have "(q, m) \<in> allocs base ss'" using m(1) s'(2) \<open>q \<noteq> p\<close> by simp
    ultimately show ?thesis using m by metis
  qed
  moreover have "fst ` (A - {(p, k)}) = fst ` A - {p}" if "\<forall>m. (p, m) \<in> A \<longrightarrow> m = k" for A :: "(addr \<times> nat) set"
    using that by force
  then have "dom (l(p := None)) = fst ` allocs base ss'"
    using ss(2) s'(2) one by (simp add: client_ok_def)
  ultimately have "client_ok (allocs base ss') s' (l(p := None))"
    by (auto simp: client_ok_def)
  then show ?thesis using s'(1) by (auto simp: client_inv_def)
qed

lemma client_inv_write:
  assumes "client_inv base (s, l)" "l p = Some cs" "i < length cs"
  shows "client_inv base (s\<lparr>bytes := (bytes s)(p + i := v)\<rparr>, l(p \<mapsto> cs[i := v]))"
proof -
  obtain ss where ss: "heap_layout s base ss" "client_ok (allocs base ss) s l"
    using assms(1) by (auto simp: client_inv_def)
  obtain k where k: "(p, k) \<in> allocs base ss" "length cs \<le> k"
    "\<And>i. i < length cs \<Longrightarrow> cs ! i = bytes s (p + i)" using client_okD[OF ss(2) assms(2)] by blast
  have "ds ! j = ((bytes s)(p + i := v)) (q + j)" if q: "q \<noteq> p" "l q = Some ds" "j < length ds" for q ds j
  proof -
    obtain m where "(q, m) \<in> allocs base ss" "length ds \<le> m" "ds ! j = bytes s (q + j)"
      using client_okD[OF ss(2) q(2)] q(3) by blast
    then show ?thesis using allocs_disjoint[OF _ k(1), of q m] q k(2) assms(3) by auto
  qed
  moreover have "\<And>q ds. l q = Some ds \<Longrightarrow> \<exists>m. (q, m) \<in> allocs base ss \<and> length ds \<le> m"
    using ss(2) unfolding client_ok_def by blast
  moreover have "dom (l(p \<mapsto> cs[i := v])) = fst ` allocs base ss"
    using ss(2) assms(2) unfolding client_ok_def by auto
  ultimately have "client_ok (allocs base ss) (s\<lparr>bytes := (bytes s)(p + i := v)\<rparr>) (l(p \<mapsto> cs[i := v]))"
    using k unfolding client_ok_def by (auto simp: nth_list_update)
  moreover have "heap_layout (s\<lparr>bytes := (bytes s)(p + i := v)\<rparr>) base ss"
    using ss(1) by (simp add: heap_layout_def)
  ultimately show ?thesis unfolding client_inv_def fst_conv snd_conv by blast
qed

interpretation hp: transition_system "heap_start base" heap_step "client_inv base" for base
proof unfold_locales
  show "client_inv base c" if "heap_start base c" for c using client_inv_start[OF that] .
  show "client_inv base c'" if "client_inv base c" "heap_step c c'" for c c'
    using that(2,1)
    by cases (auto intro: client_inv_malloc client_inv_free client_inv_write dest: client_inv_malloc_fails)
qed

lemma heap_example_start: "heap_start 4096 (heap_example, Map.empty)"
  unfolding heap_start_def
  by (auto simp: initialize_def heap_example_def intro!: exI[of _ "\<lparr>heap = None, blocks = Map.empty, bytes = (\<lambda>_. 0)\<rparr>"])

lemma heap_example_reach: "reachable (heap_start 4096) heap_step (heap_example, Map.empty)"
  by (rule reach_start) (rule heap_example_start)

lemma heap_reach_malloc:
  "reachable (heap_start base) heap_step (s, l) \<Longrightarrow> myMalloc n s = Some (Inr (s', Some p)) \<Longrightarrow>
     reachable (heap_start base) heap_step (s', l(p \<mapsto> map (bytes s') [p..<p + unat n]))"
  by (erule reach_step) (rule step_malloc)

section \<open>Safety of the clients\<close>

text \<open>
  C6. After any sequence of calls and writes of a client, each pointer it holds has its memory
  inside the mapped region and behind a header, the memory of two pointers is apart by at least
  a header, and the bytes it wrote are still there: neither the splitting of blocks nor the
  \<open>memset\<close> of \<open>myFree\<close> touches them.
\<close>

theorem heap_client_safe:
  assumes "reachable (heap_start base) heap_step (s, l)" and "l p = Some cs"
  shows "base + 24 \<le> p \<and> p + length cs \<le> base + unat HEAP \<and>
    (\<forall>i < length cs. cs ! i = bytes s (p + i)) \<and>
    (\<forall>q ds. l q = Some ds \<longrightarrow> q \<noteq> p \<longrightarrow> p + length cs + 24 \<le> q \<or> q + length ds + 24 \<le> p)"
proof -
  obtain ss where ss: "heap_layout s base ss" "client_ok (allocs base ss) s l"
    using hp.reachable_inv[OF assms(1)] by (auto simp: client_inv_def)
  obtain k where k: "(p, k) \<in> allocs base ss" "length cs \<le> k"
    "\<And>i. i < length cs \<Longrightarrow> cs ! i = bytes s (p + i)" using client_okD[OF ss(2) assms(2)] by blast
  have "p + length cs + 24 \<le> q \<or> q + length ds + 24 \<le> p" if q: "l q = Some ds" "q \<noteq> p" for q ds
  proof -
    obtain m where "(q, m) \<in> allocs base ss" "length ds \<le> m" using client_okD[OF ss(2) q(1)] by blast
    then show ?thesis using allocs_disjoint[OF _ k(1), of q m] q k(2) by auto
  qed
  then show ?thesis using k allocs_bounds[OF k(1)] ss(1) by (auto simp: heap_layout_def)
qed

theorem heap_client_safe_witness:
  "\<exists>s l. reachable (heap_start 4096) heap_step (s, l) \<and> l 4120 = Some [7, 0, 0] \<and> l 4147 = Some [0, 0] \<and>
     bytes s 4120 = 7"
proof -
  obtain s1 where s1: "myMalloc 3 heap_example = Some (Inr (s1, Some 4120))"
    "heap_layout s1 4096 [(3, False), (10485709, True)]" "bytes s1 = (\<lambda>_. 0)"
    using myMalloc_first_fit[OF heap_example_layout, of 3] by (auto simp: heap_example_def)
  obtain s2 where s2: "myMalloc 2 s1 = Some (Inr (s2, Some 4147))" "bytes s2 = (\<lambda>_. 0)"
    using myMalloc_first_fit[OF s1(2), of 2] s1(3) by auto
  let ?l = "[4120 \<mapsto> [0, 0, 0], 4147 \<mapsto> [0, 0]] :: nat \<rightharpoonup> 8 word list" and ?s = "s2\<lparr>bytes := (bytes s2)(4120 + 0 := 7)\<rparr>"
  have "reachable (heap_start 4096) heap_step (s1, [4120 \<mapsto> [0, 0, 0]])"
    using heap_reach_malloc[OF heap_example_reach s1(1)] s1(3) by (simp add: upt_rec)
  then have "reachable (heap_start 4096) heap_step (s2, ?l)"
    using heap_reach_malloc[OF _ s2(1)] s2(2) by (fastforce simp: upt_rec)
  then have r: "reachable (heap_start 4096) heap_step (?s, ?l(4120 \<mapsto> [0, 0, 0][0 := 7]))"
    by (rule reach_step) (rule step_write, simp_all)
  let ?m = "?l(4120 \<mapsto> [0, 0, 0][0 := 7])"
  have m: "?m 4120 = Some [7, 0, 0]" "?m 4147 = Some [0, 0]" by simp_all
  have "bytes ?s (4120 + 0) = [7, 0, 0] ! 0" using heap_client_safe[OF r m(1)] by (metis length_greater_0_conv list.distinct(1))
  then show ?thesis using r m by (intro exI[of _ ?s] exI[of _ ?m]) simp
qed

text \<open>
  Every call of a client returns: \<open>myMalloc\<close> of any size, and \<open>myFree\<close> of a pointer it holds.
  When it has freed everything, the heap is again the single free block of \<open>initialize\<close>.
\<close>

theorem heap_client_live:
  assumes "reachable (heap_start base) heap_step (s, l)"
  shows "(\<exists>s' r. myMalloc n s = Some (Inr (s', r))) \<and>
    (\<forall>p \<in> dom l. \<exists>s'. myFree (Some p) s = Some (Inr s')) \<and>
    (l = Map.empty \<longrightarrow> blocks s base = Some \<lparr>b_size = HEAP - sizeof_block, b_next = None, b_free = True\<rparr>)"
proof -
  obtain ss where ss: "heap_layout s base ss" "client_ok (allocs base ss) s l"
    using hp.reachable_inv[OF assms(1)] by (auto simp: client_inv_def)
  have "\<exists>s' r. myMalloc n s = Some (Inr (s', r))"
    using myMalloc_first_fit[OF ss(1), of n] by (auto split: option.splits)
  moreover have "\<exists>s'. myFree (Some p) s = Some (Inr s')" if "l p = Some cs" for p cs
    using client_okD[OF ss(2) that] client_free_returns[OF ss(1)] by metis
  moreover have "blocks s base = Some \<lparr>b_size = HEAP - sizeof_block, b_next = None, b_free = True\<rparr>"
    if "l = Map.empty"
  proof -
    have "allocs base ss = {}" using ss(2) that by (simp add: client_ok_def)
    moreover have "ss \<noteq> []" using ss(1) by (auto simp: heap_layout_def unat_HEAP)
    ultimately obtain k where k: "ss = [(k, True)]"
      using coalesced_no_allocs[of ss base] ss(1) by (auto simp: heap_layout_def)
    then obtain b where b: "blocks s base = Some b" "unat (b_size b) = k" "b_free b" "b_next b = None"
      "24 + k = unat HEAP" using ss(1) by (auto simp: heap_layout_def)
    have "b_size b = HEAP - sizeof_block"
      using b by (intro word_unat_eq_iff[THEN iffD2]) (simp add: HEAP_def sizeof_block_def)
    then show ?thesis using b by simp
  qed
  ultimately show ?thesis by blast
qed

theorem heap_client_live_witness:
  "reachable (heap_start 4096) heap_step (heap_example, Map.empty) \<and>
     (\<exists>s' r. myMalloc 11000000 heap_example = Some (Inr (s', r))) \<and>
     blocks heap_example 4096 = Some \<lparr>b_size = HEAP - sizeof_block, b_next = None, b_free = True\<rparr>"
  using heap_client_live[OF heap_example_reach, of 11000000] heap_example_reach by simp

end
