(* ===== verification/U_Thread.thy ===== *)
theory U_Thread
  imports OS_Prelude
begin

text \<open>
  The user-level threads of \<open>task1_7\<close>: a ring of thread structures, doubly linked, with a
  manager that holds the main thread (\<open>head\<close>) and the thread that runs (\<open>cur\<close>).
  \<open>u_thread_scheduler\<close> walks the ring, unlinks the threads that have finished and switches to one
  that can run; its loop is a partial function, and the file proves that it returns. The machine
  contexts themselves (\<open>getcontext\<close>, \<open>swapcontext\<close>) are not modelled: switching is the change of
  \<open>cur\<close>. \<open>mmap\<close>, \<open>malloc\<close> and the clock are arguments.
\<close>

section \<open>The data\<close>

record u_thread_struct =
  u_thread_id :: int
  finished :: bool
  sleep_until_us :: int
  u_next :: ptr
  u_prev :: ptr

record u_thread_manager =
  mgr_head :: addr
  mgr_cur :: addr
  mgr_count :: int
  threads :: "addr \<rightharpoonup> u_thread_struct"
  stacks :: "addr set"  \<comment> \<open>the threads whose stack is mapped\<close>

section \<open>The operations\<close>

text \<open>
  \<open>main\<close> is the structure that \<open>malloc\<close> returns for the main thread. \<open>init_thread\<close> does not set
  \<open>sleep_until_us\<close>: the field is \<open>garbage\<close>, whatever the memory held.
\<close>

definition init_thread :: "ptr \<Rightarrow> int \<Rightarrow> u_thread_manager result" where
  "init_thread main garbage = (case main of None \<Rightarrow> Inl Aborted
     | Some a \<Rightarrow> Inr \<lparr>mgr_head = a, mgr_cur = a, mgr_count = 1,
         threads = [a \<mapsto> \<lparr>u_thread_id = 0, finished = False, sleep_until_us = garbage,
                         u_next = Some a, u_prev = Some a\<rparr>],
         stacks = {}\<rparr>)"

text \<open>
  \<open>stack\<close> says whether the stack was mapped, \<open>thr\<close> is the structure \<open>malloc\<close> returns, which the
  code uses unchecked, and \<open>i\<close> the static counter of identifiers, which each call advances twice.
\<close>

definition u_thread_create :: "bool \<Rightarrow> ptr \<Rightarrow> int \<Rightarrow> u_thread_manager \<Rightarrow> (int \<times> int \<times> u_thread_manager) result" where
  "u_thread_create stack thr i m =
     (if \<not> stack then Inr (- 1, i + 1, m)
      else case thr of None \<Rightarrow> Inl NullDeref
        | Some a \<Rightarrow>
            bindR (load (threads m) (Some (mgr_cur m))) (\<lambda>c.
            let h = (threads m)(a \<mapsto> \<lparr>u_thread_id = i + 1, finished = False, sleep_until_us = 0,
                                      u_next = u_next c, u_prev = Some (mgr_cur m)\<rparr>) in
            bindR (modify h (Some (mgr_cur m)) (\<lambda>n. n\<lparr>u_next := Some a\<rparr>)) (\<lambda>h.
            bindR (modify h (u_next c) (\<lambda>n. n\<lparr>u_prev := Some a\<rparr>)) (\<lambda>h.
            Inr (0, i + 2, m\<lparr>threads := h, mgr_count := mgr_count m + 1, stacks := insert a (stacks m)\<rparr>)))))"

text \<open>Unlinking the finished thread at \<open>d\<close>; the structure itself is never freed.\<close>

definition unlink_thread :: "addr \<Rightarrow> u_thread_struct \<Rightarrow> u_thread_manager \<Rightarrow> u_thread_manager result" where
  "unlink_thread d n m =
     bindR (modify (threads m) (u_prev n) (\<lambda>p. p\<lparr>u_next := u_next n\<rparr>)) (\<lambda>h.
     bindR (modify h (u_next n) (\<lambda>q. q\<lparr>u_prev := u_prev n\<rparr>)) (\<lambda>h.
     let m = m\<lparr>threads := h, stacks := stacks m - {d}, mgr_count := mgr_count m - 1\<rparr> in
     if mgr_count m = 0 then Inl Aborted else Inr m))"

text \<open>
  The loop of the scheduler, from \<open>cur\<close> at time \<open>t\<close>. After it has unlinked a thread the code
  moves on to the next one and then to the one after that: \<open>continue\<close> goes to the loop's test.
\<close>

partial_function (option) sched_loop ::
  "int \<Rightarrow> ptr \<Rightarrow> u_thread_manager \<Rightarrow> (addr \<times> u_thread_manager) result option" where
  "sched_loop t cur m =
     (case bindR (load (threads m) cur) (\<lambda>n. bindR (load (threads m) (u_next n)) (\<lambda>n'. Inr (u_next n, n'))) of
        Inl e \<Rightarrow> Some (Inl e)
      | Inr (p, n) \<Rightarrow>
          let a = the p in
          if finished n \<and> a \<noteq> mgr_head m
          then (case unlink_thread a n m of
                  Inl e \<Rightarrow> Some (Inl e)
                | Inr m' \<Rightarrow>
                    if u_next n \<noteq> Some (mgr_cur m) then sched_loop t (u_next n) m'
                    else Some (Inr (mgr_cur m, m')))
          else if \<not> finished n \<and> sleep_until_us n \<le> t then Some (Inr (a, m))
          else if a \<noteq> mgr_cur m then sched_loop t (Some a) m
          else Some (Inr (a, m)))"

definition u_thread_scheduler :: "int \<Rightarrow> u_thread_manager \<Rightarrow> u_thread_manager result option" where
  "u_thread_scheduler t m =
     map_option (\<lambda>r. bindR r (\<lambda>(c, m). Inr (if c \<noteq> mgr_cur m then m\<lparr>mgr_cur := c\<rparr> else m)))
       (sched_loop t (Some (mgr_cur m)) m)"

text \<open>The clock is read at \<open>t\<close> for the deadline and again at \<open>t'\<close> by the scheduler.\<close>

definition u_thread_usleep :: "int \<Rightarrow> int \<Rightarrow> int \<Rightarrow> u_thread_manager \<Rightarrow> u_thread_manager result option" where
  "u_thread_usleep usec t t' m =
     (case load (threads m) (Some (mgr_cur m)) of
        Inl e \<Rightarrow> Some (Inl e)
      | Inr c \<Rightarrow>
          if u_thread_id c = 0 then u_thread_scheduler t' m
          else u_thread_scheduler t' (m\<lparr>threads := (threads m)(mgr_cur m \<mapsto> c\<lparr>sleep_until_us := t + usec\<rparr>)\<rparr>))"

text \<open>
  The end of \<open>u_thread_startup\<close>: the thread is marked, and its context's link makes the main
  thread run, while \<open>cur\<close> still names the thread that has finished.
\<close>

definition u_thread_finish :: "u_thread_manager \<Rightarrow> u_thread_manager result" where
  "u_thread_finish m =
     bindR (modify (threads m) (Some (mgr_cur m)) (\<lambda>n. n\<lparr>finished := True\<rparr>)) (\<lambda>h. Inr (m\<lparr>threads := h\<rparr>))"

definition thread_is_finished :: "addr \<Rightarrow> u_thread_manager \<Rightarrow> bool result" where
  "thread_is_finished a m = bindR (load (threads m) (Some a)) (\<lambda>n. Inr (finished n))"

declare sched_loop.simps [simp del, code]

section \<open>Rings\<close>

definition nxt :: "(addr \<rightharpoonup> u_thread_struct) \<Rightarrow> addr \<Rightarrow> ptr" where
  "nxt h a = (case h a of None \<Rightarrow> None | Some n \<Rightarrow> u_next n)"

definition prv :: "(addr \<rightharpoonup> u_thread_struct) \<Rightarrow> addr \<Rightarrow> ptr" where
  "prv h a = (case h a of None \<Rightarrow> None | Some n \<Rightarrow> u_prev n)"

fun linked :: "(addr \<rightharpoonup> u_thread_struct) \<Rightarrow> addr list \<Rightarrow> bool" where
  "linked h (a # b # xs) = (nxt h a = Some b \<and> prv h b = Some a \<and> linked h (b # xs))"
| "linked h _ = True"

definition ring :: "(addr \<rightharpoonup> u_thread_struct) \<Rightarrow> addr list \<Rightarrow> bool" where
  "ring h xs \<longleftrightarrow> xs \<noteq> [] \<and> distinct xs \<and> linked h (xs @ [hd xs])"

lemma linked_append: "linked h (xs @ a # ys) \<longleftrightarrow> linked h (xs @ [a]) \<and> linked h (a # ys)"
  by (induction h xs rule: linked.induct) (cases ys; auto)+

lemma linked_agree:
  "(\<And>x. x \<in> set (butlast xs) \<Longrightarrow> nxt h' x = nxt h x) \<Longrightarrow> (\<And>x. x \<in> set (tl xs) \<Longrightarrow> prv h' x = prv h x) \<Longrightarrow>
     linked h' xs = linked h xs"
proof (induction h xs rule: linked.induct)
  case (1 h a b xs)
  have "linked h' (b # xs) = linked h (b # xs)"
    by (rule "1.IH") (use "1.prems" in auto)
  then show ?case using "1.prems"(1)[of a] "1.prems"(2)[of b] by simp
qed auto

lemma ring_rotate: "ring h (a # xs) \<Longrightarrow> ring h (xs @ [a])"
proof (cases xs)
  case (Cons b ys)
  assume "ring h (a # xs)"
  then have d: "distinct (a # xs)" and l: "linked h ([a] @ b # (ys @ [a]))" by (auto simp: ring_def Cons)
  have "linked h [a, b]" "linked h ((b # ys) @ [a])" using l linked_append[of h "[a]" b "ys @ [a]"] by simp_all
  then have "linked h ((b # ys) @ a # [b])" using linked_append[of h "b # ys" a "[b]"] \<open>linked h [a, b]\<close> by simp
  then show ?thesis using d by (auto simp: ring_def Cons)
qed simp

lemma ring_next: "ring h (a # xs) \<Longrightarrow> nxt h a = Some (hd (xs @ [a])) \<and> prv h (hd (xs @ [a])) = Some a"
  by (cases xs) (auto simp: ring_def)

lemma ring_rotate_hd: "ring h (a # xs) \<Longrightarrow> ring h (hd (xs @ [a]) # tl (xs @ [a]))"
  using ring_rotate[of h a xs] by (cases xs) auto

lemma ring_mem: "ring h xs \<Longrightarrow> x \<in> set xs \<Longrightarrow>
     \<exists>ys. ring h (x # ys) \<and> set (x # ys) = set xs \<and> length (x # ys) = length xs"
proof -
  assume r: "ring h xs" and "x \<in> set xs"
  then obtain us vs where xs: "xs = us @ x # vs" by (auto dest: split_list)
  have "ring h (us @ vs) \<Longrightarrow> ring h (vs @ us)" for us vs
    by (induction us arbitrary: vs) (use ring_rotate in fastforce)+
  from this[of us "x # vs"] r xs show ?thesis by (intro exI[of _ "vs @ us"]) auto
qed

lemma ring_unlink:
  assumes r: "ring h (a # b # xs)"
    and nx: "nxt h' = (nxt h)(a := nxt h b)" and pr: "\<And>c. nxt h b = Some c \<Longrightarrow> prv h' = (prv h)(c := Some a)"
  shows "ring h' (a # xs)"
proof (cases xs)
  case Nil
  then show ?thesis using r nx pr[of a] by (simp add: ring_def)
next
  case (Cons c ys)
  have l: "linked h (c # ys @ [a])" and c: "nxt h b = Some c" and d: "distinct (a # b # c # ys)"
    using r by (auto simp: ring_def Cons)
  have "linked h' (c # ys @ [a]) = linked h (c # ys @ [a])"
    by (rule linked_agree) (use d nx pr[OF c] in \<open>auto simp: butlast_append\<close>)
  then show ?thesis using l c d nx pr[OF c] by (simp add: ring_def Cons)
qed

lemma ring_insert:
  assumes r: "ring h (a # xs)" and t: "t \<notin> set (a # xs)" and c: "c = hd (xs @ [a])"
    and nx: "nxt h' = (nxt h)(t := Some c, a := Some t)" and pr: "prv h' = (prv h)(t := Some a, c := Some t)"
  shows "ring h' (a # t # xs)"
proof (cases xs)
  case Nil
  then show ?thesis using assms by (auto simp: ring_def)
next
  case (Cons d ys)
  have l: "linked h (d # ys @ [a])" and dist: "distinct (a # d # ys)"
    using r by (auto simp: ring_def Cons)
  have "linked h' (d # ys @ [a]) = linked h (d # ys @ [a])"
    by (rule linked_agree) (use dist t c nx pr Cons in \<open>auto simp: butlast_append\<close>)
  then show ?thesis using l dist t c nx pr by (auto simp: ring_def Cons)
qed

text \<open>What the links do not touch: the identifier, the mark and the deadline of every thread.\<close>

definition attr :: "(addr \<rightharpoonup> u_thread_struct) \<Rightarrow> addr \<Rightarrow> (int \<times> bool \<times> int) option" where
  "attr h x = map_option (\<lambda>n. (u_thread_id n, finished n, sleep_until_us n)) (h x)"

definition is_finished :: "(addr \<rightharpoonup> u_thread_struct) \<Rightarrow> addr \<Rightarrow> bool" where
  "is_finished h x \<longleftrightarrow> (case h x of None \<Rightarrow> False | Some n \<Rightarrow> finished n)"

definition runnable :: "int \<Rightarrow> (addr \<rightharpoonup> u_thread_struct) \<Rightarrow> addr \<Rightarrow> bool" where
  "runnable t h x \<longleftrightarrow> (case h x of None \<Rightarrow> False | Some n \<Rightarrow> \<not> finished n \<and> sleep_until_us n \<le> t)"

lemma attr_determines:
  "attr h' = attr h \<Longrightarrow> is_finished h' = is_finished h \<and> runnable t h' = runnable t h"
proof -
  assume eq: "attr h' = attr h"
  have f: "is_finished k x = (case attr k x of None \<Rightarrow> False | Some (_, f, _) \<Rightarrow> f)"
    and r: "runnable t k x = (case attr k x of None \<Rightarrow> False | Some (_, f, d) \<Rightarrow> \<not> f \<and> d \<le> t)" for k x
    by (cases "k x"; simp add: is_finished_def runnable_def attr_def)+
  show ?thesis by (intro conjI ext) (simp_all only: f r eq)
qed

lemma set_next:
  assumes "h a = Some n"
  shows "nxt (h(a \<mapsto> n\<lparr>u_next := v\<rparr>)) = (nxt h)(a := v)" "prv (h(a \<mapsto> n\<lparr>u_next := v\<rparr>)) = prv h"
    "attr (h(a \<mapsto> n\<lparr>u_next := v\<rparr>)) = attr h"
  using assms by (auto simp: nxt_def prv_def attr_def fun_eq_iff)

lemma set_prev:
  assumes "h a = Some n"
  shows "prv (h(a \<mapsto> n\<lparr>u_prev := v\<rparr>)) = (prv h)(a := v)" "nxt (h(a \<mapsto> n\<lparr>u_prev := v\<rparr>)) = nxt h"
    "attr (h(a \<mapsto> n\<lparr>u_prev := v\<rparr>)) = attr h"
  using assms by (auto simp: nxt_def prv_def attr_def fun_eq_iff)

lemma ring_alloc: "ring h xs \<Longrightarrow> x \<in> set xs \<Longrightarrow> \<exists>n. h x = Some n"
proof -
  assume "ring h xs" "x \<in> set xs"
  then obtain ys where "ring h (x # ys)" using ring_mem[of h xs x] by auto
  then have "nxt h x = Some (hd (ys @ [x]))" by (rule ring_next[THEN conjunct1])
  then show ?thesis by (cases "h x") (auto simp: nxt_def)
qed

lemma unlink_thread_ring:
  assumes r: "ring (threads m) (a # b # xs)" and b: "threads m b = Some n"
    and c: "mgr_count m = int (length (a # b # xs))"
  obtains m' where "unlink_thread b n m = Inr m'" "ring (threads m') (a # xs)" "attr (threads m') = attr (threads m)"
    "mgr_count m' = int (length (a # xs))" "mgr_head m' = mgr_head m" "mgr_cur m' = mgr_cur m"
    "stacks m' = stacks m - {b}" "u_next n = Some (hd (xs @ [a]))"
proof -
  let ?h = "threads m" and ?d = "hd (xs @ [a])"
  have links: "nxt ?h a = Some b \<and> prv ?h b = Some a" "nxt ?h b = Some ?d"
    using r ring_next[OF ring_rotate_hd[OF r]] by (cases xs; auto simp: ring_def)+
  obtain na where na: "?h a = Some na" using ring_alloc[OF r, of a] by auto
  let ?h1 = "?h(a \<mapsto> na\<lparr>u_next := Some ?d\<rparr>)"
  have "?d \<in> set (a # b # xs)" by (cases xs) auto
  then obtain nd where nd: "?h1 ?d = Some nd"
    using ring_alloc[OF r] by (cases "?d = a") auto
  let ?h2 = "?h1(?d \<mapsto> nd\<lparr>u_prev := Some a\<rparr>)"
  note upd = set_next[where h = ?h and a = a and n = na, OF na] set_prev[where h = ?h1 and a = ?d and n = nd, OF nd]
  have n: "u_prev n = Some a" "u_next n = Some ?d" using links b by (auto simp: nxt_def prv_def)
  let ?m = "m\<lparr>threads := ?h2, stacks := stacks m - {b}, mgr_count := mgr_count m - 1\<rparr>"
  have "unlink_thread b n m = Inr ?m"
    using n na nd c by (simp add: unlink_thread_def Let_def del: fun_upd_apply)
  moreover have "ring ?h2 (a # xs)"
    by (rule ring_unlink[OF r]) (use links in \<open>simp_all add: upd del: fun_upd_apply\<close>)
  moreover have "attr ?h2 = attr ?h"
    by (simp only: upd)
  ultimately show thesis using that[of ?m] c n by simp
qed

section \<open>The scheduler returns\<close>

text \<open>
  The walk around the ring to a thread \<open>h\<close> that ends it: each step goes to the next thread, or
  drops the next one and goes to its successor.
\<close>

lemma ring_walk_induct [consumes 1, case_names walk]:
  assumes "h \<in> set (a # xs)"
    and step: "\<And>a xs. h \<in> set (a # xs) \<Longrightarrow>
      (\<And>b ys. xs @ [a] = b # ys \<Longrightarrow> b \<noteq> h \<Longrightarrow> P b ys) \<Longrightarrow>
      (\<And>b ys c zs. xs = b # ys \<Longrightarrow> b \<noteq> h \<Longrightarrow> ys @ [a] = c # zs \<Longrightarrow> P c zs) \<Longrightarrow> P a xs"
  shows "P a xs"
  using assms(1)
proof (induction "(a, xs)" arbitrary: a xs rule: wf_induct_rule[OF wf_measures[of
    "[\<lambda>(a, xs). length xs, \<lambda>(a, xs). length (takeWhile (\<lambda>x. x \<noteq> h) (xs @ [a]))]"]])
  case (1 a xs)
  show ?case
  proof (rule step[OF "1.prems"])
    fix b ys
    assume ys: "xs @ [a] = b # ys" and b: "b \<noteq> h"
    then have "h \<in> set ys" "length ys = length xs" using "1.prems" by (cases xs; auto)+
    moreover from this(1) have "length (takeWhile (\<lambda>x. x \<noteq> h) (ys @ [b])) < length (takeWhile (\<lambda>x. x \<noteq> h) (xs @ [a]))"
      unfolding ys using b by simp
    ultimately show "P b ys" using "1.hyps"[of b ys] by simp
  next
    fix b ys c zs
    assume xs: "xs = b # ys" and b: "b \<noteq> h" and c: "ys @ [a] = c # zs"
    have "length zs < length xs" using arg_cong[OF c, of length] xs by simp
    moreover have "h \<in> set (c # zs)" using "1.prems" b xs arg_cong[OF c, of set] by auto
    ultimately show "P c zs" using "1.hyps"[of c zs] by simp
  qed
qed

definition sched_post :: "int \<Rightarrow> u_thread_manager \<Rightarrow> addr set \<Rightarrow> addr \<Rightarrow> u_thread_manager \<Rightarrow> bool" where
  "sched_post t m X c m' \<longleftrightarrow>
     attr (threads m') = attr (threads m) \<and> mgr_head m' = mgr_head m \<and> mgr_cur m' = mgr_cur m \<and>
     (runnable t (threads m) c \<or> c = mgr_cur m) \<and>
     (\<exists>ys. ring (threads m') ys \<and> set ys \<subseteq> X \<and> mgr_head m \<in> set ys \<and> c \<in> set ys \<and>
        mgr_count m' = int (length ys) \<and> stacks m' = stacks m - (X - set ys) \<and>
        (\<forall>x \<in> X - set ys. is_finished (threads m) x))"

lemma sched_post_same:
  "ring (threads m) xs \<Longrightarrow> mgr_head m \<in> set xs \<Longrightarrow> c \<in> set xs \<Longrightarrow> mgr_count m = int (length xs) \<Longrightarrow>
     runnable t (threads m) c \<or> c = mgr_cur m \<Longrightarrow> sched_post t m (set xs) c m"
  unfolding sched_post_def by blast

lemma sched_post_unlink:
  assumes "sched_post t m1 X c m'" "attr (threads m1) = attr (threads m)" "mgr_head m1 = mgr_head m"
    "mgr_cur m1 = mgr_cur m" "stacks m1 = stacks m - {b}" "is_finished (threads m) b" "b \<notin> X"
  shows "sched_post t m (insert b X) c m'"
proof -
  note same = attr_determines[OF assms(2), of t]
  obtain ys where ys: "ring (threads m') ys" "set ys \<subseteq> X" "mgr_head m \<in> set ys" "c \<in> set ys"
      "mgr_count m' = int (length ys)" "stacks m' = stacks m1 - (X - set ys)"
      "\<forall>x \<in> X - set ys. is_finished (threads m) x"
    using assms(1,3) same by (auto simp: sched_post_def)
  have "\<forall>x \<in> insert b X - set ys. is_finished (threads m) x" using ys(7) assms(6) by blast
  moreover have "stacks m' = stacks m - (insert b X - set ys)" using ys(2,6) assms(5,7) by blast
  ultimately show ?thesis using assms(1-4) same ys(1-5) unfolding sched_post_def by auto
qed

lemma sched_loop_simps:
  assumes "threads m cur = Some n" "u_next n = Some a" "threads m a = Some k"
  shows "sched_loop t (Some cur) m =
    (if finished k \<and> a \<noteq> mgr_head m
     then (case unlink_thread a k m of
             Inl e \<Rightarrow> Some (Inl e)
           | Inr m' \<Rightarrow>
               if u_next k \<noteq> Some (mgr_cur m) then sched_loop t (u_next k) m'
               else Some (Inr (mgr_cur m, m')))
     else if \<not> finished k \<and> sleep_until_us k \<le> t then Some (Inr (a, m))
     else if a \<noteq> mgr_cur m then sched_loop t (Some a) m
     else Some (Inr (a, m)))"
  using assms by (subst sched_loop.simps) simp

lemma sched_loop_returns:
  assumes "h \<in> set (cur # rest)" "mgr_head m = h" "ring (threads m) (cur # rest)"
    and "mgr_count m = int (length (cur # rest))" "runnable t (threads m) h"
  shows "\<exists>c m'. sched_loop t (Some cur) m = Some (Inr (c, m')) \<and> sched_post t m (set (cur # rest)) c m'"
  using assms
proof (induction cur rest arbitrary: m rule: ring_walk_induct)
  case (walk cur rest)
  let ?X = "set (cur # rest)"
  obtain b ys where rot: "rest @ [cur] = b # ys" by (cases rest) auto
  have X: "?X = set (b # ys)" "length (cur # rest) = length (b # ys)"
    using arg_cong[OF rot, of set] arg_cong[OF rot, of length] by auto
  have next_b: "nxt (threads m) cur = Some b"
    using ring_next[OF walk.prems(2)] rot by simp
  then obtain n where n: "threads m cur = Some n" "u_next n = Some b"
    by (auto simp: nxt_def split: option.splits)
  obtain k where k: "threads m b = Some k" using ring_alloc[OF walk.prems(2), of b] X by auto
  have ringb: "ring (threads m) (b # ys)" using ring_rotate[OF walk.prems(2)] rot by simp
  note loop = sched_loop_simps[OF n k, of t]
  have keep: "sched_post t m ?X c m" if "runnable t (threads m) c \<or> c = mgr_cur m" "c \<in> ?X" for c
    by (rule sched_post_same[OF walk.prems(2)]) (use walk that in simp_all)
  consider (gone) "finished k" "b \<noteq> h" | (found) "\<not> (finished k \<and> b \<noteq> h)" "\<not> finished k" "sleep_until_us k \<le> t"
    | (other) "\<not> (finished k \<and> b \<noteq> h)" "\<not> (\<not> finished k \<and> sleep_until_us k \<le> t)" by blast
  then show ?case
  proof cases
    case gone
    then have "rest \<noteq> []" using walk.hyps rot by auto
    then obtain rest' where rest: "rest = b # rest'" using rot by (cases rest) auto
    obtain m1 where m1: "unlink_thread b k m = Inr m1" "ring (threads m1) (cur # rest')"
      "attr (threads m1) = attr (threads m)" "mgr_count m1 = int (length (cur # rest'))" "mgr_head m1 = mgr_head m"
      "mgr_cur m1 = mgr_cur m" "stacks m1 = stacks m - {b}" "u_next k = Some (hd (rest' @ [cur]))"
      using unlink_thread_ring[of m cur b rest' k] walk.prems k rest by (metis list.sel)
    obtain c zs where c: "rest' @ [cur] = c # zs" by (cases "rest' @ [cur]") auto
    have zs: "set (c # zs) = insert cur (set rest')" "length zs = length rest'"
      using arg_cong[OF c, of set] arg_cong[OF c, of length] by auto
    have ringc: "ring (threads m1) (c # zs)" using ring_rotate[OF m1(2)] c by simp
    have fin: "is_finished (threads m) b" using k gone by (simp add: is_finished_def)
    have b: "b \<notin> set (c # zs)" "?X = insert b (set (c # zs))"
      using walk.prems(2) rest zs by (auto simp: ring_def)
    have h: "h \<in> set (c # zs)" using walk.hyps b(2) gone by auto
    note through = sched_post_unlink[OF _ m1(3,5,6,7) fin b(1), folded b(2)]
    have step: "sched_loop t (Some cur) m =
        (if c \<noteq> mgr_cur m then sched_loop t (Some c) m1 else Some (Inr (mgr_cur m, m1)))"
      using loop gone walk.prems(1) m1(1,8) c by simp
    show ?thesis
    proof (cases "c = mgr_cur m")
      case True
      have "mgr_head m1 \<in> set (c # zs)" "mgr_count m1 = int (length (c # zs))" "c = mgr_cur m1"
        using h walk.prems(1) m1 zs(2) True by simp_all
      then have "sched_post t m1 (set (c # zs)) c m1"
        using sched_post_same[OF ringc, of c] by simp
      then show ?thesis using through step True by auto
    next
      case False
      have "runnable t (threads m1) h" using attr_determines[OF m1(3)] walk.prems(4) by simp
      then have "\<exists>c' m'. sched_loop t (Some c) m1 = Some (Inr (c', m')) \<and> sched_post t m1 (set (c # zs)) c' m'"
        using walk.IH(2)[OF rest gone(2) c] m1 walk.prems(1) ringc zs by simp
      then show ?thesis using through step False by auto
    qed
  next
    case found
    then have "sched_loop t (Some cur) m = Some (Inr (b, m))" using loop walk.prems(1) by simp
    moreover have "runnable t (threads m) b" using k found by (simp add: runnable_def)
    ultimately show ?thesis using keep[of b] X by auto
  next
    case other
    have "b \<noteq> h" using walk.prems(4) k other(2) by (auto simp: runnable_def)
    show ?thesis
    proof (cases "b = mgr_cur m")
      case True
      then have "sched_loop t (Some cur) m = Some (Inr (b, m))" using loop other walk.prems(1) by auto
      then show ?thesis using keep[of b] True X by auto
    next
      case False
      then have "sched_loop t (Some cur) m = sched_loop t (Some b) m" using loop other walk.prems(1) by auto
      then show ?thesis
        using walk.IH(1)[OF rot \<open>b \<noteq> h\<close> walk.prems(1) ringb] walk.prems(3,4) X by simp
    qed
  qed
qed

section \<open>Programs of user threads\<close>

text \<open>
  The thread that runs creates threads, gives up the processor or sleeps; one that is not the
  main thread may end. \<open>g\<close> is what \<open>init_thread\<close> left in the deadline of the main thread, and the
  clock never shows less. The state has the static counter of \<open>u_thread_create\<close> in front.
\<close>

inductive uthread_step :: "int \<Rightarrow> int \<times> u_thread_manager \<Rightarrow> int \<times> u_thread_manager \<Rightarrow> bool" for g :: int where
  u_create: "threads m a = None \<Longrightarrow> u_thread_create True (Some a) i m = Inr (r, i', m') \<Longrightarrow>
     uthread_step g (i, m) (i', m')"
| u_create_fails: "u_thread_create False p i m = Inr (r, i', m') \<Longrightarrow> uthread_step g (i, m) (i', m')"
| u_yield: "g \<le> t \<Longrightarrow> u_thread_scheduler t m = Some (Inr m') \<Longrightarrow> uthread_step g (i, m) (i, m')"
| u_sleep: "g \<le> t' \<Longrightarrow> u_thread_usleep usec t t' m = Some (Inr m') \<Longrightarrow> uthread_step g (i, m) (i, m')"
| u_end: "mgr_cur m \<noteq> mgr_head m \<Longrightarrow> u_thread_finish m = Inr m' \<Longrightarrow> uthread_step g (i, m) (i, m')"

inductive_cases uthread_stepE: "uthread_step g s s'"

definition uthread_start :: "int \<Rightarrow> int \<times> u_thread_manager \<Rightarrow> bool" where
  "uthread_start g s \<longleftrightarrow> fst s = 0 \<and> (\<exists>a. init_thread (Some a) g = Inr (snd s))"

text \<open>
  The ring holds the running and the main thread and every thread that has not finished; the
  main thread has identifier 0 and the deadline \<open>g\<close>; the mapped stacks are those of the other threads in the ring.
\<close>

definition ring_ok :: "int \<Rightarrow> u_thread_manager \<Rightarrow> addr set \<Rightarrow> bool" where
  "ring_ok g m X \<longleftrightarrow> mgr_cur m \<in> X \<and> mgr_head m \<in> X \<and> mgr_count m = int (card X) \<and>
     stacks m = X - {mgr_head m} \<and> attr (threads m) (mgr_head m) = Some (0, False, g) \<and>
     (\<forall>x i f d. attr (threads m) x = Some (i, f, d) \<longrightarrow> (x \<in> X \<or> f) \<and> (x \<noteq> mgr_head m \<longrightarrow> 0 < i))"

definition uthread_inv :: "int \<Rightarrow> int \<times> u_thread_manager \<Rightarrow> bool" where
  "uthread_inv g s \<longleftrightarrow> 0 \<le> fst s \<and> (\<exists>xs. ring (threads (snd s)) xs \<and> ring_ok g (snd s) (set xs))"

lemma uthread_inv_start: "uthread_start g s \<Longrightarrow> uthread_inv g s"
proof -
  assume "uthread_start g s"
  then obtain a where s: "fst s = 0" "init_thread (Some a) g = Inr (snd s)" by (auto simp: uthread_start_def)
  then have "s = (0, projr (init_thread (Some a) g))" by (cases s) simp
  then show ?thesis unfolding uthread_inv_def
    by (auto simp: init_thread_def ring_ok_def ring_def nxt_def prv_def attr_def intro!: exI[of _ "[a]"])
qed

lemma ring_card: "ring h xs \<Longrightarrow> card (set xs) = length xs"
  by (simp add: ring_def distinct_card)

lemma ring_ok_runnable: "ring_ok g m X \<Longrightarrow> g \<le> t \<Longrightarrow> runnable t (threads m) (mgr_head m)"
  by (auto simp: ring_ok_def attr_def runnable_def)

text \<open>One call of the scheduler: what the two callers need of it.\<close>

lemma scheduler_step:
  assumes r: "ring (threads m) xs" and ok: "ring_ok g m (set xs)" and t: "g \<le> t"
  obtains m' ys where "u_thread_scheduler t m = Some (Inr m')" "ring (threads m') ys" "ring_ok g m' (set ys)"
    "attr (threads m') = attr (threads m)" "runnable t (threads m') (mgr_cur m') \<or> mgr_cur m' = mgr_cur m"
    "set ys \<subseteq> set xs" "\<forall>x \<in> set xs - set ys. is_finished (threads m) x"
proof -
  obtain rest where rot: "ring (threads m) (mgr_cur m # rest)" "set (mgr_cur m # rest) = set xs"
    "length (mgr_cur m # rest) = length xs"
    using ring_mem[OF r, of "mgr_cur m"] ok by (auto simp: ring_ok_def)
  have "mgr_count m = int (length (mgr_cur m # rest))" "mgr_head m \<in> set (mgr_cur m # rest)"
    using ok ring_card[OF r] rot by (auto simp: ring_ok_def)
  then obtain c m1 where loop: "sched_loop t (Some (mgr_cur m)) m = Some (Inr (c, m1))"
    and post: "sched_post t m (set xs) c m1"
    using sched_loop_returns[OF _ refl rot(1) _ ring_ok_runnable[OF ok t]] rot(2) by auto
  then obtain ys where ys: "ring (threads m1) ys" "set ys \<subseteq> set xs" "mgr_head m \<in> set ys" "c \<in> set ys"
      "mgr_count m1 = int (length ys)" "stacks m1 = stacks m - (set xs - set ys)"
      "\<forall>x \<in> set xs - set ys. is_finished (threads m) x"
    and same: "attr (threads m1) = attr (threads m)" "mgr_head m1 = mgr_head m" "mgr_cur m1 = mgr_cur m"
      "runnable t (threads m) c \<or> c = mgr_cur m"
    unfolding sched_post_def by blast
  let ?m = "m1\<lparr>mgr_cur := c\<rparr>"
  have "f" if "attr (threads m) x = Some (i, f, d)" "x \<in> set xs - set ys" for x i f d
    using bspec[OF ys(7) that(2)] that(1) by (auto simp: attr_def is_finished_def)
  then have "\<forall>x i f d. attr (threads m) x = Some (i, f, d) \<longrightarrow> (x \<in> set ys \<or> f) \<and> (x \<noteq> mgr_head m \<longrightarrow> 0 < i)"
    using ok unfolding ring_ok_def by blast
  moreover have "stacks m - (set xs - set ys) = set ys - {mgr_head m}"
    using ok ys(2) unfolding ring_ok_def by blast
  moreover have "attr (threads m) (mgr_head m) = Some (0, False, g)" using ok by (simp add: ring_ok_def)
  ultimately have "ring_ok g ?m (set ys)"
    using ys(3-6) same(1,2) ring_card[OF ys(1)] by (simp add: ring_ok_def)
  moreover have "u_thread_scheduler t m = Some (Inr ?m)"
    using loop same(3) by (auto simp: u_thread_scheduler_def)
  ultimately show thesis
    using that[of ?m ys] ys same attr_determines[OF same(1), of t] by simp
qed

lemma create_step:
  assumes r: "ring (threads m) xs" and ok: "ring_ok g m (set xs)" and a: "threads m a = None" and i: "0 \<le> i"
  obtains m' ys where "u_thread_create True (Some a) i m = Inr (0, i + 2, m')" "ring (threads m') ys"
    "ring_ok g m' (set ys)" "set ys = insert a (set xs)" "nxt (threads m') (mgr_cur m) = Some a"
proof -
  let ?h = "threads m" and ?c = "mgr_cur m"
  obtain rest where rot: "ring ?h (?c # rest)" "set (?c # rest) = set xs"
    using ring_mem[OF r, of ?c] ok by (auto simp: ring_ok_def)
  let ?d = "hd (rest @ [?c])"
  have next_c: "nxt ?h ?c = Some ?d" using ring_next[OF rot(1)] by simp
  obtain n where n: "?h ?c = Some n" "u_next n = Some ?d"
    using next_c by (auto simp: nxt_def split: option.splits)
  have "?d \<in> set (?c # rest)" by (cases rest) auto
  then obtain nd where nd: "?h ?d = Some nd" using ring_alloc[OF rot(1)] by blast
  have ne: "?c \<noteq> a" "?d \<noteq> a" using n nd a by auto
  let ?new = "\<lparr>u_thread_id = i + 1, finished = False, sleep_until_us = 0, u_next = Some ?d, u_prev = Some ?c\<rparr>"
  obtain h0 where h0: "h0 = ?h(a \<mapsto> ?new)" by simp
  have c0: "h0 ?c = Some n" using n ne h0 by simp
  obtain h1 where h1: "h1 = h0(?c \<mapsto> n\<lparr>u_next := Some a\<rparr>)" by simp
  obtain k where k: "h1 ?d = Some k" using nd ne h0 h1 by (cases "?d = ?c") auto
  obtain h2 where h2: "h2 = h1(?d \<mapsto> k\<lparr>u_prev := Some a\<rparr>)" by simp
  note upd = set_next[of h0 ?c n "Some a", OF c0, folded h1] set_prev[of h1 ?d k "Some a", OF k, folded h2]
  have new: "nxt h0 = (nxt ?h)(a := Some ?d)" "prv h0 = (prv ?h)(a := Some ?c)"
    "attr h0 = (attr ?h)(a := Some (i + 1, False, 0))"
    by (auto simp: h0 nxt_def prv_def attr_def fun_eq_iff)
  let ?m = "m\<lparr>threads := h2, mgr_count := mgr_count m + 1, stacks := insert a (stacks m)\<rparr>"
  have a': "a \<notin> set (?c # rest)" using a ring_alloc[OF rot(1), of a] by auto
  have nx: "nxt h2 = (nxt ?h)(a := Some ?d, ?c := Some a)"
    by (simp only: upd new)
  have pr: "prv h2 = (prv ?h)(a := Some ?c, ?d := Some a)"
    by (simp only: upd new)
  have ring: "ring h2 (?c # a # rest)"
    by (rule ring_insert[where h = ?h and h' = h2 and a = ?c and xs = rest and t = a and c = ?d,
          OF rot(1) a' refl nx pr])
  have at: "attr h2 = (attr ?h)(a := Some (i + 1, False, 0))"
    by (simp only: upd new)
  have set: "set (?c # a # rest) = insert a (set xs)" using rot(2) by auto
  moreover have "ring_ok g ?m (insert a (set xs))"
  proof -
    have "a \<notin> set xs" using a' unfolding rot(2) .
    moreover have "\<forall>x i' f d. attr h2 x = Some (i', f, d) \<longrightarrow>
        (x \<in> insert a (set xs) \<or> f) \<and> (x \<noteq> mgr_head m \<longrightarrow> 0 < i')"
      using ok i unfolding ring_ok_def at fun_upd_apply by (simp; blast)
    moreover have "attr h2 (mgr_head m) = Some (0, False, g)"
      using ok calculation(1) unfolding ring_ok_def at fun_upd_apply by auto
    moreover have "insert a (stacks m) = insert a (set xs) - {mgr_head m}"
      using ok calculation(1) unfolding ring_ok_def by auto
    ultimately show ?thesis using ok by (simp add: ring_ok_def del: fun_upd_apply)
  qed
  moreover have "nxt h2 ?c = Some a" using ring_next[OF ring] by simp
  moreover have "u_thread_create True (Some a) i m = Inr (0, i + 2, ?m)"
    using n c0 k h0 h1 h2 by (simp add: u_thread_create_def Let_def del: fun_upd_apply)
  ultimately show thesis using that[of ?m "?c # a # rest"] ring set by (simp del: fun_upd_apply)
qed

text \<open>A new mark or deadline of a thread other than the main one.\<close>

lemma mark_step:
  assumes r: "ring (threads m) xs" and ok: "ring_ok g m (set xs)" and ne: "mgr_cur m \<noteq> mgr_head m"
    and n: "threads m (mgr_cur m) = Some n"
    and same: "u_next n' = u_next n" "u_prev n' = u_prev n" "u_thread_id n' = u_thread_id n"
  shows "ring ((threads m)(mgr_cur m \<mapsto> n')) xs \<and> ring_ok g (m\<lparr>threads := (threads m)(mgr_cur m \<mapsto> n')\<rparr>) (set xs)"
proof
  let ?h = "(threads m)(mgr_cur m \<mapsto> n')"
  have "nxt ?h = nxt (threads m)" "prv ?h = prv (threads m)"
    using n same by (auto simp: nxt_def prv_def)
  then have "linked ?h ys = linked (threads m) ys" for ys by (intro linked_agree) simp_all
  then show "ring ?h xs" using r by (simp add: ring_def)
  have "attr (threads m) (mgr_cur m) = Some (u_thread_id n, finished n, sleep_until_us n)"
    using n by (simp add: attr_def)
  then have "0 < u_thread_id n" using ok ne unfolding ring_ok_def by blast
  moreover have "attr ?h = (attr (threads m))(mgr_cur m := Some (u_thread_id n, finished n', sleep_until_us n'))"
    using same by (auto simp: attr_def fun_eq_iff)
  ultimately show "ring_ok g (m\<lparr>threads := ?h\<rparr>) (set xs)"
    using ok ne by (simp add: ring_ok_def)
qed

lemma usleep_step:
  assumes r: "ring (threads m) xs" and ok: "ring_ok g m (set xs)" and t: "g \<le> t'"
  obtains m' ys where "u_thread_usleep usec t t' m = Some (Inr m')" "ring (threads m') ys" "ring_ok g m' (set ys)"
proof -
  have "mgr_cur m \<in> set xs" using ok by (simp add: ring_ok_def)
  then obtain n where n: "threads m (mgr_cur m) = Some n" using ring_alloc[OF r] by blast
  show thesis
  proof (cases "u_thread_id n = 0")
    case True
    then have "u_thread_usleep usec t t' m = u_thread_scheduler t' m" using n by (simp add: u_thread_usleep_def)
    then show thesis using scheduler_step[OF r ok t] that by metis
  next
    case False
    have "attr (threads m) (mgr_head m) = Some (0, False, g)" using ok by (simp add: ring_ok_def)
    then have "mgr_cur m \<noteq> mgr_head m" using False n by (auto simp: attr_def)
    obtain m1 where m1: "m1 = m\<lparr>threads := (threads m)(mgr_cur m \<mapsto> n\<lparr>sleep_until_us := t + usec\<rparr>)\<rparr>" by simp
    have "ring (threads m1) xs" "ring_ok g m1 (set xs)"
      using mark_step[OF r ok \<open>mgr_cur m \<noteq> mgr_head m\<close> n, of "n\<lparr>sleep_until_us := t + usec\<rparr>"] m1 by simp_all
    moreover have "u_thread_usleep usec t t' m = u_thread_scheduler t' m1"
      using n False m1 by (simp add: u_thread_usleep_def)
    ultimately show thesis using scheduler_step[of m1 xs g t'] that t by metis
  qed
qed

lemma finish_step:
  assumes r: "ring (threads m) xs" and ok: "ring_ok g m (set xs)" and ne: "mgr_cur m \<noteq> mgr_head m"
  obtains m' where "u_thread_finish m = Inr m'" "ring (threads m') xs" "ring_ok g m' (set xs)"
proof -
  have "mgr_cur m \<in> set xs" using ok by (simp add: ring_ok_def)
  then obtain n where n: "threads m (mgr_cur m) = Some n" using ring_alloc[OF r] by blast
  show thesis using mark_step[OF r ok ne n, of "n\<lparr>finished := True\<rparr>"] that n
    by (auto simp: u_thread_finish_def)
qed

lemma uthread_inv_step:
  assumes "uthread_inv g s" "uthread_step g s s'"
  shows "uthread_inv g s'"
proof -
  obtain xs where i: "0 \<le> fst s" and r: "ring (threads (snd s)) xs" and ok: "ring_ok g (snd s) (set xs)"
    using assms(1) by (auto simp: uthread_inv_def)
  from assms(2) show ?thesis
  proof cases
    case (u_create m a i r' i' m')
    show ?thesis
      by (rule create_step[of m xs g a i]) (use u_create i r ok in \<open>auto simp: uthread_inv_def\<close>)
  next
    case (u_create_fails p i r' i' m')
    then show ?thesis using i r ok by (auto simp: u_thread_create_def uthread_inv_def)
  next
    case (u_yield t m m' i)
    show ?thesis
      by (rule scheduler_step[of m xs g t]) (use u_yield i r ok in \<open>auto simp: uthread_inv_def\<close>)
  next
    case (u_sleep t' usec t m m' i)
    show ?thesis
      by (rule usleep_step[of m xs g t' usec t]) (use u_sleep i r ok in \<open>auto simp: uthread_inv_def\<close>)
  next
    case (u_end m m' i)
    show ?thesis
      by (rule finish_step[of m xs g]) (use u_end i r ok in \<open>auto simp: uthread_inv_def\<close>)
  qed
qed

interpretation ut: transition_system "uthread_start g" "uthread_step g" "uthread_inv g" for g
  by unfold_locales (fact uthread_inv_start, fact uthread_inv_step)

section \<open>Properties\<close>

lemma uthread_reach_create:
  "reachable (uthread_start g) (uthread_step g) (i, m) \<Longrightarrow> threads m a = None \<Longrightarrow>
     u_thread_create True (Some a) i m = Inr (r, i', m') \<Longrightarrow> reachable (uthread_start g) (uthread_step g) (i', m')"
  by (erule reach_step) (rule u_create)

lemma uthread_reach_init:
  "init_thread (Some a) g = Inr m \<Longrightarrow> reachable (uthread_start g) (uthread_step g) (0, m)"
  by (rule reach_start) (auto simp: uthread_start_def)



text \<open>A loop that stays at a main thread that is not due, while \<open>cur\<close> is no longer in the ring.\<close>

definition stuck :: "int \<Rightarrow> ptr \<Rightarrow> u_thread_manager \<Rightarrow> bool" where
  "stuck t p m \<longleftrightarrow> p = Some (mgr_head m) \<and> mgr_cur m \<noteq> mgr_head m \<and>
     (case threads m (mgr_head m) of None \<Rightarrow> False
      | Some n \<Rightarrow> u_next n = Some (mgr_head m) \<and> \<not> finished n \<and> t < sleep_until_us n)"

lemma sched_loop_stuck:
  assumes "sched_loop t p m = Some r"
  shows "\<not> stuck t p m"
proof (rule sched_loop.raw_induct[OF _ assms])
  fix f t p m r
  assume ih: "\<And>t p m r. f t p m = Some r \<Longrightarrow> \<not> stuck t p m"
    and body: "(case bindR (load (threads m) p) (\<lambda>n. bindR (load (threads m) (u_next n)) (\<lambda>n'. Inr (u_next n, n'))) of
        Inl e \<Rightarrow> Some (Inl e)
      | Inr (p, n) \<Rightarrow>
          let a = the p in
          if finished n \<and> a \<noteq> mgr_head m
          then (case unlink_thread a n m of
                  Inl e \<Rightarrow> Some (Inl e)
                | Inr m' \<Rightarrow>
                    if u_next n \<noteq> Some (mgr_cur m) then f t (u_next n) m'
                    else Some (Inr (mgr_cur m, m')))
          else if \<not> finished n \<and> sleep_until_us n \<le> t then Some (Inr (a, m))
          else if a \<noteq> mgr_cur m then f t (Some a) m
          else Some (Inr (a, m))) = Some r"
  show "\<not> stuck t p m"
  proof
    assume st: "stuck t p m"
    then have "f t p m = Some r" using body by (simp add: stuck_def split: option.splits)
    then show False using ih st by blast
  qed
qed

text \<open>
  The deadline that \<open>init_thread\<close> does not initialise matters. If the memory held a time that
  has not come, then after the only other thread has run to its end, the scheduler unlinks it and
  goes around the ring of the main thread for as long as the clock value it read stays the same,
  that is for ever: the loop's test waits for \<open>cur\<close>, which is not in the ring any more.
\<close>

theorem u_thread_scheduler_hangs:
  assumes "init_thread (Some h) g = Inr m0" "h \<noteq> a" "u_thread_create True (Some a) i m0 = Inr (r, i', m1)"
    and "0 \<le> t" "u_thread_scheduler t m1 = Some (Inr m2)" "u_thread_finish m2 = Inr m3" "t' < g"
  shows "mgr_cur m2 = a \<and> u_thread_scheduler t' m3 = None"
proof -
  let ?main = "\<lambda>p. \<lparr>u_thread_id = 0, finished = False, sleep_until_us = g, u_next = Some p, u_prev = Some p\<rparr>"
  let ?thr = "\<lambda>f. \<lparr>u_thread_id = i + 1, finished = f, sleep_until_us = 0, u_next = Some h, u_prev = Some h\<rparr>"
  have init: "m0 = \<lparr>mgr_head = h, mgr_cur = h, mgr_count = 1, threads = [h \<mapsto> ?main h], stacks = {}\<rparr>"
    using assms(1) by (simp add: init_thread_def)
  have create: "m1 = m0\<lparr>threads := (threads m0)(a \<mapsto> ?thr False, h \<mapsto> ?main a),
      mgr_count := mgr_count m0 + 1, stacks := insert a (stacks m0)\<rparr>"
    using assms(2,3) init by (simp add: u_thread_create_def Let_def fun_upd_twist)
  have m1: "mgr_cur m1 = h" "mgr_head m1 = h" "threads m1 h = Some (?main a)" "threads m1 a = Some (?thr False)"
    "mgr_count m1 = 2"
    using init create assms(2) by simp_all
  have "sched_loop t (Some h) m1 = Some (Inr (a, m1))"
    using sched_loop_simps[OF m1(3) _ m1(4)] assms(2,4) by simp
  then have m2: "m2 = m1\<lparr>mgr_cur := a\<rparr>"
    using assms(2,5) m1(1) by (auto simp: u_thread_scheduler_def)
  then have m3: "mgr_cur m3 = a" "mgr_head m3 = h" "threads m3 h = Some (?main a)" "threads m3 a = Some (?thr True)"
    "mgr_count m3 = 2"
    using assms(2,6) m1 by (auto simp: u_thread_finish_def)
  have one: "sched_loop t' (Some a) m3 = sched_loop t' (Some h) m3"
    using sched_loop_simps[OF m3(4) _ m3(3)] assms(2,7) m3(1,2) by simp
  obtain m4 where m4: "unlink_thread a (?thr True) m3 = Inr m4" "mgr_cur m4 = a" "mgr_head m4 = h"
    "threads m4 h = Some (?main h)"
    using m3 assms(2) by (auto simp: unlink_thread_def Let_def)
  have "sched_loop t' (Some h) m3 = None"
  proof (cases "sched_loop t' (Some h) m4")
    case None
    then show ?thesis using sched_loop_simps[OF m3(3) _ m3(4)] assms(2) m3(1,2) m4(1) by simp
  next
    case (Some r)
    then show ?thesis using sched_loop_stuck[OF Some] m4 assms(2,7) by (simp add: stuck_def)
  qed
  then show ?thesis using one m2 m3(1) by (simp add: u_thread_scheduler_def)
qed

theorem u_thread_scheduler_hangs_witness:
  "\<exists>m0 r i' m1 m2 m3. init_thread (Some 10) 100 = Inr m0 \<and> u_thread_create True (Some 20) 0 m0 = Inr (r, i', m1) \<and>
     u_thread_scheduler 5 m1 = Some (Inr m2) \<and> u_thread_finish m2 = Inr m3 \<and> u_thread_scheduler 50 m3 = None"
proof -
  let ?m0 = "projr (init_thread (Some 10) 100)"
  let ?c = "projr (u_thread_create True (Some 20) 0 ?m0)"
  let ?m1 = "snd (snd ?c)"
  let ?m2 = "projr (the (u_thread_scheduler 5 ?m1))"
  let ?m3 = "projr (u_thread_finish ?m2)"
  have "failed (init_thread (Some 10) 100) = None" "failed (u_thread_create True (Some 20) 0 ?m0) = None"
    "map_option failed (u_thread_scheduler 5 ?m1) = Some None" "failed (u_thread_finish ?m2) = None"
    by code_simp+
  then have "init_thread (Some 10) 100 = Inr ?m0" "u_thread_create True (Some 20) 0 ?m0 = Inr (fst ?c, fst (snd ?c), ?m1)"
    "u_thread_scheduler 5 ?m1 = Some (Inr ?m2)" "u_thread_finish ?m2 = Inr ?m3"
    by auto
  moreover from this have "u_thread_scheduler 50 ?m3 = None"
    using u_thread_scheduler_hangs[of 10 100 ?m0 20 0 "fst ?c" "fst (snd ?c)" ?m1 5 ?m2 ?m3 50] by simp
  ultimately show ?thesis by blast
qed

text \<open>
  After it has unlinked a thread the scheduler passes over the next one: with the ring main,
  30 (finished), 20, a call from the main thread at a time when 20 is due stays with the main thread.
\<close>

definition skip_example :: u_thread_manager where
  "skip_example = \<lparr>mgr_head = 10, mgr_cur = 10, mgr_count = 3,
     threads = [10 \<mapsto> \<lparr>u_thread_id = 0, finished = False, sleep_until_us = 0, u_next = Some 30, u_prev = Some 20\<rparr>,
                20 \<mapsto> \<lparr>u_thread_id = 1, finished = False, sleep_until_us = 0, u_next = Some 10, u_prev = Some 30\<rparr>,
                30 \<mapsto> \<lparr>u_thread_id = 3, finished = True, sleep_until_us = 0, u_next = Some 20, u_prev = Some 10\<rparr>],
     stacks = {20, 30}\<rparr>"

lemma scheduler_skips_successor:
  "runnable 5 (threads skip_example) 20 \<and>
     map_option (map_option mgr_cur \<circ> (\<lambda>r. case r of Inl _ \<Rightarrow> None | Inr m \<Rightarrow> Some m))
       (u_thread_scheduler 5 skip_example) = Some (Some 10)"
  by code_simp

end
