(* ===== verification/Posix_Files.thy ===== *)
theory Posix_Files
  imports OS_Prelude
begin

text \<open>
  The part of the POSIX file system that \<open>fs_manager.c\<close> and \<open>reverse.c\<close> use: inodes with regular
  files, directories (whose first entries are \<open>.\<close> and \<open>..\<close>) and symbolic links; the resolution of
  path names; and the system calls as functions that return \<open>None\<close> where the call returns -1.
  Permission bits are kept but do not restrict the caller, who is the owner of the files. The
  number of a new inode is an argument.
\<close>

unbundle bit_operations_syntax

section \<open>The data\<close>

type_synonym mode = "16 word"

datatype inode =
    Reg "char list" mode nat  \<comment> \<open>contents, permissions, number of links\<close>
  | Folder "(string \<times> nat) list" mode
  | Symlink string nat

record fs =
  inodes :: "nat \<rightharpoonup> inode"
  root_dir :: nat
  cwd :: nat
  umask :: mode
  stdout :: string

definition put_inode :: "nat \<Rightarrow> inode \<Rightarrow> fs \<Rightarrow> fs" where
  "put_inode i n s = s\<lparr>inodes := (inodes s)(i \<mapsto> n)\<rparr>"

definition print_out :: "string \<Rightarrow> fs \<Rightarrow> fs" where
  "print_out str s = s\<lparr>stdout := stdout s @ str\<rparr>"

section \<open>Path names\<close>

text \<open>The components of a path; the empty ones between adjacent slashes stay and are skipped in the walk.\<close>

fun path_parts :: "string \<Rightarrow> string list" where
  "path_parts [] = [[]]"
| "path_parts (c # cs) = (if c = CHR ''/'' then [] # path_parts cs
     else (c # hd (path_parts cs)) # tl (path_parts cs))"

definition start_dir :: "fs \<Rightarrow> string \<Rightarrow> nat \<Rightarrow> nat" where
  "start_dir s p d = (if p \<noteq> [] \<and> hd p = CHR ''/'' then root_dir s else d)"

text \<open>
  The walk along the components from directory \<open>d\<close>, with \<open>f\<close> symbolic links left to follow: what
  is left of \<open>f\<close>, and the inode arrived at.
\<close>

function walk :: "fs \<Rightarrow> nat \<Rightarrow> nat \<Rightarrow> string list \<Rightarrow> (nat \<times> nat) option" where
  "walk s f d [] = Some (f, d)"
| "walk s f d (c # cs) =
     (if c = [] then walk s f d cs
      else case inodes s d of
        Some (Folder es _) \<Rightarrow>
          (case map_of es c of None \<Rightarrow> None
           | Some i \<Rightarrow>
               (case inodes s i of
                  Some (Symlink target _) \<Rightarrow>
                    (case f of 0 \<Rightarrow> None
                     | Suc f' \<Rightarrow> walk s f' (start_dir s target d) (path_parts target @ cs))
                | Some _ \<Rightarrow> walk s f i cs
                | None \<Rightarrow> None))
      | _ \<Rightarrow> None)"
  by pat_completeness auto
termination
  by (relation "measures [\<lambda>(s, f, d, cs). f, \<lambda>(s, f, d, cs). length cs]") auto

definition max_links :: nat where
  "max_links = 40"

definition resolve :: "fs \<Rightarrow> string \<Rightarrow> nat option" where
  "resolve s p = (if p = [] then None
     else map_option snd (walk s max_links (start_dir s p (cwd s)) (path_parts p)))"

text \<open>The directory and the name of the last component, for the calls that act on an entry.\<close>

definition parts_of :: "string \<Rightarrow> string list" where
  "parts_of p = filter (\<lambda>c. c \<noteq> []) (path_parts p)"

definition parent_of :: "fs \<Rightarrow> string \<Rightarrow> (nat \<times> string) option" where
  "parent_of s p = (if parts_of p = [] then None
     else map_option (\<lambda>(_, d). (d, last (parts_of p)))
       (walk s max_links (start_dir s p (cwd s)) (butlast (parts_of p))))"

definition entries_of :: "fs \<Rightarrow> nat \<Rightarrow> (string \<times> nat) list option" where
  "entries_of s d = (case inodes s d of Some (Folder es _) \<Rightarrow> Some es | _ \<Rightarrow> None)"

definition set_entries :: "nat \<Rightarrow> (string \<times> nat) list \<Rightarrow> fs \<Rightarrow> fs" where
  "set_entries d es s = (case inodes s d of Some (Folder _ m) \<Rightarrow> put_inode d (Folder es m) s | _ \<Rightarrow> s)"

text \<open>The inode an entry names, the last component not followed.\<close>

definition lookup_entry :: "fs \<Rightarrow> string \<Rightarrow> (nat \<times> string \<times> nat) option" where
  "lookup_entry s p = (case parent_of s p of None \<Rightarrow> None
     | Some (d, c) \<Rightarrow> (case entries_of s d of None \<Rightarrow> None
         | Some es \<Rightarrow> map_option (\<lambda>i. (d, c, i)) (map_of es c)))"

section \<open>The calls\<close>

definition dot :: string where "dot = ''.''"
definition dotdot :: string where "dotdot = ''..''"

definition sys_stat :: "string \<Rightarrow> fs \<Rightarrow> inode option" where
  "sys_stat p s = (case resolve s p of None \<Rightarrow> None | Some i \<Rightarrow> inodes s i)"

text \<open>\<open>opendir\<close> and all of \<open>readdir\<close>: the names in the directory.\<close>

definition sys_readdir :: "string \<Rightarrow> fs \<Rightarrow> string list option" where
  "sys_readdir p s = (case resolve s p of None \<Rightarrow> None
     | Some d \<Rightarrow> map_option (map fst) (entries_of s d))"

definition add_entry :: "nat \<Rightarrow> string \<Rightarrow> nat \<Rightarrow> inode \<Rightarrow> fs \<Rightarrow> fs option" where
  "add_entry d c i n s = (case entries_of s d of None \<Rightarrow> None
     | Some es \<Rightarrow> if map_of es c = None
         then Some (set_entries d (es @ [(c, i)]) (put_inode i n s)) else None)"

definition sys_mkdir :: "nat \<Rightarrow> string \<Rightarrow> mode \<Rightarrow> fs \<Rightarrow> fs option" where
  "sys_mkdir i p m s = (case parent_of s p of None \<Rightarrow> None
     | Some (d, c) \<Rightarrow> add_entry d c i (Folder [(dot, i), (dotdot, d)] (m AND NOT (umask s))) s)"

definition del_entry :: "nat \<Rightarrow> string \<Rightarrow> fs \<Rightarrow> fs" where
  "del_entry d c s = (case entries_of s d of None \<Rightarrow> s
     | Some es \<Rightarrow> set_entries d (filter (\<lambda>e. fst e \<noteq> c) es) s)"

definition drop_inode :: "nat \<Rightarrow> fs \<Rightarrow> fs" where
  "drop_inode i s = s\<lparr>inodes := (inodes s)(i := None)\<rparr>"

definition sys_rmdir :: "string \<Rightarrow> fs \<Rightarrow> fs option" where
  "sys_rmdir p s = (case lookup_entry s p of None \<Rightarrow> None
     | Some (d, c, i) \<Rightarrow>
         (case entries_of s i of None \<Rightarrow> None
          | Some es \<Rightarrow> if c \<noteq> dot \<and> c \<noteq> dotdot \<and> length es = 2
              then Some (drop_inode i (del_entry d c s)) else None))"

definition sys_unlink :: "string \<Rightarrow> fs \<Rightarrow> fs option" where
  "sys_unlink p s = (case lookup_entry s p of None \<Rightarrow> None
     | Some (d, c, i) \<Rightarrow>
         (case inodes s i of
            Some (Reg bs m k) \<Rightarrow>
              Some (if k \<le> 1 then drop_inode i (del_entry d c s)
                    else put_inode i (Reg bs m (k - 1)) (del_entry d c s))
          | Some (Symlink t k) \<Rightarrow>
              Some (if k \<le> 1 then drop_inode i (del_entry d c s)
                    else put_inode i (Symlink t (k - 1)) (del_entry d c s))
          | _ \<Rightarrow> None))"

text \<open>\<open>remove\<close> is \<open>rmdir\<close> for a directory and \<open>unlink\<close> for anything else.\<close>

definition sys_remove :: "string \<Rightarrow> fs \<Rightarrow> fs option" where
  "sys_remove p s = (case lookup_entry s p of None \<Rightarrow> None
     | Some (d, c, i) \<Rightarrow>
         (case inodes s i of Some (Folder _ _) \<Rightarrow> sys_rmdir p s | _ \<Rightarrow> sys_unlink p s))"

definition sys_symlink :: "nat \<Rightarrow> string \<Rightarrow> string \<Rightarrow> fs \<Rightarrow> fs option" where
  "sys_symlink i target p s = (if target = [] then None
     else case parent_of s p of None \<Rightarrow> None | Some (d, c) \<Rightarrow> add_entry d c i (Symlink target 1) s)"

definition sys_readlink :: "string \<Rightarrow> fs \<Rightarrow> string option" where
  "sys_readlink p s = (case lookup_entry s p of None \<Rightarrow> None
     | Some (d, c, i) \<Rightarrow> (case inodes s i of Some (Symlink t _) \<Rightarrow> Some t | _ \<Rightarrow> None))"

text \<open>\<open>link\<close> makes another name for a file; it does not follow a link at \<open>old\<close> and refuses directories.\<close>

definition sys_link :: "string \<Rightarrow> string \<Rightarrow> fs \<Rightarrow> fs option" where
  "sys_link old new s = (case lookup_entry s old of None \<Rightarrow> None
     | Some (_, _, i) \<Rightarrow>
         (case (inodes s i, parent_of s new) of
            (Some (Reg bs m k), Some (d, c)) \<Rightarrow> add_entry d c i (Reg bs m (k + 1)) s
          | (Some (Symlink t k), Some (d, c)) \<Rightarrow> add_entry d c i (Symlink t (k + 1)) s
          | _ \<Rightarrow> None))"

definition sys_chmod :: "string \<Rightarrow> mode \<Rightarrow> fs \<Rightarrow> fs option" where
  "sys_chmod p m s = (case resolve s p of None \<Rightarrow> None
     | Some i \<Rightarrow> (case inodes s i of
         Some (Reg bs _ k) \<Rightarrow> Some (put_inode i (Reg bs m k) s)
       | Some (Folder es _) \<Rightarrow> Some (put_inode i (Folder es m) s)
       | _ \<Rightarrow> None))"

text \<open>
  \<open>fopen\<close> for reading: the contents. \<open>fopen\<close> for writing (\<open>w\<close>, \<open>w+\<close>): the file is emptied, or
  made with inode \<open>i\<close>, also through a dangling symbolic link; the inode is the stream.
\<close>

definition fopen_r :: "string \<Rightarrow> fs \<Rightarrow> (char list) option" where
  "fopen_r p s = (case sys_stat p s of Some (Reg bs _ _) \<Rightarrow> Some bs | _ \<Rightarrow> None)"

primrec open_w :: "nat \<Rightarrow> nat \<Rightarrow> nat \<Rightarrow> string \<Rightarrow> fs \<Rightarrow> (nat \<times> fs) option" where
  "open_w 0 i d p s = None"
| "open_w (Suc f) i d p s =
     (if parts_of p = [] then None
      else case walk s max_links (start_dir s p d) (butlast (parts_of p)) of None \<Rightarrow> None
      | Some (_, par) \<Rightarrow>
          (case entries_of s par of None \<Rightarrow> None
           | Some es \<Rightarrow>
               (case map_of es (last (parts_of p)) of
                  None \<Rightarrow> map_option (\<lambda>s. (i, s))
                    (add_entry par (last (parts_of p)) i (Reg [] (0b110110110 AND NOT (umask s)) 1) s)
                | Some j \<Rightarrow>
                    (case inodes s j of
                       Some (Reg _ m k) \<Rightarrow> Some (j, put_inode j (Reg [] m k) s)
                     | Some (Symlink t _) \<Rightarrow> open_w f i par t s
                     | _ \<Rightarrow> None))))"

definition fopen_w :: "nat \<Rightarrow> string \<Rightarrow> fs \<Rightarrow> (nat \<times> fs) option" where
  "fopen_w i p s = open_w max_links i (cwd s) p s"

definition fappend :: "nat \<Rightarrow> char list \<Rightarrow> fs \<Rightarrow> fs" where
  "fappend i bs s = (case inodes s i of
     Some (Reg cs m k) \<Rightarrow> put_inode i (Reg (cs @ bs) m k) s | _ \<Rightarrow> s)"

section \<open>Walks\<close>

lemma path_parts_not_Nil [simp]: "path_parts p \<noteq> []"
  by (induction p) auto

lemma path_parts_slash: "path_parts (p @ CHR ''/'' # q) = path_parts p @ path_parts q"
  by (induction p) (auto simp: neq_Nil_conv)

lemma path_parts_name: "CHR ''/'' \<notin> set c \<Longrightarrow> path_parts c = [c]"
  by (induction c) auto

lemma walk_append: "walk s f d (xs @ ys) = Option.bind (walk s f d xs) (\<lambda>(f', d'). walk s f' d' ys)"
  by (induction s f d xs rule: walk.induct)
    (auto split: option.splits inode.splits nat.splits)

lemma walk_Cons: "walk s f d (c # cs) = Option.bind (walk s f d [c]) (\<lambda>(f', d'). walk s f' d' cs)"
  using walk_append[of s f d "[c]" cs] by simp

lemma walk_nonempty: "walk s f d (filter (\<lambda>c. c \<noteq> []) cs) = walk s f d cs"
proof (induction cs arbitrary: f d)
  case (Cons c cs)
  show ?case
  proof (cases "c = []")
    case False
    then show ?thesis
      using walk_Cons[of s f d c cs] walk_Cons[of s f d c "filter (\<lambda>c. c \<noteq> []) cs"]
      by (simp add: Cons del: walk.simps)
  qed (simp add: Cons)
qed simp

lemma walk_name:
  assumes "c \<noteq> []" "inodes s d = Some (Folder es m)" "map_of es c = Some i" "inodes s i = Some n"
    and "\<And>t k. n \<noteq> Symlink t k"
  shows "walk s f d [c] = Some (f, i)"
  using assms by (cases n) auto

text \<open>Two states with the same directories to start from.\<close>

definition same_env :: "fs \<Rightarrow> fs \<Rightarrow> bool" where
  "same_env s s' \<longleftrightarrow> s' = s\<lparr>inodes := inodes s'\<rparr>"

lemma same_env_fields:
  assumes "same_env s s'"
  shows "root_dir s' = root_dir s" "cwd s' = cwd s" "umask s' = umask s" "stdout s' = stdout s"
  using assms unfolding same_env_def by (metis fs.select_convs fs.surjective fs.update_convs(1))+

lemma same_env_refl [simp]: "same_env s s" "same_env s (s\<lparr>inodes := h\<rparr>)"
  by (simp_all add: same_env_def)

lemma same_env_trans: "same_env s s' \<Longrightarrow> same_env s' s'' \<Longrightarrow> same_env s s''"
  unfolding same_env_def by (metis fs.update_convs(1) fs.surjective fs.ext_inject)

text \<open>
  \<open>reaches X s p i\<close>: the path \<open>p\<close> leads to the directory \<open>i\<close>, and does so whatever happens to the
  inodes in \<open>X\<close>, as long as \<open>i\<close> stays a directory. So the walk does not depend on \<open>X\<close>.
\<close>

definition agree_off :: "nat set \<Rightarrow> fs \<Rightarrow> fs \<Rightarrow> bool" where
  "agree_off X s s' \<longleftrightarrow> same_env s s' \<and> (\<forall>j. j \<notin> X \<longrightarrow> inodes s' j = inodes s j)"

definition reaches :: "nat set \<Rightarrow> fs \<Rightarrow> string \<Rightarrow> nat \<Rightarrow> bool" where
  "reaches X s p i \<longleftrightarrow> p \<noteq> [] \<and> (\<forall>s'. agree_off X s s' \<longrightarrow> entries_of s' i \<noteq> None \<longrightarrow>
     (\<exists>f. walk s' max_links (start_dir s' p (cwd s')) (path_parts p) = Some (f, i)))"

lemma agree_off_refl [simp]: "agree_off X s s"
  by (simp add: agree_off_def)

lemma agree_off_trans: "agree_off X s s' \<Longrightarrow> agree_off X s' s'' \<Longrightarrow> agree_off X s s''"
  by (auto simp: agree_off_def intro: same_env_trans)

lemma agree_off_mono: "agree_off X s s' \<Longrightarrow> X \<subseteq> Y \<Longrightarrow> agree_off Y s s'"
  by (auto simp: agree_off_def)

lemma reaches_mono: "reaches X s p i \<Longrightarrow> Y \<subseteq> X \<Longrightarrow> reaches Y s p i"
  unfolding reaches_def using agree_off_mono by blast

lemma reaches_agree: "reaches X s p i \<Longrightarrow> agree_off X s s' \<Longrightarrow> reaches X s' p i"
  unfolding reaches_def using agree_off_trans by blast

lemma reaches_resolve: "reaches X s p i \<Longrightarrow> entries_of s i \<noteq> None \<Longrightarrow> resolve s p = Some i"
  unfolding reaches_def resolve_def using agree_off_refl by fastforce

lemma entries_of_Some: "entries_of s i = Some es \<longleftrightarrow> (\<exists>m. inodes s i = Some (Folder es m))"
  by (auto simp: entries_of_def split: option.splits inode.splits)

text \<open>One component further.\<close>

lemma good_path_start: "p \<noteq> [] \<Longrightarrow> start_dir s (p @ q) d = start_dir s p d"
  by (simp add: start_dir_def)

lemma reaches_walk_name:
  assumes "reaches X s p i" "CHR ''/'' \<notin> set c"
    and "agree_off X s s'" "entries_of s' i = Some es"
  shows "\<exists>f. walk s' max_links (start_dir s' (p @ ''/'' @ c) (cwd s')) (path_parts (p @ ''/'' @ c)) = walk s' f i [c]"
  using assms path_parts_slash[of p c] path_parts_name[of c]
  by (fastforce simp: reaches_def walk_append good_path_start simp del: walk.simps)

lemma reaches_child:
  assumes r: "reaches X s p i" and c: "c \<noteq> []" "CHR ''/'' \<notin> set c"
    and e: "entries_of s i = Some es" "map_of es c = Some j" and Y: "Y \<subseteq> X" "i \<notin> Y"
  shows "reaches Y s (p @ ''/'' @ c) j"
  unfolding reaches_def
proof (intro conjI allI impI)
  fix s'
  assume ag: "agree_off Y s s'" and j: "entries_of s' j \<noteq> None"
  have ei: "entries_of s' i = Some es" using ag Y(2) e(1) by (simp add: agree_off_def entries_of_def)
  obtain f where f: "walk s' max_links (start_dir s' (p @ ''/'' @ c) (cwd s')) (path_parts (p @ ''/'' @ c)) = walk s' f i [c]"
    using reaches_walk_name[OF r c(2) agree_off_mono[OF ag Y(1)] ei] by blast
  obtain m where m: "inodes s' i = Some (Folder es m)" using ei by (auto simp: entries_of_Some)
  obtain es' m' where "inodes s' j = Some (Folder es' m')" using j by (auto simp: entries_of_Some)
  then have "walk s' f i [c] = Some (f, j)" by (intro walk_name[OF c(1) m e(2)]) auto
  then show "\<exists>f. walk s' max_links (start_dir s' (p @ ''/'' @ c) (cwd s')) (path_parts (p @ ''/'' @ c)) = Some (f, j)"
    using f by auto
qed (use r in \<open>simp add: reaches_def\<close>)

lemma stat_child:
  assumes r: "reaches X s p i" and c: "c \<noteq> []" "CHR ''/'' \<notin> set c"
    and e: "inodes s i = Some (Folder es m)" "map_of es c = Some j" and n: "inodes s j = Some n"
      "\<And>t k. n \<noteq> Symlink t k"
  shows "resolve s (p @ ''/'' @ c) = Some j" "sys_stat (p @ ''/'' @ c) s = Some n"
proof -
  have "entries_of s i = Some es" using e by (auto simp: entries_of_Some)
  then obtain f where f: "walk s max_links (start_dir s (p @ ''/'' @ c) (cwd s)) (path_parts (p @ ''/'' @ c)) = walk s f i [c]"
    using reaches_walk_name[OF r c(2) agree_off_refl] by blast
  then show "resolve s (p @ ''/'' @ c) = Some j"
    using walk_name[OF c(1) e n, of f] by (simp add: resolve_def)
  then show "sys_stat (p @ ''/'' @ c) s = Some n" using n(1) by (simp add: sys_stat_def)
qed

lemma parts_of_slash: "c \<noteq> [] \<Longrightarrow> CHR ''/'' \<notin> set c \<Longrightarrow> parts_of (p @ ''/'' @ c) = parts_of p @ [c]"
  by (simp add: parts_of_def path_parts_slash path_parts_name)

lemma parent_child:
  assumes r: "reaches X s p i" and c: "c \<noteq> []" "CHR ''/'' \<notin> set c" and e: "entries_of s i \<noteq> None"
  shows "parent_of s (p @ ''/'' @ c) = Some (i, c)"
proof -
  obtain f where "walk s max_links (start_dir s p (cwd s)) (path_parts p) = Some (f, i)" "p \<noteq> []"
    using r e agree_off_refl[of X s] unfolding reaches_def by blast
  then have "walk s max_links (start_dir s p (cwd s)) (parts_of p) = Some (f, i)" "p \<noteq> []"
    by (simp_all add: parts_of_def walk_nonempty)
  then show ?thesis using parts_of_slash[OF c, of p] by (simp add: parent_of_def good_path_start)
qed

text \<open>What a walk sees of an inode: neither the contents of files nor permissions and link counts.\<close>

primrec shape :: "inode \<Rightarrow> inode" where
  "shape (Reg bs m k) = Reg [] 0 0"
| "shape (Folder es m) = Folder es 0"
| "shape (Symlink t k) = Symlink t 0"

definition same_shape :: "fs \<Rightarrow> fs \<Rightarrow> bool" where
  "same_shape s s' \<longleftrightarrow> same_env s s' \<and> (\<forall>j. map_option shape (inodes s' j) = map_option shape (inodes s j))"

lemma shape_eq:
  "shape n = shape (Folder es m) \<longleftrightarrow> (\<exists>m'. n = Folder es m')"
  "shape n = shape (Symlink t k) \<longleftrightarrow> (\<exists>k'. n = Symlink t k')"
  by (cases n; simp)+

lemma walk_no_dir: "c \<noteq> [] \<Longrightarrow> entries_of s d = None \<Longrightarrow> walk s f d (c # cs) = None"
  by (auto simp: entries_of_def split: option.splits inode.splits)

lemma walk_shape:
  assumes "same_shape s s'"
  shows "walk s' f d cs = walk s f d cs"
  using assms
proof (induction s f d cs rule: walk.induct)
  case (2 s f d c cs)
  have sh: "map_option shape (inodes s' j) = map_option shape (inodes s j)" for j
    using "2.prems" by (simp add: same_shape_def)
  have env: "start_dir s' t e = start_dir s t e" for t e
    using "2.prems" same_env_fields(1) by (simp add: same_shape_def start_dir_def)
  consider "c = []" | es m where "c \<noteq> []" "inodes s d = Some (Folder es m)"
    | "c \<noteq> []" "\<And>es m. inodes s d \<noteq> Some (Folder es m)"
    by (metis)
  then show ?case
  proof cases
    case (2 es m)
    then obtain m' where d: "inodes s' d = Some (Folder es m')"
      using sh[of d] shape_eq(1)[of _ es m] by auto
    show ?thesis
    proof (cases "map_of es c")
      case (Some i)
      show ?thesis
      proof (cases "inodes s i")
        case None
        then show ?thesis using 2 d Some sh[of i] by simp
      next
        case n: (Some n)
        show ?thesis
        proof (cases n)
          case (Symlink t k)
          then obtain k' where "inodes s' i = Some (Symlink t k')"
            using sh[of i] n shape_eq(2)[of _ t k] by auto
          then show ?thesis using 2 d Some n Symlink env "2.IH"(4)[OF 2(1,2) refl Some n Symlink] "2.prems"
            by (cases f) auto
        next
          case (Reg bs m k)
          then obtain n' where "inodes s' i = Some n'" "shape n' = Reg [] 0 0" using sh[of i] n by auto
          then show ?thesis using 2 d Some n Reg "2.IH"(2)[OF 2(1,2) refl Some n Reg] "2.prems"
            by (cases n') auto
        next
          case (Folder es' m)
          then obtain m' where "inodes s' i = Some (Folder es' m')"
            using sh[of i] n shape_eq(1)[of _ es' m] by auto
          then show ?thesis using 2 d Some n Folder "2.IH"(3)[OF 2(1,2) refl Some n Folder] "2.prems" by auto
        qed
      qed
    qed (use 2 d in simp)
  next
    case 3
    then have e: "entries_of s d = None" by (auto simp: entries_of_def split: option.splits inode.splits)
    have "entries_of s' d = None"
    proof (cases "entries_of s' d")
      case (Some es)
      then obtain m where "inodes s' d = Some (Folder es m)" by (auto simp: entries_of_Some)
      then obtain n where "inodes s d = Some n" "shape n = shape (Folder es m)"
        using sh[of d] by (cases "inodes s d") auto
      then show ?thesis using 3 shape_eq(1) by metis
    qed
    then show ?thesis using 3(1) e walk_no_dir by metis
  qed (use "2.IH"(1) "2.prems" in simp)
qed simp

lemma resolve_shape: "same_shape s s' \<Longrightarrow> resolve s' p = resolve s p"
  using same_env_fields(1,2)[of s s'] walk_shape[of s s' max_links]
  by (simp add: resolve_def start_dir_def same_shape_def del: walk.simps)

lemma put_inode_shape:
  "inodes s i = Some n \<Longrightarrow> shape n' = shape n \<Longrightarrow> same_shape s (put_inode i n' s)"
  by (auto simp: same_shape_def put_inode_def)

section \<open>Trees\<close>

text \<open>
  The inodes of a directory tree of regular files with one link each, for the specifications of
  recursive operations: \<open>tree_at s par t\<close> says that \<open>s\<close> holds the tree \<open>t\<close>, whose parent is \<open>par\<close>.
\<close>

datatype dtree = File nat | Dir nat "(string \<times> dtree) list"

primrec dino :: "dtree \<Rightarrow> nat" where
  "dino (File i) = i"
| "dino (Dir i ts) = i"

primrec inos :: "dtree \<Rightarrow> nat list" where
  "inos (File i) = [i]"
| "inos (Dir i ts) = i # concat (map snd (map (map_prod id inos) ts))"

text \<open>How deep the tree is, and the length of the longest path below it.\<close>

primrec tree_depth :: "dtree \<Rightarrow> nat" where
  "tree_depth (File i) = 0"
| "tree_depth (Dir i ts) = 1 + fold max (map snd (map (map_prod id tree_depth) ts)) 0"

primrec tree_path :: "dtree \<Rightarrow> nat" where
  "tree_path (File i) = 0"
| "tree_path (Dir i ts) = fold max (map (\<lambda>(c, k). 1 + length c + k) (map (map_prod id tree_path) ts)) 0"

definition good_name :: "string \<Rightarrow> bool" where
  "good_name c \<longleftrightarrow> c \<noteq> [] \<and> c \<noteq> dot \<and> c \<noteq> dotdot \<and> CHR ''/'' \<notin> set c"

definition entry_list :: "nat \<Rightarrow> nat \<Rightarrow> (string \<times> dtree) list \<Rightarrow> (string \<times> nat) list" where
  "entry_list i par ts = (dot, i) # (dotdot, par) # map (\<lambda>(c, t). (c, dino t)) ts"

primrec tree_at :: "dtree \<Rightarrow> fs \<Rightarrow> nat \<Rightarrow> bool" where
  "tree_at (File i) = (\<lambda>s par. \<exists>bs m. inodes s i = Some (Reg bs m 1))"
| "tree_at (Dir i ts) = (\<lambda>s par.
     (\<exists>m. inodes s i = Some (Folder (entry_list i par ts) m)) \<and> distinct (map fst ts) \<and>
     (\<forall>(c, at) \<in> set (map (map_prod id tree_at) ts). good_name c \<and> at s i))"

lemma inos_Dir: "set (inos (Dir i ts)) = insert i (\<Union>(c, t) \<in> set ts. set (inos t))"
  by (auto simp: map_prod_def split: prod.splits)

lemma dino_in_inos [simp]: "dino t \<in> set (inos t)"
  by (cases t) auto

lemma tree_at_Dir: "tree_at (Dir i ts) s par \<longleftrightarrow>
    (\<exists>m. inodes s i = Some (Folder (entry_list i par ts) m)) \<and> distinct (map fst ts) \<and>
    (\<forall>(c, t) \<in> set ts. good_name c \<and> tree_at t s i)"
  by (fastforce simp: map_prod_def split: prod.splits)

declare inos.simps(2) [simp del] tree_at.simps(2) [simp del]

lemma fold_max_le: "x \<in> set xs \<Longrightarrow> (x :: nat) \<le> fold max xs a"
  by (simp add: Max.set_eq_fold[symmetric])

lemma tree_depth_child: "(c, t) \<in> set ts \<Longrightarrow> tree_depth t < tree_depth (Dir i ts)"
  using fold_max_le[of "tree_depth t" "map snd (map (map_prod id tree_depth) ts)" 0] by (force simp: image_iff)

lemma tree_path_child: "(c, t) \<in> set ts \<Longrightarrow> 1 + length c + tree_path t \<le> tree_path (Dir i ts)"
  using fold_max_le[of "1 + length c + tree_path t" "map (\<lambda>(c, k). 1 + length c + k) (map (map_prod id tree_path) ts)" 0]
  by (force simp: image_iff)

declare tree_depth.simps(2) [simp del] tree_path.simps(2) [simp del]

lemma tree_at_agree:
  "(\<And>j. j \<in> set (inos t) \<Longrightarrow> inodes s' j = inodes s j) \<Longrightarrow> tree_at t s' par \<longleftrightarrow> tree_at t s par"
proof (induction t arbitrary: par)
  case (Dir i ts)
  have "tree_at t s' i = tree_at t s i" if "(c, t) \<in> set ts" for c t
    by (rule Dir.IH[OF that]) (use Dir.prems that in \<open>auto simp: inos_Dir\<close>)
  moreover have "inodes s' i = inodes s i" by (rule Dir.prems) (simp add: inos_Dir)
  ultimately show ?case by (auto simp: tree_at_Dir)
qed simp

lemma inos_distinct_Cons:
  "distinct (inos (Dir i ((c, t) # ts))) \<Longrightarrow>
     distinct (inos t) \<and> distinct (inos (Dir i ts)) \<and> i \<notin> set (inos t) \<and>
     set (inos t) \<inter> set (inos (Dir i ts)) = {}"
  by (auto simp: inos.simps)

lemma tree_at_alloc: "tree_at t s par \<Longrightarrow> set (inos t) \<subseteq> dom (inodes s)"
proof (induction t arbitrary: par)
  case (Dir i ts)
  have "set (inos t) \<subseteq> dom (inodes s)" if "(c, t) \<in> set ts" for c t
    using Dir.IH[OF that, of t i] Dir.prems that by (auto simp: tree_at_Dir)
  then show ?case using Dir.prems by (auto simp: tree_at_Dir inos_Dir)
qed auto

end
