(* ===== verification/Fs_Manager.thy ===== *)
theory Fs_Manager
  imports Posix_Files
begin

text \<open>
  The commands of \<open>fs_manager.c\<close>, each a function on the file system, with what it prints on
  standard output; messages on standard error are left out. \<open>main\<close> chooses the command by the
  name under which the program was called.
\<close>

section \<open>The commands\<close>

definition SIZE :: nat where
  "SIZE = 4096"

text \<open>A failed call only prints a message.\<close>

definition or_same :: "fs option \<Rightarrow> fs \<Rightarrow> fs" where
  "or_same r s = (case r of None \<Rightarrow> s | Some s' \<Rightarrow> s')"

definition line :: "string \<Rightarrow> string" where
  "line str = str @ [CHR 0x0A]"

definition myMkdir :: "nat \<Rightarrow> string \<Rightarrow> mode \<Rightarrow> fs \<Rightarrow> fs" where
  "myMkdir i path m s = or_same (sys_mkdir i path m s) s"

definition myLs :: "string \<Rightarrow> fs \<Rightarrow> fs" where
  "myLs path s = (case sys_readdir path s of None \<Rightarrow> s
     | Some names \<Rightarrow> print_out (concat (map line names)) s)"

text \<open>\<open>snprintf\<close> into a buffer of \<open>SIZE\<close> bytes keeps one less.\<close>

definition full_path :: "string \<Rightarrow> string \<Rightarrow> string" where
  "full_path path name = take (SIZE - 1) (path @ ''/'' @ name)"

text \<open>
  \<open>myRmdir\<close> calls itself for every entry that \<open>stat\<close> takes for a directory; \<open>rm_entries\<close> is its loop over
  the names, with \<open>success\<close> so far. The depth of the recursion is bounded by the first argument.
\<close>

function myRmdir :: "nat \<Rightarrow> string \<Rightarrow> fs \<Rightarrow> (int \<times> fs) result"
  and rm_entries :: "nat \<Rightarrow> string \<Rightarrow> string list \<Rightarrow> int \<Rightarrow> fs \<Rightarrow> (int \<times> fs) result" where
  "myRmdir 0 path s = Inl OutOfFuel"
| "myRmdir (Suc n) path s = (case sys_readdir path s of None \<Rightarrow> Inr (- 1, s)
     | Some names \<Rightarrow>
         bindR (rm_entries n path names 0 s) (\<lambda>(success, s).
           if success = 0
           then (case sys_rmdir path s of None \<Rightarrow> Inr (- 1, s) | Some s' \<Rightarrow> Inr (success, s'))
           else Inr (success, s)))"
| "rm_entries n path [] success s = Inr (success, s)"
| "rm_entries n path (c # cs) success s =
     (if c = dot \<or> c = dotdot then rm_entries n path cs success s
      else case sys_stat (full_path path c) s of
        None \<Rightarrow> rm_entries n path cs (- 1) s
      | Some (Folder _ _) \<Rightarrow>
          bindR (myRmdir n (full_path path c) s) (\<lambda>(r, s).
            rm_entries n path cs (if r = - 1 then - 1 else success) s)
      | Some _ \<Rightarrow>
          (case sys_unlink (full_path path c) s of
             None \<Rightarrow> rm_entries n path cs (- 1) s
           | Some s' \<Rightarrow> rm_entries n path cs success s'))"
  by pat_completeness auto
termination
  by (relation "measures [\<lambda>x. case x of Inl (n, _) \<Rightarrow> n | Inr (n, _) \<Rightarrow> n,
        \<lambda>x. case x of Inl _ \<Rightarrow> 0 | Inr (_, _, cs, _) \<Rightarrow> length cs + 1]") auto

definition myTouch :: "nat \<Rightarrow> string \<Rightarrow> fs \<Rightarrow> fs" where
  "myTouch i path s = or_same (map_option snd (fopen_w i path s)) s"

definition myCat :: "string \<Rightarrow> fs \<Rightarrow> fs" where
  "myCat path s = (case fopen_r path s of None \<Rightarrow> s | Some bs \<Rightarrow> print_out bs s)"

definition myRm :: "string \<Rightarrow> fs \<Rightarrow> fs" where
  "myRm path s = or_same (sys_remove path s) s"

definition mySymLn :: "nat \<Rightarrow> string \<Rightarrow> string \<Rightarrow> fs \<Rightarrow> fs" where
  "mySymLn i destPath linkPath s = or_same (sys_symlink i destPath linkPath s) s"

definition myReadlink :: "string \<Rightarrow> fs \<Rightarrow> fs" where
  "myReadlink path s = (case sys_readlink path s of None \<Rightarrow> s
     | Some t \<Rightarrow> print_out (line (take (SIZE - 1) t)) s)"

definition catLinkContent :: "string \<Rightarrow> fs \<Rightarrow> fs" where
  "catLinkContent path s = (case sys_readlink path s of None \<Rightarrow> s
     | Some t \<Rightarrow> myCat (take (SIZE - 1) t) s)"

definition myLn :: "string \<Rightarrow> string \<Rightarrow> fs \<Rightarrow> fs" where
  "myLn destPath linkPath s = or_same (sys_link destPath linkPath s) s"

definition myChmod :: "string \<Rightarrow> mode \<Rightarrow> fs \<Rightarrow> fs" where
  "myChmod path m s = or_same (sys_chmod path m s) s"

text \<open>The permission string of \<open>lsl\<close>, bit by bit from the owner's read bit down.\<close>

definition perm_string :: "bool \<Rightarrow> mode \<Rightarrow> string" where
  "perm_string dir m = (if dir then CHR ''d'' else CHR ''-'') #
     map (\<lambda>(k, c). if bit m k then c else CHR ''-'')
       [(8, CHR ''r''), (7, CHR ''w''), (6, CHR ''x''), (5, CHR ''r''), (4, CHR ''w''), (3, CHR ''x''),
        (2, CHR ''r''), (1, CHR ''w''), (0, CHR ''x'')]"

fun digits :: "nat \<Rightarrow> nat \<Rightarrow> string" where
  "digits b n = (if n < b \<or> b < 2 then [char_of (48 + n mod 10)]
     else digits b (n div b) @ [char_of (48 + n mod b)])"

text \<open>A directory has a link from each of its subdirectories besides its own two.\<close>

definition nlink :: "fs \<Rightarrow> inode \<Rightarrow> nat" where
  "nlink s n = (case n of Reg _ _ k \<Rightarrow> k | Symlink _ k \<Rightarrow> k
     | Folder es _ \<Rightarrow> 2 + length (filter (\<lambda>(c, i). c \<noteq> dot \<and> c \<noteq> dotdot \<and> entries_of s i \<noteq> None) es))"

definition inode_mode :: "inode \<Rightarrow> mode" where
  "inode_mode n = (case n of Reg _ m _ \<Rightarrow> m | Folder _ m \<Rightarrow> m | Symlink _ _ \<Rightarrow> 0b111111111)"

definition myLsl :: "string \<Rightarrow> fs \<Rightarrow> fs" where
  "myLsl path s = (case sys_stat path s of None \<Rightarrow> s
     | Some n \<Rightarrow>
         let dir = (case n of Folder _ _ \<Rightarrow> True | _ \<Rightarrow> False); m = inode_mode n AND 0b111111111 in
         print_out (line (''Permissions: '' @ digits 8 (unat m)) @ ''File Permissions: '' @ [CHR 0x09] @
           line (line (perm_string dir m)) @ line (''Number of hard links: '' @ digits 10 (nlink s n))) s)"

section \<open>main\<close>

text \<open>\<open>strtol(s, NULL, 8)\<close>: white space, a sign, and the octal digits that follow.\<close>

fun octal :: "int \<Rightarrow> string \<Rightarrow> int" where
  "octal acc [] = acc"
| "octal acc (c # cs) = (let d = of_char c - (48 :: int) in
     if 0 \<le> d \<and> d < 8 then octal (acc * 8 + d) cs else acc)"

definition is_space :: "char \<Rightarrow> bool" where
  "is_space c \<longleftrightarrow> c \<in> set [CHR '' '', CHR 0x09, CHR 0x0A, CHR 0x0B, CHR 0x0C, CHR 0x0D]"

definition strtol8 :: "string \<Rightarrow> int" where
  "strtol8 str = (case dropWhile is_space str of
       [] \<Rightarrow> 0
     | c # cs \<Rightarrow> if c = CHR ''-'' then - octal 0 cs else if c = CHR ''+'' then octal 0 cs else octal 0 (c # cs))"

text \<open>The name after the last slash.\<close>

definition basename :: "string \<Rightarrow> string" where
  "basename p = (if parts_of p = [] then (if p = [] then dot else ''/'') else last (parts_of p))"

definition USAGE_ERROR :: int where "USAGE_ERROR = 1"
definition FS_SUCCESS :: int where "FS_SUCCESS = 0"

definition succeed :: "fs \<Rightarrow> (int \<times> fs) result" where
  "succeed s = Inr (FS_SUCCESS, s)"

definition usage :: "fs \<Rightarrow> (int \<times> fs) result" where
  "usage s = Inr (USAGE_ERROR, s)"

text \<open>\<open>n\<close> bounds the recursion of \<open>rmdir\<close> and \<open>i\<close> is the number for a new inode.\<close>

definition fs_main :: "nat \<Rightarrow> nat \<Rightarrow> string list \<Rightarrow> fs \<Rightarrow> (int \<times> fs) result" where
  "fs_main n i argv s = (case argv of
       program # path # rest \<Rightarrow>
         let action = basename program in
         if action = ''mkdir'' then
           (case rest of [m] \<Rightarrow> succeed (myMkdir i path (word_of_int (strtol8 m)) s) | _ \<Rightarrow> usage s)
         else if action = ''ls'' then succeed (myLs path s)
         else if action = ''rmdir'' then bindR (myRmdir n path s) (\<lambda>(_, s). succeed s)
         else if action = ''touch'' then succeed (myTouch i path s)
         else if action = ''cat'' then succeed (myCat path s)
         else if action = ''rm'' then succeed (myRm path s)
         else if action = ''lnSym'' then
           (case rest of [linkPath] \<Rightarrow> succeed (mySymLn i path linkPath s) | _ \<Rightarrow> usage s)
         else if action = ''readlink'' then succeed (myReadlink path s)
         else if action = ''catLinkContent'' then succeed (catLinkContent path s)
         else if action = ''rmSymLink'' then succeed (myRm path s)
         else if action = ''ln'' then
           (case rest of [linkPath] \<Rightarrow> succeed (myLn path linkPath s) | _ \<Rightarrow> usage s)
         else if action = ''rmHardLink'' then succeed (myRm path s)
         else if action = ''lsl'' then succeed (myLsl path s)
         else if action = ''chmod'' then
           (case rest of [m] \<Rightarrow> succeed (myChmod path (word_of_int (strtol8 m)) s) | _ \<Rightarrow> usage s)
         else usage s
     | _ \<Rightarrow> usage s)"

section \<open>The recursive removal\<close>

text \<open>
  \<open>removed X d es s\<close>: the inodes in \<open>X\<close> are gone, directory \<open>d\<close> holds the entries \<open>es\<close>, and all else is as in \<open>s\<close>.
\<close>

definition removed :: "nat set \<Rightarrow> nat \<Rightarrow> (string \<times> nat) list \<Rightarrow> fs \<Rightarrow> fs" where
  "removed X d es s = s\<lparr>inodes := (\<lambda>j. if j \<in> X then None
     else if j = d then map_option (\<lambda>n. case n of Folder _ m \<Rightarrow> Folder es m | _ \<Rightarrow> n) (inodes s d)
     else inodes s j)\<rparr>"

lemma removed_agree: "X \<subseteq> Y \<Longrightarrow> d \<in> Y \<Longrightarrow> agree_off Y s (removed X d es s)"
  by (auto simp: removed_def agree_off_def)

lemma removed_folder:
  "inodes s d = Some (Folder es m) \<Longrightarrow> d \<notin> X \<Longrightarrow> inodes (removed X d es' s) d = Some (Folder es' m)"
  by (simp add: removed_def)

lemma removed_other: "j \<notin> X \<Longrightarrow> j \<noteq> d \<Longrightarrow> inodes (removed X d es s) j = inodes s j"
  by (simp add: removed_def)

lemma removed_removed:
  "inodes s d = Some (Folder es0 m) \<Longrightarrow> d \<notin> X \<Longrightarrow> removed Y d es' (removed X d es s) = removed (X \<union> Y) d es' s"
  by (auto simp: removed_def fun_eq_iff)

lemma drop_del_removed:
  assumes "inodes s d = Some (Folder es m)" "i \<noteq> d"
  shows "drop_inode i (del_entry d c s) = removed {i} d (filter (\<lambda>e. fst e \<noteq> c) es) s"
  using assms by (auto simp: drop_inode_def del_entry_def entries_of_def set_entries_def put_inode_def removed_def fun_eq_iff)

text \<open>Directory \<open>d\<close> has an entry \<open>c\<close> for the root of the tree \<open>t\<close>, and the path of the entry is \<open>p\<close>.\<close>

definition entry_at :: "fs \<Rightarrow> nat \<Rightarrow> string \<Rightarrow> string \<Rightarrow> dtree \<Rightarrow> bool" where
  "entry_at s d c p t \<longleftrightarrow> good_name c \<and> reaches (set (inos t)) s p (dino t) \<and>
     (\<forall>s'. agree_off (set (inos t)) s s' \<longrightarrow> parent_of s' p = Some (d, c)) \<and>
     d \<notin> set (inos t) \<and> (\<exists>es m. inodes s d = Some (Folder es m) \<and> map_of es c = Some (dino t))"

definition without :: "string \<Rightarrow> fs \<Rightarrow> nat \<Rightarrow> (string \<times> nat) list" where
  "without c s d = filter (\<lambda>e. fst e \<noteq> c) (the (entries_of s d))"

text \<open>A whole directory: what one call of \<open>myRmdir\<close> does when its recursive calls do it.\<close>

definition rm_spec :: "dtree \<Rightarrow> bool" where
  "rm_spec t \<longleftrightarrow> (\<forall>n p s d c par. tree_at t s par \<longrightarrow> distinct (inos t) \<longrightarrow> entry_at s d c p t \<longrightarrow> tree_depth t \<le> n \<longrightarrow>
     length p + tree_path t < SIZE \<longrightarrow> entries_of s (dino t) \<noteq> None \<longrightarrow>
     myRmdir n p s = Inr (0, removed (set (inos t)) d (without c s d) s))"

lemma rm_specD:
  "rm_spec t \<Longrightarrow> tree_at t s par \<Longrightarrow> distinct (inos t) \<Longrightarrow> entry_at s d c p t \<Longrightarrow> tree_depth t \<le> n \<Longrightarrow>
     length p + tree_path t < SIZE \<Longrightarrow> entries_of s (dino t) \<noteq> None \<Longrightarrow>
     myRmdir n p s = Inr (0, removed (set (inos t)) d (without c s d) s)"
  unfolding rm_spec_def by blast

lemma map_of_entry_list:
  "good_name c \<Longrightarrow> map_of (entry_list i par ((c, t) # ts)) c = Some (dino t)"
  "distinct (map fst ((c, t) # ts)) \<Longrightarrow> good_name c \<Longrightarrow> filter (\<lambda>e. fst e \<noteq> c) (entry_list i par ((c, t) # ts)) = entry_list i par ts"
  by (auto simp: entry_list_def good_name_def filter_id_conv intro: rev_image_eqI)

lemma rm_entries_tree:
  assumes "\<And>c t. (c, t) \<in> set ts \<Longrightarrow> rm_spec t"
    and "tree_at (Dir i ts) s par" "distinct (inos (Dir i ts))" "reaches (set (inos (Dir i ts))) s p i"
    and "\<And>c t. (c, t) \<in> set ts \<Longrightarrow> tree_depth t \<le> n \<and> length p + 1 + length c + tree_path t < SIZE"
  shows "rm_entries n p (map fst ts) 0 s =
    Inr (0, removed (\<Union>(c, t) \<in> set ts. set (inos t)) i (entry_list i par []) s)"
  using assms
proof (induction ts arbitrary: s)
  case Nil
  then obtain m where "inodes s i = Some (Folder (entry_list i par []) m)" by (auto simp: tree_at_Dir)
  then have "removed {} i (entry_list i par []) s = s"
    by (auto simp: removed_def intro!: fs.equality)
  then show ?case by simp
next
  case (Cons ct ts)
  obtain c t where ct: "ct = (c, t)" by (cases ct)
  let ?T = "Dir i ((c, t) # ts)" and ?p = "p @ ''/'' @ c" and ?es = "entry_list i par ((c, t) # ts)"
  have tree: "tree_at ?T s par" and dist: "distinct (inos ?T)" and r: "reaches (set (inos ?T)) s p i"
    using Cons.prems ct by auto
  obtain m where m: "inodes s i = Some (Folder ?es m)" and dn: "distinct (map fst ((c, t) # ts))"
    and c: "good_name c" and t: "tree_at t s i" using tree by (auto simp: tree_at_Dir)
  have c': "c \<noteq> []" "CHR ''/'' \<notin> set c" "c \<noteq> dot" "c \<noteq> dotdot" using c by (auto simp: good_name_def)
  note split = inos_distinct_Cons[OF dist]
  have e: "map_of ?es c = Some (dino t)" "entries_of s i = Some ?es"
    using map_of_entry_list(1)[OF c] m by (auto simp: entries_of_Some)
  have size: "length ?p < SIZE" "tree_depth t \<le> n" "length ?p + tree_path t < SIZE"
    using Cons.prems(5)[of c t] ct by auto
  have full: "full_path p c = ?p" using size(1) by (simp add: full_path_def)
  have fil: "without c s i = entry_list i par ts"
    using map_of_entry_list(2)[OF dn c] e(2) by (simp add: without_def)
  let ?s1 = "removed (set (inos t)) i (entry_list i par ts) s"
  have one: "rm_entries n p (map fst ((c, t) # ts)) 0 s = rm_entries n p (map fst ts) 0 ?s1"
  proof (cases t)
    case (File j)
    then obtain bs mm where j: "inodes s j = Some (Reg bs mm 1)" using t by auto
    have ej: "map_of ?es c = Some j" using e(1) File by simp
    have stat: "sys_stat ?p s = Some (Reg bs mm 1)"
      by (rule stat_child(2)[OF r c'(1,2) m ej j]) simp
    have "lookup_entry s ?p = Some (i, c, j)"
      using parent_child[OF r c'(1,2)] e(2) ej by (simp add: lookup_entry_def)
    then have "sys_unlink ?p s = Some (drop_inode j (del_entry i c s))" using j by (simp add: sys_unlink_def)
    moreover have "drop_inode j (del_entry i c s) = ?s1"
      using drop_del_removed[OF m, of j c] split File fil e(2) by (simp add: without_def)
    ultimately show ?thesis using c' stat full by simp
  next
    case (Dir j us)
    then obtain mm where j: "inodes s j = Some (Folder (entry_list j i us) mm)" using t by (auto simp: tree_at_Dir)
    have ej: "map_of ?es c = Some j" using e(1) Dir by simp
    have stat: "sys_stat ?p s = Some (Folder (entry_list j i us) mm)"
      by (rule stat_child(2)[OF r c'(1,2) m ej j]) simp
    have sub: "set (inos t) \<subseteq> set (inos ?T)" by (auto simp: inos_Dir)
    have "parent_of s' ?p = Some (i, c)" if ag: "agree_off (set (inos t)) s s'" for s'
    proof -
      have "entries_of s' i = Some ?es" using ag split e(2) by (simp add: agree_off_def entries_of_def)
      then show ?thesis using parent_child[OF reaches_agree[OF r agree_off_mono[OF ag sub]] c'(1,2)] by simp
    qed
    then have "entry_at s i c ?p t"
      using reaches_child[OF r c'(1,2) e(2,1) sub] split c m e(1) by (auto simp: entry_at_def)
    moreover have "rm_spec t" using Cons.prems(1)[of c t] ct by simp
    moreover have "entries_of s (dino t) \<noteq> None" using j Dir by (simp add: entries_of_Some)
    ultimately have "myRmdir n ?p s = Inr (0, ?s1)"
      using rm_specD[of t s i i c ?p n] t split size fil by simp
    then show ?thesis using c' stat full by simp
  qed
  have i1: "inodes ?s1 i = Some (Folder (entry_list i par ts) m)" using removed_folder[OF m] split by simp
  have "tree_at (Dir i ts) ?s1 par"
  proof -
    have "tree_at u ?s1 i" if "(b, u) \<in> set ts" for b u
    proof -
      have "tree_at u s i" using tree that by (auto simp: tree_at_Dir)
      moreover have "inodes ?s1 k = inodes s k" if "k \<in> set (inos u)" for k
      proof (rule removed_other)
        have "k \<in> set (inos (Dir i ts))" using that \<open>(b, u) \<in> set ts\<close> by (auto simp: inos_Dir)
        then show "k \<notin> set (inos t)" using split by blast
        show "k \<noteq> i" using that \<open>(b, u) \<in> set ts\<close> split by (auto simp: inos.simps)
      qed
      ultimately show ?thesis using tree_at_agree by blast
    qed
    then show ?thesis using i1 tree by (auto simp: tree_at_Dir)
  qed
  moreover have "reaches (set (inos (Dir i ts))) ?s1 p i"
  proof -
    have ag: "agree_off (set (inos ?T)) s ?s1" by (rule removed_agree) (auto simp: inos_Dir)
    show ?thesis by (rule reaches_mono[OF reaches_agree[OF r ag]]) (auto simp: inos_Dir)
  qed
  ultimately have "rm_entries n p (map fst ts) 0 ?s1 =
      Inr (0, removed (\<Union>(c, t) \<in> set ts. set (inos t)) i (entry_list i par []) ?s1)"
    using Cons.IH[of ?s1] Cons.prems(1,5) split ct by auto
  then show ?case using one ct removed_removed[OF m, of "set (inos t)"] split by simp
qed

lemma rm_spec_all: "rm_spec t"
proof (induction t)
  case (File i)
  have "entries_of s i = None" if "tree_at (File i) s par" for s par
    using that by (auto simp: entries_of_def)
  then show ?case by (auto simp: rm_spec_def)
next
  case (Dir i ts)
  show ?case unfolding rm_spec_def
  proof (intro allI impI)
    fix n p s d c par
    assume tree: "tree_at (Dir i ts) s par" and dist: "distinct (inos (Dir i ts))"
      and e: "entry_at s d c p (Dir i ts)" and n: "tree_depth (Dir i ts) \<le> n"
      and len: "length p + tree_path (Dir i ts) < SIZE" and "entries_of s (dino (Dir i ts)) \<noteq> None"
    let ?X = "set (inos (Dir i ts))" and ?U = "\<Union>(c, t) \<in> set ts. set (inos t)"
    obtain m where m: "inodes s i = Some (Folder (entry_list i par ts) m)" using tree by (auto simp: tree_at_Dir)
    obtain es dm where d: "inodes s d = Some (Folder es dm)" "map_of es c = Some i" and dX: "d \<notin> ?X"
      and c: "good_name c" and r: "reaches ?X s p i" using e by (auto simp: entry_at_def)
    have X: "?X = insert i ?U" "i \<notin> ?U" using dist by (auto simp: inos_Dir inos.simps)
    obtain k where k: "n = Suc k" using n by (cases n) (auto simp: tree_depth.simps)
    have bounds: "tree_depth t \<le> k \<and> length p + 1 + length b + tree_path t < SIZE" if "(b, t) \<in> set ts" for b t
      using tree_depth_child[OF that, of i] tree_path_child[OF that, of i] n len k by linarith
    let ?s1 = "removed ?U i (entry_list i par []) s"
    have specs: "rm_spec t" if "(b, t) \<in> set ts" for b t using Dir.IH[OF that] by simp
    have "rm_entries k p (map fst ts) 0 s = Inr (0, ?s1)"
      by (rule rm_entries_tree[OF specs tree dist r bounds])
    moreover have "sys_readdir p s = Some (dot # dotdot # map fst ts)"
      using reaches_resolve[OF r] m by (simp add: sys_readdir_def entries_of_Some entries_of_def entry_list_def comp_def case_prod_beta)
    ultimately have loop: "myRmdir n p s =
        (case sys_rmdir p ?s1 of None \<Rightarrow> Inr (- 1, ?s1) | Some s' \<Rightarrow> Inr (0, s'))"
      using k by simp
    have ag: "agree_off ?X s ?s1" by (rule removed_agree) (use X in auto)
    have i1: "inodes ?s1 i = Some (Folder (entry_list i par []) m)" using removed_folder[OF m X(2)] .
    have d1: "inodes ?s1 d = Some (Folder es dm)" using d dX X by (simp add: removed_other)
    have "lookup_entry ?s1 p = Some (d, c, i)"
      using e ag d1 d(2) by (auto simp: entry_at_def lookup_entry_def entries_of_def)
    then have "sys_rmdir p ?s1 = Some (drop_inode i (del_entry d c ?s1))"
      using i1 c by (simp add: sys_rmdir_def entries_of_def entry_list_def good_name_def)
    moreover have "drop_inode i (del_entry d c ?s1) = removed {i} d (without c s d) ?s1"
      using drop_del_removed[OF d1, of i c] d dX X by (auto simp: without_def entries_of_def)
    moreover have "removed {i} d (without c s d) ?s1 = removed ?X d (without c s d) s"
      using d dX X by (auto simp: removed_def fun_eq_iff)
    ultimately show "myRmdir n p s = Inr (0, removed ?X d (without c s d) s)" using loop by simp
  qed
qed

section \<open>Properties\<close>

text \<open>
  C11. \<open>myRmdir\<close> of a directory tree of ordinary files and directories, whose path leads to it
  without passing through it, returns 0 and removes exactly the tree: its inodes are freed, its
  entry is gone from the parent directory, and nothing else changes. The depth of the tree bounds
  the recursion, and no path may reach the 4096 bytes of the buffer.
\<close>

theorem myRmdir_removes_tree:
  assumes "tree_at t s par" "distinct (inos t)" "entry_at s d c p t" "entries_of s (dino t) \<noteq> None"
    and "tree_depth t \<le> n" "length p + tree_path t < SIZE"
  shows "myRmdir n p s = Inr (0, removed (set (inos t)) d (without c s d) s)"
  using rm_specD[OF rm_spec_all assms(1-3,5,6,4)] .

text \<open>A file system with a directory \<open>/d\<close> and a file \<open>/x/f\<close>, for the concrete instances.\<close>

definition demo_fs :: "inode \<Rightarrow> fs" where
  "demo_fs n = \<lparr>inodes = [1 \<mapsto> Folder [(dot, 1), (dotdot, 1), (''d'', 2), (''x'', 5)] 0b111101101,
       2 \<mapsto> Folder [(dot, 2), (dotdot, 1), (''a'', 3), (''e'', 4)] 0b111101101,
       3 \<mapsto> n, 4 \<mapsto> Folder [(dot, 4), (dotdot, 2)] 0b111101101,
       5 \<mapsto> Folder [(dot, 5), (dotdot, 1), (''f'', 6)] 0b111101101, 6 \<mapsto> Reg ''precious'' 0b110100100 1],
     root_dir = 1, cwd = 1, umask = 0b000010010, stdout = []\<rparr>"

definition demo_tree :: dtree where
  "demo_tree = Dir 2 [(''a'', File 3), (''e'', Dir 4 [])]"

lemma demo_entry: "entry_at (demo_fs (Reg ''hi'' 0b110100100 1)) 1 ''d'' ''/d'' demo_tree"
proof -
  let ?s = "demo_fs (Reg ''hi'' 0b110100100 1)"
  have root: "root_dir s' = 1 \<and> inodes s' 1 = inodes ?s 1"
    if "agree_off (set (inos demo_tree)) ?s s'" for s'
    using that same_env_fields(1)[of ?s s']
    by (auto simp: agree_off_def demo_tree_def inos.simps demo_fs_def)
  show ?thesis unfolding entry_at_def reaches_def
  proof (intro conjI allI impI)
    fix s'
    assume ag: "agree_off (set (inos demo_tree)) ?s s'"
    then show "parent_of s' ''/d'' = Some (1, ''d'')"
      using root[OF ag] by (simp add: parent_of_def parts_of_def start_dir_def)
    assume "entries_of s' (dino demo_tree) \<noteq> None"
    then show "\<exists>f. walk s' max_links (start_dir s' ''/d'' (cwd s')) (path_parts ''/d'') = Some (f, dino demo_tree)"
      using root[OF ag] by (auto simp: start_dir_def demo_fs_def demo_tree_def entries_of_Some dot_def dotdot_def)
  qed (auto simp: demo_tree_def demo_fs_def good_name_def dot_def dotdot_def inos.simps)
qed

theorem myRmdir_removes_tree_witness:
  "\<exists>s'. myRmdir 2 ''/d'' (demo_fs (Reg ''hi'' 0b110100100 1)) = Inr (0, s') \<and>
     inodes s' 2 = None \<and> inodes s' 3 = None \<and> entries_of s' 1 = Some [(dot, 1), (dotdot, 1), (''x'', 5)]"
proof -
  let ?s = "demo_fs (Reg ''hi'' 0b110100100 1)"
  have "tree_at demo_tree ?s 1" "distinct (inos demo_tree)" "entries_of ?s (dino demo_tree) \<noteq> None"
    "tree_depth demo_tree \<le> 2" "length ''/d'' + tree_path demo_tree < SIZE"
    by (auto simp: demo_tree_def demo_fs_def tree_at_Dir entry_list_def good_name_def dot_def dotdot_def inos.simps
        entries_of_def tree_depth.simps tree_path.simps SIZE_def)
  from myRmdir_removes_tree[OF this(1,2) demo_entry this(3-5)] show ?thesis
    by (simp add: removed_def demo_tree_def inos.simps without_def entries_of_def demo_fs_def dot_def dotdot_def)
qed

text \<open>
  \<open>myRmdir\<close> uses \<open>stat\<close>, which follows symbolic links: if the directory holds a link to another
  directory, the files there are deleted, although they are no part of the tree; the link itself
  cannot be removed by \<open>rmdir\<close> and stays, so that the command fails as well.
\<close>

theorem myRmdir_deletes_through_links:
  "fopen_r ''/x/f'' (demo_fs (Symlink ''/x'' 1)) = Some ''precious'' \<and>
   returns (\<lambda>(r, s). r = - 1 \<and> fopen_r ''/x/f'' s = None \<and> sys_readdir ''/x'' s = Some [dot, dotdot] \<and>
     sys_readdir ''/d'' s = Some [dot, dotdot, ''a'']) (myRmdir 3 ''/d'' (demo_fs (Symlink ''/x'' 1)))"
  by code_simp

declare digits.simps [simp del]

text \<open>The octal numbers that \<open>lsl\<close> prints are read back by \<open>strtol8\<close>.\<close>

lemma octal_append:
  "(\<And>c. c \<in> set xs \<Longrightarrow> (48 :: int) \<le> of_char c \<and> of_char c < (56 :: int)) \<Longrightarrow> octal a (xs @ ys) = octal (octal a xs) ys"
  by (induction xs arbitrary: a) (auto simp: Let_def)

lemma digit_char: "k < 8 \<Longrightarrow> of_char (char_of (48 + k) :: char) = (48 + k :: nat)"
  by (simp add: of_char_of)

lemma digit_char_int: "k < 8 \<Longrightarrow> of_char (char_of (48 + k) :: char) = (48 + int k)"
  using digit_char[of k] by (metis of_nat_add of_nat_numeral of_nat_of_char)

lemma digits_octal: "c \<in> set (digits 8 n) \<Longrightarrow> (48 :: int) \<le> of_char c \<and> of_char c < (56 :: int)"
proof (induction "8 :: nat" n rule: digits.induct)
  case (1 n)
  have "digits 8 n = (if n < 8 then [char_of (48 + n)] else digits 8 (n div 8) @ [char_of (48 + n mod 8)])"
    by (subst digits.simps) simp
  then consider "n < 8" "c = char_of (48 + n)" | "\<not> n < 8" "c \<in> set (digits 8 (n div 8))"
    | "c = char_of (48 + n mod 8)" using "1.prems" by (auto split: if_splits)
  then show ?case
    using "1.hyps" digit_char_int[of n] digit_char_int[of "n mod 8"] by cases auto
qed

lemma octal_digits: "octal 0 (digits 8 n) = int n"
proof (induction "8 :: nat" n rule: digits.induct)
  case (1 n)
  show ?case
  proof (cases "n < 8")
    case True
    then show ?thesis using digit_char_int[of n] by (subst digits.simps) (simp add: Let_def)
  next
    case False
    have "octal 0 (digits 8 (n div 8) @ [char_of (48 + n mod 8)]) = int (n div 8) * 8 + int (n mod 8)"
      using 1 False digit_char_int[of "n mod 8"] by (simp add: octal_append digits_octal Let_def)
    also have "\<dots> = int n" by (metis of_nat_add of_nat_mult of_nat_numeral div_mult_mod_eq)
    finally show ?thesis using False by (subst digits.simps) simp
  qed
qed

lemma digits_not_Nil: "digits b n \<noteq> []"
  by (subst digits.simps) simp

lemma strtol8_digits: "strtol8 (digits 8 n) = int n"
proof -
  obtain c cs where cs: "digits 8 n = c # cs" using digits_not_Nil by (cases "digits 8 n") auto
  have "(48 :: int) \<le> of_char c \<and> of_char c < (56 :: int)" using digits_octal[of c n] cs by simp
  then have "\<not> is_space c" "c \<noteq> CHR ''-''" "c \<noteq> CHR ''+''" by (auto simp: is_space_def)
  then show ?thesis using octal_digits[of n] cs by (simp add: strtol8_def)
qed

lemma chmod_shape:
  assumes "resolve s path = Some i" "inodes s i = Some n" "\<And>t k. n \<noteq> Symlink t k"
  obtains n' where "sys_chmod path m s = Some (put_inode i n' s)" "shape n' = shape n" "inode_mode n' = m"
  using assms that by (cases n) (auto simp: sys_chmod_def inode_mode_def)

text \<open>
  Permissions round trip: after \<open>chmod path mode\<close> with the mode written in octal, \<open>lsl path\<close>
  prints the same octal number, whatever file or directory the path leads to.
\<close>

theorem chmod_lsl_roundtrip:
  assumes "resolve s path = Some i" "inodes s i = Some n" "\<And>t k. n \<noteq> Symlink t k" "mode < 512"
  shows "\<exists>s1 s2 rest. fs_main d new [''chmod'', path, digits 8 mode] s = Inr (FS_SUCCESS, s1) \<and>
    fs_main d new [''lsl'', path] s1 = Inr (FS_SUCCESS, s2) \<and>
    stdout s2 = stdout s @ ''Permissions: '' @ digits 8 mode @ CHR 0x0A # rest"
proof -
  let ?m = "word_of_int (strtol8 (digits 8 mode)) :: mode"
  have m: "?m = word_of_nat mode" by (simp add: strtol8_digits)
  obtain n' where c: "sys_chmod path ?m s = Some (put_inode i n' s)" "shape n' = shape n" "inode_mode n' = ?m"
    using chmod_shape[OF assms(1-3)] .
  let ?s = "put_inode i n' s"
  have "resolve ?s path = Some i"
    using resolve_shape[OF put_inode_shape[OF assms(2) c(2)]] assms(1) by simp
  then have stat: "sys_stat path ?s = Some n'" by (simp add: sys_stat_def put_inode_def)
  have "(word_of_nat mode :: mode) AND 0b111111111 = word_of_nat mode"
  proof -
    have "(word_of_nat mode :: mode) AND mask 9 = take_bit 9 (word_of_nat mode)" by (simp add: take_bit_eq_mask)
    also have "\<dots> = word_of_nat (take_bit 9 mode)" by (simp add: take_bit_of_nat)
    also have "take_bit 9 mode = mode" using assms(4) by (simp add: take_bit_nat_eq_self)
    finally show ?thesis by (simp add: mask_eq_exp_minus_1)
  qed
  moreover have "unat (word_of_nat mode :: mode) = mode"
    using assms(4) by (simp add: unsigned_of_nat take_bit_nat_eq_self)
  ultimately have "unat (inode_mode n' AND 0b111111111) = mode" using c(3) m by simp
  then have "\<exists>s2 rest. myLsl path ?s = s2 \<and> stdout s2 = stdout s @ ''Permissions: '' @ digits 8 mode @ CHR 0x0A # rest"
    using stat by (simp add: myLsl_def Let_def print_out_def line_def put_inode_def)
  moreover have "fs_main d new [''chmod'', path, digits 8 mode] s = Inr (FS_SUCCESS, ?s)"
    using c(1) by (simp add: fs_main_def basename_def parts_of_def myChmod_def or_same_def succeed_def)
  moreover have "fs_main d new [''lsl'', path] ?s = Inr (FS_SUCCESS, myLsl path ?s)"
    by (simp add: fs_main_def basename_def parts_of_def succeed_def)
  ultimately show ?thesis by metis
qed

theorem chmod_lsl_roundtrip_witness:
  "\<exists>s1 s2 rest. fs_main 0 9 [''chmod'', ''/x/f'', digits 8 416] (demo_fs (Reg [] 0 1)) = Inr (FS_SUCCESS, s1) \<and>
     fs_main 0 9 [''lsl'', ''/x/f''] s1 = Inr (FS_SUCCESS, s2) \<and>
     stdout s2 = ''Permissions: 640'' @ CHR 0x0A # rest"
proof -
  have "resolve (demo_fs (Reg [] 0 1)) ''/x/f'' = Some 6" "digits 8 416 = ''640''" by code_simp+
  moreover have "inodes (demo_fs (Reg [] 0 1)) 6 = Some (Reg ''precious'' 0b110100100 1)"
    "stdout (demo_fs (Reg [] 0 1)) = []" by (simp_all add: demo_fs_def)
  ultimately show ?thesis
    using chmod_lsl_roundtrip[of "demo_fs (Reg [] 0 1)" "''/x/f''" 6 _ 416 0 9] by auto
qed

end
