(* ===== verification/Reverse.thy ===== *)
theory Reverse
  imports Posix_Files
begin

text \<open>
  \<open>reverse.c\<close>: a copy of a directory tree in which every name and the contents of every file are
  reversed. The contents are copied in chunks of 1024 bytes from the end, each reversed in the
  buffer by swaps. \<open>new\<close> chooses the number of a new inode; \<open>realpath\<close> is an argument of \<open>main\<close>.
\<close>

section \<open>The codes\<close>

definition SUCCESS :: int where "SUCCESS = 1"
definition ALREADY_EXIST :: int where "ALREADY_EXIST = 0"
definition FSEEK_ERROR :: nat where "FSEEK_ERROR = 2"
definition ARGS_ERROR :: int where "ARGS_ERROR = 3"
definition DIR_OPEN_ERROR :: int where "DIR_OPEN_ERROR = 7"
definition FILE_OPEN_ERROR :: int where "FILE_OPEN_ERROR = 9"
definition REVERSE_ERROR :: int where "REVERSE_ERROR = 10"
definition PATH_ERROR :: int where "PATH_ERROR = 11"
definition BUF_SIZE :: nat where "BUF_SIZE = 1024"

section \<open>Contents\<close>

text \<open>The loop that swaps \<open>buffer[i]\<close> with \<open>buffer[n - i - 1]\<close> for \<open>i < n / 2\<close>.\<close>

function swap_loop :: "nat \<Rightarrow> 'a list \<Rightarrow> nat \<Rightarrow> 'a list" where
  "swap_loop n buf i = (if i < n div 2
     then swap_loop n (buf[i := buf ! (n - i - 1), n - i - 1 := buf ! i]) (i + 1) else buf)"
  by pat_completeness auto
termination by (relation "measure (\<lambda>(n, buf, i). n - i)") auto

definition contents :: "fs \<Rightarrow> nat \<Rightarrow> char list" where
  "contents s i = (case inodes s i of Some (Reg bs _ _) \<Rightarrow> bs | _ \<Rightarrow> [])"

text \<open>The size of the open file; a seek on a regular file does not fail.\<close>

definition fileSize :: "nat \<Rightarrow> fs \<Rightarrow> nat" where
  "fileSize f s = length (contents s f)"

text \<open>The copying loop, from stream \<open>src\<close> to \<open>dst\<close> with \<open>remaining\<close> bytes to go.\<close>

function copy_loop :: "nat \<Rightarrow> nat \<Rightarrow> nat \<Rightarrow> fs \<Rightarrow> fs" where
  "copy_loop src dst remaining s =
     (if remaining = 0 then s
      else let toRead = (if remaining \<ge> BUF_SIZE then BUF_SIZE else remaining);
               buffer = take toRead (drop (remaining - toRead) (contents s src)) in
           if length buffer \<noteq> toRead then s
           else copy_loop src dst (remaining - toRead) (fappend dst (swap_loop toRead buffer 0) s))"
  by pat_completeness auto
termination by (relation "measure (\<lambda>(src, dst, r, s). r)") (auto simp: BUF_SIZE_def)

text \<open>A size of 2 is taken for the error code of \<open>fileSize\<close>.\<close>

definition copyContent :: "nat \<Rightarrow> nat \<Rightarrow> fs \<Rightarrow> fs" where
  "copyContent src dst s =
     (if fileSize src s = FSEEK_ERROR then s else copy_loop src dst (fileSize src s) s)"

declare swap_loop.simps [simp del] copy_loop.simps [simp del]

section \<open>Names and files\<close>

definition createReverseName :: "string \<Rightarrow> string" where
  "createReverseName c = rev c"

definition getPath :: "string \<Rightarrow> string \<Rightarrow> nat \<Rightarrow> string" where
  "getPath path name len = take (len - 1) (path @ ''/'' @ name)"

definition checkExist :: "string \<Rightarrow> fs \<Rightarrow> bool" where
  "checkExist p s \<longleftrightarrow> sys_readdir p s \<noteq> None"

text \<open>\<open>createReverseDir\<close> returns \<open>ALREADY_EXIST\<close>, which is 0, what \<open>mkdir\<close> returns when it succeeds.\<close>

definition createReverseDir :: "(fs \<Rightarrow> nat) \<Rightarrow> string \<Rightarrow> fs \<Rightarrow> int \<times> fs" where
  "createReverseDir new p s =
     (if checkExist p s then (ALREADY_EXIST, s)
      else case sys_mkdir (new s) p 0b111111111 s of None \<Rightarrow> (- 1, s) | Some s' \<Rightarrow> (0, s'))"

definition createReverseFile :: "(fs \<Rightarrow> nat) \<Rightarrow> string \<Rightarrow> string \<Rightarrow> string \<Rightarrow> string \<Rightarrow> fs \<Rightarrow> int \<times> fs" where
  "createReverseFile new srcPath srcName reversedPath reversedName s =
     (let source = getPath srcPath srcName (length srcPath + length srcName + 2);
          destination = getPath reversedPath reversedName (length reversedPath + length reversedName + 2) in
      case (fopen_r source s, resolve s source) of
        (Some _, Some i) \<Rightarrow>
          (case fopen_w (new s) destination s of
             None \<Rightarrow> (FILE_OPEN_ERROR, s)
           | Some (out, s') \<Rightarrow> (SUCCESS, copyContent i out s'))
      | _ \<Rightarrow> (FILE_OPEN_ERROR, s))"

text \<open>\<open>reverseFiles\<close> and its loop over the names; the first argument bounds the recursion.\<close>

function reverseFiles :: "nat \<Rightarrow> (fs \<Rightarrow> nat) \<Rightarrow> string \<Rightarrow> string \<Rightarrow> fs \<Rightarrow> (int \<times> fs) result"
  and reverse_entries :: "nat \<Rightarrow> (fs \<Rightarrow> nat) \<Rightarrow> string \<Rightarrow> string \<Rightarrow> string list \<Rightarrow> fs \<Rightarrow> (int \<times> fs) result" where
  "reverseFiles 0 new srcPath reversedPath s = Inl OutOfFuel"
| "reverseFiles (Suc n) new srcPath reversedPath s =
     (case sys_readdir srcPath s of None \<Rightarrow> Inr (DIR_OPEN_ERROR, s)
      | Some names \<Rightarrow> reverse_entries n new srcPath reversedPath names s)"
| "reverse_entries n new srcPath reversedPath [] s = Inr (SUCCESS, s)"
| "reverse_entries n new srcPath reversedPath (c # cs) s =
     (if c = dot \<or> c = dotdot then reverse_entries n new srcPath reversedPath cs s
      else let len = length srcPath + length c + 2; fullSrcPath = getPath srcPath c len in
      case sys_stat fullSrcPath s of
        None \<Rightarrow> reverse_entries n new srcPath reversedPath cs s
      | Some (Reg _ _ _) \<Rightarrow>
          reverse_entries n new srcPath reversedPath cs
            (snd (createReverseFile new srcPath c reversedPath (createReverseName c) s))
      | Some (Folder _ _) \<Rightarrow>
          let newDestPath = getPath reversedPath (createReverseName c) len;
              r = createReverseDir new newDestPath s in
          if fst r \<noteq> 0 then reverse_entries n new srcPath reversedPath cs (snd r)
          else bindR (reverseFiles n new fullSrcPath newDestPath (snd r)) (\<lambda>(_, s).
                 reverse_entries n new srcPath reversedPath cs s)
      | _ \<Rightarrow> reverse_entries n new srcPath reversedPath cs s)"
  by pat_completeness auto
termination
  by (relation "measures [\<lambda>x. case x of Inl (n, _) \<Rightarrow> n | Inr (n, _) \<Rightarrow> n,
        \<lambda>x. case x of Inl _ \<Rightarrow> 0 | Inr (_, _, _, _, cs, _) \<Rightarrow> length cs + 1]") auto

section \<open>main\<close>

text \<open>The position of the last slash, 0 if there is none.\<close>

definition lastSlash :: "string \<Rightarrow> nat" where
  "lastSlash p = fold max (filter (\<lambda>k. p ! k = CHR ''/'') [0..<length p]) 0"

definition reverseDirName :: "string \<Rightarrow> string" where
  "reverseDirName p = take (lastSlash p + 1) p @ rev (drop (lastSlash p + 1) p)"

definition reverseDir :: "(fs \<Rightarrow> nat) \<Rightarrow> string \<Rightarrow> fs \<Rightarrow> string option \<times> fs" where
  "reverseDir new srcPath s =
     (let reversedPath = reverseDirName srcPath; r = createReverseDir new reversedPath s in
      if fst r \<noteq> 0 then (None, snd r) else (Some reversedPath, snd r))"

text \<open>\<open>args\<close> are the arguments after the program's name; \<open>realpath\<close> is the library's function.\<close>

definition reverse_main :: "nat \<Rightarrow> (fs \<Rightarrow> nat) \<Rightarrow> (string \<Rightarrow> fs \<Rightarrow> string option) \<Rightarrow> string list \<Rightarrow> fs \<Rightarrow> (int \<times> fs) result" where
  "reverse_main n new realpath args s =
     (case args of
        [arg] \<Rightarrow>
          (case realpath arg s of None \<Rightarrow> Inr (PATH_ERROR, s)
           | Some absSrcPath \<Rightarrow>
               (case reverseDir new absSrcPath s of
                  (None, s) \<Rightarrow> Inr (REVERSE_ERROR, s)
                | (Some reversePath, s) \<Rightarrow>
                    bindR (reverseFiles n new absSrcPath reversePath s) (\<lambda>(r, s).
                      Inr (if r \<noteq> SUCCESS then REVERSE_ERROR else SUCCESS, s))))
      | _ \<Rightarrow> Inr (ARGS_ERROR, s))"

section \<open>The buffer loop reverses\<close>

text \<open>After \<open>i\<close> swaps the outer parts are reversed and the middle is as it was.\<close>

lemma swap_loop_rev:
  assumes "length buf = n" "length xs = n" "i \<le> n div 2"
    and "\<And>k. k < n \<Longrightarrow> buf ! k = (if k < i \<or> n - i \<le> k then xs ! (n - k - 1) else xs ! k)"
  shows "swap_loop n buf i = rev xs"
  using assms
proof (induction n buf i rule: swap_loop.induct)
  case (1 n buf i)
  show ?case
  proof (cases "i < n div 2")
    case True
    let ?buf = "buf[i := buf ! (n - i - 1), n - i - 1 := buf ! i]"
    have "?buf ! k = (if k < i + 1 \<or> n - (i + 1) \<le> k then xs ! (n - k - 1) else xs ! k)" if "k < n" for k
    proof -
      have "buf ! i = xs ! i" "buf ! (n - i - 1) = xs ! (n - i - 1)"
        using "1.prems"(4)[of i] "1.prems"(4)[of "n - i - 1"] True by auto
      moreover have "i < n - i - 1" using True by linarith
      ultimately show ?thesis using "1.prems"(1) "1.prems"(4)[OF that] that True
        by (auto simp: nth_list_update)
    qed
    then have "swap_loop n ?buf (i + 1) = rev xs" using 1 True by simp
    then show ?thesis using True by (subst swap_loop.simps) simp
  next
    case False
    then have "buf ! k = xs ! (n - k - 1)" if "k < n" for k
    proof -
      have "k < i \<or> n - i \<le> k \<or> n - k - 1 = k" using False "1.prems"(3) that by linarith
      then show ?thesis using "1.prems"(4)[OF that] by auto
    qed
    then have "buf = rev xs" using "1.prems"(1,2) by (intro nth_equalityI) (auto simp: rev_nth)
    then show ?thesis using False by (subst swap_loop.simps) simp
  qed
qed

lemma swap_loop_is_rev: "swap_loop (length buf) buf 0 = rev buf"
  by (rule swap_loop_rev) auto

section \<open>One file\<close>

definition reversed :: "char list \<Rightarrow> char list" where
  "reversed bs = (if length bs = FSEEK_ERROR then [] else rev bs)"

lemma put_inode_triv: "inodes s i = Some n \<Longrightarrow> put_inode i n s = s"
  by (simp add: put_inode_def fun_upd_idem)

lemma fappend_put: "inodes s i = Some (Reg bs m k) \<Longrightarrow> fappend i cs s = put_inode i (Reg (bs @ cs) m k) s"
  by (simp add: fappend_def)

lemma put_put: "put_inode i n (put_inode i n' s) = put_inode i n s"
  by (simp add: put_inode_def)

lemma contents_put: "i \<noteq> j \<Longrightarrow> contents (put_inode j n s) i = contents s i"
  by (simp add: contents_def put_inode_def)

lemma copy_loop_ok:
  assumes "src \<noteq> dst" "inodes s dst = Some (Reg ds m k)" "r \<le> length (contents s src)"
  shows "copy_loop src dst r s = put_inode dst (Reg (ds @ rev (take r (contents s src))) m k) s"
  using assms
proof (induction r arbitrary: s ds rule: less_induct)
  case (less r)
  note prems = less.prems
  show ?case
  proof (cases "r = 0")
    case True
    then show ?thesis using prems put_inode_triv by (subst copy_loop.simps) simp
  next
    case False
    let ?xs = "contents s src" and ?t = "if r \<ge> BUF_SIZE then BUF_SIZE else r"
    let ?buf = "take ?t (drop (r - ?t) ?xs)"
    have t: "?t \<le> r" "0 < ?t" using False by (auto simp: BUF_SIZE_def)
    have len: "length ?buf = ?t" using prems(3) t(1) by simp
    let ?s = "put_inode dst (Reg (ds @ rev ?buf) m k) s"
    have step: "copy_loop src dst r s = copy_loop src dst (r - ?t) ?s"
      using False len swap_loop_is_rev[of ?buf] fappend_put[OF prems(2)]
      by (subst copy_loop.simps) (simp add: Let_def)
    have cs: "contents ?s src = ?xs" using contents_put prems(1) by simp
    have "copy_loop src dst (r - ?t) ?s =
        put_inode dst (Reg ((ds @ rev ?buf) @ rev (take (r - ?t) (contents ?s src))) m k) ?s"
      by (rule less.IH) (use prems cs t in \<open>auto simp: put_inode_def\<close>)
    moreover have "rev ?buf @ rev (take (r - ?t) ?xs) = rev (take r ?xs)"
    proof -
      have "take r ?xs = take (r - ?t) ?xs @ ?buf"
        using t(1) by (metis le_add_diff_inverse2 take_add)
      then show ?thesis by (metis rev_append)
    qed
    ultimately show ?thesis using step cs put_put by simp
  qed
qed

lemma copyContent_ok:
  assumes "src \<noteq> dst" "inodes s dst = Some (Reg [] m k)"
  shows "copyContent src dst s = put_inode dst (Reg (reversed (contents s src)) m k) s"
  using copy_loop_ok[OF assms, of "length (contents s src)"] put_inode_triv[OF assms(2)]
  by (simp add: copyContent_def fileSize_def reversed_def)

text \<open>Opening a name that the directory does not have.\<close>

lemma fopen_w_new:
  assumes "reaches X s p k" "c \<noteq> []" "CHR ''/'' \<notin> set c" "inodes s k = Some (Folder es m)" "map_of es c = None" "i \<noteq> k"
  shows "fopen_w i (p @ ''/'' @ c) s =
    Some (i, s\<lparr>inodes := (inodes s)(i \<mapsto> Reg [] (0b110110110 AND NOT (umask s)) 1, k \<mapsto> Folder (es @ [(c, i)]) m)\<rparr>)"
proof -
  let ?p = "p @ ''/'' @ c"
  have "parent_of s ?p = Some (k, c)"
    using parent_child[OF assms(1-3)] assms(4) by (simp add: entries_of_Some)
  then obtain f where w: "walk s max_links (start_dir s ?p (cwd s)) (butlast (parts_of ?p)) = Some (f, k)"
    and l: "last (parts_of ?p) = c" "parts_of ?p \<noteq> []"
    by (auto simp: parent_of_def split: if_splits)
  have e: "entries_of s k = Some es" using assms(4) by (simp add: entries_of_Some)
  show ?thesis unfolding fopen_w_def max_links_def[symmetric]
    using w l e assms(4-6)
    by (subst (1) max_links_def) (simp add: numeral_eq_Suc add_entry_def set_entries_def put_inode_def)
qed

lemma mkdir_new:
  assumes "reaches X s p k" "c \<noteq> []" "CHR ''/'' \<notin> set c" "inodes s k = Some (Folder es m)" "map_of es c = None" "i \<noteq> k"
  shows "sys_mkdir i (p @ ''/'' @ c) mode s =
    Some (s\<lparr>inodes := (inodes s)(i \<mapsto> Folder [(dot, i), (dotdot, k)] (mode AND NOT (umask s)), k \<mapsto> Folder (es @ [(c, i)]) m)\<rparr>)"
proof -
  have "parent_of s (p @ ''/'' @ c) = Some (k, c)"
    using parent_child[OF assms(1-3)] assms(4) by (simp add: entries_of_Some)
  moreover have "entries_of s k = Some es" using assms(4) by (simp add: entries_of_Some)
  ultimately show ?thesis using assms(4-6)
    by (simp add: sys_mkdir_def add_entry_def set_entries_def put_inode_def)
qed

lemma not_exists:
  assumes "reaches X s p k" "c \<noteq> []" "CHR ''/'' \<notin> set c" "inodes s k = Some (Folder es m)" "map_of es c = None"
  shows "resolve s (p @ ''/'' @ c) = None"
proof -
  have "entries_of s k = Some es" using assms(4) by (simp add: entries_of_Some)
  then obtain f where "walk s max_links (start_dir s (p @ ''/'' @ c) (cwd s)) (path_parts (p @ ''/'' @ c)) = walk s f k [c]"
    using reaches_walk_name[OF assms(1,3) agree_off_refl] by blast
  moreover have "walk s f k [c] = None" using assms by simp
  ultimately show ?thesis by (simp add: resolve_def)
qed

section \<open>Trees\<close>

text \<open>What a tree holds, and its mirror image.\<close>

datatype ctree = CFile "char list" | CDir "(string \<times> ctree) list"

primrec content_of :: "dtree \<Rightarrow> fs \<Rightarrow> ctree" where
  "content_of (File i) = (\<lambda>s. CFile (contents s i))"
| "content_of (Dir i ts) = (\<lambda>s. CDir (map (\<lambda>(c, g). (c, g s)) (map (map_prod id content_of) ts)))"

primrec mirror :: "ctree \<Rightarrow> ctree" where
  "mirror (CFile bs) = CFile (reversed bs)"
| "mirror (CDir xs) = CDir (map (\<lambda>(c, x). (rev c, x)) (map (map_prod id mirror) xs))"

lemma content_of_Dir: "content_of (Dir i ts) s = CDir (map (\<lambda>(c, t). (c, content_of t s)) ts)"
  by (simp add: case_prod_beta comp_def)

lemma mirror_CDir: "mirror (CDir xs) = CDir (map (\<lambda>(c, x). (rev c, mirror x)) xs)"
  by (simp add: case_prod_beta comp_def)

declare content_of.simps(2) [simp del] mirror.simps(2) [simp del]

lemma content_of_agree:
  "(\<And>j. j \<in> set (inos t) \<Longrightarrow> inodes s' j = inodes s j) \<Longrightarrow> content_of t s' = content_of t s"
proof (induction t)
  case (Dir i ts)
  have "content_of t s' = content_of t s" if "(c, t) \<in> set ts" for c t
    by (rule Dir.IH[OF that]) (use Dir.prems that in \<open>auto simp: inos_Dir\<close>)
  then show ?case by (auto simp: content_of_Dir)
qed (simp add: contents_def)

section \<open>The loops mirror the tree\<close>

text \<open>
  While directory \<open>k\<close> is being filled, only \<open>k\<close> and inodes that did not exist change; \<open>grows\<close> is a run that
  does so. \<open>filling\<close>: the two paths lead to the directories \<open>i\<close> and \<open>k\<close> meanwhile.
\<close>

definition avail :: "fs \<Rightarrow> nat \<Rightarrow> nat set" where
  "avail s k = insert k (- dom (inodes s))"

definition grows :: "fs \<Rightarrow> nat \<Rightarrow> fs \<Rightarrow> bool" where
  "grows s k s' \<longleftrightarrow> agree_off (avail s k) s s' \<and> dom (inodes s) \<subseteq> dom (inodes s') \<and> finite (dom (inodes s'))"

definition filling :: "fs \<Rightarrow> string \<Rightarrow> nat \<Rightarrow> string \<Rightarrow> nat \<Rightarrow> bool" where
  "filling s sp i dp k \<longleftrightarrow> reaches (avail s k) s sp i \<and> reaches (avail s k) s dp k \<and> length sp = length dp \<and>
     i \<noteq> k \<and> finite (dom (inodes s)) \<and> i \<in> dom (inodes s) \<and> k \<in> dom (inodes s)"

lemma grows_same: "grows s k s' \<Longrightarrow> j \<in> dom (inodes s) \<Longrightarrow> j \<noteq> k \<Longrightarrow> inodes s' j = inodes s j"
  unfolding grows_def agree_off_def avail_def by blast

lemma grows_avail: "grows s k s' \<Longrightarrow> avail s' k \<subseteq> avail s k"
  by (auto simp: grows_def avail_def)

lemma grows_chain:
  assumes g: "grows s k s1" "grows s1 n s2" and sub: "avail s1 n \<subseteq> avail s k"
  shows "grows s k s2"
proof -
  have "agree_off (avail s k) s1 s2" using g(2) sub by (auto simp: grows_def intro: agree_off_mono)
  then have "agree_off (avail s k) s s2" using g(1) agree_off_trans by (auto simp: grows_def)
  moreover have "dom (inodes s) \<subseteq> dom (inodes s2)" using g by (meson grows_def subset_trans)
  ultimately show ?thesis using g(2) by (simp add: grows_def)
qed

lemma grows_trans: "grows s k s1 \<Longrightarrow> grows s1 k s2 \<Longrightarrow> grows s k s2"
  by (rule grows_chain) (auto dest: grows_avail)

lemma grows_inner: "grows s k s1 \<Longrightarrow> n \<notin> dom (inodes s) \<Longrightarrow> grows s1 n s2 \<Longrightarrow> grows s k s2"
  by (rule grows_chain) (auto simp: grows_def avail_def)

lemma filling_grows: "filling s sp i dp k \<Longrightarrow> grows s k s' \<Longrightarrow> filling s' sp i dp k"
proof -
  assume f: "filling s sp i dp k" and g: "grows s k s'"
  have ag: "agree_off (avail s k) s s'" using g by (simp add: grows_def)
  have "reaches (avail s' k) s' p x" if "reaches (avail s k) s p x" for p x
    by (rule reaches_mono[OF reaches_agree[OF that ag] grows_avail[OF g]])
  moreover have "dom (inodes s) \<subseteq> dom (inodes s')" "finite (dom (inodes s'))" using g by (simp_all add: grows_def)
  ultimately show ?thesis using f unfolding filling_def by blast
qed

text \<open>The directory \<open>k\<close> with one entry more, for the new inode \<open>n\<close>.\<close>

definition with_entry :: "nat \<Rightarrow> (string \<times> nat) list \<Rightarrow> mode \<Rightarrow> nat \<Rightarrow> inode \<Rightarrow> fs \<Rightarrow> fs" where
  "with_entry k es m n x s = s\<lparr>inodes := (inodes s)(n \<mapsto> x, k \<mapsto> Folder es m)\<rparr>"

lemma grows_with_entry:
  "k \<in> dom (inodes s) \<Longrightarrow> n \<notin> dom (inodes s) \<Longrightarrow> finite (dom (inodes s)) \<Longrightarrow> grows s k (with_entry k es m n x s)"
  by (auto simp: grows_def with_entry_def agree_off_def avail_def)

lemma tree_at_grows:
  assumes "grows s k s'" "tree_at t s par" "k \<notin> set (inos t)"
  shows "tree_at t s' par" "content_of t s' = content_of t s"
proof -
  have "inodes s' j = inodes s j" if "j \<in> set (inos t)" for j
    using grows_same[OF assms(1)] tree_at_alloc[OF assms(2)] assms(3) that by blast
  then show "tree_at t s' par" "content_of t s' = content_of t s"
    using tree_at_agree[of t s' s] content_of_agree[of t s' s] assms(2) by blast+
qed

lemma entry_list_snoc: "entry_list k par us @ [(c, dino u)] = entry_list k par (us @ [(c, u)])"
  by (simp add: entry_list_def)

lemma map_of_entry_list_None:
  "good_name c \<Longrightarrow> c \<notin> fst ` set us \<Longrightarrow> map_of (entry_list k par us) c = None"
  by (force simp: entry_list_def good_name_def map_of_eq_None_iff)

lemma good_name_rev: "good_name c \<Longrightarrow> good_name (rev c)"
  by (auto simp: good_name_def dot_def dotdot_def rev_swap)

text \<open>\<open>filled\<close>: the entries \<open>us\<close> of \<open>k\<close> mirror the entries \<open>ts\<close> of the source in \<open>s\<close>.\<close>

definition filled :: "fs \<Rightarrow> fs \<Rightarrow> (string \<times> dtree) list \<Rightarrow> (string \<times> dtree) list \<Rightarrow> bool" where
  "filled s s' ts us \<longleftrightarrow>
     map (\<lambda>(c, u). (c, content_of u s')) us = map (\<lambda>(c, t). (rev c, mirror (content_of t s))) ts"

definition reverse_spec :: "(fs \<Rightarrow> nat) \<Rightarrow> dtree \<Rightarrow> bool" where
  "reverse_spec new t \<longleftrightarrow> (\<forall>n sp dp s k kpar m par. tree_at t s par \<longrightarrow> entries_of s (dino t) \<noteq> None \<longrightarrow>
     filling s sp (dino t) dp k \<longrightarrow> k \<notin> set (inos t) \<longrightarrow> inodes s k = Some (Folder (entry_list k kpar []) m) \<longrightarrow>
     tree_depth t \<le> n \<longrightarrow>
     (\<exists>s' us. reverseFiles n new sp dp s = Inr (SUCCESS, s') \<and> grows s k s' \<and> tree_at (Dir k us) s' kpar \<and>
        content_of (Dir k us) s' = mirror (content_of t s) \<and> distinct (inos (Dir k us)) \<and>
        (\<forall>(c, u) \<in> set us. set (inos u) \<inter> dom (inodes s) = {})))"

lemma reverse_file:
  assumes new: "\<And>s. finite (dom (inodes s)) \<Longrightarrow> inodes s (new s) = None"
    and f: "filling s sp i dp k" and c: "good_name c" and e: "inodes s i = Some (Folder es m)" "map_of es c = Some j"
    and j: "inodes s j = Some (Reg bs mm l)"
    and k: "inodes s k = Some (Folder ks km)" "map_of ks (rev c) = None"
  shows "snd (createReverseFile new sp c dp (rev c) s) =
      with_entry k (ks @ [(rev c, new s)]) km (new s) (Reg (reversed bs) (0b110110110 AND NOT (umask s)) 1) s"
    and "sys_stat (getPath sp c (length sp + length c + 2)) s = Some (Reg bs mm l)"
proof -
  have c': "c \<noteq> []" "CHR ''/'' \<notin> set c" "rev c \<noteq> []" "CHR ''/'' \<notin> set (rev c)" using c by (auto simp: good_name_def)
  have r: "reaches (avail s k) s sp i" "reaches (avail s k) s dp k" and fin: "finite (dom (inodes s))"
    using f by (auto simp: filling_def)
  have n: "inodes s (new s) = None" using new[OF fin] .
  then have nk: "new s \<noteq> k" "new s \<noteq> j" using k j by auto
  have stat: "resolve s (sp @ ''/'' @ c) = Some j" "sys_stat (sp @ ''/'' @ c) s = Some (Reg bs mm l)"
    using stat_child[OF r(1) c'(1,2) e j] by auto
  then show "sys_stat (getPath sp c (length sp + length c + 2)) s = Some (Reg bs mm l)" by (simp add: getPath_def)
  let ?s1 = "with_entry k (ks @ [(rev c, new s)]) km (new s) (Reg [] (0b110110110 AND NOT (umask s)) 1) s"
  have w: "fopen_w (new s) (dp @ ''/'' @ rev c) s = Some (new s, ?s1)"
    using fopen_w_new[OF r(2) c'(3,4) k nk(1)] by (simp add: with_entry_def)
  have "contents ?s1 j = bs" using j k nk by (auto simp: contents_def with_entry_def)
  moreover have "inodes ?s1 (new s) = Some (Reg [] (0b110110110 AND NOT (umask s)) 1)"
    using nk by (simp add: with_entry_def)
  ultimately have "copyContent j (new s) ?s1 =
      put_inode (new s) (Reg (reversed bs) (0b110110110 AND NOT (umask s)) 1) ?s1"
    using copyContent_ok[of j "new s" ?s1] nk by simp
  moreover have "put_inode (new s) x ?s1 = with_entry k (ks @ [(rev c, new s)]) km (new s) x s" for x
    using nk by (simp add: put_inode_def with_entry_def fun_upd_twist)
  ultimately show "snd (createReverseFile new sp c dp (rev c) s) =
      with_entry k (ks @ [(rev c, new s)]) km (new s) (Reg (reversed bs) (0b110110110 AND NOT (umask s)) 1) s"
    using stat w by (simp add: createReverseFile_def getPath_def Let_def fopen_r_def)
qed

lemma add_tree:
  assumes g: "grows s k s1" and k: "inodes s1 k = Some (Folder (entry_list k par (us @ [(d, u)])) m)"
    and us: "tree_at (Dir k us) s par" "\<And>c v. (c, v) \<in> set us \<Longrightarrow> k \<notin> set (inos v)"
    and u: "tree_at u s1 k" "good_name d" "d \<notin> fst ` set us"
  shows "tree_at (Dir k (us @ [(d, u)])) s1 par"
proof -
  have "good_name c \<and> tree_at v s1 k" if "(c, v) \<in> set us" for c v
    using us that tree_at_grows(1)[OF g] by (auto simp: tree_at_Dir)
  then show ?thesis using k us(1) u by (auto simp: tree_at_Dir)
qed

text \<open>One round of the loop.\<close>

definition one_entry :: "(fs \<Rightarrow> nat) \<Rightarrow> nat \<Rightarrow> string \<Rightarrow> string \<Rightarrow> nat \<Rightarrow> nat \<Rightarrow> fs \<Rightarrow> string \<Rightarrow> dtree \<Rightarrow> (string \<times> dtree) list \<Rightarrow> bool" where
  "one_entry new n sp dp k kpar s c t us \<longleftrightarrow>
     (\<exists>s1 u. (\<forall>cs. reverse_entries n new sp dp (c # cs) s = reverse_entries n new sp dp cs s1) \<and> grows s k s1 \<and>
        tree_at (Dir k (us @ [(rev c, u)])) s1 kpar \<and> content_of u s1 = mirror (content_of t s) \<and>
        distinct (inos u) \<and> set (inos u) \<inter> dom (inodes s) = {})"

lemma reverse_one:
  assumes new: "\<And>s. finite (dom (inodes s)) \<Longrightarrow> inodes s (new s) = None"
    and spec: "reverse_spec new t" and f: "filling s sp i dp k" and i: "inodes s i = Some (Folder es m)"
    and t: "good_name c" "tree_at t s i" "map_of es c = Some (dino t)" "k \<notin> set (inos t)" "tree_depth t \<le> n"
    and us: "tree_at (Dir k us) s kpar" "\<And>c u. (c, u) \<in> set us \<Longrightarrow> k \<notin> set (inos u)"
    and d: "rev c \<notin> fst ` set us"
  shows "one_entry new n sp dp k kpar s c t us"
proof -
  let ?n = "new s" and ?len = "length sp + length c + 2"
  have fin: "finite (dom (inodes s))" and len: "length sp = length dp"
    and r: "reaches (avail s k) s sp i" "reaches (avail s k) s dp k" and ik: "i \<noteq> k" "k \<in> dom (inodes s)"
    using f by (auto simp: filling_def)
  have n: "?n \<notin> dom (inodes s)" using new[OF fin] by auto
  obtain km where k: "inodes s k = Some (Folder (entry_list k kpar us) km)" using us(1) by (auto simp: tree_at_Dir)
  have free: "map_of (entry_list k kpar us) (rev c) = None"
    using map_of_entry_list_None[OF good_name_rev[OF t(1)] d] .
  have c: "c \<noteq> []" "CHR ''/'' \<notin> set c" "c \<noteq> dot" "c \<noteq> dotdot" "rev c \<noteq> []" "CHR ''/'' \<notin> set (rev c)"
    using t(1) by (auto simp: good_name_def)
  note g1 = grows_with_entry[OF ik(2) n fin]
  show ?thesis
  proof (cases t)
    case (File j)
    then obtain bs mm where j: "inodes s j = Some (Reg bs mm 1)" using t(2) by auto
    let ?x = "Reg (reversed bs) (0b110110110 AND NOT (umask s)) 1"
    let ?s1 = "with_entry k (entry_list k kpar us @ [(rev c, ?n)]) km ?n ?x s"
    have e: "map_of es c = Some j" using t(3) File by simp
    note one = reverse_file[OF new f t(1) i e j k free]
    have "reverse_entries n new sp dp (c # cs) s = reverse_entries n new sp dp cs ?s1" for cs
      using one c by (simp add: Let_def createReverseName_def)
    moreover have "tree_at (Dir k (us @ [(rev c, File ?n)])) ?s1 kpar"
      by (rule add_tree[OF g1 _ us _ good_name_rev[OF t(1)] d])
        (use n ik entry_list_snoc[of k kpar us "rev c" "File ?n"] in \<open>auto simp: with_entry_def\<close>)
    moreover have "content_of (File ?n) ?s1 = mirror (content_of t s)"
      using File j n ik by (auto simp: contents_def with_entry_def)
    ultimately show ?thesis unfolding one_entry_def using g1 n
      by (intro exI[of _ ?s1] exI[of _ "File ?n"]) auto
  next
    case (Dir j ts)
    then obtain mm where j: "inodes s j = Some (Folder (entry_list j i ts) mm)" using t(2) by (auto simp: tree_at_Dir)
    let ?x = "Folder [(dot, ?n), (dotdot, k)] (0b111111111 AND NOT (umask s))"
    let ?s1 = "with_entry k (entry_list k kpar us @ [(rev c, ?n)]) km ?n ?x s"
    let ?sp = "sp @ ''/'' @ c" and ?dp = "dp @ ''/'' @ rev c"
    have nk: "?n \<noteq> k" "?n \<noteq> i" "?n \<noteq> j" using n ik i j by auto
    have paths: "getPath sp c ?len = ?sp" "getPath dp (rev c) ?len = ?dp" using len by (simp_all add: getPath_def)
    have e: "map_of es c = Some j" using t(3) Dir by simp
    have stat: "sys_stat ?sp s = Some (Folder (entry_list j i ts) mm)"
      by (rule stat_child(2)[OF r(1) c(1,2) i e j]) simp
    have mk: "createReverseDir new ?dp s = (0, ?s1)"
      using not_exists[OF r(2) c(5,6) k free] mkdir_new[OF r(2) c(5,6) k free nk(1)]
      by (simp add: createReverseDir_def checkExist_def sys_readdir_def with_entry_def)
    have av: "avail ?s1 ?n \<subseteq> avail s k" using n by (auto simp: avail_def with_entry_def)
    have ag: "agree_off (avail s k) s ?s1" using g1 by (simp add: grows_def)
    have i1: "entries_of ?s1 i = Some es" "entries_of ?s1 k = Some (entry_list k kpar us @ [(rev c, ?n)])"
      using i ik nk by (auto simp: entries_of_def with_entry_def)
    have "reaches (avail ?s1 ?n) ?s1 ?sp j"
      by (rule reaches_child[OF reaches_agree[OF r(1) ag] c(1,2) i1(1) e av]) (use i nk ik in \<open>auto simp: avail_def with_entry_def\<close>)
    moreover have "reaches (avail ?s1 ?n) ?s1 ?dp ?n"
      by (rule reaches_child[OF reaches_agree[OF r(2) ag] c(5,6) i1(2) _ av])
        (use free nk ik in \<open>auto simp: avail_def with_entry_def map_add_Some_iff\<close>)
    ultimately have f1: "filling ?s1 ?sp j ?dp ?n"
      using len nk j fin by (auto simp: filling_def with_entry_def)
    have t1: "tree_at t ?s1 i" "content_of t ?s1 = content_of t s" using tree_at_grows[OF g1 t(2,4)] by auto
    have "inodes ?s1 ?n = Some (Folder (entry_list ?n k []) (0b111111111 AND NOT (umask s)))"
      using nk by (simp add: with_entry_def entry_list_def)
    moreover have "?n \<notin> set (inos t)" using tree_at_alloc[OF t(2)] n by blast
    moreover have "entries_of ?s1 (dino t) \<noteq> None" using t1(1) Dir by (auto simp: tree_at_Dir entries_of_Some)
    ultimately obtain s2 vs where s2: "reverseFiles n new ?sp ?dp ?s1 = Inr (SUCCESS, s2)" "grows ?s1 ?n s2"
      "tree_at (Dir ?n vs) s2 k" "content_of (Dir ?n vs) s2 = mirror (content_of t ?s1)" "distinct (inos (Dir ?n vs))"
      "\<forall>(c, u) \<in> set vs. set (inos u) \<inter> dom (inodes ?s1) = {}"
      using spec f1 t1(1) t(5) Dir unfolding reverse_spec_def by (metis dino.simps(2))
    have "reverse_entries n new sp dp (c # cs) s = reverse_entries n new sp dp cs s2" for cs
      using c paths stat mk s2(1) by (simp add: Let_def createReverseName_def)
    moreover have g2: "grows s k s2" by (rule grows_inner[OF g1 n s2(2)])
    moreover have "tree_at (Dir k (us @ [(rev c, Dir ?n vs)])) s2 kpar"
    proof (rule add_tree[OF g2 _ us s2(3) good_name_rev[OF t(1)] d])
      have "inodes s2 k = inodes ?s1 k" using grows_same[OF s2(2)] nk by (auto simp: with_entry_def)
      then show "inodes s2 k = Some (Folder (entry_list k kpar (us @ [(rev c, Dir ?n vs)])) km)"
        using entry_list_snoc[of k kpar us "rev c" "Dir ?n vs"] by (simp add: with_entry_def)
    qed
    moreover have "set (inos (Dir ?n vs)) \<inter> dom (inodes s) = {}"
      using s2(6) n by (fastforce simp: inos_Dir with_entry_def)
    ultimately show ?thesis unfolding one_entry_def using s2(4,5) t1(2)
      by (intro exI[of _ s2] exI[of _ "Dir ?n vs"]) simp
  qed
qed

lemma reverse_loop:
  assumes new: "\<And>s. finite (dom (inodes s)) \<Longrightarrow> inodes s (new s) = None"
    and spec: "\<And>c t. (c, t) \<in> set ts \<Longrightarrow> reverse_spec new t"
    and f: "filling s sp i dp k" and i: "inodes s i = Some (Folder es m)"
    and ts: "\<And>c t. (c, t) \<in> set ts \<Longrightarrow> good_name c \<and> tree_at t s i \<and> map_of es c = Some (dino t) \<and>
               k \<notin> set (inos t) \<and> tree_depth t \<le> n"
    and names: "distinct (map fst ts)" "\<And>c t. (c, t) \<in> set ts \<Longrightarrow> rev c \<notin> fst ` set us"
    and us: "tree_at (Dir k us) s kpar" "\<And>c u. (c, u) \<in> set us \<Longrightarrow> k \<notin> set (inos u)"
  shows "\<exists>s' vs. reverse_entries n new sp dp (map fst ts) s = Inr (SUCCESS, s') \<and> grows s k s' \<and>
    tree_at (Dir k (us @ vs)) s' kpar \<and> filled s s' ts vs \<and> distinct (concat (map (inos \<circ> snd) vs)) \<and>
    (\<forall>(c, u) \<in> set vs. set (inos u) \<inter> dom (inodes s) = {})"
  using spec f i ts names us
proof (induction ts arbitrary: s us)
  case Nil
  have "grows s k s" using Nil.prems(2) by (auto simp: grows_def filling_def)
  then show ?case using Nil.prems(7) by (intro exI[of _ s] exI[of _ "[]"]) (simp add: filled_def)
next
  case (Cons ct ts)
  obtain c t where ct: "ct = (c, t)" by (cases ct)
  have t: "good_name c" "tree_at t s i" "map_of es c = Some (dino t)" "k \<notin> set (inos t)" "tree_depth t \<le> n"
    using Cons.prems(4)[of c t] ct by auto
  have d: "rev c \<notin> fst ` set us" using Cons.prems(6)[of c t] ct by auto
  have ik: "i \<noteq> k" "k \<in> dom (inodes s)" using Cons.prems(2) by (auto simp: filling_def)
  have spec1: "reverse_spec new t" using Cons.prems(1)[of c t] ct by simp
  have one: "one_entry new n sp dp k kpar s c t us"
    by (rule reverse_one[OF new spec1 Cons.prems(2,3) t Cons.prems(7,8) d])
  obtain s1 u where s1: "\<And>cs. reverse_entries n new sp dp (c # cs) s = reverse_entries n new sp dp cs s1" "grows s k s1"
    "tree_at (Dir k (us @ [(rev c, u)])) s1 kpar" "content_of u s1 = mirror (content_of t s)" "distinct (inos u)"
    "set (inos u) \<inter> dom (inodes s) = {}" using one unfolding one_entry_def by blast
  have ku: "k \<notin> set (inos u)" using s1(6) ik by auto
  have rest: "good_name b \<and> tree_at v s i \<and> map_of es b = Some (dino v) \<and> k \<notin> set (inos v) \<and> tree_depth v \<le> n"
    if "(b, v) \<in> set ts" for b v using Cons.prems(4)[of b v] that by simp
  have later: "tree_at v s1 i \<and> content_of v s1 = content_of v s" if "(b, v) \<in> set ts" for b v
    using tree_at_grows[OF s1(2)] rest[OF that] by blast
  have "\<exists>s' vs. reverse_entries n new sp dp (map fst ts) s1 = Inr (SUCCESS, s') \<and> grows s1 k s' \<and>
    tree_at (Dir k ((us @ [(rev c, u)]) @ vs)) s' kpar \<and> filled s1 s' ts vs \<and> distinct (concat (map (inos \<circ> snd) vs)) \<and>
    (\<forall>(c, u) \<in> set vs. set (inos u) \<inter> dom (inodes s1) = {})"
  proof (rule Cons.IH)
    show "filling s1 sp i dp k" by (rule filling_grows[OF Cons.prems(2) s1(2)])
    show "inodes s1 i = Some (Folder es m)" using grows_same[OF s1(2), of i] Cons.prems(3) ik(1) by (simp add: domI)
    show "tree_at (Dir k (us @ [(rev c, u)])) s1 kpar" by (rule s1(3))
    show "distinct (map fst ts)" using Cons.prems(5) by simp
    show "k \<notin> set (inos v)" if "(b, v) \<in> set (us @ [(rev c, u)])" for b v
      using that Cons.prems(8) ku by auto
    show "rev b \<notin> fst ` set (us @ [(rev c, u)])" if "(b, v) \<in> set ts" for b v
      using Cons.prems(6)[of b v] Cons.prems(5) that ct by (auto simp: rev_image_eqI)
    show "reverse_spec new v" if "(b, v) \<in> set ts" for b v using Cons.prems(1)[of b v] that by simp
  qed (use rest later in blast)
  then obtain s' vs where s': "reverse_entries n new sp dp (map fst ts) s1 = Inr (SUCCESS, s')" "grows s1 k s'"
    "tree_at (Dir k (us @ (rev c, u) # vs)) s' kpar" "filled s1 s' ts vs" "distinct (concat (map (inos \<circ> snd) vs))"
    "\<forall>(c, u) \<in> set vs. set (inos u) \<inter> dom (inodes s1) = {}" by auto
  have u1: "tree_at u s1 k" using s1(3) by (auto simp: tree_at_Dir)
  have "content_of u s' = content_of u s1" using tree_at_grows(2)[OF s'(2) u1 ku] .
  moreover have "map (\<lambda>(c, t). (rev c, mirror (content_of t s1))) ts = map (\<lambda>(c, t). (rev c, mirror (content_of t s))) ts"
    using later by auto
  ultimately have "filled s s' (ct # ts) ((rev c, u) # vs)" using s'(4) s1(4) ct by (simp add: filled_def)
  moreover have "distinct (concat (map (inos \<circ> snd) ((rev c, u) # vs)))"
    using s'(5,6) s1(5) tree_at_alloc[OF u1] by fastforce
  moreover have "dom (inodes s) \<subseteq> dom (inodes s1)" using s1(2) by (simp add: grows_def)
  then have "\<forall>(c, u) \<in> set ((rev c, u) # vs). set (inos u) \<inter> dom (inodes s) = {}" using s'(6) s1(6) by fastforce
  moreover have "reverse_entries n new sp dp (map fst (ct # ts)) s = Inr (SUCCESS, s')" using s1(1) s'(1) ct by simp
  ultimately show ?case using grows_trans[OF s1(2) s'(2)] s'(3) by blast
qed

lemma map_of_tree_entries:
  "distinct (map fst ts) \<Longrightarrow> (c, t) \<in> set ts \<Longrightarrow> good_name c \<Longrightarrow> map_of (entry_list i par ts) c = Some (dino t)"
  by (auto simp: entry_list_def good_name_def comp_def case_prod_beta intro!: map_of_is_SomeI intro: rev_image_eqI)

lemma reverse_spec_all:
  assumes new: "\<And>s. finite (dom (inodes s)) \<Longrightarrow> inodes s (new s) = None"
  shows "reverse_spec new t"
proof (induction t)
  case (File i)
  have "entries_of s i = None" if "tree_at (File i) s par" for s par
    using that by (auto simp: entries_of_def)
  then show ?case by (auto simp: reverse_spec_def)
next
  case (Dir i ts)
  show ?case unfolding reverse_spec_def
  proof (intro allI impI)
    fix n sp dp s k kpar m par
    assume tree: "tree_at (Dir i ts) s par" and f: "filling s sp (dino (Dir i ts)) dp k"
      and ki: "k \<notin> set (inos (Dir i ts))" and k: "inodes s k = Some (Folder (entry_list k kpar []) m)"
      and n: "tree_depth (Dir i ts) \<le> n"
    obtain im where i: "inodes s i = Some (Folder (entry_list i par ts) im)" using tree by (auto simp: tree_at_Dir)
    obtain l where l: "n = Suc l" using n by (cases n) (auto simp: tree_depth.simps)
    have f': "filling s sp i dp k" using f by simp
    have "sys_readdir sp s = Some (dot # dotdot # map fst ts)"
      using f' i reaches_resolve[of "avail s k" s sp i]
      by (simp add: filling_def sys_readdir_def entries_of_def entry_list_def comp_def case_prod_beta)
    then have start: "reverseFiles n new sp dp s = reverse_entries l new sp dp (map fst ts) s"
      using l by simp
    have specs: "reverse_spec new t" if "(c, t) \<in> set ts" for c t using Dir.IH[OF that] by simp
    have names: "distinct (map fst ts)" using tree by (simp add: tree_at_Dir)
    have ts: "good_name c \<and> tree_at t s i \<and> map_of (entry_list i par ts) c = Some (dino t) \<and> k \<notin> set (inos t) \<and> tree_depth t \<le> l"
      if "(c, t) \<in> set ts" for c t
      using tree that ki map_of_tree_entries[OF names that] tree_depth_child[OF that, of i] n l
      by (auto simp: tree_at_Dir inos_Dir)
    have "\<exists>s' vs. reverse_entries l new sp dp (map fst ts) s = Inr (SUCCESS, s') \<and> grows s k s' \<and>
      tree_at (Dir k ([] @ vs)) s' kpar \<and> filled s s' ts vs \<and> distinct (concat (map (inos \<circ> snd) vs)) \<and>
      (\<forall>(c, u) \<in> set vs. set (inos u) \<inter> dom (inodes s) = {})"
      by (rule reverse_loop[OF new specs f' i ts names]) (use k in \<open>auto simp: tree_at_Dir\<close>)
    then obtain s' vs where s': "reverse_entries l new sp dp (map fst ts) s = Inr (SUCCESS, s')" "grows s k s'"
      "tree_at (Dir k vs) s' kpar" "filled s s' ts vs" "distinct (concat (map (inos \<circ> snd) vs))"
      "\<forall>(c, u) \<in> set vs. set (inos u) \<inter> dom (inodes s) = {}" by auto
    have "content_of (Dir k vs) s' = mirror (content_of (Dir i ts) s)"
      using s'(4) by (simp add: filled_def content_of_Dir mirror_CDir comp_def case_prod_beta)
    moreover have "distinct (inos (Dir k vs))"
      using s'(5,6) k by (force simp: inos.simps comp_def)
    ultimately show "\<exists>s' us. reverseFiles n new sp dp s = Inr (SUCCESS, s') \<and> grows s k s' \<and> tree_at (Dir k us) s' kpar \<and>
        content_of (Dir k us) s' = mirror (content_of (Dir i ts) s) \<and> distinct (inos (Dir k us)) \<and>
        (\<forall>(c, u) \<in> set us. set (inos u) \<inter> dom (inodes s) = {})"
      using start s' by auto
  qed
qed

section \<open>The whole program\<close>

lemma fold_max: "fold max xs (m::nat) = Max (set (m # xs))"
  by (rule Max.set_eq_fold [symmetric])

lemma lastSlash_last:
  assumes "k < length q" "q ! k = CHR ''/''" "\<And>j. k < j \<Longrightarrow> j < length q \<Longrightarrow> q ! j \<noteq> CHR ''/''"
  shows "lastSlash q = k"
  unfolding lastSlash_def fold_max using assms by (intro Max_eqI) (auto intro: leI)

lemma lastSlash_at:
  assumes "CHR ''/'' \<notin> set c"
  shows "lastSlash (p @ ''/'' @ c) = length p"
proof (rule lastSlash_last)
  fix j
  assume j: "length p < j" "j < length (p @ ''/'' @ c)"
  let ?l = "j - length p - 1"
  have "j = Suc (length p + ?l)" using j(1) by simp
  then have "(p @ ''/'' @ c) ! j = c ! ?l" "?l < length c" using j by (simp_all add: nth_append)
  then show "(p @ ''/'' @ c) ! j \<noteq> CHR ''/''" using assms nth_mem by metis
qed simp_all

lemma reverseDirName_at: "CHR ''/'' \<notin> set c \<Longrightarrow> reverseDirName (p @ ''/'' @ c) = p @ ''/'' @ rev c"
  using lastSlash_at[of c p] by (simp add: reverseDirName_def)


text \<open>A file system with the directory \<open>/x/ab\<close>, and a choice of new inodes.\<close>

definition rev_fs :: "string \<Rightarrow> string \<Rightarrow> char list \<Rightarrow> fs" where
  "rev_fs d f bs = \<lparr>inodes = [1 \<mapsto> Folder [(dot, 1), (dotdot, 1), (''x'', 2)] 0b111101101,
       2 \<mapsto> Folder [(dot, 2), (dotdot, 1), (d, 3)] 0b111101101,
       3 \<mapsto> Folder [(dot, 3), (dotdot, 2), (f, 4)] 0b111101101, 4 \<mapsto> Reg bs 0b110100100 1],
     root_dir = 1, cwd = 1, umask = 0b000010010, stdout = []\<rparr>"

definition next_inode :: "fs \<Rightarrow> nat" where
  "next_inode s = Suc (Max (insert 0 (dom (inodes s))))"

definition same_path :: "string \<Rightarrow> fs \<Rightarrow> string option" where
  "same_path p s = Some p"

lemma next_inode_new: "finite (dom (inodes s)) \<Longrightarrow> inodes s (next_inode s) = None"
  using Max_ge[of "insert 0 (dom (inodes s))" "next_inode s"] by (fastforce simp: next_inode_def)

lemma rev_fs_reaches: "reaches (avail (rev_fs d f bs) 2) (rev_fs d f bs) ''/x'' 2"
  unfolding reaches_def
proof (intro conjI allI impI)
  let ?s = "rev_fs d f bs"
  fix s'
  assume ag: "agree_off (avail ?s 2) ?s s'" and e: "entries_of s' 2 \<noteq> None"
  have "root_dir s' = 1 \<and> inodes s' 1 = inodes ?s 1"
    using ag same_env_fields(1)[of ?s s'] by (auto simp: agree_off_def avail_def rev_fs_def)
  then show "\<exists>f. walk s' max_links (start_dir s' ''/x'' (cwd s')) (path_parts ''/x'') = Some (f, 2)"
    using e by (auto simp: start_dir_def rev_fs_def entries_of_Some dot_def dotdot_def)
qed simp


text \<open>
  C28. The copy in chunks of 1024 bytes, each reversed by swaps in the buffer, writes the file's bytes in
  reverse order, whatever the size; a file of exactly two bytes is the exception, since its size is taken
  for the error code of \<open>fileSize\<close> and nothing is copied.
\<close>

theorem copyContent_is_rev:
  assumes "src \<noteq> dst" "inodes s src = Some (Reg bs m l)" "inodes s dst = Some (Reg [] m' l')"
  shows "copyContent src dst s =
    s\<lparr>inodes := (inodes s)(dst \<mapsto> Reg (if length bs = 2 then [] else rev bs) m' l')\<rparr>"
  using copyContent_ok[OF assms(1,3)] assms(2)
  by (simp add: put_inode_def contents_def reversed_def FSEEK_ERROR_def)

theorem copyContent_is_rev_witness:
  "contents (copyContent 0 1 (rev_fs [] [] []\<lparr>inodes := [0 \<mapsto> Reg ''hi'' 0 1, 1 \<mapsto> Reg [] 0 1]\<rparr>)) 1 = [] \<and>
   contents (copyContent 0 1 (rev_fs [] [] []\<lparr>inodes := [0 \<mapsto> Reg ''hi!'' 0 1, 1 \<mapsto> Reg [] 0 1]\<rparr>)) 1 = ''!ih''"
  by (simp add: copyContent_is_rev contents_def)

text \<open>
  A palindrome as the name: \<open>createReverseDir\<close> says \<open>ALREADY_EXIST\<close>, which is 0 and so is taken for
  success, the directory is reversed into itself, and a file whose name is a palindrome too is opened for
  writing before it is read: its contents are lost, and the program reports success.
\<close>

theorem reverse_main_palindrome_loses:
  "fopen_r ''/x/aba/ff'' (rev_fs ''aba'' ''ff'' ''hello'') = Some ''hello'' \<and>
   returns (\<lambda>(r, s). r = SUCCESS \<and> fopen_r ''/x/aba/ff'' s = Some [])
     (reverse_main 3 (\<lambda>s. 5) same_path [''/x/aba''] (rev_fs ''aba'' ''ff'' ''hello''))"
  by code_simp

end
