(* ===== verification/Echo_Select.thy ===== *)
theory Echo_Select
  imports OS_Prelude
begin

text \<open>
  The echo server of \<open>task7_3\<close> (\<open>thrid_server.c\<close>): one process that serves up to 16 clients with
  \<open>select\<close>, keeping for each client a buffer of bytes to send back. A round of \<open>serverLoop\<close> is a
  function of what the system calls return in it. The bytes read from and sent to each socket since it
  was accepted are kept beside the server's own state.
\<close>

section \<open>The state\<close>

definition MAX_CLIENTS :: nat where "MAX_CLIENTS = 16"
definition CAP :: nat where "CAP = 10 * 1024"
definition READ_SIZE :: nat where "READ_SIZE = 1024"

record client =
  socket :: nat
  sendBuffer :: "nat \<Rightarrow> char"
  sendLength :: nat
  sendOffset :: nat

record server =
  clients :: "client list"
  open_fds :: "nat list"
  received :: "nat \<Rightarrow> char list"
  sent :: "nat \<Rightarrow> char list"

definition empty_client :: client where
  "empty_client = \<lparr>socket = 0, sendBuffer = (\<lambda>_. CHR 0x00), sendLength = 0, sendOffset = 0\<rparr>"

text \<open>The array of clients starts zeroed; the listening socket and the three standard streams are open.\<close>

definition server_init :: "nat \<Rightarrow> server" where
  "server_init listener = \<lparr>clients = replicate MAX_CLIENTS empty_client, open_fds = [0, 1, 2, listener],
     received = (\<lambda>_. []), sent = (\<lambda>_. [])\<rparr>"

definition put_client :: "nat \<Rightarrow> client \<Rightarrow> server \<Rightarrow> server" where
  "put_client i c s = s\<lparr>clients := (clients s)[i := c]\<rparr>"

definition close_fd :: "nat \<Rightarrow> server \<Rightarrow> server" where
  "close_fd sd s = s\<lparr>open_fds := removeAll sd (open_fds s)\<rparr>"

definition send_out :: "nat \<Rightarrow> char list \<Rightarrow> server \<Rightarrow> server" where
  "send_out sd bs s = s\<lparr>sent := (sent s)(sd := sent s sd @ bs)\<rparr>"

text \<open>The first of the slots that satisfies a condition, as the loops with \<open>break\<close> find it.\<close>

definition slot :: "(client \<Rightarrow> bool) \<Rightarrow> server \<Rightarrow> nat option" where
  "slot P s = find (\<lambda>i. P (clients s ! i)) [0..<MAX_CLIENTS]"

section \<open>The operations\<close>

text \<open>The message for a full server is sent with its terminating zero, 17 bytes.\<close>

definition full_message :: "char list" where
  "full_message = ''Server is full.'' @ [CHR 0x0A, CHR 0x00]"

definition addClient :: "nat \<Rightarrow> server \<Rightarrow> server" where
  "addClient newSocket s = (case slot (\<lambda>c. socket c = 0) s of
       Some i \<Rightarrow> put_client i ((clients s ! i)\<lparr>socket := newSocket, sendLength := 0, sendOffset := 0\<rparr>) s
     | None \<Rightarrow> close_fd newSocket (send_out newSocket full_message s))"

definition deleteClient :: "nat \<Rightarrow> server \<Rightarrow> server" where
  "deleteClient sd s = (case slot (\<lambda>c. socket c = sd) s of
       Some i \<Rightarrow> put_client i ((clients s ! i)\<lparr>socket := 0, sendLength := 0, sendOffset := 0\<rparr>) (close_fd sd s)
     | None \<Rightarrow> s)"

definition buffer_at :: "client \<Rightarrow> nat \<Rightarrow> nat \<Rightarrow> char list" where
  "buffer_at c off n = map (sendBuffer c) [off..<off + n]"

text \<open>
  The loop of \<open>flushClientBuffer\<close>; the list holds what the calls of \<open>send\<close> return, \<open>None\<close> for an error.
  \<open>send\<close> is given \<open>sendLength\<close> bytes from \<open>sendOffset\<close> on, which must lie in the buffer.
\<close>

fun flushClientBuffer :: "nat option list \<Rightarrow> nat \<Rightarrow> server \<Rightarrow> server result" where
  "flushClientBuffer rs i s =
     (let c = clients s ! i in
      if sendLength c = 0 then Inr s
      else if sendOffset c + sendLength c > CAP then Inl Overrun
      else case rs of
        [] \<Rightarrow> Inl OutOfFuel
      | None # _ \<Rightarrow> Inr s
      | Some n # rs \<Rightarrow>
          let len = sendLength c - n in
          flushClientBuffer rs i
            (put_client i (c\<lparr>sendOffset := (if len = 0 then 0 else sendOffset c + n), sendLength := len\<rparr>)
              (send_out (socket c) (buffer_at c (sendOffset c) n) s)))"

text \<open>\<open>handleMessage\<close> with what \<open>read\<close> returned: an error, or the bytes, none of them at the end.\<close>

definition memcpy_at :: "(nat \<Rightarrow> char) \<Rightarrow> nat \<Rightarrow> char list \<Rightarrow> nat \<Rightarrow> char" where
  "memcpy_at b off bs = (\<lambda>i. if off \<le> i \<and> i < off + length bs then bs ! (i - off) else b i)"

definition read_in :: "nat \<Rightarrow> char list \<Rightarrow> server \<Rightarrow> server" where
  "read_in sd bs s = s\<lparr>received := (received s)(sd := received s sd @ bs)\<rparr>"

definition handleMessage :: "char list option \<Rightarrow> nat \<Rightarrow> server \<Rightarrow> server" where
  "handleMessage r i s = (let c = clients s ! i in
     case r of
       None \<Rightarrow> s
     | Some [] \<Rightarrow> deleteClient (socket c) s
     | Some bs \<Rightarrow>
         if sendLength c + length bs > CAP then deleteClient (socket c) (read_in (socket c) bs s)
         else put_client i (c\<lparr>sendBuffer := memcpy_at (sendBuffer c) (sendLength c) bs,
                sendLength := sendLength c + length bs\<rparr>) (read_in (socket c) bs s))"

section \<open>The loop\<close>

definition readSet :: "nat \<Rightarrow> server \<Rightarrow> nat list" where
  "readSet listener s = listener # map socket (filter (\<lambda>c. socket c > 0) (clients s))"

definition writeSet :: "server \<Rightarrow> nat list" where
  "writeSet s = map socket (filter (\<lambda>c. socket c > 0 \<and> sendLength c > 0) (clients s))"

text \<open>What \<open>select\<close> reports; on an error it leaves the sets as they are, and \<open>EINTR\<close> is not skipped.\<close>

datatype selected = Ready "nat list" "nat list" | Interrupted | SelectError

text \<open>The results of a round: \<open>sends i len\<close> are those of the calls in slot \<open>i\<close> when \<open>len\<close> bytes are pending.\<close>

record round =
  selected :: selected
  accepted :: "nat option"
  reads :: "nat \<Rightarrow> char list option"
  sends :: "nat \<Rightarrow> nat \<Rightarrow> nat option list"

definition serve_slot :: "nat list \<Rightarrow> nat list \<Rightarrow> round \<Rightarrow> nat \<Rightarrow> server \<Rightarrow> server result" where
  "serve_slot R W ev i s = (let sd = socket (clients s ! i);
       s1 = (if sd > 0 \<and> sd \<in> set R then handleMessage (reads ev i) i s else s) in
     if sd > 0 \<and> sd \<in> set W then flushClientBuffer (sends ev i (sendLength (clients s1 ! i))) i s1 else Inr s1)"

fun serve_slots :: "nat list \<Rightarrow> nat list \<Rightarrow> round \<Rightarrow> nat list \<Rightarrow> server \<Rightarrow> server result" where
  "serve_slots R W ev [] s = Inr s"
| "serve_slots R W ev (i # is) s = bindR (serve_slot R W ev i s) (serve_slots R W ev is)"

text \<open>\<open>accept\<close> opens the new socket.\<close>

definition accept_fd :: "nat \<Rightarrow> server \<Rightarrow> server" where
  "accept_fd sd s = s\<lparr>open_fds := sd # open_fds s, received := (received s)(sd := []), sent := (sent s)(sd := [])\<rparr>"

definition serve_ready :: "nat \<Rightarrow> nat list \<Rightarrow> nat list \<Rightarrow> round \<Rightarrow> server \<Rightarrow> server result" where
  "serve_ready listener R W ev s =
     serve_slots R W ev [0..<MAX_CLIENTS]
       (if listener \<in> set R then case accepted ev of Some sd \<Rightarrow> addClient sd (accept_fd sd s) | None \<Rightarrow> s else s)"

definition serverLoop :: "nat \<Rightarrow> round \<Rightarrow> server \<Rightarrow> server result" where
  "serverLoop listener ev s = (case selected ev of
       Ready R W \<Rightarrow> serve_ready listener R W ev s
     | Interrupted \<Rightarrow> serve_ready listener (readSet listener s) (writeSet s) ev s
     | SelectError \<Rightarrow> Inr s)"

text \<open>
  The returns that the kernel can give in a round: the ready descriptors are among those asked for,
  \<open>accept\<close> returns the least descriptor that is not open, \<open>read\<close> at most as much as it is asked for, and
  the results of the sends fit. \<open>whole\<close> restricts \<open>send\<close> to fail, if it fails, before it has sent anything.
\<close>

fun sends_ok :: "bool \<Rightarrow> nat \<Rightarrow> nat option list \<Rightarrow> bool" where
  "sends_ok whole len [] \<longleftrightarrow> len = 0"
| "sends_ok whole len (None # rs) \<longleftrightarrow> True"
| "sends_ok whole len (Some n # rs) \<longleftrightarrow>
     len = 0 \<or> (0 < n \<and> n \<le> len \<and> (whole \<longrightarrow> rs = [] \<or> hd rs \<noteq> None) \<and> sends_ok whole (len - n) rs)"

declare flushClientBuffer.simps [simp del]

definition lowest_fd :: "server \<Rightarrow> nat option" where
  "lowest_fd s = find (\<lambda>fd. fd \<notin> set (open_fds s)) [0..<length (open_fds s) + 1]"

definition round_ok :: "bool \<Rightarrow> nat \<Rightarrow> round \<Rightarrow> server \<Rightarrow> bool" where
  "round_ok whole listener ev s \<longleftrightarrow>
     (case selected ev of Ready R W \<Rightarrow> set R \<subseteq> set (readSet listener s) \<and> set W \<subseteq> set (writeSet s) | _ \<Rightarrow> True) \<and>
     accepted ev \<in> {None, lowest_fd s} \<and>
     (\<forall>i bs. reads ev i = Some bs \<longrightarrow> length bs \<le> READ_SIZE) \<and>
     (\<forall>i len. sends_ok whole len (sends ev i len))"

inductive round_trans :: "bool \<Rightarrow> nat \<Rightarrow> server \<Rightarrow> server \<Rightarrow> bool" for whole listener where
  "round_ok whole listener ev s \<Longrightarrow> serverLoop listener ev s = Inr t \<Longrightarrow> round_trans whole listener s t"

inductive_cases round_transE: "round_trans whole listener s t"

section \<open>Invariants\<close>

text \<open>The open descriptors are the standard ones, the listener and the clients' sockets, which differ.\<close>

definition fds_ok :: "nat \<Rightarrow> server \<Rightarrow> bool" where
  "fds_ok listener s \<longleftrightarrow> 2 < listener \<and> length (clients s) = MAX_CLIENTS \<and> distinct (open_fds s) \<and>
     set (open_fds s) = {0, 1, 2, listener} \<union> socket ` set (clients s) \<and>
     (\<forall>i<MAX_CLIENTS. socket (clients s ! i) \<notin> {1, 2, listener} \<and> socket (clients s ! i) \<le> MAX_CLIENTS + 4) \<and>
     (\<forall>i<MAX_CLIENTS. \<forall>j<MAX_CLIENTS. socket (clients s ! i) = socket (clients s ! j) \<longrightarrow>
        socket (clients s ! i) \<noteq> 0 \<longrightarrow> i = j)"

text \<open>What has been read from a client is what has been sent back and, after it, what is pending.\<close>

definition client_echo :: "server \<Rightarrow> client \<Rightarrow> bool" where
  "client_echo s c \<longleftrightarrow> sendOffset c = 0 \<and> sendLength c \<le> CAP \<and>
     (if socket c > 0 then received s (socket c) = sent s (socket c) @ buffer_at c 0 (sendLength c) else sendLength c = 0)"

definition echo_ok :: "server \<Rightarrow> bool" where
  "echo_ok s \<longleftrightarrow> (\<forall>i<MAX_CLIENTS. client_echo s (clients s ! i))"

lemma slot_Some: "slot P s = Some i \<longleftrightarrow> i < MAX_CLIENTS \<and> P (clients s ! i) \<and> (\<forall>j<i. \<not> P (clients s ! j))"
  by (auto simp: slot_def find_Some_iff)

lemma slot_None: "slot P s = None \<longleftrightarrow> (\<forall>i<MAX_CLIENTS. \<not> P (clients s ! i))"
  by (auto simp: slot_def find_None_iff)

lemma server_simps [simp]:
  "clients (put_client i c s) = (clients s)[i := c]" "open_fds (put_client i c s) = open_fds s"
  "received (put_client i c s) = received s" "sent (put_client i c s) = sent s"
  "clients (close_fd sd s) = clients s" "open_fds (close_fd sd s) = removeAll sd (open_fds s)"
  "received (close_fd sd s) = received s" "sent (close_fd sd s) = sent s"
  "clients (send_out sd bs s) = clients s" "open_fds (send_out sd bs s) = open_fds s"
  "received (send_out sd bs s) = received s" "sent (send_out sd bs s) = (sent s)(sd := sent s sd @ bs)"
  "clients (read_in sd bs s) = clients s" "open_fds (read_in sd bs s) = open_fds s"
  "received (read_in sd bs s) = (received s)(sd := received s sd @ bs)" "sent (read_in sd bs s) = sent s"
  by (simp_all add: put_client_def close_fd_def send_out_def read_in_def)

text \<open>An operation on the client of slot \<open>i\<close> that leaves the other clients and their bytes alone.\<close>

definition touches :: "nat \<Rightarrow> server \<Rightarrow> server \<Rightarrow> bool" where
  "touches i s t \<longleftrightarrow> length (clients t) = length (clients s) \<and>
     (\<forall>j<MAX_CLIENTS. j \<noteq> i \<longrightarrow> clients t ! j = clients s ! j) \<and>
     (\<forall>sd. sd \<noteq> socket (clients s ! i) \<longrightarrow> received t sd = received s sd \<and> sent t sd = sent s sd)"

lemma touches_echo:
  assumes "touches i s t" "fds_ok listener s" "echo_ok s" "i < MAX_CLIENTS" "socket (clients s ! i) > 0"
    and "client_echo t (clients t ! i)"
  shows "echo_ok t"
  unfolding echo_ok_def
proof (intro allI impI)
  fix j
  assume j: "j < MAX_CLIENTS"
  show "client_echo t (clients t ! j)"
  proof (cases "j = i")
    case False
    have "socket (clients s ! j) \<noteq> socket (clients s ! i)"
      using assms(2,4,5) j False unfolding fds_ok_def by (metis less_numeral_extra(3))
    moreover have "client_echo s (clients s ! j)" using assms(3) j by (simp add: echo_ok_def)
    ultimately show ?thesis using assms(1) j False by (simp add: touches_def client_echo_def)
  qed (use assms in simp)
qed

text \<open>If the socket of the slot stays as it is, so do the facts on the descriptors.\<close>

lemma touches_fds:
  assumes "fds_ok listener s" "i < MAX_CLIENTS" "socket c = socket (clients s ! i)"
    and "clients t = (clients s)[i := c]" "open_fds t = open_fds s"
  shows "fds_ok listener t"
proof -
  have "map socket (clients t) = map socket (clients s)"
    using assms by (metis list_update_id map_update)
  then have "socket ` set (clients t) = socket ` set (clients s)" by (metis list.set_map)
  moreover have "socket (clients t ! j) = socket (clients s ! j)" if "j < MAX_CLIENTS" for j
    using assms that by (cases "j = i") (auto simp: fds_ok_def)
  ultimately show ?thesis using assms(1,4,5) unfolding fds_ok_def by simp
qed

lemma buffer_at_split: "n \<le> len \<Longrightarrow> buffer_at c off len = buffer_at c off n @ buffer_at c (off + n) (len - n)"
  unfolding buffer_at_def map_append[symmetric] by (metis add.assoc le_add1 le_add_diff_inverse upt_add_eq_append)

text \<open>A flush whose first call succeeds sends everything, whatever the parts.\<close>

lemma flush_whole:
  assumes "sends_ok True (sendLength (clients s ! i)) rs" "rs \<noteq> []" "hd rs \<noteq> None" "sendLength (clients s ! i) > 0"
    and "sendOffset (clients s ! i) + sendLength (clients s ! i) \<le> CAP" "i < length (clients s)"
  shows "\<exists>t. flushClientBuffer rs i s = Inr t \<and>
    clients t = (clients s)[i := (clients s ! i)\<lparr>sendOffset := 0, sendLength := 0\<rparr>] \<and> open_fds t = open_fds s \<and>
    received t = received s \<and>
    sent t = (sent s)(socket (clients s ! i) := sent s (socket (clients s ! i)) @
      buffer_at (clients s ! i) (sendOffset (clients s ! i)) (sendLength (clients s ! i)))"
  using assms
proof (induction rs arbitrary: s)
  case (Cons r rs)
  let ?c = "clients s ! i"
  obtain n where n: "r = Some n" "0 < n" "n \<le> sendLength ?c" "rs = [] \<or> hd rs \<noteq> None"
    "sends_ok True (sendLength ?c - n) rs" using Cons.prems by (cases r) auto
  let ?s = "put_client i (?c\<lparr>sendOffset := (if sendLength ?c - n = 0 then 0 else sendOffset ?c + n), sendLength := sendLength ?c - n\<rparr>)
              (send_out (socket ?c) (buffer_at ?c (sendOffset ?c) n) s)"
  have step: "flushClientBuffer (r # rs) i s = flushClientBuffer rs i ?s"
    using Cons.prems n by (subst flushClientBuffer.simps) (simp add: Let_def)
  show ?case
  proof (cases "n = sendLength ?c")
    case True
    then have "flushClientBuffer rs i ?s = Inr ?s"
      using Cons.prems by (subst flushClientBuffer.simps) (simp add: Let_def)
    then show ?thesis using step True by auto
  next
    case False
    then have lt: "\<not> sendLength ?c \<le> n" using n(3) by simp
    have "rs \<noteq> []" using n False by (cases rs) auto
    then have "\<exists>t. flushClientBuffer rs i ?s = Inr t \<and>
      clients t = (clients ?s)[i := (clients ?s ! i)\<lparr>sendOffset := 0, sendLength := 0\<rparr>] \<and> open_fds t = open_fds ?s \<and>
      received t = received ?s \<and>
      sent t = (sent ?s)(socket (clients ?s ! i) := sent ?s (socket (clients ?s ! i)) @
        buffer_at (clients ?s ! i) (sendOffset (clients ?s ! i)) (sendLength (clients ?s ! i)))"
      by (intro Cons.IH) (use Cons.prems n False in auto)
    moreover have "buffer_at (clients ?s ! i) (sendOffset (clients ?s ! i)) (sendLength (clients ?s ! i)) =
        buffer_at ?c (sendOffset ?c + n) (sendLength ?c - n)"
      using Cons.prems(6) False n by (simp add: buffer_at_def)
    ultimately obtain t where t: "flushClientBuffer rs i ?s = Inr t"
      "clients t = (clients s)[i := ?c\<lparr>sendOffset := 0, sendLength := 0\<rparr>]" "open_fds t = open_fds s" "received t = received s"
      "sent t = (sent s)(socket ?c := sent s (socket ?c) @ buffer_at ?c (sendOffset ?c) (sendLength ?c))"
      using Cons.prems(6) buffer_at_split[OF n(3), of ?c "sendOffset ?c"] by (auto simp del: fun_upd_apply simp add: fun_upd_same)
    then show ?thesis using step by metis
  qed
qed simp

text \<open>Any flush changes only the offsets of its client.\<close>

lemma flush_keeps:
  "flushClientBuffer rs i s = Inr t \<Longrightarrow>
    (\<exists>c. clients t = (clients s)[i := c] \<and> socket c = socket (clients s ! i)) \<and> open_fds t = open_fds s"
proof (induction rs arbitrary: s)
  case Nil
  then have "t = s" by (subst (asm) flushClientBuffer.simps) (auto simp: Let_def split: if_splits)
  then show ?case by (metis list_update_id)
next
  case (Cons r rs)
  show ?case
  proof (cases "sendLength (clients s ! i) = 0 \<or> r = None")
    case True
    then have "t = s" using Cons.prems by (subst (asm) flushClientBuffer.simps) (auto simp: Let_def split: if_splits)
    then show ?thesis by (metis list_update_id)
  next
    case False
    let ?c = "clients s ! i"
    obtain n where n: "r = Some n" using False by auto
    let ?s = "put_client i (?c\<lparr>sendOffset := (if sendLength ?c - n = 0 then 0 else sendOffset ?c + n), sendLength := sendLength ?c - n\<rparr>)
                (send_out (socket ?c) (buffer_at ?c (sendOffset ?c) n) s)"
    have "flushClientBuffer rs i ?s = Inr t"
      using Cons.prems False n by (subst (asm) flushClientBuffer.simps) (auto simp: Let_def split: if_splits)
    from Cons.IH[OF this] obtain c where c: "clients t = (clients s)[i := c]" "socket c = socket (clients ?s ! i)" "open_fds t = open_fds s"
      by auto
    show ?thesis
    proof (cases "i < length (clients s)")
      case True
      with c show ?thesis by auto
    next
      case False
      then have "clients t = (clients s)[i := ?c]" using c(1) by (simp add: list_update_beyond)
      then show ?thesis using c(3) by blast
    qed
  qed
qed

lemma flush_fds: "flushClientBuffer rs i s = Inr t \<Longrightarrow> i < MAX_CLIENTS \<Longrightarrow> fds_ok listener s \<Longrightarrow> fds_ok listener t"
  using flush_keeps touches_fds by blast

lemma flush_echo:
  assumes "fds_ok listener s" "echo_ok s" "i < MAX_CLIENTS" "socket (clients s ! i) > 0"
    and "sends_ok True (sendLength (clients s ! i)) rs"
  shows "\<exists>t. flushClientBuffer rs i s = Inr t \<and> echo_ok t"
proof -
  let ?c = "clients s ! i"
  have c: "sendOffset ?c = 0" "sendLength ?c \<le> CAP" "received s (socket ?c) = sent s (socket ?c) @ buffer_at ?c 0 (sendLength ?c)"
    using assms by (auto simp: echo_ok_def client_echo_def)
  have len: "i < length (clients s)" using assms(1,3) by (simp add: fds_ok_def)
  show ?thesis
  proof (cases "sendLength ?c = 0 \<or> (rs \<noteq> [] \<and> hd rs = None)")
    case True
    then have "flushClientBuffer rs i s = Inr s"
      using c by (subst flushClientBuffer.simps) (cases rs; auto simp: Let_def)
    then show ?thesis using assms(2) by blast
  next
    case False
    then have "rs \<noteq> []" using assms(5) by (cases rs) auto
    then obtain t where t: "flushClientBuffer rs i s = Inr t"
      "clients t = (clients s)[i := ?c\<lparr>sendOffset := 0, sendLength := 0\<rparr>]" "received t = received s"
      "sent t = (sent s)(socket ?c := sent s (socket ?c) @ buffer_at ?c (sendOffset ?c) (sendLength ?c))"
      using flush_whole[OF assms(5)] False c len by auto
    have "touches i s t" using t(2-4) by (simp add: touches_def)
    moreover have "client_echo t (clients t ! i)" using t c len by (simp add: client_echo_def buffer_at_def CAP_def)
    ultimately show ?thesis using touches_echo[OF _ assms(1-4)] t(1) by blast
  qed
qed

text \<open>Reading.\<close>

lemma slot_of_socket:
  assumes "fds_ok listener s" "i < MAX_CLIENTS" "socket (clients s ! i) > 0"
  shows "slot (\<lambda>c. socket c = socket (clients s ! i)) s = Some i"
  unfolding slot_Some using assms unfolding fds_ok_def by (metis less_trans less_irrefl)

definition freed :: "client \<Rightarrow> client" where
  "freed c = c\<lparr>socket := 0, sendLength := 0, sendOffset := 0\<rparr>"

lemma deleteClient_slot:
  assumes "fds_ok listener s" "i < MAX_CLIENTS" "socket (clients s ! i) > 0"
  shows "deleteClient (socket (clients s ! i)) s =
    put_client i (freed (clients s ! i)) (close_fd (socket (clients s ! i)) s)"
  using slot_of_socket[OF assms] by (simp add: deleteClient_def freed_def close_fd_def)

lemma set_update_unique:
  assumes "i < length xs" "\<And>j. j < length xs \<Longrightarrow> xs ! j = xs ! i \<Longrightarrow> j = i"
  shows "set (xs[i := y]) = insert y (set xs - {xs ! i})"
proof (rule set_eqI)
  fix x
  have "x \<in> set (xs[i := y]) \<longleftrightarrow> (\<exists>j<length xs. (if j = i then y else xs ! j) = x)"
    unfolding in_set_conv_nth using nth_list_update[OF assms(1), of y] by (metis length_list_update)
  also have "\<dots> \<longleftrightarrow> x = y \<or> (\<exists>j<length xs. j \<noteq> i \<and> xs ! j = x)" using assms(1) by auto
  also have "\<dots> \<longleftrightarrow> x \<in> insert y (set xs - {xs ! i})" using assms by (auto simp: in_set_conv_nth)
  finally show "x \<in> set (xs[i := y]) \<longleftrightarrow> x \<in> insert y (set xs - {xs ! i})" .
qed

lemma freed_fds:
  assumes f: "fds_ok listener s" "i < MAX_CLIENTS" "socket (clients s ! i) > 0"
    and t: "clients t = (clients s)[i := freed (clients s ! i)]" "open_fds t = removeAll (socket (clients s ! i)) (open_fds s)"
  shows "fds_ok listener t"
proof -
  let ?sd = "socket (clients s ! i)"
  have len: "length (clients s) = MAX_CLIENTS" and sd: "?sd \<notin> {0, 1, 2, listener}"
    using f by (auto simp: fds_ok_def)
  have get: "clients t ! j = (if j = i then freed (clients s ! i) else clients s ! j)" if "j < MAX_CLIENTS" for j
    using t(1) len f(2) that by simp
  have "set ((map socket (clients s))[i := 0]) = insert 0 (set (map socket (clients s)) - {map socket (clients s) ! i})"
    by (rule set_update_unique) (use f len in \<open>auto simp: fds_ok_def\<close>)
  moreover have "map socket (clients t) = (map socket (clients s))[i := 0]"
    using t(1) by (simp add: map_update freed_def)
  ultimately have socks: "socket ` set (clients t) = insert 0 (socket ` set (clients s) - {?sd})"
    using len f(2) by (metis list.set_map nth_map)
  have "set (open_fds t) = ({0, 1, 2, listener} \<union> socket ` set (clients s)) - {?sd}"
    using f(1) unfolding fds_ok_def t(2) set_removeAll by simp
  also have "\<dots> = {0, 1, 2, listener} \<union> socket ` set (clients t)" unfolding socks using sd by blast
  finally have "set (open_fds t) = {0, 1, 2, listener} \<union> socket ` set (clients t)" .
  moreover have "distinct (open_fds t)" using f(1) t(2) by (simp add: fds_ok_def distinct_removeAll)
  moreover have so: "socket (clients t ! j) = (if j = i then 0 else socket (clients s ! j))" if "j < MAX_CLIENTS" for j
    using get[OF that] by (simp add: freed_def)
  moreover have "j = k" if "j < MAX_CLIENTS" "k < MAX_CLIENTS" "socket (clients t ! j) = socket (clients t ! k)"
    "socket (clients t ! j) \<noteq> 0" for j k
    using so[OF that(1)] so[OF that(2)] that(3,4) f(1) that(1,2) unfolding fds_ok_def by (metis (full_types))
  moreover have "socket (clients t ! j) \<notin> {1, 2, listener} \<and> socket (clients t ! j) \<le> MAX_CLIENTS + 4" if "j < MAX_CLIENTS" for j
    using so[OF that] f(1) sd that unfolding fds_ok_def by (cases "j = i") auto
  moreover have "length (clients t) = MAX_CLIENTS" "2 < listener" using t(1) f(1) by (simp_all add: fds_ok_def)
  ultimately show ?thesis unfolding fds_ok_def by blast
qed

lemma handle_keeps:
  assumes f: "fds_ok listener s" "i < MAX_CLIENTS" "socket (clients s ! i) > 0"
  shows "fds_ok listener (handleMessage r i s)"
proof -
  have del: "fds_ok listener (deleteClient (socket (clients s' ! i)) s')"
    if "clients s' = clients s" "open_fds s' = open_fds s" for s'
  proof -
    have f': "fds_ok listener s'" "socket (clients s' ! i) > 0" using f that by (simp_all add: fds_ok_def)
    show ?thesis unfolding deleteClient_slot[OF f'(1) f(2) f'(2)]
      by (rule freed_fds[OF f'(1) f(2) f'(2)]) simp_all
  qed
  show ?thesis
  proof (cases "r = None \<or> r = Some []")
    case True
    then show ?thesis using f(1) del[of s] by (auto simp: handleMessage_def)
  next
    case False
    then obtain b bs where r: "r = Some (b # bs)" by (cases r) (auto simp: neq_Nil_conv)
    let ?c = "clients s ! i"
    show ?thesis
    proof (cases "sendLength ?c + length (b # bs) > CAP")
      case True
      then show ?thesis using r del[of "read_in (socket ?c) (b # bs) s"] by (simp add: handleMessage_def Let_def)
    next
      case ok: False
      show ?thesis unfolding handleMessage_def
        by (rule touches_fds[OF f(1,2)]) (use ok r in \<open>auto simp: Let_def\<close>)
    qed
  qed
qed

lemma memcpy_buffer: "buffer_at (c\<lparr>sendBuffer := memcpy_at (sendBuffer c) (sendLength c) bs, sendLength := n\<rparr>) 0
    (sendLength c + length bs) = buffer_at c 0 (sendLength c) @ bs"
  by (rule nth_equalityI) (auto simp: buffer_at_def memcpy_at_def nth_append)

lemma handle_echo:
  assumes f: "fds_ok listener s" "echo_ok s" "i < MAX_CLIENTS" "socket (clients s ! i) > 0"
  shows "echo_ok (handleMessage r i s)"
proof -
  let ?c = "clients s ! i" and ?t = "handleMessage r i s"
  have len: "i < length (clients s)" using f by (simp add: fds_ok_def)
  have c: "client_echo s ?c" using f by (simp add: echo_ok_def)
  have del: "touches i s (deleteClient (socket ?c) s') \<and>
      client_echo (deleteClient (socket ?c) s') (clients (deleteClient (socket ?c) s') ! i)"
    if s': "clients s' = clients s" "open_fds s' = open_fds s" "sent s' = sent s"
      "\<And>sd. sd \<noteq> socket ?c \<Longrightarrow> received s' sd = received s sd" for s'
  proof -
    have "fds_ok listener s'" "socket (clients s' ! i) > 0" using f s' by (simp_all add: fds_ok_def)
    then have "deleteClient (socket ?c) s' = put_client i (freed ?c) (close_fd (socket ?c) s')"
      using deleteClient_slot[of listener s' i] f(3) s'(1) by simp
    then show ?thesis using s' len c by (simp add: touches_def freed_def client_echo_def)
  qed
  have "touches i s ?t \<and> client_echo ?t (clients ?t ! i)"
  proof (cases "r = None \<or> r = Some []")
    case True
    then show ?thesis using c del[of s] by (auto simp: handleMessage_def touches_def)
  next
    case False
    then obtain b bs where r: "r = Some (b # bs)" by (cases r) (auto simp: neq_Nil_conv)
    show ?thesis
    proof (cases "sendLength ?c + length (b # bs) > CAP")
      case True
      then show ?thesis using r del[of "read_in (socket ?c) (b # bs) s"] by (simp add: handleMessage_def Let_def)
    next
      case ok: False
      then have t: "?t = put_client i (?c\<lparr>sendBuffer := memcpy_at (sendBuffer ?c) (sendLength ?c) (b # bs),
          sendLength := sendLength ?c + length (b # bs)\<rparr>) (read_in (socket ?c) (b # bs) s)"
        using r by (simp add: handleMessage_def Let_def)
      show ?thesis unfolding t using f(4) c ok len memcpy_buffer[where c = ?c and bs = "b # bs"] by (simp add: touches_def client_echo_def)
    qed
  qed
  then show ?thesis using touches_echo[OF _ f] by blast
qed

text \<open>A new client.\<close>

lemma lowest_fd_new: "lowest_fd s = Some fd \<Longrightarrow> fd \<notin> set (open_fds s) \<and> fd \<le> length (open_fds s)"
  by (auto simp: lowest_fd_def find_Some_iff simp del: upt_Suc)

lemma set_update_insert: "i < length xs \<Longrightarrow> insert (xs ! i) (set (xs[i := y])) = insert (xs ! i) (insert y (set xs))"
proof -
  assume i: "i < length xs"
  have "x \<in> set (xs[i := y])" if "x \<in> set xs" "x \<noteq> xs ! i" for x
    using that by (metis in_set_conv_nth length_list_update nth_list_update_neq)
  then show ?thesis using set_update_subset_insert[of xs i y] set_update_memI[OF i] by auto
qed

lemma fds_count:
  assumes "fds_ok listener s"
  shows "length (open_fds s) \<le> MAX_CLIENTS + 4"
proof -
  have "length (open_fds s) = card (set (open_fds s))" 
    using assms distinct_card[of "open_fds s"] unfolding fds_ok_def by metis
  also have "\<dots> \<le> card {0, 1, 2, listener} + card (socket ` set (clients s))"
    using assms card_Un_le unfolding fds_ok_def by metis
  also have "\<dots> \<le> 4 + length (clients s)"
    using card_length[of "map socket (clients s)"] card_length[of "[0, 1, 2, listener]"] by simp
  finally show ?thesis using assms by (simp add: fds_ok_def)
qed

lemma add_keeps:
  assumes f: "fds_ok listener s" and sd: "sd \<notin> set (open_fds s)" "sd \<le> length (open_fds s)"
  shows "fds_ok listener (addClient sd (accept_fd sd s))"
    and "echo_ok s \<Longrightarrow> echo_ok (addClient sd (accept_fd sd s))"
proof -
  let ?s = "accept_fd sd s" and ?t = "addClient sd (accept_fd sd s)"
  have len: "length (clients s) = MAX_CLIENTS" using f by (simp add: fds_ok_def)
  have new: "sd \<notin> {0, 1, 2, listener}" "socket (clients s ! j) \<noteq> sd" if "j < MAX_CLIENTS" for j
    using f sd that len unfolding fds_ok_def by auto
  have "fds_ok listener ?t \<and> (echo_ok s \<longrightarrow> echo_ok ?t)"
  proof (cases "slot (\<lambda>c. socket c = 0) ?s")
    case None
    then have t: "clients ?t = clients s" "open_fds ?t = open_fds s" "received ?t = (received s)(sd := [])"
      "\<And>x. x \<noteq> sd \<Longrightarrow> sent ?t x = sent s x"
      using sd by (simp_all add: addClient_def accept_fd_def)
    show ?thesis using f t new unfolding fds_ok_def echo_ok_def client_echo_def by simp
  next
    case (Some i)
    then have i: "i < MAX_CLIENTS" "socket (clients s ! i) = 0" by (simp_all add: slot_Some accept_fd_def)
    let ?c = "(clients s ! i)\<lparr>socket := sd, sendLength := 0, sendOffset := 0\<rparr>"
    have t: "clients ?t = (clients s)[i := ?c]" "open_fds ?t = sd # open_fds s" "received ?t = (received s)(sd := [])"
      "sent ?t = (sent s)(sd := [])"
      using Some by (simp_all add: addClient_def accept_fd_def)
    have get: "clients ?t ! j = (if j = i then ?c else clients s ! j)" if "j < MAX_CLIENTS" for j
      using t(1) len i(1) that by simp
    have "set (map socket (clients ?t)) = set ((map socket (clients s))[i := sd])" unfolding t(1) by (simp add: map_update)
    then have ins: "insert 0 (socket ` set (clients ?t)) = insert 0 (insert sd (socket ` set (clients s)))"
      using set_update_insert[of i "map socket (clients s)" sd] len i by (simp only: length_map nth_map set_map)
    have "set (open_fds ?t) = insert sd ({0, 1, 2, listener} \<union> socket ` set (clients s))"
      using f by (simp add: t(2) fds_ok_def)
    also have "\<dots> = {1, 2, listener} \<union> insert 0 (insert sd (socket ` set (clients s)))" by blast
    also have "\<dots> = {0, 1, 2, listener} \<union> socket ` set (clients ?t)" unfolding ins[symmetric] by blast
    finally have "set (open_fds ?t) = {0, 1, 2, listener} \<union> socket ` set (clients ?t)" .
    moreover have "j = k" if "j < MAX_CLIENTS" "k < MAX_CLIENTS" "socket (clients ?t ! j) = socket (clients ?t ! k)"
      "socket (clients ?t ! j) \<noteq> 0" for j k
      using get[OF that(1)] get[OF that(2)] that f new(2) unfolding fds_ok_def by (auto split: if_splits)
    moreover have "socket (clients ?t ! j) \<notin> {1, 2, listener} \<and> socket (clients ?t ! j) \<le> MAX_CLIENTS + 4"
      if "j < MAX_CLIENTS" for j
      using get[OF that] f new(1)[OF that] that sd(2) fds_count[OF f] unfolding fds_ok_def by auto
    moreover have "distinct (open_fds ?t)" "length (clients ?t) = MAX_CLIENTS" "2 < listener"
      using f t(1,2) sd(1) by (simp_all add: fds_ok_def)
    ultimately have "fds_ok listener ?t" unfolding fds_ok_def by blast
    moreover have "echo_ok ?t" if "echo_ok s"
      using that get new t(3,4) unfolding echo_ok_def client_echo_def by (simp add: buffer_at_def)
    ultimately show ?thesis by blast
  qed
  then show "fds_ok listener ?t" "echo_ok s \<Longrightarrow> echo_ok ?t" by blast+
qed

section \<open>The rounds\<close>

lemma serve_slot_keeps:
  assumes "fds_ok listener s" "i < MAX_CLIENTS"
  shows "okR (fds_ok listener) (serve_slot R W ev i s)"
    and "echo_ok s \<Longrightarrow> (\<And>i len. sends_ok True len (sends ev i len)) \<Longrightarrow>
      returns (\<lambda>t. fds_ok listener t \<and> echo_ok t) (serve_slot R W ev i s)"
proof -
  let ?sd = "socket (clients s ! i)"
  let ?s = "if ?sd > 0 \<and> ?sd \<in> set R then handleMessage (reads ev i) i s else s"
  have s1: "fds_ok listener ?s" using handle_keeps[OF assms] assms(1) by auto
  then show "okR (fds_ok listener) (serve_slot R W ev i s)"
    using flush_fds[OF _ assms(2) s1] unfolding serve_slot_def Let_def okR_def by (auto split: sum.splits)
  assume e: "echo_ok s" and w: "\<And>i len. sends_ok True len (sends ev i len)"
  have e1: "echo_ok ?s" using handle_echo[OF assms(1) e assms(2)] e by auto
  show "returns (\<lambda>t. fds_ok listener t \<and> echo_ok t) (serve_slot R W ev i s)"
  proof (cases "?sd > 0 \<and> ?sd \<in> set W \<and> socket (clients ?s ! i) > 0")
    case True
    from flush_echo[OF s1 e1 assms(2) _ w] True
    obtain t where t: "flushClientBuffer (sends ev i (sendLength (clients ?s ! i))) i ?s = Inr t" "echo_ok t" by blast
    then show ?thesis using True flush_fds[OF t(1) assms(2) s1] unfolding serve_slot_def Let_def by simp
  next
    case False
    have "sendLength (clients ?s ! i) = 0" if "socket (clients ?s ! i) = 0"
      using e1 assms(2) that unfolding echo_ok_def client_echo_def by (metis less_numeral_extra(3))
    then have "serve_slot R W ev i s = Inr ?s"
      using False unfolding serve_slot_def Let_def by (subst flushClientBuffer.simps) (auto simp: Let_def)
    then show ?thesis using s1 e1 by simp
  qed
qed

lemma serve_slots_keeps:
  assumes "fds_ok listener s" "set is \<subseteq> {..<MAX_CLIENTS}"
  shows "okR (fds_ok listener) (serve_slots R W ev is s)"
    and "echo_ok s \<Longrightarrow> (\<And>i len. sends_ok True len (sends ev i len)) \<Longrightarrow>
      returns (\<lambda>t. fds_ok listener t \<and> echo_ok t) (serve_slots R W ev is s)"
proof -
  show "okR (fds_ok listener) (serve_slots R W ev is s)"
    using assms
  proof (induction "is" arbitrary: s)
    case (Cons i "is")
    have "okR (fds_ok listener) (serve_slot R W ev i s)" by (rule serve_slot_keeps(1)) (use Cons.prems in auto)
    then show ?case using Cons by (auto intro: okR_mono)
  qed simp
  show "returns (\<lambda>t. fds_ok listener t \<and> echo_ok t) (serve_slots R W ev is s)"
    if "echo_ok s" and w: "\<And>i len. sends_ok True len (sends ev i len)"
    using assms that(1)
  proof (induction "is" arbitrary: s)
    case (Cons i "is")
    have "returns (\<lambda>t. fds_ok listener t \<and> echo_ok t) (serve_slot R W ev i s)"
      by (rule serve_slot_keeps(2)[OF _ _ _ w]) (use Cons.prems in auto)
    then show ?case using Cons by (auto intro: returns_mono)
  qed simp
qed

lemma round_keeps:
  assumes f: "fds_ok listener s" and r: "round_ok whole listener ev s"
  shows "okR (fds_ok listener) (serverLoop listener ev s)"
    and "echo_ok s \<Longrightarrow> whole \<Longrightarrow> returns (\<lambda>t. fds_ok listener t \<and> echo_ok t) (serverLoop listener ev s)"
proof -
  let ?new = "\<lambda>R. if listener \<in> set R then case accepted ev of Some sd \<Rightarrow> addClient sd (accept_fd sd s) | None \<Rightarrow> s else s"
  have acc: "accepted ev = None \<or> (\<exists>sd. accepted ev = Some sd \<and> sd \<notin> set (open_fds s) \<and> sd \<le> length (open_fds s))"
    using r lowest_fd_new[of s] unfolding round_ok_def by (cases "accepted ev") auto
  have new: "fds_ok listener (?new R)" "echo_ok s \<Longrightarrow> echo_ok (?new R)" for R
    using acc f add_keeps[OF f] by (auto split: option.splits)
  have sub: "set [0..<MAX_CLIENTS] \<subseteq> {..<MAX_CLIENTS}" by auto
  show "okR (fds_ok listener) (serverLoop listener ev s)"
    using serve_slots_keeps(1)[OF new(1) sub] f
    by (auto simp: serverLoop_def serve_ready_def split: selected.splits)
  assume "echo_ok s" "whole"
  then show "returns (\<lambda>t. fds_ok listener t \<and> echo_ok t) (serverLoop listener ev s)"
    using serve_slots_keeps(2)[OF new(1) sub new(2)] f r
    by (auto simp: serverLoop_def serve_ready_def round_ok_def split: selected.splits)
qed

definition server_start :: "nat \<Rightarrow> server \<Rightarrow> bool" where
  "server_start listener s \<longleftrightarrow> s = server_init listener \<and> 2 < listener"

lemma server_start_ok: "server_start listener s \<Longrightarrow> fds_ok listener s \<and> echo_ok s"
  by (auto simp: server_start_def server_init_def fds_ok_def echo_ok_def client_echo_def empty_client_def MAX_CLIENTS_def CAP_def)

interpretation select_fds: transition_system "server_start listener" "round_trans whole listener" "fds_ok listener"
  for whole listener
proof
  show "fds_ok listener s" if "server_start listener s" for s using server_start_ok[OF that] by simp
  show "fds_ok listener t" if "fds_ok listener s" "round_trans whole listener s t" for s t
    using that(2) round_keeps(1)[OF that(1)] by (auto elim!: round_transE dest: okRD)
qed

interpretation select_echo: transition_system "server_start listener" "round_trans True listener"
    "\<lambda>s. fds_ok listener s \<and> echo_ok s" for listener
proof
  show "fds_ok listener s \<and> echo_ok s" if "server_start listener s" for s using server_start_ok[OF that] .
  show "fds_ok listener t \<and> echo_ok t" if i: "fds_ok listener s \<and> echo_ok s" and "round_trans True listener s t" for s t
    using that(2)
  proof (rule round_transE)
    fix ev
    assume ev: "round_ok True listener ev s" "serverLoop listener ev s = Inr t"
    show ?thesis using round_keeps(2)[OF conjunct1[OF i] ev(1) conjunct2[OF i]] ev(2) by simp
  qed
qed

section \<open>Properties\<close>


text \<open>
  The descriptors that the server hands to \<open>FD_SET\<close> are below \<open>FD_SETSIZE\<close>, whatever the clients and the
  network do: with at most 16 clients and the least free descriptor for each new one, none exceeds 20.
\<close>

theorem select_fds_bounded:
  assumes "reachable (server_start listener) (round_trans whole listener) s" "listener < 1024"
  shows "\<forall>fd \<in> set (readSet listener s) \<union> set (writeSet s). fd < 1024"
proof -
  have "fds_ok listener s" using select_fds.reachable_inv[OF assms(1)] .
  then have "socket c \<le> 20" if "c \<in> set (clients s)" for c
    using that unfolding in_set_conv_nth fds_ok_def by (auto simp: MAX_CLIENTS_def)
  then show ?thesis using assms(2) by (force simp: readSet_def writeSet_def)
qed

text \<open>Rounds: a client connects, and its message of four bytes is read and sent back.\<close>

definition connect_round :: round where
  "connect_round = \<lparr>selected = Ready [3] [], accepted = Some 4, reads = (\<lambda>_. None), sends = (\<lambda>_ len. [Some len])\<rparr>"

definition read_round :: "char list \<Rightarrow> round" where
  "read_round bs = \<lparr>selected = Ready [4] [], accepted = None, reads = (\<lambda>_. Some bs), sends = (\<lambda>_ len. [Some len])\<rparr>"

definition send_round :: "(nat \<Rightarrow> nat option list) \<Rightarrow> round" where
  "send_round f = \<lparr>selected = Ready [] [4], accepted = None, reads = (\<lambda>_. None), sends = (\<lambda>_. f)\<rparr>"

fun run_rounds :: "nat \<Rightarrow> round list \<Rightarrow> server \<Rightarrow> server result" where
  "run_rounds listener [] s = Inr s"
| "run_rounds listener (ev # evs) s = bindR (serverLoop listener ev s) (run_rounds listener evs)"

lemma serve_slots_idle:
  "\<forall>i \<in> set is. socket (clients s ! i) \<notin> set R \<union> set W \<Longrightarrow> serve_slots R W ev is s = Inr s"
  by (induction "is") (auto simp: serve_slot_def Let_def)

lemma connected: "reachable (server_start 3) (round_trans whole 3) (addClient 4 (accept_fd 4 (server_init 3)))"
proof (rule reach_step)
  show "reachable (server_start 3) (round_trans whole 3) (server_init 3)"
    by (rule reach_start) (simp add: server_start_def)
  have "serverLoop 3 connect_round (server_init 3) = Inr (addClient 4 (accept_fd 4 (server_init 3)))"
  proof -
    have "\<forall>i \<in> set [0..<MAX_CLIENTS]. socket (clients (addClient 4 (accept_fd 4 (server_init 3))) ! i) \<notin> set [3] \<union> set []"
      by code_simp
    from serve_slots_idle[OF this] show ?thesis
      by (simp add: serverLoop_def serve_ready_def connect_round_def)
  qed
  moreover have "round_ok whole 3 connect_round (server_init 3)"
    unfolding round_ok_def by (auto simp: connect_round_def readSet_def lowest_fd_def server_init_def upt_rec)
  ultimately show "round_trans whole 3 (server_init 3) (addClient 4 (accept_fd 4 (server_init 3)))"
    using round_trans.intros by blast
qed


theorem select_fds_bounded_witness:
  "\<forall>fd \<in> set (readSet 3 (addClient 4 (accept_fd 4 (server_init 3)))) \<union>
     set (writeSet (addClient 4 (accept_fd 4 (server_init 3)))). fd < 1024"
  by (rule select_fds_bounded[OF connected]) simp

text \<open>
  When \<open>send\<close> fails after a part has been sent, \<open>sendOffset\<close> stays behind, but the next message is stored
  \<open>sendLength\<close> bytes from the start of the buffer instead of behind the pending bytes: the client that
  sent \<open>abcd\<close> and \<open>xy\<close> receives neither \<open>cd\<close> nor its message, but bytes it never sent.
\<close>

theorem select_partial_send_corrupts:
  "returns (\<lambda>s. received s 4 = ''abcdxy'' \<and> sent s 4 = ''abxy'' @ [CHR 0x00, CHR 0x00] \<and>
      sent s 4 \<noteq> received s 4)
    (run_rounds 3 [connect_round, read_round ''abcd'', send_round (\<lambda>_. [Some 2, None]), read_round ''xy'',
       send_round (\<lambda>len. [Some len])] (server_init 3))"
  by code_simp

end
