(* ===== verification/Echo_Net.thy ===== *)
theory Echo_Net
  imports OS_Prelude "HOL-Library.Sublist"
begin

text \<open>
  The echo programs of \<open>task7_1\<close> (TCP, a process for each client) and \<open>task7_2\<close> (UDP). A TCP connection
  is a queue of bytes in each direction; the client's loop (\<open>communicate\<close>) and the server's
  (\<open>handleClient\<close>) are step functions of what the system calls return, and run interleaved.
\<close>

section \<open>Setting up a listening socket\<close>

text \<open>
  The returns of \<open>socket\<close>, \<open>setsockopt\<close>, \<open>bind\<close> and \<open>listen\<close>. A failed call ends the process; \<open>Failed b\<close>
  says whether the socket has been closed before.
\<close>

datatype setup_result = Listening int | Failed bool

record setup_calls =
  r_socket :: int
  r_setsockopt :: int
  r_bind :: int
  r_listen :: int

definition setupServerSocket :: "setup_calls \<Rightarrow> setup_result" where
  "setupServerSocket r =
     (if r_socket r < 0 then Failed False
      else if r_setsockopt r < 0 then Failed False
      else if r_bind r < 0 then Failed True
      else if r_listen r < 0 then Failed True
      else Listening (r_socket r))"

text \<open>The server of \<open>task7_3\<close> closes its socket in one more case.\<close>

definition setupServer :: "setup_calls \<Rightarrow> setup_result" where
  "setupServer r =
     (if r_socket r < 0 then Failed False
      else if r_setsockopt r < 0 then Failed True
      else if r_bind r < 0 then Failed True
      else if r_listen r < 0 then Failed True
      else Listening (r_socket r))"

section \<open>The TCP connection\<close>

definition BUFFER_SIZE :: nat where "BUFFER_SIZE = 1024"
definition CLIENT_BUF :: nat where "CLIENT_BUF = 1024"

datatype handler = HC_Recv | HC_Send "char list" | HC_Exit
datatype chatter = CM_Prompt | CM_Recv | CM_Done

text \<open>\<open>typed\<close> are the bytes that the client has handed to the network, \<open>printed\<close> the replies it has printed.\<close>

record conv =
  to_server :: "char list"
  to_client :: "char list"
  srv :: handler
  cli :: chatter
  typed :: "char list"
  printed :: "char list"

definition conv_init :: conv where
  "conv_init = \<lparr>to_server = [], to_client = [], srv = HC_Recv, cli = CM_Prompt, typed = [], printed = []\<rparr>"

text \<open>The server's next call returns \<open>r\<close>: a number of bytes, or \<open>None\<close> for an error.\<close>

definition handleClient :: "nat option \<Rightarrow> conv \<Rightarrow> conv" where
  "handleClient r s = (case srv s of
       HC_Recv \<Rightarrow> (case r of
           Some n \<Rightarrow> if n > 0 then s\<lparr>srv := HC_Send (take n (to_server s)), to_server := drop n (to_server s)\<rparr>
                     else s\<lparr>srv := HC_Exit\<rparr>
         | None \<Rightarrow> s\<lparr>srv := HC_Exit\<rparr>)
     | HC_Send bs \<Rightarrow> (case r of
           Some n \<Rightarrow> s\<lparr>to_client := to_client s @ take n bs, srv := HC_Recv\<rparr>
         | None \<Rightarrow> s\<lparr>srv := HC_Exit\<rparr>)
     | HC_Exit \<Rightarrow> s)"

text \<open>
  The client's: at the prompt \<open>fgets\<close> has returned \<open>line\<close>, of which \<open>strlen\<close> counts the bytes before the
  first zero, and \<open>r\<close> is the return of \<open>send\<close>; otherwise \<open>r\<close> is the return of \<open>recv\<close>.
\<close>

definition c_string :: "char list \<Rightarrow> char list" where
  "c_string bs = takeWhile (\<lambda>c. c \<noteq> CHR 0x00) bs"

definition communicate :: "char list option \<Rightarrow> nat option \<Rightarrow> conv \<Rightarrow> conv" where
  "communicate line r s = (case cli s of
       CM_Prompt \<Rightarrow> (case line of
           None \<Rightarrow> s\<lparr>cli := CM_Done\<rparr>
         | Some l \<Rightarrow>
             (case r of
                None \<Rightarrow> s\<lparr>cli := CM_Done\<rparr>
              | Some n \<Rightarrow> s\<lparr>to_server := to_server s @ take n (c_string l), typed := typed s @ take n (c_string l),
                  cli := (if n = length (c_string l) then CM_Recv else CM_Done)\<rparr>))
     | CM_Recv \<Rightarrow> (case r of
           None \<Rightarrow> s\<lparr>cli := CM_Done\<rparr>
         | Some n \<Rightarrow> if n = 0 then s\<lparr>cli := CM_Done\<rparr>
             else s\<lparr>printed := printed s @ c_string (take n (to_client s)), to_client := drop n (to_client s),
                    cli := CM_Prompt\<rparr>)
     | CM_Done \<Rightarrow> s)"

text \<open>
  What the network may do. \<open>recv\<close> returns at most what has arrived and what was asked for, and 0 once the
  other side has closed and everything is read. With \<open>whole\<close>, a \<open>send\<close> of the server that does not fail
  takes all its bytes, as it does on a blocking socket unless a signal interrupts it. The lines typed
  are text.
\<close>

datatype move = Serve "nat option" | Chat "char list option" "nat option"

definition recv_ok :: "nat \<Rightarrow> char list \<Rightarrow> bool \<Rightarrow> nat option \<Rightarrow> bool" where
  "recv_ok asked q closed r = (case r of None \<Rightarrow> True
     | Some n \<Rightarrow> n \<le> asked \<and> n \<le> length q \<and> (n = 0 \<longrightarrow> q = [] \<and> closed))"

fun move_ok :: "bool \<Rightarrow> move \<Rightarrow> conv \<Rightarrow> bool" where
  "move_ok whole (Serve r) s = (case srv s of
       HC_Recv \<Rightarrow> recv_ok BUFFER_SIZE (to_server s) (cli s = CM_Done) r
     | HC_Send bs \<Rightarrow> (case r of None \<Rightarrow> True | Some n \<Rightarrow> 0 < n \<and> n \<le> length bs \<and> (whole \<longrightarrow> n = length bs))
     | HC_Exit \<Rightarrow> False)"
| "move_ok whole (Chat line r) s = (case cli s of
       CM_Prompt \<Rightarrow> (case line of None \<Rightarrow> True
         | Some l \<Rightarrow> length l \<le> CLIENT_BUF - 1 \<and> c_string l \<noteq> [] \<and>
             (case r of None \<Rightarrow> True | Some n \<Rightarrow> 0 < n \<and> n \<le> length (c_string l)))
     | CM_Recv \<Rightarrow> recv_ok (CLIENT_BUF - 1) (to_client s) (srv s = HC_Exit) r
     | CM_Done \<Rightarrow> False)"

fun do_move :: "move \<Rightarrow> conv \<Rightarrow> conv" where
  "do_move (Serve r) s = handleClient r s"
| "do_move (Chat line r) s = communicate line r s"

inductive conv_trans :: "bool \<Rightarrow> conv \<Rightarrow> conv \<Rightarrow> bool" for whole where
  "move_ok whole e s \<Longrightarrow> conv_trans whole s (do_move e s)"

inductive_cases conv_transE: "conv_trans whole s t"

fun run_conv :: "bool \<Rightarrow> move list \<Rightarrow> conv \<Rightarrow> conv option" where
  "run_conv whole [] s = Some s"
| "run_conv whole (e # es) s = (if move_ok whole e s then run_conv whole es (do_move e s) else None)"

lemma run_conv_steps: "run_conv whole es s = Some t \<Longrightarrow> (conv_trans whole)\<^sup>*\<^sup>* s t"
proof (induction es arbitrary: s)
  case (Cons e es)
  then have "move_ok whole e s" "run_conv whole es (do_move e s) = Some t" by (auto split: if_splits)
  with Cons.IH show ?case by (metis conv_trans.intros converse_rtranclp_into_rtranclp)
qed simp

section \<open>The invariant\<close>

text \<open>The bytes the server holds between \<open>recv\<close> and \<open>send\<close>.\<close>

primrec held :: "handler \<Rightarrow> char list" where
  "held HC_Recv = []"
| "held (HC_Send bs) = bs"
| "held HC_Exit = []"

definition on_the_way :: "conv \<Rightarrow> char list" where
  "on_the_way s = to_client s @ held (srv s) @ to_server s"

text \<open>
  What has been typed is what has been printed and, in order, what is on the way; only when the server
  has gone may bytes be missing, from the end. No byte is zero, the server never holds nothing, and a
  waiting client has something on the way.
\<close>

definition conv_inv :: "conv \<Rightarrow> bool" where
  "conv_inv s \<longleftrightarrow> prefix (printed s @ to_client s) (typed s) \<and>
     (srv s \<noteq> HC_Exit \<longrightarrow> typed s = printed s @ on_the_way s) \<and>
     CHR 0x00 \<notin> set (typed s) \<and> srv s \<noteq> HC_Send [] \<and>
     (cli s = CM_Recv \<longrightarrow> srv s \<noteq> HC_Exit \<longrightarrow> on_the_way s \<noteq> [])"

lemma c_string_id: "CHR 0x00 \<notin> set bs \<Longrightarrow> c_string bs = bs"
  unfolding c_string_def takeWhile_eq_all_conv by auto

lemma c_string_no_zero: "CHR 0x00 \<notin> set (c_string bs)"
  by (auto simp: c_string_def dest: set_takeWhileD)

lemma handle_inv:
  assumes i: "conv_inv s" and ok: "move_ok True (Serve r) s"
  shows "conv_inv (handleClient r s)"
proof (cases "srv s")
  case HC_Recv
  then show ?thesis using assms
    by (auto simp: conv_inv_def on_the_way_def handleClient_def recv_ok_def split: option.splits)
next
  case (HC_Send bs)
  have "prefix (printed s @ to_client s @ bs) (typed s)" if "srv s \<noteq> HC_Exit"
    using i that HC_Send by (auto simp: conv_inv_def on_the_way_def prefix_def)
  then show ?thesis using assms HC_Send
    by (auto simp: conv_inv_def on_the_way_def handleClient_def split: option.splits)
qed (use assms in simp)

lemma communicate_inv:
  assumes i: "conv_inv s" and ok: "move_ok True (Chat line r) s"
  shows "conv_inv (communicate line r s)"
proof (cases "cli s")
  case CM_Prompt
  show ?thesis
  proof (cases "line = None \<or> r = None")
    case True
    then show ?thesis using i CM_Prompt by (auto simp: conv_inv_def on_the_way_def communicate_def split: option.splits)
  next
    case False
    then obtain l n where l: "line = Some l" "r = Some n" "0 < n" "c_string l \<noteq> []" using ok CM_Prompt by auto
    have "CHR 0x00 \<notin> set (take n (c_string l))" using c_string_no_zero by (meson in_set_takeD)
    moreover have "take n (c_string l) \<noteq> []" using l by simp
    ultimately show ?thesis using i CM_Prompt l(1,2)
      by (auto simp: conv_inv_def on_the_way_def communicate_def intro: prefix_prefix)
  qed
next
  case CM_Recv
  show ?thesis
  proof (cases "r = None \<or> r = Some 0")
    case True
    then show ?thesis using i CM_Recv by (auto simp: conv_inv_def on_the_way_def communicate_def)
  next
    case False
    then obtain n where n: "r = Some n" "0 < n" by auto
    have "CHR 0x00 \<notin> set (take n (to_client s))"
      using i by (auto simp: conv_inv_def prefix_def dest: in_set_takeD)
    then show ?thesis using i CM_Recv n
      by (auto simp: conv_inv_def on_the_way_def communicate_def c_string_id)
  qed
qed (use assms in simp)

interpretation tcp: transition_system "\<lambda>s. s = conv_init" "conv_trans True" conv_inv
proof
  show "conv_inv s" if "s = conv_init" for s
    using that by (simp add: conv_init_def conv_inv_def on_the_way_def)
  show "conv_inv t" if "conv_inv s" "conv_trans True s t" for s t
    using that(2)
  proof (rule conv_transE)
    fix e
    assume e: "move_ok True e s" "t = do_move e s"
    then show ?thesis using that(1) handle_inv communicate_inv by (cases e) auto
  qed
qed

section \<open>The conversation\<close>

text \<open>
  The client prints what its user has typed: at every moment the printed replies are a prefix of
  the bytes sent, and while the server is there nothing is lost or reordered, the rest being on the way.
\<close>

theorem tcp_conversation_echoes:
  assumes "reachable (\<lambda>s. s = conv_init) (conv_trans True) s"
  shows "prefix (printed s) (typed s) \<and>
    (srv s \<noteq> HC_Exit \<longrightarrow> typed s = printed s @ to_client s @ held (srv s) @ to_server s)"
  using tcp.reachable_inv[OF assms] by (auto simp: conv_inv_def on_the_way_def dest: append_prefixD)

definition two_lines :: "move list" where
  "two_lines = [Chat (Some ''hello'') (Some 5), Serve (Some 3), Serve (Some 3), Serve (Some 2), Chat None (Some 3),
     Chat (Some ''!'') (Some 1)]"

theorem tcp_conversation_echoes_witness:
  "\<exists>s. run_conv True two_lines conv_init = Some s \<and> printed s = ''hel'' \<and> prefix ''hel'' (typed s) \<and>
     typed s = ''hel'' @ to_client s @ held (srv s) @ to_server s"
proof -
  obtain s where s: "run_conv True two_lines conv_init = Some s" "printed s = ''hel''" "srv s = HC_Send ''lo''"
    by (simp add: two_lines_def conv_init_def handleClient_def communicate_def c_string_def recv_ok_def
        BUFFER_SIZE_def CLIENT_BUF_def)
  have "reachable (\<lambda>s. s = conv_init) (conv_trans True) s"
    using run_conv_steps[OF s(1)]
    by (induction rule: rtranclp_induct) (auto intro: reachable.intros)
  from tcp_conversation_echoes[OF this] s show ?thesis by auto
qed

text \<open>What the server holds or has not read yet reaches a waiting client.\<close>

lemma reply_arrived:
  assumes "conv_inv s" "cli s = CM_Recv" "to_client s \<noteq> []"
  shows "\<exists>t. (conv_trans True)\<^sup>*\<^sup>* s t \<and> cli t = CM_Prompt \<and> length (printed s) < length (printed t)"
proof -
  let ?e = "Chat None (Some 1)"
  have "move_ok True ?e s" using assms by (cases "to_client s") (auto simp: recv_ok_def CLIENT_BUF_def)
  moreover have "c_string (take 1 (to_client s)) = take 1 (to_client s)"
    using assms(1) by (intro c_string_id) (auto simp: conv_inv_def prefix_def dest: in_set_takeD)
  then have "length (printed s) < length (printed (do_move ?e s))" "cli (do_move ?e s) = CM_Prompt"
    using assms by (auto simp: communicate_def)
  ultimately show ?thesis using conv_trans.intros by blast
qed

lemma reply_held:
  assumes "conv_inv s" "cli s = CM_Recv" "srv s = HC_Send bs"
  shows "\<exists>t. (conv_trans True)\<^sup>*\<^sup>* s t \<and> cli t = CM_Prompt \<and> length (printed s) < length (printed t)"
proof -
  let ?t = "do_move (Serve (Some (length bs))) s"
  have bs: "bs \<noteq> []" using assms by (auto simp: conv_inv_def)
  have t: "conv_trans True s ?t" by (rule conv_trans.intros) (use assms bs in simp)
  have "conv_inv ?t" using tcp.inv_step[OF assms(1) t] .
  moreover have "cli ?t = CM_Recv" "to_client ?t \<noteq> []" "printed ?t = printed s"
    using assms bs by (auto simp: handleClient_def)
  ultimately show ?thesis using reply_arrived[of ?t] t by (metis converse_rtranclp_into_rtranclp)
qed

lemma reply_coming:
  assumes "conv_inv s" "cli s = CM_Recv" "srv s \<noteq> HC_Exit"
  shows "\<exists>t. (conv_trans True)\<^sup>*\<^sup>* s t \<and> cli t = CM_Prompt \<and> length (printed s) < length (printed t)"
proof (cases "to_client s = [] \<and> srv s = HC_Recv")
  case True
  let ?t = "do_move (Serve (Some 1)) s"
  have q: "to_server s \<noteq> []" using assms True by (auto simp: conv_inv_def on_the_way_def)
  have t: "conv_trans True s ?t"
    by (rule conv_trans.intros) (use True q in \<open>cases "to_server s"; auto simp: recv_ok_def BUFFER_SIZE_def\<close>)
  have "conv_inv ?t" using tcp.inv_step[OF assms(1) t] .
  moreover have "cli ?t = CM_Recv" "srv ?t = HC_Send (take 1 (to_server s))" "printed ?t = printed s"
    using assms True by (auto simp: handleClient_def)
  ultimately show ?thesis using reply_held[of ?t] t by (metis converse_rtranclp_into_rtranclp)
next
  case False
  then show ?thesis using reply_arrived reply_held assms by (cases "srv s") auto
qed

text \<open>
  A client that waits for a reply is not waiting for nothing: as long as its server process lives, a
  few successful calls bring it back to the prompt with more text printed. Client and server cannot
  wait for each other.
\<close>

theorem tcp_client_gets_reply:
  assumes "reachable (\<lambda>s. s = conv_init) (conv_trans True) s" "cli s = CM_Recv" "srv s \<noteq> HC_Exit"
  shows "\<exists>t. (conv_trans True)\<^sup>*\<^sup>* s t \<and> cli t = CM_Prompt \<and> length (printed s) < length (printed t)"
  using reply_coming[OF tcp.reachable_inv[OF assms(1)] assms(2,3)] .

theorem tcp_client_gets_reply_witness:
  "\<exists>t. (conv_trans True)\<^sup>*\<^sup>* (do_move (Chat (Some ''hi'') (Some 2)) conv_init) t \<and> cli t = CM_Prompt \<and> 0 < length (printed t)"
proof -
  let ?s = "do_move (Chat (Some ''hi'') (Some 2)) conv_init"
  have "conv_trans True conv_init ?s"
    by (rule conv_trans.intros) (simp add: conv_init_def c_string_def CLIENT_BUF_def)
  then have "reachable (\<lambda>s. s = conv_init) (conv_trans True) ?s" by (rule reach_step[OF reach_start[of "\<lambda>s. s = conv_init", OF refl]])
  from tcp_client_gets_reply[OF this] show ?thesis
    by (simp add: conv_init_def communicate_def c_string_def)
qed

text \<open>
  \<open>handleClient\<close> compares the return of \<open>send\<close> only with \<open>-1\<close>: when a part of the bytes was taken, the
  rest is dropped, and the client prints text with a gap.
\<close>

theorem tcp_partial_send_loses:
  "\<exists>s. run_conv False [Chat (Some ''hello'') (Some 5), Serve (Some 5), Serve (Some 2), Chat None (Some 2),
       Chat (Some ''!'') (Some 1), Serve (Some 1), Serve (Some 1), Chat None (Some 1)] conv_init = Some s \<and>
     typed s = ''hello!'' \<and> printed s = ''he!'' \<and> srv s = HC_Recv"
  by (simp add: conv_init_def handleClient_def communicate_def c_string_def recv_ok_def BUFFER_SIZE_def CLIENT_BUF_def)

section \<open>UDP\<close>

text \<open>
  The loop of the UDP server: for each round what \<open>recvfrom\<close> gave, with the sender's address, and whether
  \<open>sendto\<close> succeeded. It returns the datagrams sent and whether the process is still running.
\<close>

type_synonym datagram = "nat \<times> char list"

fun runEchoServer :: "(datagram option \<times> bool) list \<Rightarrow> datagram list \<Rightarrow> datagram list \<times> bool" where
  "runEchoServer [] out = (out, True)"
| "runEchoServer ((None, _) # es) out = (out, False)"
| "runEchoServer ((Some (a, d), ok) # es) out =
     (if ok then runEchoServer es (out @ [(a, take BUFFER_SIZE d)]) else (out, False))"

definition receiveReply :: "char list \<Rightarrow> string" where
  "receiveReply d = ''Reply: '' @ c_string (take (BUFFER_SIZE - 1) d) @ [CHR 0x0A]"

text \<open>
  \<open>main\<close> of the client after the arguments are counted: \<open>port\<close> is what \<open>atoi\<close> returns, \<open>exchange\<close> gives the
  reply to the datagram that \<open>sendto\<close> has taken, or \<open>None\<close> if none comes and the client waits forever.
\<close>

datatype udp_end = BadPort | SendFailed | Waiting | Replied string

definition udp_client :: "int \<Rightarrow> bool \<Rightarrow> (char list \<Rightarrow> char list option) \<Rightarrow> string \<Rightarrow> udp_end" where
  "udp_client port ok exchange message =
     (if port \<le> 0 \<or> port > 65535 then BadPort
      else if \<not> ok then SendFailed
      else case exchange (c_string message) of None \<Rightarrow> Waiting | Some d \<Rightarrow> Replied (receiveReply d))"

text \<open>A server reached by the client at address \<open>a\<close> when earlier datagrams are served before.\<close>

definition served_after :: "(datagram option \<times> bool) list \<Rightarrow> nat \<Rightarrow> char list \<Rightarrow> char list option" where
  "served_after es a d = map_of (rev (fst (runEchoServer (es @ [(Some (a, d), True)]) []))) a"

lemma runEchoServer_ok:
  "\<forall>(r, ok) \<in> set es. r \<noteq> None \<and> ok \<Longrightarrow>
    runEchoServer (es @ [(Some (a, d), True)]) out =
      (out @ map (\<lambda>(r, _). (fst (the r), take BUFFER_SIZE (snd (the r)))) es @ [(a, take BUFFER_SIZE d)], True)"
  by (induction es arbitrary: out) auto

text \<open>
  The UDP client prints its message as the reply, whoever was served before it, if the server's calls
  succeed and the message fits: at most 1023 bytes of it come back, the rest is cut off silently.
\<close>

theorem udp_reply_is_message:
  assumes "\<forall>(r, ok) \<in> set es. r \<noteq> None \<and> ok" "0 < port" "port \<le> 65535" "CHR 0x00 \<notin> set message"
  shows "udp_client port True (served_after es a) message = Replied (''Reply: '' @ take 1023 message @ [CHR 0x0A])"
proof -
  have "c_string message = message" using assms(4) by (rule c_string_id)
  moreover have "served_after es a message = Some (take BUFFER_SIZE message)"
    using runEchoServer_ok[OF assms(1), of a message "[]"] by (simp add: served_after_def)
  moreover have "c_string (take 1023 (take BUFFER_SIZE message)) = take 1023 (take BUFFER_SIZE message)"
    using assms(4) by (intro c_string_id) (auto dest: in_set_takeD)
  ultimately show ?thesis using assms(2,3) by (simp add: udp_client_def receiveReply_def BUFFER_SIZE_def min_def)
qed

theorem udp_reply_is_message_witness:
  "udp_client 8080 True (served_after [(Some (1, ''other''), True)] 2) ''hi'' = Replied (''Reply: hi'' @ [CHR 0x0A])"
  using udp_reply_is_message[of "[(Some (1, ''other''), True)]" 8080 "''hi''" 2] by simp

end
