(* ===== verification/My_Thread.thy ===== *)
theory My_Thread
  imports OS_Prelude
begin

text \<open>
  The thread library of \<open>task1_6\<close> (\<open>my_thread.c\<close>): kernel threads made with \<open>clone\<close>, each with its
  structure at the top of its own mapped stack, which \<open>my_thread_join\<close> or the cleanup thread unmaps.
  The thread's function (\<open>thread_func\<close>), the joining thread and the cleanup thread are step functions.
  A running thread needs its stack: a step without it is an error. Addresses of regions can be used
  again by \<open>mmap\<close>.
\<close>

section \<open>The state\<close>

record thread_struct =
  t_id :: nat
  t_tid :: int
  t_stack :: addr
  start_routine :: "nat \<Rightarrow> nat"
  t_arg :: nat
  retval :: nat
  is_finished :: bool
  joinable :: bool
  futex :: nat

text \<open>Where a thread is: in its routine, or before the named statement of \<open>thread_func\<close>.\<close>

datatype worker_pc = W_Run | W_Finish | W_Wake | W_Exit | W_Gone

text \<open>The joining thread, with its argument, and the cleanup thread, with the thread it waits for.\<close>

datatype main_pc = M_Idle | J_Loop addr | J_Sleep addr | J_Retval addr | J_Reset addr | J_Unmap addr
datatype cleaner_pc = C_None | C_Wait | C_Check addr | C_Unmap addr

text \<open>
  \<open>handles\<close> are the threads that the program may still join or detach, \<open>joined\<close> the values that
  \<open>my_thread_join\<close> has stored, by thread.
\<close>

record mt =
  regions :: "addr \<rightharpoonup> thread_struct"
  ids :: nat
  workers :: "nat \<rightharpoonup> worker_pc \<times> addr"
  main :: main_pc
  cleaner :: cleaner_pc
  cleanup_thread_started :: bool
  cleanup_list :: "addr list"
  handles :: "addr list"
  joined :: "(nat \<times> nat) list"

definition mt_init :: mt where
  "mt_init = \<lparr>regions = Map.empty, ids = 0, workers = Map.empty, main = M_Idle, cleaner = C_None,
     cleanup_thread_started = False, cleanup_list = [], handles = [], joined = []\<rparr>"

section \<open>Creating a thread\<close>

text \<open>The address that \<open>mmap\<close> returned, if any, and the return of \<open>clone\<close>. The handle is the address.\<close>

definition new_struct :: "nat \<Rightarrow> int \<Rightarrow> addr \<Rightarrow> (nat \<Rightarrow> nat) \<Rightarrow> nat \<Rightarrow> thread_struct" where
  "new_struct i pid a routine arg = \<lparr>t_id = i, t_tid = pid, t_stack = a, start_routine = routine, t_arg = arg,
     retval = 0, is_finished = False, joinable = True, futex = 0\<rparr>"

definition my_thread_create :: "addr option \<Rightarrow> int \<Rightarrow> (nat \<Rightarrow> nat) \<Rightarrow> nat \<Rightarrow> mt \<Rightarrow> addr option \<times> mt" where
  "my_thread_create mapped pid routine arg s = (case mapped of
       None \<Rightarrow> (None, s)
     | Some a \<Rightarrow>
         let i = ids s + 1 in
         if pid = - 1 then (None, s\<lparr>ids := i\<rparr>)
         else (Some a, s\<lparr>ids := i, regions := (regions s)(a \<mapsto> new_struct i pid a routine arg),
                workers := (workers s)(i \<mapsto> (W_Run, a))\<rparr>))"

section \<open>A thread\<close>

text \<open>The structure of thread \<open>i\<close>, on its stack.\<close>

definition own_struct :: "nat \<Rightarrow> addr \<Rightarrow> mt \<Rightarrow> thread_struct result" where
  "own_struct i a s = bindR (load (regions s) (Some a)) (\<lambda>t. if t_id t = i then Inr t else Inl (BadAccess a))"

definition store :: "addr \<Rightarrow> thread_struct \<Rightarrow> mt \<Rightarrow> mt" where
  "store a t s = s\<lparr>regions := (regions s)(a \<mapsto> t)\<rparr>"

definition goto :: "nat \<Rightarrow> worker_pc \<Rightarrow> addr \<Rightarrow> mt \<Rightarrow> mt" where
  "goto i pc a s = s\<lparr>workers := (workers s)(i \<mapsto> (pc, a))\<rparr>"

text \<open>The wake-up finds the joining thread only if it sleeps on this futex.\<close>

definition wake :: "addr \<Rightarrow> mt \<Rightarrow> mt" where
  "wake a s = (if main s = J_Sleep a then s\<lparr>main := J_Loop a\<rparr> else s)"

definition thread_func :: "nat \<Rightarrow> mt \<Rightarrow> mt result" where
  "thread_func i s = (case workers s i of
       None \<Rightarrow> Inr s
     | Some (W_Gone, a) \<Rightarrow> Inr s
     | Some (pc, a) \<Rightarrow> bindR (own_struct i a s) (\<lambda>t. case pc of
           W_Run \<Rightarrow> Inr (goto i W_Finish a (store a (t\<lparr>retval := start_routine t (t_arg t)\<rparr>) s))
         | W_Finish \<Rightarrow> Inr (goto i W_Wake a (store a (t\<lparr>is_finished := True\<rparr>) s))
         | W_Wake \<Rightarrow> Inr (goto i W_Exit a (wake a s))
         | W_Exit \<Rightarrow> Inr (goto i W_Gone a s)
         | W_Gone \<Rightarrow> Inr s))"

section \<open>Joining\<close>

text \<open>\<open>FUTEX_WAIT\<close> sleeps only if the futex holds 1, the value it is given.\<close>

definition my_thread_join :: "addr \<Rightarrow> mt \<Rightarrow> mt result" where
  "my_thread_join a s = bindR (load (regions s) (Some a)) (\<lambda>t.
     if \<not> joinable t then Inr s else Inr (s\<lparr>main := J_Loop a\<rparr>))"

definition join_step :: "mt \<Rightarrow> mt result" where
  "join_step s = (case main s of
       M_Idle \<Rightarrow> Inr s
     | J_Loop a \<Rightarrow> bindR (load (regions s) (Some a)) (\<lambda>t.
         if is_finished t then Inr (s\<lparr>main := J_Retval a\<rparr>)
         else if futex t = 1 then Inr (s\<lparr>main := J_Sleep a\<rparr>) else Inr s)
     | J_Sleep a \<Rightarrow> Inr s
     | J_Retval a \<Rightarrow> bindR (load (regions s) (Some a)) (\<lambda>t.
         Inr (s\<lparr>joined := (t_id t, retval t) # joined s, main := J_Reset a\<rparr>))
     | J_Reset a \<Rightarrow> bindR (load (regions s) (Some a)) (\<lambda>t.
         Inr ((store a (t\<lparr>futex := 0\<rparr>) s)\<lparr>main := J_Unmap a\<rparr>))
     | J_Unmap a \<Rightarrow> bindR (load (regions s) (Some a)) (\<lambda>t.
         Inr (s\<lparr>regions := (regions s)(t_stack t := None), main := M_Idle\<rparr>)))"

section \<open>Detaching\<close>

text \<open>
  The first \<open>my_thread_detach\<close> creates the cleanup thread, whose steps are those of \<open>cleanup_thread_func\<close>
  instead of \<open>thread_func\<close>; the flag stays set when this fails. The list has its mutex, so pushing and
  popping are single steps. \<open>my_thread_detach\<close> returns -1 or 0.
\<close>

definition start_cleaner :: "addr option \<Rightarrow> int \<Rightarrow> mt \<Rightarrow> bool \<times> mt" where
  "start_cleaner mapped pid s =
     (if cleanup_thread_started s then (True, s)
      else case my_thread_create mapped pid id 0 (s\<lparr>cleanup_thread_started := True\<rparr>) of
          (None, s) \<Rightarrow> (False, s)
        | (Some _, s) \<Rightarrow> (True, s\<lparr>cleaner := C_Wait, workers := (workers s)(ids s := None)\<rparr>))"

definition my_thread_detach :: "addr option \<Rightarrow> int \<Rightarrow> addr \<Rightarrow> mt \<Rightarrow> (int \<times> mt) result" where
  "my_thread_detach mapped pid a s = bindR (load (regions s) (Some a)) (\<lambda>t.
     if \<not> joinable t then Inr (- 1, s)
     else case start_cleaner mapped pid (store a (t\<lparr>joinable := False\<rparr>) s) of
         (False, s) \<Rightarrow> Inr (- 1, s)
       | (True, s) \<Rightarrow> Inr (0, s\<lparr>cleanup_list := a # cleanup_list s\<rparr>))"

definition cleanup_thread_func :: "mt \<Rightarrow> mt result" where
  "cleanup_thread_func s = (case cleaner s of
       C_None \<Rightarrow> Inr s
     | C_Wait \<Rightarrow> (case cleanup_list s of
           [] \<Rightarrow> Inr s
         | a # as \<Rightarrow> Inr (s\<lparr>cleanup_list := as, cleaner := C_Check a\<rparr>))
     | C_Check a \<Rightarrow> bindR (load (regions s) (Some a)) (\<lambda>t.
         if is_finished t then Inr (s\<lparr>cleaner := C_Unmap a\<rparr>) else Inr s)
     | C_Unmap a \<Rightarrow> bindR (load (regions s) (Some a)) (\<lambda>t.
         Inr (s\<lparr>regions := (regions s)(t_stack t := None), cleaner := C_Wait\<rparr>)))"

section \<open>Programs that use the library\<close>

text \<open>
  One thread of the program creates threads and joins or detaches each of them at most once, while the
  threads run. \<open>mmap\<close> returns an address at which nothing is mapped.
\<close>

inductive mt_trans :: "mt \<Rightarrow> mt \<Rightarrow> bool" where
  created: "main s = M_Idle \<Longrightarrow> (\<And>a. mapped = Some a \<Longrightarrow> regions s a = None) \<Longrightarrow>
    my_thread_create mapped pid routine arg s = (h, t) \<Longrightarrow>
    mt_trans s (t\<lparr>handles := (case h of None \<Rightarrow> handles t | Some a \<Rightarrow> a # handles t)\<rparr>)"
| join_called: "main s = M_Idle \<Longrightarrow> a \<in> set (handles s) \<Longrightarrow> my_thread_join a s = Inr t \<Longrightarrow>
    mt_trans s (t\<lparr>handles := remove1 a (handles t)\<rparr>)"
| detached: "main s = M_Idle \<Longrightarrow> a \<in> set (handles s) \<Longrightarrow> (\<And>b. mapped = Some b \<Longrightarrow> regions s b = None) \<Longrightarrow>
    my_thread_detach mapped pid a s = Inr (r, t) \<Longrightarrow> mt_trans s (t\<lparr>handles := remove1 a (handles t)\<rparr>)"
| joining: "join_step s = Inr t \<Longrightarrow> mt_trans s t"
| running: "thread_func i s = Inr t \<Longrightarrow> mt_trans s t"
| cleaning: "cleanup_thread_func s = Inr t \<Longrightarrow> mt_trans s t"

inductive_cases mt_transE: "mt_trans s t"

section \<open>The invariant\<close>

definition main_addr :: "mt \<Rightarrow> addr list" where
  "main_addr s = (case main s of M_Idle \<Rightarrow> [] | J_Loop a \<Rightarrow> [a] | J_Sleep a \<Rightarrow> [a] | J_Retval a \<Rightarrow> [a] | J_Reset a \<Rightarrow> [a] | J_Unmap a \<Rightarrow> [a])"

definition cleaner_addr :: "mt \<Rightarrow> addr list" where
  "cleaner_addr s = (case cleaner s of C_None \<Rightarrow> [] | C_Wait \<Rightarrow> [] | C_Check a \<Rightarrow> [a] | C_Unmap a \<Rightarrow> [a])"

definition owned :: "mt \<Rightarrow> addr list" where
  "owned s = handles s @ cleanup_list s @ main_addr s @ cleaner_addr s"

text \<open>A mapped region: its structure, and where its thread is.\<close>

definition region_ok :: "mt \<Rightarrow> addr \<Rightarrow> thread_struct \<Rightarrow> bool" where
  "region_ok s a t \<longleftrightarrow> t_stack t = a \<and> t_id t \<le> ids s \<and> futex t = 0 \<and>
     (is_finished t \<longrightarrow> retval t = start_routine t (t_arg t)) \<and>
     (\<forall>pc b. workers s (t_id t) = Some (pc, b) \<longrightarrow> b = a \<and> (is_finished t \<longleftrightarrow> pc \<notin> {W_Run, W_Finish}) \<and>
        (pc = W_Finish \<longrightarrow> retval t = start_routine t (t_arg t)))"

text \<open>A thread that has not set \<open>is_finished\<close> has its stack.\<close>

definition worker_ok :: "mt \<Rightarrow> nat \<Rightarrow> worker_pc \<Rightarrow> addr \<Rightarrow> bool" where
  "worker_ok s i pc a \<longleftrightarrow> i \<le> ids s \<and> (pc \<in> {W_Run, W_Finish} \<longrightarrow> (\<exists>t. regions s a = Some t \<and> t_id t = i))"

definition finished_at :: "mt \<Rightarrow> addr \<Rightarrow> bool" where
  "finished_at s a \<longleftrightarrow> (\<exists>t. regions s a = Some t \<and> is_finished t)"

definition mem_inv :: "mt \<Rightarrow> bool" where
  "mem_inv s \<longleftrightarrow> (\<forall>a t. regions s a = Some t \<longrightarrow> region_ok s a t) \<and>
     (\<forall>a b t u. regions s a = Some t \<longrightarrow> regions s b = Some u \<longrightarrow> t_id t = t_id u \<longrightarrow> a = b) \<and>
     (\<forall>i pc a. workers s i = Some (pc, a) \<longrightarrow> worker_ok s i pc a)"

definition ctl_inv :: "mt \<Rightarrow> bool" where
  "ctl_inv s \<longleftrightarrow> distinct (owned s) \<and> set (owned s) \<subseteq> dom (regions s) \<and>
     (\<forall>a. main s \<in> {J_Retval a, J_Reset a, J_Unmap a} \<longrightarrow> finished_at s a) \<and>
     (\<forall>a. cleaner s = C_Unmap a \<longrightarrow> finished_at s a) \<and> (\<forall>a. main s \<noteq> J_Sleep a)"

definition mt_inv :: "mt \<Rightarrow> bool" where
  "mt_inv s \<longleftrightarrow> mem_inv s \<and> ctl_inv s"

lemma mem_invD:
  assumes "mem_inv s"
  shows "regions s a = Some t \<Longrightarrow> region_ok s a t"
    "regions s a = Some t \<Longrightarrow> regions s b = Some u \<Longrightarrow> t_id t = t_id u \<Longrightarrow> a = b"
    "workers s i = Some (pc, a) \<Longrightarrow> worker_ok s i pc a"
  using assms unfolding mem_inv_def by blast+

lemma mem_inv_same: "mem_inv s \<Longrightarrow> regions t = regions s \<Longrightarrow> ids t = ids s \<Longrightarrow> workers t = workers s \<Longrightarrow> mem_inv t"
  unfolding mem_inv_def region_ok_def worker_ok_def by simp

lemma mem_inv_store:
  assumes i: "mem_inv s" and x: "regions s a = Some x" "t_id y = t_id x"
    and t: "regions t = (regions s)(a \<mapsto> y)" "ids t = ids s"
    and w: "\<And>j. j \<noteq> t_id x \<Longrightarrow> workers t j = workers s j"
      "\<And>pc b. workers t (t_id x) = Some (pc, b) \<Longrightarrow> b = a"
    and y: "region_ok t a y"
  shows "mem_inv t"
  unfolding mem_inv_def
proof (intro conjI allI impI)
  fix b z
  assume b: "regions t b = Some z"
  show "region_ok t b z"
  proof (cases "b = a")
    case False
    then have z: "regions s b = Some z" using b t(1) by simp
    then have "t_id z \<noteq> t_id x" using mem_invD(2)[OF i x(1) z] False by auto
    then show ?thesis using mem_invD(1)[OF i z] w(1) t(2) by (simp add: region_ok_def)
  qed (use b y t(1) in simp)
next
  fix b c z u
  assume *: "regions t b = Some z" "regions t c = Some u" "t_id z = t_id u"
  have old: "\<exists>v. regions s d = Some v \<and> t_id v = t_id w" if "regions t d = Some w" for d w
    using that x t(1) by (cases "d = a") auto
  obtain v v' where "regions s b = Some v" "t_id v = t_id z" "regions s c = Some v'" "t_id v' = t_id u"
    using old[OF *(1)] old[OF *(2)] by blast
  then show "b = c" using mem_invD(2)[OF i, of b v c v'] *(3) by simp
next
  fix j pc b
  assume j: "workers t j = Some (pc, b)"
  show "worker_ok t j pc b"
  proof (cases "j = t_id x")
    case True
    then show ?thesis using w(2) j x t mem_invD(1)[OF i x(1)] by (simp add: worker_ok_def region_ok_def)
  next
    case False
    then have "worker_ok s j pc b" using j w(1) mem_invD(3)[OF i] by simp
    then show ?thesis using x t False by (auto simp: worker_ok_def)
  qed
qed

lemma mem_inv_unmap:
  assumes i: "mem_inv s" and x: "regions s a = Some x" "is_finished x"
    and t: "regions t = (regions s)(a := None)" "ids t = ids s" "workers t = workers s"
  shows "mem_inv t"
  unfolding mem_inv_def
proof (intro conjI allI impI)
  fix b z
  assume "regions t b = Some z"
  then have "region_ok s b z" using t(1) mem_invD(1)[OF i] by (auto split: if_splits)
  then show "region_ok t b z" using t by (simp add: region_ok_def)
next
  fix b c z u
  assume "regions t b = Some z" "regions t c = Some u" "t_id z = t_id u"
  then show "b = c" using mem_invD(2)[OF i, of b z c u] t(1) by (auto split: if_splits)
next
  fix j pc b
  assume j: "workers t j = Some (pc, b)"
  then have ok: "worker_ok s j pc b" using t(3) mem_invD(3)[OF i] by simp
  have "b \<noteq> a" if pc: "pc \<in> {W_Run, W_Finish}"
  proof
    assume "b = a"
    then have "t_id x = j" using ok x pc by (auto simp: worker_ok_def)
    then show False using mem_invD(1)[OF i x(1)] x(2) j t(3) pc by (auto simp: region_ok_def)
  qed
  then show "worker_ok t j pc b" using ok t by (auto simp: worker_ok_def)
qed

lemma mem_inv_create:
  assumes i: "mem_inv s" and a: "regions s a = None"
    and t: "regions t = (regions s)(a \<mapsto> new_struct (ids s + 1) pid a routine arg)" "ids t = ids s + 1"
      "workers t = (workers s)(ids s + 1 := w)" "w \<in> {None, Some (W_Run, a)}"
  shows "mem_inv t"
  unfolding mem_inv_def
proof (intro conjI allI impI)
  fix b z
  assume b: "regions t b = Some z"
  show "region_ok t b z"
  proof (cases "b = a")
    case True
    then show ?thesis using b t by (auto simp: region_ok_def new_struct_def)
  next
    case False
    then have "region_ok s b z" using b t(1) mem_invD(1)[OF i] by simp
    then show ?thesis using t by (auto simp: region_ok_def)
  qed
next
  fix b c z u
  assume *: "regions t b = Some z" "regions t c = Some u" "t_id z = t_id u"
  have "t_id z \<le> ids s" if "regions s b = Some z" for b z using mem_invD(1)[OF i that] by (simp add: region_ok_def)
  then show "b = c" using * mem_invD(2)[OF i, of b z c u] t(1)
    by (auto simp: new_struct_def split: if_splits) fastforce+
next
  fix j pc b
  assume j: "workers t j = Some (pc, b)"
  show "worker_ok t j pc b"
  proof (cases "j = ids s + 1")
    case True
    then show ?thesis using j t by (auto simp: worker_ok_def new_struct_def)
  next
    case False
    then have "worker_ok s j pc b" using j t mem_invD(3)[OF i] by simp
    then show ?thesis using a t by (fastforce simp: worker_ok_def)
  qed
qed

lemma ctl_invD:
  assumes "ctl_inv s"
  shows "distinct (owned s)" "a \<in> set (owned s) \<Longrightarrow> \<exists>t. regions s a = Some t"
    "main s \<in> {J_Retval a, J_Reset a, J_Unmap a} \<Longrightarrow> finished_at s a" "cleaner s = C_Unmap a \<Longrightarrow> finished_at s a"
    "main s \<noteq> J_Sleep a"
  using assms unfolding ctl_inv_def by blast+

lemma ctl_inv_mono:
  assumes "ctl_inv s" "main t = main s" "cleaner t = cleaner s" "cleanup_list t = cleanup_list s" "handles t = handles s"
    and "dom (regions s) \<subseteq> dom (regions t)" "\<And>a. finished_at s a \<Longrightarrow> finished_at t a"
  shows "ctl_inv t"
proof -
  have "owned t = owned s" using assms(2-5) by (simp add: owned_def main_addr_def cleaner_addr_def)
  then show ?thesis using assms unfolding ctl_inv_def by (metis (no_types, lifting) subset_trans)
qed

section \<open>The steps keep it\<close>

lemma own_struct_Inr: "own_struct i a s = Inr t \<longleftrightarrow> regions s a = Some t \<and> t_id t = i"
  by (auto simp: own_struct_def load_def result_simps split: option.splits if_splits)

lemma own_struct_present: "mem_inv s \<Longrightarrow> workers s i = Some (pc, a) \<Longrightarrow> pc \<in> {W_Run, W_Finish} \<Longrightarrow> \<exists>t. own_struct i a s = Inr t"
  using mem_invD(3)[of s i pc a] by (auto simp: worker_ok_def own_struct_Inr)

text \<open>A thread fails only when it has set \<open>is_finished\<close>.\<close>

lemma thread_func_fault:
  assumes "mem_inv s" "thread_func i s = Inl e"
  shows "\<exists>pc a. workers s i = Some (pc, a) \<and> pc \<in> {W_Wake, W_Exit}"
proof -
  obtain pc a where w: "workers s i = Some (pc, a)" "pc \<noteq> W_Gone"
    using assms(2) by (auto simp: thread_func_def split: option.splits worker_pc.splits)
  then have "own_struct i a s = Inl e"
    using assms(2) by (auto simp: thread_func_def result_simps split: worker_pc.splits)
  then show ?thesis using own_struct_present[OF assms(1) w(1)] w by (cases pc) auto
qed

lemma thread_func_inv:
  assumes i: "mem_inv s" "ctl_inv s" and t: "thread_func i s = Inr t"
  shows "mem_inv t \<and> ctl_inv t"
proof (cases "workers s i = None \<or> (\<exists>a. workers s i = Some (W_Gone, a))")
  case True
  then show ?thesis using i t by (auto simp: thread_func_def)
next
  case False
  then obtain pc a where w: "workers s i = Some (pc, a)" "pc \<noteq> W_Gone" by auto
  then obtain x where x: "regions s a = Some x" "t_id x = i"
    using t by (auto simp: thread_func_def result_simps own_struct_Inr split: worker_pc.splits)
  have own: "own_struct i a s = Inr x" using x by (simp add: own_struct_Inr)
  have ok: "region_ok s a x" using mem_invD(1)[OF i(1) x(1)] .
  have wake: "wake a s = s" using ctl_invD(5)[OF i(2)] by (simp add: wake_def)
  have y: "\<exists>y pc'. t = goto i pc' a (store a y s) \<and> t_id y = t_id x \<and> (is_finished x \<longrightarrow> is_finished y) \<and> region_ok t a y"
  proof (cases pc)
    case W_Run
    let ?y = "x\<lparr>retval := start_routine x (t_arg x)\<rparr>"
    have "t = goto i W_Finish a (store a ?y s)" using t w own W_Run by (simp add: thread_func_def)
    then show ?thesis using ok w W_Run x by (intro exI[of _ ?y] exI[of _ W_Finish]) (auto simp: region_ok_def goto_def store_def)
  next
    case W_Finish
    let ?y = "x\<lparr>is_finished := True\<rparr>"
    have "t = goto i W_Wake a (store a ?y s)" using t w own W_Finish by (simp add: thread_func_def)
    then show ?thesis using ok w W_Finish x by (intro exI[of _ ?y] exI[of _ W_Wake]) (auto simp: region_ok_def goto_def store_def)
  next
    case W_Wake
    have "store a x s = s" using x by (simp add: store_def fun_upd_idem)
    then have "t = goto i W_Exit a (store a x s)" using t w own W_Wake wake by (simp add: thread_func_def)
    then show ?thesis using ok w W_Wake x by (intro exI[of _ x] exI[of _ W_Exit]) (auto simp: region_ok_def goto_def store_def)
  next
    case W_Exit
    have "store a x s = s" using x by (simp add: store_def fun_upd_idem)
    then have "t = goto i W_Gone a (store a x s)" using t w own W_Exit by (simp add: thread_func_def)
    then show ?thesis using ok w W_Exit x by (intro exI[of _ x] exI[of _ W_Gone]) (auto simp: region_ok_def goto_def store_def)
  qed (use w in simp)
  then obtain y pc' where y: "t = goto i pc' a (store a y s)" "t_id y = t_id x" "is_finished x \<longrightarrow> is_finished y" "region_ok t a y"
    by blast
  have "mem_inv t"
    by (rule mem_inv_store[OF i(1) x(1) y(2) _ _ _ _ y(4)]) (use x in \<open>auto simp: y(1) goto_def store_def\<close>)
  moreover have "ctl_inv t"
    by (rule ctl_inv_mono[OF i(2)]) (use x y(3) in \<open>auto simp: y(1) goto_def store_def finished_at_def\<close>)
  ultimately show ?thesis by blast
qed

text \<open>The control state changes, the regions do not.\<close>

lemma mt_control:
  assumes i: "mem_inv s" "ctl_inv s" and same: "regions t = regions s" "ids t = ids s" "workers t = workers s"
    and o: "distinct (owned t)" "set (owned t) \<subseteq> set (owned s)"
    and fin: "\<And>a. main t \<in> {J_Retval a, J_Reset a, J_Unmap a} \<Longrightarrow> finished_at s a"
      "\<And>a. cleaner t = C_Unmap a \<Longrightarrow> finished_at s a" "\<And>a. main t \<noteq> J_Sleep a"
  shows "mem_inv t \<and> ctl_inv t"
proof -
  have "finished_at t = finished_at s" by (simp add: fun_eq_iff finished_at_def same)
  then have "ctl_inv t" using i(2) o fin unfolding ctl_inv_def same by auto
  then show ?thesis using mem_inv_same[OF i(1) same] by simp
qed

text \<open>A finished region is unmapped by the one that owns it.\<close>

lemma mt_unmap:
  assumes i: "mem_inv s" "ctl_inv s" and x: "regions s a = Some x" "is_finished x"
    and t: "regions t = (regions s)(a := None)" "ids t = ids s" "workers t = workers s"
    and o: "distinct (owned t)" "set (owned t) \<subseteq> set (owned s) - {a}"
    and fin: "\<And>b. main t \<in> {J_Retval b, J_Reset b, J_Unmap b} \<Longrightarrow> finished_at s b"
      "\<And>b. cleaner t = C_Unmap b \<Longrightarrow> finished_at s b" "\<And>b. main t \<noteq> J_Sleep b"
  shows "mem_inv t \<and> ctl_inv t"
proof -
  have f: "finished_at t b" if "finished_at s b" "b \<noteq> a" for b using that t(1) by (simp add: finished_at_def)
  have "a \<notin> set (owned t)" using o(2) by blast
  then have "b \<noteq> a" if "main t \<in> {J_Retval b, J_Reset b, J_Unmap b} \<or> cleaner t = C_Unmap b" for b
    using that by (auto simp: owned_def main_addr_def cleaner_addr_def)
  then have "ctl_inv t" using i(2) o fin f unfolding ctl_inv_def t(1) by auto
  then show ?thesis using mem_inv_unmap[OF i(1) x t] by simp
qed

lemma join_step_inv:
  assumes i: "mem_inv s" "ctl_inv s"
  shows "returns (\<lambda>t. mem_inv t \<and> ctl_inv t) (join_step s)"
proof (cases "main s")
  case M_Idle
  then show ?thesis using i by (simp add: join_step_def)
next
  case (J_Loop a)
  obtain x where x: "regions s a = Some x" using ctl_invD(2)[OF i(2), of a] J_Loop by (auto simp: owned_def main_addr_def)
  have fu: "futex x = 0" using mem_invD(1)[OF i(1) x] by (simp add: region_ok_def)
  show ?thesis
  proof (cases "is_finished x")
    case True
    have "mem_inv (s\<lparr>main := J_Retval a\<rparr>) \<and> ctl_inv (s\<lparr>main := J_Retval a\<rparr>)"
      by (rule mt_control[OF i]) (use J_Loop x True ctl_invD[OF i(2)] in
        \<open>auto simp: owned_def main_addr_def cleaner_addr_def finished_at_def\<close>)
    then show ?thesis using J_Loop x True by (simp add: join_step_def)
  next
    case False
    then show ?thesis using J_Loop x fu i by (simp add: join_step_def)
  qed
next
  case (J_Sleep a)
  then show ?thesis using ctl_invD(5)[OF i(2)] by blast
next
  case (J_Retval a)
  obtain x where x: "regions s a = Some x" "is_finished x"
    using ctl_invD(3)[OF i(2), of a] J_Retval by (auto simp: finished_at_def)
  have "mem_inv (s\<lparr>joined := (t_id x, retval x) # joined s, main := J_Reset a\<rparr>) \<and>
      ctl_inv (s\<lparr>joined := (t_id x, retval x) # joined s, main := J_Reset a\<rparr>)"
    by (rule mt_control[OF i]) (use J_Retval x ctl_invD[OF i(2)] in
        \<open>auto simp: owned_def main_addr_def cleaner_addr_def finished_at_def\<close>)
  then show ?thesis using J_Retval x by (simp add: join_step_def)
next
  case (J_Reset a)
  obtain x where x: "regions s a = Some x" "is_finished x"
    using ctl_invD(3)[OF i(2), of a] J_Reset by (auto simp: finished_at_def)
  have "futex x = 0" using mem_invD(1)[OF i(1) x(1)] by (simp add: region_ok_def)
  then have "store a (x\<lparr>futex := 0\<rparr>) s = s" using x by (simp add: store_def fun_upd_idem)
  then have t: "join_step s = Inr (s\<lparr>main := J_Unmap a\<rparr>)" using J_Reset x by (simp add: join_step_def)
  have "mem_inv (s\<lparr>main := J_Unmap a\<rparr>) \<and> ctl_inv (s\<lparr>main := J_Unmap a\<rparr>)"
    by (rule mt_control[OF i]) (use J_Reset x ctl_invD[OF i(2)] in
        \<open>auto simp: owned_def main_addr_def cleaner_addr_def finished_at_def\<close>)
  then show ?thesis using t by simp
next
  case (J_Unmap a)
  obtain x where x: "regions s a = Some x" "is_finished x"
    using ctl_invD(3)[OF i(2), of a] J_Unmap by (auto simp: finished_at_def)
  let ?t = "s\<lparr>regions := (regions s)(a := None), main := M_Idle\<rparr>"
  have t: "join_step s = Inr ?t" using J_Unmap x mem_invD(1)[OF i(1) x(1)] by (simp add: join_step_def region_ok_def)
  have "mem_inv ?t \<and> ctl_inv ?t"
    by (rule mt_unmap[OF i x]) (use J_Unmap ctl_invD[OF i(2)] in \<open>auto simp: owned_def main_addr_def cleaner_addr_def\<close>)
  then show ?thesis using t by simp
qed

lemma cleanup_inv:
  assumes i: "mem_inv s" "ctl_inv s"
  shows "returns (\<lambda>t. mem_inv t \<and> ctl_inv t) (cleanup_thread_func s)"
proof (cases "cleaner s")
  case C_None
  then show ?thesis using i by (simp add: cleanup_thread_func_def)
next
  case C_Wait
  show ?thesis
  proof (cases "cleanup_list s")
    case Nil
    then show ?thesis using C_Wait i by (simp add: cleanup_thread_func_def)
  next
    case (Cons a as)
    have "mem_inv (s\<lparr>cleanup_list := as, cleaner := C_Check a\<rparr>) \<and> ctl_inv (s\<lparr>cleanup_list := as, cleaner := C_Check a\<rparr>)"
      by (rule mt_control[OF i]) (use C_Wait Cons ctl_invD[OF i(2)] in \<open>auto simp: owned_def main_addr_def cleaner_addr_def\<close>)
    then show ?thesis using C_Wait Cons by (simp add: cleanup_thread_func_def)
  qed
next
  case (C_Check a)
  obtain x where x: "regions s a = Some x" using ctl_invD(2)[OF i(2), of a] C_Check by (auto simp: owned_def cleaner_addr_def)
  show ?thesis
  proof (cases "is_finished x")
    case True
    have "mem_inv (s\<lparr>cleaner := C_Unmap a\<rparr>) \<and> ctl_inv (s\<lparr>cleaner := C_Unmap a\<rparr>)"
      by (rule mt_control[OF i]) (use C_Check x True ctl_invD[OF i(2)] in
        \<open>auto simp: owned_def main_addr_def cleaner_addr_def finished_at_def\<close>)
    then show ?thesis using C_Check x True by (simp add: cleanup_thread_func_def)
  next
    case False
    then show ?thesis using C_Check x i by (simp add: cleanup_thread_func_def)
  qed
next
  case (C_Unmap a)
  obtain x where x: "regions s a = Some x" "is_finished x"
    using ctl_invD(4)[OF i(2), of a] C_Unmap by (auto simp: finished_at_def)
  let ?t = "s\<lparr>regions := (regions s)(a := None), cleaner := C_Wait\<rparr>"
  have t: "cleanup_thread_func s = Inr ?t"
    using C_Unmap x mem_invD(1)[OF i(1) x(1)] by (simp add: cleanup_thread_func_def region_ok_def)
  have "mem_inv ?t \<and> ctl_inv ?t"
    by (rule mt_unmap[OF i x]) (use C_Unmap ctl_invD[OF i(2)] in \<open>auto simp: owned_def main_addr_def cleaner_addr_def\<close>)
  then show ?thesis using t by simp
qed

text \<open>The calls of the program.\<close>

lemma create_inv:
  assumes i: "mem_inv s" "ctl_inv s" and m: "\<And>a. mapped = Some a \<Longrightarrow> regions s a = None"
    and c: "my_thread_create mapped pid routine arg s = (h, t)"
  shows "mem_inv (t\<lparr>handles := (case h of None \<Rightarrow> handles t | Some a \<Rightarrow> a # handles t)\<rparr>) \<and>
    ctl_inv (t\<lparr>handles := (case h of None \<Rightarrow> handles t | Some a \<Rightarrow> a # handles t)\<rparr>)"
proof (cases h)
  case None
  have "mem_inv (s\<lparr>ids := ids s + 1\<rparr>)" "ctl_inv (s\<lparr>ids := ids s + 1\<rparr>)"
    using i unfolding mem_inv_def ctl_inv_def region_ok_def worker_ok_def finished_at_def owned_def main_addr_def cleaner_addr_def
    by (fastforce, simp)
  then show ?thesis using None c i by (auto simp: my_thread_create_def Let_def split: option.splits if_splits)
next
  case (Some a)
  have a: "mapped = Some a" "t = s\<lparr>ids := ids s + 1, regions := (regions s)(a \<mapsto> new_struct (ids s + 1) pid a routine arg),
      workers := (workers s)(ids s + 1 \<mapsto> (W_Run, a))\<rparr>"
    using Some c by (auto simp: my_thread_create_def Let_def split: option.splits if_splits)
  have new: "regions s a = None" using m a(1) by simp
  then have no: "a \<notin> set (owned s)" using ctl_invD(2)[OF i(2), of a] by auto
  let ?t = "t\<lparr>handles := a # handles t\<rparr>"
  have "mem_inv ?t" by (rule mem_inv_create[OF i(1) new]) (auto simp: a(2))
  moreover have "finished_at ?t b" if "finished_at s b" for b using that new by (auto simp: finished_at_def a(2))
  moreover have "owned ?t = a # owned s" by (simp add: a(2) owned_def main_addr_def cleaner_addr_def)
  ultimately show ?thesis using i(2) no Some unfolding ctl_inv_def by (auto simp: a(2))
qed

lemma join_inv:
  assumes i: "mem_inv s" "ctl_inv s" and a: "main s = M_Idle" "a \<in> set (handles s)"
  shows "returns (\<lambda>t. mem_inv (t\<lparr>handles := remove1 a (handles t)\<rparr>) \<and> ctl_inv (t\<lparr>handles := remove1 a (handles t)\<rparr>)) (my_thread_join a s)"
proof -
  obtain x where x: "regions s a = Some x" using ctl_invD(2)[OF i(2), of a] a by (auto simp: owned_def)
  have d: "distinct (handles s)" using ctl_invD(1)[OF i(2)] by (simp add: owned_def)
  have ok: "mem_inv (s\<lparr>main := pc, handles := remove1 a (handles s)\<rparr>) \<and> ctl_inv (s\<lparr>main := pc, handles := remove1 a (handles s)\<rparr>)"
    if "pc = M_Idle \<or> pc = J_Loop a" for pc
    by (rule mt_control[OF i])
      (use that a d ctl_invD[OF i(2)] in \<open>auto simp: owned_def main_addr_def cleaner_addr_def dest: notin_set_remove1\<close>)
  have "s\<lparr>main := M_Idle\<rparr> = s" using a(1) by (cases s) simp
  then show ?thesis using x ok[of M_Idle] ok[of "J_Loop a"] by (simp add: my_thread_join_def)
qed

lemma store_joinable_inv:
  assumes i: "mem_inv s" "ctl_inv s" and x: "regions s a = Some x"
  shows "mem_inv (store a (x\<lparr>joinable := False\<rparr>) s) \<and> ctl_inv (store a (x\<lparr>joinable := False\<rparr>) s)"
proof
  have ok: "region_ok s a x" using mem_invD(1)[OF i(1) x] .
  show "mem_inv (store a (x\<lparr>joinable := False\<rparr>) s)"
    by (rule mem_inv_store[OF i(1) x, of "x\<lparr>joinable := False\<rparr>"]) (use ok in \<open>auto simp: store_def region_ok_def\<close>)
  show "ctl_inv (store a (x\<lparr>joinable := False\<rparr>) s)"
    by (rule ctl_inv_mono[OF i(2)]) (use x in \<open>auto simp: store_def finished_at_def\<close>)
qed

lemma start_cleaner_inv:
  assumes i: "mem_inv s" "ctl_inv s" and m: "\<And>a. mapped = Some a \<Longrightarrow> regions s a = None"
    and c: "start_cleaner mapped pid s = (started, t)"
  shows "mem_inv t \<and> ctl_inv t \<and> handles t = handles s \<and> main t = main s \<and> cleanup_list t = cleanup_list s"
proof (cases "cleanup_thread_started s")
  case True
  then show ?thesis using i c by (simp add: start_cleaner_def)
next
  case False
  let ?s = "s\<lparr>cleanup_thread_started := True\<rparr>"
  have i': "mem_inv ?s" "ctl_inv ?s"
    using mt_control[OF i, of ?s] ctl_invD[OF i(2)] by (auto simp: owned_def main_addr_def cleaner_addr_def)
  obtain h u where h: "my_thread_create mapped pid id 0 ?s = (h, u)" by (cases "my_thread_create mapped pid id 0 ?s")
  show ?thesis
  proof (cases h)
    case None
    have "mem_inv u \<and> ctl_inv u" using create_inv[OF i' _ h] m None by simp
    then show ?thesis using None h c False
      by (auto simp: start_cleaner_def my_thread_create_def Let_def split: option.splits if_splits)
  next
    case (Some a)
    have a: "mapped = Some a" "t = s\<lparr>cleanup_thread_started := True, ids := ids s + 1,
        regions := (regions s)(a \<mapsto> new_struct (ids s + 1) pid a id 0),
        workers := (workers s)(ids s + 1 := None), cleaner := C_Wait\<rparr>"
      using Some h c False by (auto simp: start_cleaner_def my_thread_create_def Let_def split: option.splits if_splits)
    have new: "regions s a = None" using m a(1) by simp
    have "mem_inv t" by (rule mem_inv_create[OF i(1) new]) (auto simp: a(2))
    moreover have "finished_at t b" if "finished_at s b" for b using that new by (auto simp: finished_at_def a(2))
    moreover have "owned t = handles s @ cleanup_list s @ main_addr s"
      by (simp add: a(2) owned_def main_addr_def cleaner_addr_def)
    ultimately show ?thesis using i(2) unfolding ctl_inv_def owned_def by (auto simp: a(2))
  qed
qed

lemma detach_inv:
  assumes i: "mem_inv s" "ctl_inv s" and a: "main s = M_Idle" "a \<in> set (handles s)"
    and m: "\<And>b. mapped = Some b \<Longrightarrow> regions s b = None"
  shows "returns (\<lambda>(r, t). mem_inv (t\<lparr>handles := remove1 a (handles t)\<rparr>) \<and> ctl_inv (t\<lparr>handles := remove1 a (handles t)\<rparr>))
    (my_thread_detach mapped pid a s)"
proof -
  obtain x where x: "regions s a = Some x" using ctl_invD(2)[OF i(2), of a] a by (auto simp: owned_def)
  have drop: "mem_inv (t\<lparr>handles := remove1 a (handles t)\<rparr>) \<and> ctl_inv (t\<lparr>handles := remove1 a (handles t)\<rparr>) \<and>
      mem_inv (t\<lparr>cleanup_list := a # cleanup_list t, handles := remove1 a (handles t)\<rparr>) \<and>
      ctl_inv (t\<lparr>cleanup_list := a # cleanup_list t, handles := remove1 a (handles t)\<rparr>)"
    if t: "mem_inv t" "ctl_inv t" "handles t = handles s" "main t = M_Idle" for t
  proof -
    have d: "distinct (handles t)" using ctl_invD(1)[OF t(2)] by (simp add: owned_def)
    have "mem_inv (t\<lparr>cleanup_list := l, handles := remove1 a (handles t)\<rparr>) \<and>
        ctl_inv (t\<lparr>cleanup_list := l, handles := remove1 a (handles t)\<rparr>)"
      if "l = cleanup_list t \<or> l = a # cleanup_list t" for l
      by (rule mt_control[OF t(1,2)])
        (use that a(2) t(3,4) d ctl_invD[OF t(2)] in \<open>auto simp: owned_def main_addr_def cleaner_addr_def dest: notin_set_remove1\<close>)
    from this[of "cleanup_list t"] this[of "a # cleanup_list t"] show ?thesis by simp
  qed
  show ?thesis
  proof (cases "joinable x")
    case False
    then show ?thesis using x drop[OF i] a by (simp add: my_thread_detach_def)
  next
    case True
    let ?s = "store a (x\<lparr>joinable := False\<rparr>) s"
    have s1: "mem_inv ?s" "ctl_inv ?s" using store_joinable_inv[OF i x] by auto
    obtain b t where b: "start_cleaner mapped pid ?s = (b, t)" by (cases "start_cleaner mapped pid ?s")
    have "mem_inv t \<and> ctl_inv t \<and> handles t = handles ?s \<and> main t = main ?s \<and> cleanup_list t = cleanup_list ?s"
      by (rule start_cleaner_inv[OF s1 _ b]) (use m x in \<open>auto simp: store_def\<close>)
    then have "mem_inv t" "ctl_inv t" "handles t = handles s" "main t = M_Idle" using a(1) by (auto simp: store_def)
    note drop[OF this]
    then show ?thesis using x True b by (cases b) (auto simp: my_thread_detach_def)
  qed
qed

lemma mt_init_inv: "mem_inv mt_init \<and> ctl_inv mt_init"
  by (simp add: mt_init_def mem_inv_def ctl_inv_def owned_def main_addr_def cleaner_addr_def)

interpretation threads_lib: transition_system "\<lambda>s. s = mt_init" mt_trans "\<lambda>s. mem_inv s \<and> ctl_inv s"
proof
  show "mem_inv s \<and> ctl_inv s" if "s = mt_init" for s using that mt_init_inv by simp
  fix s t
  assume i: "mem_inv s \<and> ctl_inv s" and "mt_trans s t"
  note inv = conjunct1[OF i] conjunct2[OF i]
  from \<open>mt_trans s t\<close> show "mem_inv t \<and> ctl_inv t"
  proof (cases rule: mt_trans.cases)
    case (created mapped routine arg pid h t')
    then show ?thesis using create_inv[OF inv] by blast
  next
    case (join_called a t')
    then show ?thesis using join_inv[OF inv] by fastforce
  next
    case (detached a mapped pid r t')
    then show ?thesis using detach_inv[OF inv, of a mapped pid] by fastforce
  next
    case joining
    then show ?thesis using join_step_inv[OF inv] by simp
  next
    case (running i)
    then show ?thesis using thread_func_inv[OF inv] by blast
  next
    case cleaning
    then show ?thesis using cleanup_inv[OF inv] by simp
  qed
qed

section \<open>Properties\<close>

text \<open>
  C32. \<open>my_thread_join\<close> stores what the thread's routine returned, however the threads are interleaved.
\<close>

theorem join_stores_result:
  assumes "reachable (\<lambda>s. s = mt_init) mt_trans s" "main s = J_Retval a"
  shows "\<exists>t s'. regions s a = Some t \<and> join_step s = Inr s' \<and>
    joined s' = (t_id t, start_routine t (t_arg t)) # joined s"
proof -
  have i: "mem_inv s" "ctl_inv s" using threads_lib.reachable_inv[OF assms(1)] by auto
  obtain t where t: "regions s a = Some t" "is_finished t"
    using ctl_invD(3)[OF i(2), of a] assms(2) by (auto simp: finished_at_def)
  then have "retval t = start_routine t (t_arg t)" using mem_invD(1)[OF i(1)] by (simp add: region_ok_def)
  then show ?thesis using t assms(2) by (simp add: join_step_def)
qed


text \<open>One thread is created at address 1 and joined; the library's steps in this order.\<close>

datatype call = Create addr nat | Join addr | Join_Step | Thread nat

fun do_call :: "call \<Rightarrow> mt \<Rightarrow> mt result" where
  "do_call (Create a arg) s = (case my_thread_create (Some a) 100 Suc arg s of
       (None, t) \<Rightarrow> Inr t | (Some h, t) \<Rightarrow> Inr (t\<lparr>handles := h # handles t\<rparr>))"
| "do_call (Join a) s = bindR (my_thread_join a s) (\<lambda>t. Inr (t\<lparr>handles := remove1 a (handles t)\<rparr>))"
| "do_call Join_Step s = join_step s"
| "do_call (Thread i) s = thread_func i s"

fun do_calls :: "call list \<Rightarrow> mt \<Rightarrow> mt result" where
  "do_calls [] s = Inr s"
| "do_calls (c # cs) s = bindR (do_call c s) (do_calls cs)"

definition call_ok :: "call \<Rightarrow> mt \<Rightarrow> bool" where
  "call_ok c s \<longleftrightarrow> (case c of Create a _ \<Rightarrow> main s = M_Idle \<and> regions s a = None
     | Join a \<Rightarrow> main s = M_Idle \<and> a \<in> set (handles s) | _ \<Rightarrow> True)"

fun calls_ok :: "call list \<Rightarrow> mt \<Rightarrow> bool" where
  "calls_ok [] s = True"
| "calls_ok (c # cs) s \<longleftrightarrow> call_ok c s \<and> returns (calls_ok cs) (do_call c s)"

lemma do_call_trans: "call_ok c s \<Longrightarrow> do_call c s = Inr t \<Longrightarrow> mt_trans s t"
proof (cases c)
  case (Create a arg)
  assume "call_ok c s" "do_call c s = Inr t"
  moreover obtain h u where "my_thread_create (Some a) 100 Suc arg s = (h, u)"
    by (cases "my_thread_create (Some a) 100 Suc arg s")
  ultimately show ?thesis using Create created[of s "Some a" 100 Suc arg h u]
    by (auto simp: call_ok_def split: option.splits)
qed (auto simp: call_ok_def result_simps intro: mt_trans.intros)

lemma do_calls_reachable:
  "reachable (\<lambda>s. s = mt_init) mt_trans s \<Longrightarrow> calls_ok cs s \<Longrightarrow> do_calls cs s = Inr t \<Longrightarrow>
    reachable (\<lambda>s. s = mt_init) mt_trans t"
proof (induction cs arbitrary: s)
  case (Cons c cs)
  then obtain u where u: "do_call c s = Inr u" "do_calls cs u = Inr t" "calls_ok cs u" "call_ok c s"
    by (auto simp: result_simps)
  show ?case by (rule Cons.IH[OF _ u(3,2)]) (use Cons.prems(1) do_call_trans[OF u(4,1)] in \<open>blast intro: reach_step\<close>)
qed simp

definition create_and_join :: "call list" where
  "create_and_join = [Create 1 41, Join 1, Thread 1, Join_Step, Thread 1, Join_Step]"

lemma create_and_join_runs:
  "\<exists>s. do_calls create_and_join mt_init = Inr s \<and> reachable (\<lambda>s. s = mt_init) mt_trans s \<and> main s = J_Retval 1 \<and>
     workers s 1 = Some (W_Wake, 1) \<and> joined s = [] \<and>
     map_option (\<lambda>t. (t_id t, start_routine t (t_arg t))) (regions s 1) = Some (1, 42)"
proof -
  have "calls_ok create_and_join mt_init" by code_simp
  moreover have "returns (\<lambda>s. main s = J_Retval 1 \<and> workers s 1 = Some (W_Wake, 1) \<and> joined s = [] \<and>
     map_option (\<lambda>t. (t_id t, start_routine t (t_arg t))) (regions s 1) = Some (1, 42)) (do_calls create_and_join mt_init)"
    by code_simp
  ultimately show ?thesis using do_calls_reachable[OF reach_start[of "\<lambda>s. s = mt_init", OF refl]]
    unfolding returns_iff by blast
qed

theorem join_stores_result_witness:
  "\<exists>s s'. do_calls create_and_join mt_init = Inr s \<and> join_step s = Inr s' \<and> joined s' = [(1, 42)]"
proof -
  obtain s where s: "do_calls create_and_join mt_init = Inr s" "reachable (\<lambda>s. s = mt_init) mt_trans s" "main s = J_Retval 1"
    "joined s = []" "map_option (\<lambda>t. (t_id t, start_routine t (t_arg t))) (regions s 1) = Some (1, 42)"
    using create_and_join_runs by blast
  from join_stores_result[OF s(2,3)] s show ?thesis by auto
qed


text \<open>
  The joining thread does not wait for the thread's exit, only for \<open>is_finished\<close>: it can unmap the
  stack of a thread that still has to wake it up and to exit, which then runs without a stack.
\<close>

theorem join_unmaps_running_stack:
  "calls_ok (create_and_join @ replicate 3 Join_Step) mt_init \<and>
   failed (do_calls (create_and_join @ replicate 3 Join_Step @ [Thread 1]) mt_init) = Some (BadAccess 1)"
  by code_simp

text \<open>The futex is never set, so the joining thread does not sleep: it calls \<open>FUTEX_WAIT\<close> in a loop.\<close>

lemma join_busy_waits:
  assumes "reachable (\<lambda>s. s = mt_init) mt_trans s" "main s = J_Loop a" "regions s a = Some t" "\<not> is_finished t"
  shows "join_step s = Inr s"
proof -
  have "mem_inv s" using threads_lib.reachable_inv[OF assms(1)] by simp
  then have "futex t = 0" using mem_invD(1) assms(3) by (simp add: region_ok_def)
  then show ?thesis using assms(2-4) by (simp add: join_step_def)
qed

section \<open>The cleanup thread\<close>

primrec clean_run :: "nat \<Rightarrow> mt \<Rightarrow> mt result" where
  "clean_run 0 s = Inr s"
| "clean_run (Suc n) s = bindR (cleanup_thread_func s) (clean_run n)"

lemma clean_one:
  assumes i: "mem_inv s" "ctl_inv s" and s: "cleaner s = C_Wait" "cleanup_list s = a # as" "finished_at s a"
  shows "\<exists>t. clean_run 3 s = Inr t \<and> mem_inv t \<and> ctl_inv t \<and> cleaner t = C_Wait \<and> cleanup_list t = as \<and>
    regions t = (regions s)(a := None)"
proof -
  obtain x where x: "regions s a = Some x" "is_finished x" using s(3) by (auto simp: finished_at_def)
  have st: "t_stack x = a" using mem_invD(1)[OF i(1) x(1)] by (simp add: region_ok_def)
  let ?s1 = "s\<lparr>cleanup_list := as, cleaner := C_Check a\<rparr>"
  let ?s2 = "s\<lparr>cleanup_list := as, cleaner := C_Unmap a\<rparr>"
  let ?s3 = "s\<lparr>cleanup_list := as, regions := (regions s)(a := None), cleaner := C_Wait\<rparr>"
  have st: "cleanup_thread_func s = Inr ?s1" "cleanup_thread_func ?s1 = Inr ?s2" "cleanup_thread_func ?s2 = Inr ?s3"
    using s x st by (simp_all add: cleanup_thread_func_def)
  have "mem_inv ?s1 \<and> ctl_inv ?s1" using cleanup_inv[OF i] st(1) by simp
  then have "mem_inv ?s2 \<and> ctl_inv ?s2" using cleanup_inv[of ?s1] st(2) by simp
  then have "mem_inv ?s3 \<and> ctl_inv ?s3" using cleanup_inv[of ?s2] st(3) by simp
  moreover have "clean_run 3 s = Inr ?s3" using st by (simp add: numeral_3_eq_3)
  ultimately show ?thesis by simp
qed

lemma clean_run_add: "clean_run (m + n) s = bindR (clean_run m s) (clean_run n)"
proof (induction m arbitrary: s)
  case (Suc m)
  have "clean_run (m + n) = (\<lambda>s. bindR (clean_run m s) (clean_run n))" using Suc by (rule ext)
  then show ?case by (simp add: bindR_assoc)
qed simp

lemma clean_all:
  assumes "mem_inv s" "ctl_inv s" "cleaner s = C_Wait" "\<And>a. a \<in> set (cleanup_list s) \<Longrightarrow> finished_at s a"
  shows "\<exists>t. clean_run (3 * length (cleanup_list s)) s = Inr t \<and> cleanup_list t = [] \<and>
    (\<forall>a. regions t a = (if a \<in> set (cleanup_list s) then None else regions s a))"
  using assms
proof (induction "cleanup_list s" arbitrary: s)
  case Nil
  then show ?case by (intro exI[of _ s]) simp
next
  case (Cons a as)
  have l: "cleanup_list s = a # as" using Cons.hyps(2) by simp
  then have "finished_at s a" using Cons.prems(4) by simp
  then obtain u where u: "clean_run 3 s = Inr u" "mem_inv u" "ctl_inv u" "cleaner u = C_Wait" "cleanup_list u = as"
    "regions u = (regions s)(a := None)"
    using clean_one[OF Cons.prems(1-3) l] by blast
  have "distinct (cleanup_list s)" using ctl_invD(1)[OF Cons.prems(2)] by (simp add: owned_def)
  then have "finished_at u b" if "b \<in> set (cleanup_list u)" for b
    using Cons.prems(4)[of b] that u(5,6) l by (auto simp: finished_at_def)
  then obtain t where t: "clean_run (3 * length as) u = Inr t" "cleanup_list t = []"
    "\<forall>a. regions t a = (if a \<in> set as then None else regions u a)"
    using Cons.hyps(1)[of u] u by auto
  have "clean_run (3 * length (cleanup_list s)) s = Inr t"
    using u(1) t(1) l clean_run_add[of 3 "3 * length as" s] by (simp add: numeral_eq_Suc)
  then show ?case using t(2,3) u(6) l by (intro exI[of _ t]) auto
qed

text \<open>
  The cleanup thread unmaps what was detached: when all threads of its list have finished, three of
  its steps for each of them empty the list and unmap exactly their regions.
\<close>

theorem cleanup_unmaps_detached:
  assumes "reachable (\<lambda>s. s = mt_init) mt_trans s" "cleaner s = C_Wait"
    and "\<forall>a \<in> set (cleanup_list s). \<exists>t. regions s a = Some t \<and> is_finished t"
  shows "\<exists>t. clean_run (3 * length (cleanup_list s)) s = Inr t \<and> cleanup_list t = [] \<and>
    (\<forall>a. regions t a = (if a \<in> set (cleanup_list s) then None else regions s a))"
  by (rule clean_all) (use assms threads_lib.reachable_inv[OF assms(1)] in \<open>auto simp: finished_at_def\<close>)

definition detached_one :: "mt result" where
  "detached_one = bindR (do_calls [Create 1 41, Create 2 5, Thread 1, Thread 1] mt_init) (\<lambda>s.
     bindR (my_thread_detach (Some 3) 101 1 s) (\<lambda>(r, s). Inr (s\<lparr>handles := remove1 1 (handles s)\<rparr>)))"

lemma detached_one_runs:
  "\<exists>s. detached_one = Inr s \<and> reachable (\<lambda>s. s = mt_init) mt_trans s \<and> cleaner s = C_Wait \<and> cleanup_list s = [1] \<and>
     finished_at s 1 \<and> regions s 2 \<noteq> None"
proof -
  let ?cs = "[Create 1 41, Create 2 5, Thread 1, Thread 1]"
  have "calls_ok ?cs mt_init" by code_simp
  moreover have "returns (\<lambda>s. main s = M_Idle \<and> 1 \<in> set (handles s) \<and> regions s 3 = None) (do_calls ?cs mt_init)" by code_simp
  ultimately obtain s where s: "do_calls ?cs mt_init = Inr s" "reachable (\<lambda>s. s = mt_init) mt_trans s"
    "main s = M_Idle" "1 \<in> set (handles s)" "regions s 3 = None"
    using do_calls_reachable[OF reach_start[of "\<lambda>s. s = mt_init", OF refl]] unfolding returns_iff by blast
  have d: "returns (\<lambda>s. cleaner s = C_Wait \<and> cleanup_list s = [1] \<and>
     map_option is_finished (regions s 1) = Some True \<and> map_option t_id (regions s 2) \<noteq> None) detached_one" by code_simp
  obtain r t where t: "my_thread_detach (Some 3) 101 1 s = Inr (r, t)" "detached_one = Inr (t\<lparr>handles := remove1 1 (handles t)\<rparr>)"
    using d s(1) by (auto simp: detached_one_def returns_iff result_simps)
  have "mt_trans s (t\<lparr>handles := remove1 1 (handles t)\<rparr>)"
    by (rule detached[OF s(3,4) _ t(1)]) (use s(5) in simp)
  then have "reachable (\<lambda>s. s = mt_init) mt_trans (t\<lparr>handles := remove1 1 (handles t)\<rparr>)" using s(2) by (rule reach_step[rotated])
  then show ?thesis using d[unfolded t(2)] t(2) by (intro exI[of _ "t\<lparr>handles := remove1 1 (handles t)\<rparr>"]) (auto simp: finished_at_def)
qed

theorem cleanup_unmaps_detached_witness:
  "\<exists>s t. detached_one = Inr s \<and> clean_run 3 s = Inr t \<and> regions s 1 \<noteq> None \<and> regions t 1 = None \<and> regions t 2 \<noteq> None"
proof -
  obtain s where s: "detached_one = Inr s" "reachable (\<lambda>s. s = mt_init) mt_trans s" "cleaner s = C_Wait" "cleanup_list s = [1]"
    "finished_at s 1" "regions s 2 \<noteq> None" using detached_one_runs by blast
  then have "\<forall>a \<in> set (cleanup_list s). \<exists>t. regions s a = Some t \<and> is_finished t" by (simp add: finished_at_def)
  from cleanup_unmaps_detached[OF s(2,3) this] s show ?thesis by (auto simp: finished_at_def)
qed

end
