(* ===== verification/Guarded_Queue.thy ===== *)
theory Guarded_Queue
  imports Queue_Race Queue_Plain Locks
begin

text \<open>
  The programs of \<open>task2_4\<close>: the reader and the writer of \<open>Queue_Race\<close>, statement by statement, over
  the unsynchronised queue of \<open>task2_1\<close>, with each call of \<open>queue_add\<close> and \<open>queue_get\<close> between the
  lock and unlock operations of \<open>my_mutex\<close> or of \<open>my_spinlock\<close>. The locale \<open>guarding_lock\<close> is what the
  programs need of a lock; both locks provide it.
\<close>

section \<open>The programs\<close>

text \<open>Where a thread is with respect to the lock.\<close>

datatype phase = Outside | Inside | Busy

text \<open>
  \<open>w_done\<close> and \<open>r_done\<close>: the call inside the critical section has returned. The operations take the
  lock's steps as an argument: \<open>lk b\<close> is the next step of the thread in the lock's code, which it
  enters by locking if \<open>b\<close> holds and by unlocking otherwise.
\<close>

record 'l guarded =
  g_race :: race
  g_lock :: 'l
  w_done :: bool
  r_done :: bool

definition guarded_init :: "int \<Rightarrow> 'l \<Rightarrow> 'l guarded" where
  "guarded_init n l = \<lparr>g_race = race_init n, g_lock = l, w_done = False, r_done = False\<rparr>"

definition guarded_writer :: "phase \<Rightarrow> (bool \<Rightarrow> 'l \<Rightarrow> 'l result) \<Rightarrow> 'l guarded \<Rightarrow> 'l guarded result" where
  "guarded_writer ph lk s = (case ph of
       Outside \<Rightarrow> bindR (lk True (g_lock s)) (\<lambda>l. Inr (s\<lparr>g_lock := l, w_done := False\<rparr>))
     | Busy \<Rightarrow> bindR (lk True (g_lock s)) (\<lambda>l. Inr (s\<lparr>g_lock := l\<rparr>))
     | Inside \<Rightarrow>
         if w_done s then bindR (lk False (g_lock s)) (\<lambda>l. Inr (s\<lparr>g_lock := l\<rparr>))
         else bindR (race_writer (g_race s)) (\<lambda>r. Inr (s\<lparr>g_race := r, w_done := (rw_pc r = WR_Attempt)\<rparr>)))"

text \<open>The reader compares the value after it has unlocked.\<close>

definition guarded_reader :: "phase \<Rightarrow> (bool \<Rightarrow> 'l \<Rightarrow> 'l result) \<Rightarrow> 'l guarded \<Rightarrow> 'l guarded result" where
  "guarded_reader ph lk s = (case ph of
       Outside \<Rightarrow>
         if rr_pc (g_race s) = RR_Check
         then bindR (race_reader (g_race s)) (\<lambda>r. Inr (s\<lparr>g_race := r\<rparr>))
         else bindR (lk True (g_lock s)) (\<lambda>l. Inr (s\<lparr>g_lock := l, r_done := False\<rparr>))
     | Busy \<Rightarrow> bindR (lk True (g_lock s)) (\<lambda>l. Inr (s\<lparr>g_lock := l\<rparr>))
     | Inside \<Rightarrow>
         if r_done s then bindR (lk False (g_lock s)) (\<lambda>l. Inr (s\<lparr>g_lock := l\<rparr>))
         else bindR (race_reader (g_race s)) (\<lambda>r.
           Inr (s\<lparr>g_race := r, r_done := (rr_pc r = RR_Attempt \<or> rr_pc r = RR_Check)\<rparr>)))"

text \<open>The writer is thread 1 of the lock, the reader thread 2; \<open>c\<close> are the choices of the lock's step.\<close>

inductive guarded_trans :: "('l \<Rightarrow> nat \<Rightarrow> phase) \<Rightarrow> ('c \<Rightarrow> nat \<Rightarrow> 'l \<Rightarrow> bool) \<Rightarrow> ('c \<Rightarrow> nat \<Rightarrow> bool \<Rightarrow> 'l \<Rightarrow> 'l result) \<Rightarrow>
    'l guarded \<Rightarrow> 'l guarded \<Rightarrow> bool" for phase lok lk where
  writes: "lok c 1 (g_lock s) \<Longrightarrow> guarded_writer (phase (g_lock s) 1) (lk c 1) s = Inr t \<Longrightarrow> guarded_trans phase lok lk s t"
| reads: "lok c 2 (g_lock s) \<Longrightarrow> guarded_reader (phase (g_lock s) 2) (lk c 2) s = Inr t \<Longrightarrow> guarded_trans phase lok lk s t"

inductive_cases guarded_transE: "guarded_trans phase lok lk s t"

section \<open>What the lock has to provide\<close>

locale guarding_lock = exclusive_lock start step inv owns
  for start :: "'l \<Rightarrow> bool" and step :: "'l \<Rightarrow> 'l \<Rightarrow> bool" and inv :: "'l \<Rightarrow> bool" and owns :: "'l \<Rightarrow> nat \<Rightarrow> bool" +
  fixes phase :: "'l \<Rightarrow> nat \<Rightarrow> phase" and lok :: "'c \<Rightarrow> nat \<Rightarrow> 'l \<Rightarrow> bool"
    and lk :: "'c \<Rightarrow> nat \<Rightarrow> bool \<Rightarrow> 'l \<Rightarrow> 'l result"
  assumes lk_step: "lok c t l \<Longrightarrow> lk c t b l = Inr l' \<Longrightarrow> step l l'"
    and inside_owns: "inv l \<Longrightarrow> phase l t = Inside \<Longrightarrow> owns l t"
    and others_stay: "inv l \<Longrightarrow> lok c t l \<Longrightarrow> lk c t b l = Inr l' \<Longrightarrow> u \<noteq> t \<Longrightarrow> phase l u = Inside \<Longrightarrow> phase l' u = Inside"

section \<open>The calls alone\<close>

text \<open>The next value that the reader has to see, and the queue between two calls.\<close>

definition next_value :: "race \<Rightarrow> int" where
  "next_value r = (if rr_pc r = RR_Check then rr_val r + 1 else rr_expected r)"

definition race_ok :: "race \<Rightarrow> bool" where
  "race_ok r \<longleftrightarrow> (\<exists>as. queue_at (rq r) as [next_value r..rw_i r - 1]) \<and> next_value r \<le> rw_i r \<and>
     dom (q_heap (rq r)) \<subseteq> {..<next_addr r} \<and> rr_errors r = 0 \<and> (rr_pc r = RR_Check \<longrightarrow> rr_val r = rr_expected r)"

definition reader_idle :: "race \<Rightarrow> bool" where
  "reader_idle r \<longleftrightarrow> rr_pc r = RR_Attempt \<or> rr_pc r = RR_Check"

text \<open>Running one thread alone to the end of its call.\<close>

fun writer_rest :: "nat \<Rightarrow> race \<Rightarrow> race result" where
  "writer_rest 0 r = (if rw_pc r = WR_Attempt then Inr r else Inl OutOfFuel)"
| "writer_rest (Suc n) r = (if rw_pc r = WR_Attempt then Inr r else bindR (race_writer r) (writer_rest n))"

fun reader_rest :: "nat \<Rightarrow> race \<Rightarrow> race result" where
  "reader_rest 0 r = (if reader_idle r then Inr r else Inl OutOfFuel)"
| "reader_rest (Suc n) r = (if reader_idle r then Inr r else bindR (race_reader r) (reader_rest n))"

lemma writer_full:
  assumes "rw_pc r = WR_Attempt" "q_count (rq r) = q_max_count (rq r)"
  shows "bindR (race_writer r) (writer_rest 9) = Inr (r\<lparr>rq := (rq r)\<lparr>add_attempts := add_attempts (rq r) + 1\<rparr>, rw_pc := WR_Attempt\<rparr>)"
  using assms by (simp add: race_writer_def Let_def numeral_eq_Suc)

lemma writer_first:
  assumes "rw_pc r = WR_Attempt" "q_count (rq r) < q_max_count (rq r)" "q_first (rq r) = None"
  shows "\<exists>r'. bindR (race_writer r) (writer_rest 9) = Inr r' \<and> queue_add (Some (next_addr r)) (rw_i r) (rq r) = Inr (1, rq r') \<and>
     rw_pc r' = WR_Attempt \<and> rw_i r' = rw_i r + 1 \<and> next_addr r' = next_addr r + 1 \<and>
     rr_pc r' = rr_pc r \<and> rr_expected r' = rr_expected r \<and> rr_val r' = rr_val r \<and> rr_errors r' = rr_errors r"
  using assms by (simp add: race_writer_def Let_def numeral_eq_Suc queue_add_def append_node_def init_node_def)

lemma writer_next:
  assumes "rw_pc r = WR_Attempt" "q_count (rq r) < q_max_count (rq r)" "q_first (rq r) = Some f"
    "q_last (rq r) = Some b" "q_heap (rq r) b = Some n" "b \<noteq> next_addr r"
  shows "\<exists>r'. bindR (race_writer r) (writer_rest 9) = Inr r' \<and> queue_add (Some (next_addr r)) (rw_i r) (rq r) = Inr (1, rq r') \<and>
     rw_pc r' = WR_Attempt \<and> rw_i r' = rw_i r + 1 \<and> next_addr r' = next_addr r + 1 \<and>
     rr_pc r' = rr_pc r \<and> rr_expected r' = rr_expected r \<and> rr_val r' = rr_val r \<and> rr_errors r' = rr_errors r"
  using assms by (simp add: race_writer_def Let_def numeral_eq_Suc queue_add_def append_node_def init_node_def modify_def)

lemma reader_empty:
  assumes "rr_pc r = RR_Attempt" "q_count (rq r) = 0"
  shows "bindR (race_reader r) (reader_rest 9) = Inr (r\<lparr>rq := (rq r)\<lparr>get_attempts := get_attempts (rq r) + 1\<rparr>, rr_pc := RR_Attempt\<rparr>)"
  using assms by (simp add: race_reader_def Let_def numeral_eq_Suc reader_idle_def)

lemma reader_next:
  assumes "rr_pc r = RR_Attempt" "0 < q_count (rq r)" "q_first (rq r) = Some f" "q_heap (rq r) f = Some n"
  shows "\<exists>r'. bindR (race_reader r) (reader_rest 9) = Inr r' \<and> queue_get (rq r) = Inr (1, Some (rr_val r'), rq r') \<and>
     rr_pc r' = RR_Check \<and> rr_expected r' = rr_expected r \<and> rr_errors r' = rr_errors r \<and>
     rw_pc r' = rw_pc r \<and> rw_i r' = rw_i r \<and> next_addr r' = next_addr r"
  using assms by (simp add: race_reader_def Let_def numeral_eq_Suc reader_idle_def queue_get_def release_def)

text \<open>Each call, run alone, is the operation on the queue's values.\<close>

lemma writer_call:
  assumes r: "race_ok r" "rw_pc r = WR_Attempt"
  shows "returns (\<lambda>r'. race_ok r' \<and> rr_pc r' = rr_pc r) (bindR (race_writer r) (writer_rest 9))"
proof -
  obtain as where as: "queue_at (rq r) as [next_value r..rw_i r - 1]" using r(1) by (auto simp: race_ok_def)
  show ?thesis
  proof (cases "q_count (rq r) = q_max_count (rq r)")
    case True
    note writer_full[OF r(2) True]
    then show ?thesis using r(1) as queue_at_attempts(1)[OF as] by (auto simp: race_ok_def next_value_def)
  next
    case False
    have room: "q_count (rq r) < q_max_count (rq r)" using as False by (auto simp: queue_at_def)
    have fr: "q_heap (rq r) (next_addr r) = None" using r(1) by (auto simp: race_ok_def)
    obtain q' where q': "queue_add (Some (next_addr r)) (rw_i r) (rq r) = Inr (1, q')"
      "queue_at q' (as @ [next_addr r]) ([next_value r..rw_i r - 1] @ [rw_i r])"
      "dom (q_heap q') = insert (next_addr r) (dom (q_heap (rq r)))"
      using queue_add_room[OF as False fr] by blast
    have "[next_value r..rw_i r - 1] @ [rw_i r] = [next_value r..rw_i r]"
      using r(1) upto_rec2[of "next_value r" "rw_i r"] by (simp add: race_ok_def)
    moreover obtain r' where r': "bindR (race_writer r) (writer_rest 9) = Inr r'"
      "queue_add (Some (next_addr r)) (rw_i r) (rq r) = Inr (1, rq r')"
      "rw_pc r' = WR_Attempt" "rw_i r' = rw_i r + 1" "next_addr r' = next_addr r + 1"
      "rr_pc r' = rr_pc r" "rr_expected r' = rr_expected r" "rr_val r' = rr_val r" "rr_errors r' = rr_errors r"
    proof (cases "q_first (rq r)")
      case None
      then show thesis using writer_first[OF r(2) room] that by blast
    next
      case (Some f)
      then have ne: "as \<noteq> []" "q_last (rq r) = Some (last as)" "set as \<subseteq> dom (q_heap (rq r))"
        using as by (auto simp: queue_at_def dest: chain_subset_dom)
      then obtain n where "q_heap (rq r) (last as) = Some n" using last_in_set by blast
      then show thesis using writer_next[OF r(2) room Some ne(2)] that fr by fastforce
    qed
    ultimately show ?thesis using r(1) q' by (auto simp: race_ok_def next_value_def)
  qed
qed

lemma reader_call:
  assumes r: "race_ok r" "rr_pc r = RR_Attempt"
  shows "returns (\<lambda>r'. race_ok r' \<and> rw_pc r' = rw_pc r) (bindR (race_reader r) (reader_rest 9))"
proof -
  obtain as where as: "queue_at (rq r) as [rr_expected r..rw_i r - 1]" using r by (auto simp: race_ok_def next_value_def)
  show ?thesis
  proof (cases "as = []")
    case True
    then have "q_count (rq r) = 0" using as by (simp add: queue_at_def)
    note reader_empty[OF r(2) this]
    then show ?thesis using r as queue_at_attempts(2)[OF as] by (auto simp: race_ok_def next_value_def)
  next
    case False
    then obtain f bs where f: "as = f # bs" by (cases as) auto
    then obtain n where n: "q_first (rq r) = Some f" "q_heap (rq r) f = Some n" "0 < q_count (rq r)"
      using as by (auto simp: queue_at_def chain_Cons_iff)
    obtain r' where r': "bindR (race_reader r) (reader_rest 9) = Inr r'" "queue_get (rq r) = Inr (1, Some (rr_val r'), rq r')"
     "rr_pc r' = RR_Check" "rr_expected r' = rr_expected r" "rr_errors r' = rr_errors r"
     "rw_pc r' = rw_pc r" "rw_i r' = rw_i r" "next_addr r' = next_addr r"
      using reader_next[OF r(2) n(3,1,2)] by blast
    have "length [rr_expected r..rw_i r - 1] = length as" using queue_at_length[OF as] .
    then have le: "rr_expected r \<le> rw_i r - 1" using f by simp
    then have "[rr_expected r..rw_i r - 1] = rr_expected r # [rr_expected r + 1..rw_i r - 1]" by (rule upto_rec1)
    then have as': "queue_at (rq r) as (rr_expected r # [rr_expected r + 1..rw_i r - 1])" using as by simp
    then show ?thesis using queue_get_cons[OF as'] r' r le
      by (auto simp: race_ok_def next_value_def)
  qed
qed

section \<open>The invariant\<close>

text \<open>
  Between two calls the queue holds what the writer has inserted and the reader not yet seen. During a
  call the other thread is between two calls, and running the call to its end restores that.
\<close>

definition data_inv :: "race \<Rightarrow> bool" where
  "data_inv r \<longleftrightarrow>
     (rw_pc r = WR_Attempt \<and> reader_idle r \<longrightarrow> race_ok r) \<and>
     (rw_pc r \<noteq> WR_Attempt \<longrightarrow> reader_idle r \<and> (\<exists>n. returns race_ok (writer_rest n r))) \<and>
     (\<not> reader_idle r \<longrightarrow> rw_pc r = WR_Attempt \<and> (\<exists>n. returns race_ok (reader_rest n r)))"

text \<open>Each thread leaves the other's variables alone.\<close>

lemma race_writer_frame:
  "race_writer r = Inr r' \<Longrightarrow> rr_pc r' = rr_pc r \<and> rr_val r' = rr_val r \<and> rr_expected r' = rr_expected r \<and> rr_errors r' = rr_errors r"
  by (cases "rw_pc r") (auto simp: race_writer_def Let_def result_simps split: if_splits)

lemma race_reader_frame: "race_reader r = Inr r' \<Longrightarrow> rw_pc r' = rw_pc r"
  by (cases "rr_pc r") (auto simp: race_reader_def Let_def result_simps split: if_splits)

text \<open>The reader's comparison commutes with the writer's steps.\<close>

definition checked :: "race \<Rightarrow> race" where
  "checked r = r\<lparr>rr_errors := rr_errors r + (if rr_expected r \<noteq> rr_val r then 1 else 0),
                rr_expected := rr_val r + 1, rr_pc := RR_Attempt\<rparr>"

lemma checked_ok: "race_ok r \<Longrightarrow> rr_pc r = RR_Check \<Longrightarrow> race_ok (checked r)"
  by (auto simp: race_ok_def checked_def next_value_def)

lemma checked_pc [simp]: "rw_pc (checked r) = rw_pc r" "rr_pc (checked r) = RR_Attempt"
  by (simp_all add: checked_def)

lemma checked_writer: "race_writer r = Inr r' \<Longrightarrow> race_writer (checked r) = Inr (checked r')"
  by (cases "rw_pc r") (auto simp: race_writer_def checked_def Let_def result_simps split: if_splits)

lemma checked_rest:
  "returns race_ok (writer_rest n r) \<Longrightarrow> rr_pc r = RR_Check \<Longrightarrow> returns race_ok (writer_rest n (checked r))"
proof (induction n arbitrary: r)
  case 0
  then show ?case using checked_ok by (auto split: if_splits)
next
  case (Suc n)
  show ?case
  proof (cases "rw_pc r = WR_Attempt")
    case True
    then show ?thesis using Suc.prems checked_ok by auto
  next
    case False
    then obtain r' where r': "race_writer r = Inr r'" "returns race_ok (writer_rest n r')"
      using Suc.prems by (auto simp: returns_iff result_simps)
    then have "returns race_ok (writer_rest n (checked r'))"
      using Suc.IH[OF r'(2)] Suc.prems(2) race_writer_frame[OF r'(1)] by simp
    then show ?thesis using False checked_writer[OF r'(1)] by simp
  qed
qed

text \<open>A step of a thread whose partner is between two calls.\<close>

lemma data_writer:
  assumes d: "data_inv r" and idle: "reader_idle r"
  shows "returns data_inv (race_writer r)"
proof -
  have "\<exists>n. returns race_ok (bindR (race_writer r) (writer_rest n))"
  proof (cases "rw_pc r = WR_Attempt")
    case True
    then have "race_ok r" using d idle by (simp add: data_inv_def)
    then show ?thesis using writer_call[OF _ True] by (fastforce intro: returns_mono)
  next
    case False
    then obtain n where "returns race_ok (writer_rest n r)" using d by (auto simp: data_inv_def)
    then show ?thesis using False by (cases n) auto
  qed
  then obtain n r' where r': "race_writer r = Inr r'" "returns race_ok (writer_rest n r')"
    by (auto simp: returns_iff result_simps)
  have "reader_idle r'" using idle race_writer_frame[OF r'(1)] by (simp add: reader_idle_def)
  moreover have "race_ok r'" if "rw_pc r' = WR_Attempt" using r'(2) that by (cases n) auto
  ultimately show ?thesis using r' by (auto simp: data_inv_def)
qed

lemma data_reader:
  assumes d: "data_inv r" and idle: "rw_pc r = WR_Attempt" and pc: "rr_pc r \<noteq> RR_Check"
  shows "returns data_inv (race_reader r)"
proof -
  have "\<exists>n. returns race_ok (bindR (race_reader r) (reader_rest n))"
  proof (cases "reader_idle r")
    case True
    then have "race_ok r" "rr_pc r = RR_Attempt" using d idle pc by (auto simp: data_inv_def reader_idle_def)
    then show ?thesis using reader_call by (fastforce intro: returns_mono)
  next
    case False
    then obtain n where "returns race_ok (reader_rest n r)" using d by (auto simp: data_inv_def)
    then show ?thesis using False by (cases n) auto
  qed
  then obtain n r' where r': "race_reader r = Inr r'" "returns race_ok (reader_rest n r')"
    by (auto simp: returns_iff result_simps)
  have "rw_pc r' = WR_Attempt" using idle race_reader_frame[OF r'(1)] by simp
  moreover have "race_ok r'" if "reader_idle r'" using r'(2) that by (cases n) auto
  ultimately show ?thesis using r' by (auto simp: data_inv_def)
qed

lemma data_check:
  assumes d: "data_inv r" and pc: "rr_pc r = RR_Check"
  shows "race_reader r = Inr (checked r)" "data_inv (checked r)"
proof -
  show "race_reader r = Inr (checked r)" using pc by (simp add: race_reader_def checked_def)
  have "reader_idle r" "reader_idle (checked r)" "rw_pc (checked r) = rw_pc r" using pc by (simp_all add: reader_idle_def checked_def)
  then show "data_inv (checked r)" using d checked_ok[OF _ pc] checked_rest[OF _ pc] by (auto simp: data_inv_def)
qed

lemma data_inv_init: "0 \<le> n \<Longrightarrow> data_inv (race_init n)"
  using queue_at_empty[of n] by (auto simp: data_inv_def race_init_def race_ok_def next_value_def reader_idle_def empty_queue_def)

section \<open>Any lock that excludes makes the queue safe\<close>

definition guarded_inv :: "('l \<Rightarrow> bool) \<Rightarrow> ('l \<Rightarrow> nat \<Rightarrow> phase) \<Rightarrow> 'l guarded \<Rightarrow> bool" where
  "guarded_inv linv phase s \<longleftrightarrow> linv (g_lock s) \<and> data_inv (g_race s) \<and> (rr_pc (g_race s) = RR_Check \<longrightarrow> r_done s) \<and>
     (rw_pc (g_race s) \<noteq> WR_Attempt \<longrightarrow> phase (g_lock s) 1 = Inside \<and> \<not> w_done s) \<and>
     (\<not> reader_idle (g_race s) \<longrightarrow> phase (g_lock s) 2 = Inside \<and> \<not> r_done s)"

lemma okRI: "(\<And>x. r = Inr x \<Longrightarrow> P x) \<Longrightarrow> okR P r"
  by (cases r) auto

definition guarded_start :: "('l \<Rightarrow> bool) \<Rightarrow> 'l guarded \<Rightarrow> bool" where
  "guarded_start start s \<longleftrightarrow> (\<exists>n l. 0 \<le> n \<and> start l \<and> s = guarded_init n l)"

lemma writer_rest_errors: "writer_rest n r = Inr r' \<Longrightarrow> rr_errors r' = rr_errors r"
  by (induction n arbitrary: r) (auto simp: result_simps dest: race_writer_frame split: if_splits)

lemma race_reader_errors: "race_reader r = Inr r' \<Longrightarrow> \<not> reader_idle r \<Longrightarrow> rr_errors r' = rr_errors r"
  by (cases "rr_pc r") (auto simp: race_reader_def Let_def result_simps reader_idle_def split: if_splits)

lemma reader_rest_errors: "reader_rest n r = Inr r' \<Longrightarrow> rr_errors r' = rr_errors r"
  by (induction n arbitrary: r) (auto simp: result_simps dest: race_reader_errors split: if_splits)

lemma data_inv_errors: "data_inv r \<Longrightarrow> rr_errors r = 0"
  unfolding data_inv_def returns_iff race_ok_def by (metis reader_rest_errors writer_rest_errors)

context guarding_lock
begin

lemma inside_alone: "inv l \<Longrightarrow> phase l t = Inside \<Longrightarrow> phase l u = Inside \<Longrightarrow> t = u"
  using inside_owns one_owner by blast

text \<open>Inside the critical section no statement of a call fails.\<close>

lemma calls_never_fail:
  assumes i: "guarded_inv inv phase s"
  shows "phase (g_lock s) 1 = Inside \<Longrightarrow> \<not> w_done s \<Longrightarrow> returns data_inv (race_writer (g_race s))"
    and "phase (g_lock s) 2 = Inside \<Longrightarrow> \<not> r_done s \<Longrightarrow> returns data_inv (race_reader (g_race s))"
  using i inside_alone[of "g_lock s" 1 2] data_writer[of "g_race s"] data_reader[of "g_race s"]
  by (auto simp: guarded_inv_def)

text \<open>A step in the lock's code.\<close>

lemma lock_step_inv:
  assumes i: "guarded_inv inv phase s" and l: "lok c t (g_lock s)" "lk c t b (g_lock s) = Inr l"
    and w: "t = 1 \<Longrightarrow> rw_pc (g_race s) = WR_Attempt" and r: "t = 2 \<Longrightarrow> reader_idle (g_race s)"
    and s': "g_lock s' = l" "g_race s' = g_race s" "t \<noteq> 1 \<Longrightarrow> w_done s' = w_done s" "t \<noteq> 2 \<Longrightarrow> r_done s' = r_done s"
      "rr_pc (g_race s) = RR_Check \<Longrightarrow> r_done s' = r_done s"
  shows "guarded_inv inv phase s'"
proof -
  have li: "inv (g_lock s)" using i by (simp add: guarded_inv_def)
  have "inv l" using inv_step[OF li lk_step[OF l]] .
  moreover have "phase l u = Inside" if "u \<noteq> t" "phase (g_lock s) u = Inside" for u
    using others_stay[OF li l that] .
  ultimately show ?thesis using i w r s' unfolding guarded_inv_def reader_idle_def by (metis one_eq_numeral_iff semiring_norm(85))
qed

lemma writer_step_inv:
  assumes i: "guarded_inv inv phase s" and l: "lok c 1 (g_lock s)"
  shows "okR (guarded_inv inv phase) (guarded_writer (phase (g_lock s) 1) (lk c 1) s)"
proof (cases "phase (g_lock s) 1 = Inside \<and> \<not> w_done s")
  case True
  then obtain r where r: "race_writer (g_race s) = Inr r" "data_inv r"
    using calls_never_fail(1)[OF i] by (auto simp: returns_iff)
  have "reader_idle (g_race s)" using i inside_alone[of "g_lock s" 1 2] True by (auto simp: guarded_inv_def)
  moreover have "rr_pc r = rr_pc (g_race s)" using race_writer_frame[OF r(1)] by simp
  ultimately show ?thesis using i True r by (auto simp: guarded_writer_def guarded_inv_def reader_idle_def)
next
  case False
  then have idle: "rw_pc (g_race s) = WR_Attempt" using i by (auto simp: guarded_inv_def)
  have "okR (\<lambda>l. guarded_inv inv phase (s\<lparr>g_lock := l\<rparr>)) (lk c 1 b (g_lock s))"
    "okR (\<lambda>l. guarded_inv inv phase (s\<lparr>g_lock := l, w_done := False\<rparr>)) (lk c 1 b (g_lock s))" for b
    by (rule okRI, rule lock_step_inv[OF i l]; simp add: idle)+
  then show ?thesis using False by (cases "phase (g_lock s) 1") (simp_all add: guarded_writer_def)
qed

lemma reader_step_inv:
  assumes i: "guarded_inv inv phase s" and l: "lok c 2 (g_lock s)"
  shows "okR (guarded_inv inv phase) (guarded_reader (phase (g_lock s) 2) (lk c 2) s)"
proof (cases "phase (g_lock s) 2 = Inside \<and> \<not> r_done s")
  case True
  then obtain r where r: "race_reader (g_race s) = Inr r" "data_inv r"
    using calls_never_fail(2)[OF i] by (auto simp: returns_iff)
  have "rw_pc (g_race s) = WR_Attempt" using i inside_alone[of "g_lock s" 1 2] True by (auto simp: guarded_inv_def)
  moreover have "rw_pc r = rw_pc (g_race s)" using race_reader_frame[OF r(1)] by simp
  ultimately show ?thesis using i True r by (auto simp: guarded_reader_def guarded_inv_def reader_idle_def)
next
  case False
  then have idle: "reader_idle (g_race s)" using i by (auto simp: guarded_inv_def)
  show ?thesis
  proof (cases "phase (g_lock s) 2 = Outside \<and> rr_pc (g_race s) = RR_Check")
    case True
    then show ?thesis using i data_check[of "g_race s"]
      by (auto simp: guarded_reader_def guarded_inv_def checked_def reader_idle_def)
  next
    case check: False
    have "okR (\<lambda>l. guarded_inv inv phase (s\<lparr>g_lock := l\<rparr>)) (lk c 2 b (g_lock s))" for b
      by (rule okRI, rule lock_step_inv[OF i l]) (simp_all add: idle)
    moreover have "okR (\<lambda>l. guarded_inv inv phase (s\<lparr>g_lock := l, r_done := False\<rparr>)) (lk c 2 b (g_lock s))"
      if "rr_pc (g_race s) \<noteq> RR_Check" for b
      by (rule okRI, rule lock_step_inv[OF i l]) (simp_all add: idle that)
    ultimately show ?thesis using False check by (cases "phase (g_lock s) 2") (simp_all add: guarded_reader_def)
  qed
qed

lemma guarded_step_inv:
  assumes "guarded_inv inv phase s" "guarded_trans phase lok lk s t"
  shows "guarded_inv inv phase t"
  using assms(2)
proof (cases rule: guarded_trans.cases)
  case (writes c)
  show ?thesis using writer_step_inv[OF assms(1) writes(1)] writes(2) by simp
next
  case (reads c)
  show ?thesis using reader_step_inv[OF assms(1) reads(1)] reads(2) by simp
qed

lemma guarded_inv_start: "guarded_start start s \<Longrightarrow> guarded_inv inv phase s"
  using data_inv_init inv_start
  by (auto simp: guarded_start_def guarded_inv_def guarded_init_def race_init_def reader_idle_def)

lemma guarded_reachable: "reachable (guarded_start start) (guarded_trans phase lok lk) s \<Longrightarrow> guarded_inv inv phase s"
  by (induction rule: reachable.induct) (auto intro: guarded_inv_start guarded_step_inv)

text \<open>The contract of the program: no statement fails inside a call, and the values come in order.\<close>

lemma guarded_queue_safe:
  assumes "reachable (guarded_start start) (guarded_trans phase lok lk) s"
  shows "rr_errors (g_race s) = 0 \<and>
    (phase (g_lock s) 1 = Inside \<and> \<not> w_done s \<longrightarrow> (\<exists>r. race_writer (g_race s) = Inr r)) \<and>
    (phase (g_lock s) 2 = Inside \<and> \<not> r_done s \<longrightarrow> (\<exists>r. race_reader (g_race s) = Inr r))"
proof -
  have i: "guarded_inv inv phase s" using guarded_reachable[OF assms] .
  then have "data_inv (g_race s)" by (simp add: guarded_inv_def)
  then show ?thesis using calls_never_fail[OF i] data_inv_errors by (auto simp: returns_iff)
qed

end

lemma race_reader_check: "rr_pc r = RR_Check \<Longrightarrow> \<exists>r'. race_reader r = Inr r'"
  by (simp add: race_reader_def)

section \<open>The two locks\<close>

definition mutex_phase :: "my_mutex \<Rightarrow> nat \<Rightarrow> phase" where
  "mutex_phase l t = (case m_pc l t of M_Out \<Rightarrow> Outside | M_In _ \<Rightarrow> Inside | _ \<Rightarrow> Busy)"

definition mutex_ev :: "nat option \<Rightarrow> nat \<Rightarrow> bool \<Rightarrow> mutex_event" where
  "mutex_ev w t b = \<lparr>ev_tid = t, ev_lock = b, ev_intr = False, ev_wake = w\<rparr>"

definition mutex_lok :: "nat option \<Rightarrow> nat \<Rightarrow> my_mutex \<Rightarrow> bool" where
  "mutex_lok w t l \<longleftrightarrow> mutex_event_ok (mutex_ev w t True) l"

definition mutex_lk :: "nat option \<Rightarrow> nat \<Rightarrow> bool \<Rightarrow> my_mutex \<Rightarrow> my_mutex result" where
  "mutex_lk w t b l = my_mutex_step (mutex_ev w t b) l"

definition spin_phase :: "my_spinlock \<Rightarrow> nat \<Rightarrow> phase" where
  "spin_phase l t = (case s_pc l t of S_Out \<Rightarrow> Outside | S_In \<Rightarrow> Inside | _ \<Rightarrow> Busy)"

definition spin_lok :: "bool \<Rightarrow> nat \<Rightarrow> my_spinlock \<Rightarrow> bool" where
  "spin_lok spurious t l \<longleftrightarrow> True"

definition spin_lk :: "bool \<Rightarrow> nat \<Rightarrow> bool \<Rightarrow> my_spinlock \<Rightarrow> my_spinlock result" where
  "spin_lk spurious t b l = Inr (spinlock_step t spurious l)"

text \<open>The threads of the two programs.\<close>

definition mutex_writer :: "nat option \<Rightarrow> my_mutex guarded \<Rightarrow> my_mutex guarded result" where
  "mutex_writer w s = guarded_writer (mutex_phase (g_lock s) 1) (mutex_lk w 1) s"

definition mutex_reader :: "nat option \<Rightarrow> my_mutex guarded \<Rightarrow> my_mutex guarded result" where
  "mutex_reader w s = guarded_reader (mutex_phase (g_lock s) 2) (mutex_lk w 2) s"

definition spin_writer :: "bool \<Rightarrow> my_spinlock guarded \<Rightarrow> my_spinlock guarded result" where
  "spin_writer spurious s = guarded_writer (spin_phase (g_lock s) 1) (spin_lk spurious 1) s"

definition spin_reader :: "bool \<Rightarrow> my_spinlock guarded \<Rightarrow> my_spinlock guarded result" where
  "spin_reader spurious s = guarded_reader (spin_phase (g_lock s) 2) (spin_lk spurious 2) s"

text \<open>
  \<open>main\<close> up to the creation of the threads, with what \<open>malloc\<close> and \<open>pthread_create\<close> return: the program has
  ended (\<open>None\<close>) if a thread could not be created.
\<close>

definition guarded_main :: "int \<Rightarrow> 'l \<Rightarrow> bool \<Rightarrow> int \<Rightarrow> int \<Rightarrow> int \<Rightarrow> 'l guarded option result" where
  "guarded_main n l malloc_ok monitor_err reader_err writer_err =
     bindR (queue_init malloc_ok monitor_err n) (\<lambda>q.
       Inr (if reader_err \<noteq> 0 then None else if writer_err \<noteq> 0 then None
            else Some ((guarded_init n l)\<lparr>g_race := (race_init n)\<lparr>rq := q\<rparr>\<rparr>)))"

definition mutex_main4 :: "bool \<Rightarrow> int \<Rightarrow> int \<Rightarrow> int \<Rightarrow> my_mutex guarded option result" where
  "mutex_main4 = guarded_main 100000 (my_mutex_init MY_MUTEX_NORMAL)"

definition spin_main4 :: "bool \<Rightarrow> int \<Rightarrow> int \<Rightarrow> int \<Rightarrow> my_spinlock guarded option result" where
  "spin_main4 = guarded_main 10000 my_spinlock_init"

lemma guarded_main_start:
  "guarded_main n l malloc_ok monitor_err reader_err writer_err = Inr (Some s) \<Longrightarrow> s = guarded_init n l"
  by (auto simp: guarded_main_def queue_init_def result_simps guarded_init_def race_init_def split: if_splits)

lemma mutex_event_lock: "mutex_event_ok (mutex_ev w t b) l \<longleftrightarrow> mutex_lok w t l"
  by (cases w) (simp_all add: mutex_event_ok_def mutex_lok_def mutex_ev_def)

lemma mutex_others_stay:
  assumes "mutex_lok w t l" "mutex_lk w t b l = Inr l'" "u \<noteq> t" "m_pc l u = M_In d"
  shows "m_pc l' u = M_In d"
proof -
  have "v \<noteq> u" if "w = Some v" for v
    using assms(1,4) that by (auto simp: mutex_lok_def mutex_event_ok_def mutex_ev_def)
  then show ?thesis using assms
    by (cases "m_pc l t") (auto simp: mutex_lk_def my_mutex_step_def mutex_ev_def my_mutex_lock_def my_mutex_unlock_def
        split: if_splits mutex_type.splits option.splits)
qed

interpretation mutex_queue: guarding_lock "\<lambda>l. l = my_mutex_init ty" mutex_trans mutex_inv "\<lambda>l t. owning (m_pc l t)"
  mutex_phase mutex_lok mutex_lk for ty
proof unfold_locales
  show "mutex_trans l l'" if "mutex_lok c t l" "mutex_lk c t b l = Inr l'" for c t b l l'
    using that mutex_transI[of "mutex_ev c t b" l l'] by (simp add: mutex_event_lock mutex_lk_def)
  show "owning (m_pc l t)" if "mutex_phase l t = Inside" for l t
    using that by (auto simp: mutex_phase_def split: mpc.splits)
  show "mutex_phase l' u = Inside"
    if "mutex_lok c t l" "mutex_lk c t b l = Inr l'" "u \<noteq> t" "mutex_phase l u = Inside" for c t b l l' u
    using mutex_others_stay[OF that(1-3)] that(4) by (cases "m_pc l u") (auto simp: mutex_phase_def)
qed

interpretation spin_queue: guarding_lock "\<lambda>l. l = my_spinlock_init" spinlock_trans spinlock_inv spinlock_holds
  spin_phase spin_lok spin_lk
proof unfold_locales
  show "spinlock_trans l l'" if "spin_lk c t b l = Inr l'" for c t b l l'
    using that spinlock_transI by (auto simp: spin_lk_def)
  show "spinlock_holds l t" if "spin_phase l t = Inside" for l t
    using that by (auto simp: spin_phase_def spinlock_holds_def split: spc.splits)
  show "spin_phase l' u = Inside" if "spin_lk c t b l = Inr l'" "u \<noteq> t" "spin_phase l u = Inside" for c t b l l' u
    using that by (cases "s_pc l t") (auto simp: spin_lk_def spin_phase_def spinlock_step_def my_spinlock_lock_def my_spinlock_unlock_def)
qed

section \<open>Properties\<close>


text \<open>
  The program with \<open>my_spinlock\<close>: no step of either thread fails at all, and the reader never sees a
  value that it does not expect.
\<close>

theorem spinlock_guards_queue:
  assumes "reachable (guarded_start (\<lambda>l. l = my_spinlock_init)) (guarded_trans spin_phase spin_lok spin_lk) s"
  shows "rr_errors (g_race s) = 0 \<and> (\<exists>t. spin_writer spurious s = Inr t) \<and> (\<exists>t. spin_reader spurious s = Inr t)"
proof -
  note safe = spin_queue.guarded_queue_safe[OF assms]
  have "\<exists>t. spin_writer spurious s = Inr t"
    using safe by (cases "spin_phase (g_lock s) 1") (auto simp: spin_writer_def guarded_writer_def spin_lk_def)
  moreover have "\<exists>t. spin_reader spurious s = Inr t"
    using safe race_reader_check[of "g_race s"]
    by (cases "spin_phase (g_lock s) 2") (auto simp: spin_reader_def guarded_reader_def spin_lk_def)
  ultimately show ?thesis using safe by blast
qed

text \<open>A run: \<open>True\<close> for a step of the writer, \<open>False\<close> for one of the reader; \<open>check\<close> stops it.\<close>

fun guarded_run :: "('l \<Rightarrow> nat \<Rightarrow> phase) \<Rightarrow> ('l \<Rightarrow> nat \<Rightarrow> bool) \<Rightarrow> (nat \<Rightarrow> bool \<Rightarrow> 'l \<Rightarrow> 'l result) \<Rightarrow> bool list \<Rightarrow>
    'l guarded \<Rightarrow> 'l guarded result" where
  "guarded_run phase check lk [] s = Inr s"
| "guarded_run phase check lk (b # bs) s =
     (if \<not> check (g_lock s) (if b then 1 else 2) then Inl AssertFailed
      else bindR (if b then guarded_writer (phase (g_lock s) 1) (lk 1) s else guarded_reader (phase (g_lock s) 2) (lk 2) s)
        (guarded_run phase check lk bs))"

lemma guarded_run_reachable:
  assumes c: "\<And>t l. check l t \<Longrightarrow> t \<in> {1, 2} \<Longrightarrow> lok c t l"
  shows "reachable st (guarded_trans phase lok lk) s \<Longrightarrow>
    okR (reachable st (guarded_trans phase lok lk)) (guarded_run phase check (lk c) bs s)"
proof (induction bs arbitrary: s)
  case (Cons b bs)
  let ?next = "if b then guarded_writer (phase (g_lock s) 1) (lk c 1) s else guarded_reader (phase (g_lock s) 2) (lk c 2) s"
  have step: "guarded_trans phase lok lk s u" if "check (g_lock s) (if b then 1 else 2)" "?next = Inr u" for u
  proof (cases b)
    case True
    then show ?thesis using that c[of "g_lock s" 1] writes[of lok c s phase lk u] by simp
  next
    case False
    then show ?thesis using that c[of "g_lock s" 2] reads[of lok c s phase lk u] by simp
  qed
  show ?case
  proof (cases "check (g_lock s) (if b then 1 else 2)")
    case True
    have "okR (\<lambda>u. okR (reachable st (guarded_trans phase lok lk)) (guarded_run phase check (lk c) bs u)) ?next"
      by (rule okRI) (use Cons.IH reach_step[OF Cons.prems step[OF True]] in blast)
    then show ?thesis using True by (simp del: okR_if)
  qed simp
qed simp

lemma guarded_run_witness:
  assumes "returns P (guarded_run phase check (lk c) bs (guarded_init n l))" "0 \<le> n" "st l"
    and "\<And>t l. check l t \<Longrightarrow> t \<in> {1, 2} \<Longrightarrow> lok c t l"
  shows "\<exists>s. reachable (guarded_start st) (guarded_trans phase lok lk) s \<and> P s"
proof -
  have st: "reachable (guarded_start st) (guarded_trans phase lok lk) (guarded_init n l)"
    by (rule reach_start) (use assms(2,3) in \<open>auto simp: guarded_start_def\<close>)
  have "okR (reachable (guarded_start st) (guarded_trans phase lok lk)) (guarded_run phase check (lk c) bs (guarded_init n l))"
  proof (rule guarded_run_reachable[OF _ st])
    show "lok c t l" if "check l t" "t \<in> {1, 2}" for t l by (rule assms(4)[OF that])
  qed
  then show ?thesis using assms(1) unfolding returns_iff by (auto dest: okRD)
qed


theorem spinlock_guards_queue_witness:
  "\<exists>s :: my_spinlock guarded. rr_pc (g_race s) = RR_Free \<and> rw_i (g_race s) = 1 \<and> s_pc (g_lock s) 2 = S_In \<and> rr_errors (g_race s) = 0 \<and>
     (\<exists>t. spin_reader False s = Inr t)"
proof -
  have run: "returns (\<lambda>s. rr_pc (g_race s) = RR_Free \<and> rw_i (g_race s) = 1 \<and> s_pc (g_lock s) 2 = S_In \<and> \<not> r_done s)
    (guarded_run spin_phase (\<lambda>_ _. True) (spin_lk False) (replicate 14 True @ replicate 8 False)
      (guarded_init 10000 my_spinlock_init))" by code_simp
  from guarded_run_witness[where lk = spin_lk and c = False and st = "\<lambda>l. l = my_spinlock_init" and lok = spin_lok, OF run]
  obtain s where s: "reachable (guarded_start (\<lambda>l. l = my_spinlock_init)) (guarded_trans spin_phase spin_lok spin_lk) s"
    "rr_pc (g_race s) = RR_Free" "rw_i (g_race s) = 1" "s_pc (g_lock s) 2 = S_In" "\<not> r_done s"
    by (auto simp: spin_lok_def)
  from spinlock_guards_queue[OF s(1)] s show ?thesis by (intro exI[of _ s]) (auto simp: spin_phase_def)
qed

end
