(* ===== verification/Pagemap.thy ===== *)
theory Pagemap
  imports OS_Prelude
begin

unbundle bit_operations_syntax

text \<open>
  \<open>task3_3/main.c\<close>: the mappings of a process are read from \<open>/proc/PID/maps\<close> (\<open>parse_maps\<close>), and for each
  page of each mapping the 64 bits that \<open>/proc/PID/pagemap\<close> holds are decoded and printed
  (\<open>read_pagemap\<close>, \<open>print_entry\<close>). Addresses are words of 64 bits, and their arithmetic wraps.
\<close>

section \<open>Scanning\<close>

text \<open>The conversions of \<open>sscanf\<close> that the program uses, each with what is left of the input.\<close>

definition is_space :: "char \<Rightarrow> bool" where
  "is_space c \<longleftrightarrow> c \<in> set [CHR '' '', CHR 0x09, CHR 0x0A, CHR 0x0B, CHR 0x0C, CHR 0x0D]"

definition skip_ws :: "string \<Rightarrow> string" where
  "skip_ws s = dropWhile is_space s"

text \<open>The value of a character as a digit, 36 if it is none.\<close>

definition digit_val :: "char \<Rightarrow> nat" where
  "digit_val c = (let n = of_char c in
     if 48 \<le> n \<and> n < 58 then n - 48 else if 97 \<le> n \<and> n < 103 then n - 87
     else if 65 \<le> n \<and> n < 71 then n - 55 else 36)"

definition digits_val :: "nat \<Rightarrow> string \<Rightarrow> nat" where
  "digits_val b ds = foldl (\<lambda>n c. n * b + digit_val c) 0 ds"

text \<open>\<open>%lx\<close> and \<open>%lu\<close>: white space, an optional sign, for base 16 an optional \<open>0x\<close>, and digits.\<close>

definition scan_prefix :: "nat \<Rightarrow> string \<Rightarrow> string" where
  "scan_prefix b s = (case s of
       CHR ''0'' # x # c # cs \<Rightarrow>
         if b = 16 \<and> (x = CHR ''x'' \<or> x = CHR ''X'') \<and> digit_val c < 16 then c # cs else s
     | _ \<Rightarrow> s)"

definition scan_number :: "nat \<Rightarrow> string \<Rightarrow> (64 word \<times> string) option" where
  "scan_number b s0 = (let s = skip_ws s0; neg = (s \<noteq> [] \<and> hd s = CHR ''-'');
       t = scan_prefix b (if s \<noteq> [] \<and> (hd s = CHR ''-'' \<or> hd s = CHR ''+'') then tl s else s);
       ds = takeWhile (\<lambda>c. digit_val c < b) t in
     if ds = [] then None
     else Some ((if digits_val b ds \<ge> 2 ^ 64 then - 1
                 else if neg then - of_nat (digits_val b ds) else of_nat (digits_val b ds)), drop (length ds) t))"

text \<open>\<open>%4s\<close> and \<open>%5s\<close>, and \<open>%255[^\n]\<close>.\<close>

definition scan_word :: "nat \<Rightarrow> string \<Rightarrow> (string \<times> string) option" where
  "scan_word n s0 = (let s = skip_ws s0; w = take n (takeWhile (\<lambda>c. \<not> is_space c) s) in
     if w = [] then None else Some (w, drop (length w) s))"

definition scan_rest :: "nat \<Rightarrow> string \<Rightarrow> (string \<times> string) option" where
  "scan_rest n s = (let w = take n (takeWhile (\<lambda>c. c \<noteq> CHR 0x0A) s) in
     if w = [] then None else Some (w, drop (length w) s))"

section \<open>The mappings\<close>

record mapping =
  m_start :: "64 word"
  m_end :: "64 word"
  m_path :: string

text \<open>A line with fewer than six conversions is skipped; without a seventh the name is \<open>[unknown]\<close>.\<close>

definition parse_line :: "string \<Rightarrow> mapping option" where
  "parse_line s = (case scan_number 16 s of
       Some (st, CHR ''-'' # s) \<Rightarrow>
         (case scan_number 16 s of None \<Rightarrow> None
          | Some (en, s) \<Rightarrow>
         (case scan_word 4 s of None \<Rightarrow> None
          | Some (perms, s) \<Rightarrow>
         (case scan_number 16 s of None \<Rightarrow> None
          | Some (off, s) \<Rightarrow>
         (case scan_word 5 s of None \<Rightarrow> None
          | Some (dev, s) \<Rightarrow>
         (case scan_number 10 s of None \<Rightarrow> None
          | Some (inode, s) \<Rightarrow>
              Some \<lparr>m_start = st, m_end = en,
                m_path = (case scan_rest 255 (skip_ws s) of None \<Rightarrow> ''[unknown]'' | Some (name, _) \<Rightarrow> name)\<rparr>)))))
     | _ \<Rightarrow> None)"

text \<open>\<open>fgets\<close> with a buffer of 1024 bytes: at most 1023 bytes, up to the end of the line.\<close>

definition line_size :: nat where "line_size = 1024"

definition fgets_len :: "string \<Rightarrow> nat" where
  "fgets_len s = min (line_size - 1) (let k = length (takeWhile (\<lambda>c. c \<noteq> CHR 0x0A) s) in
     if k < length s then k + 1 else k)"

lemma fgets_len_pos: "s \<noteq> [] \<Longrightarrow> 0 < fgets_len s"
  by (cases s) (auto simp: fgets_len_def line_size_def Let_def)

text \<open>The array has room for 1024 mappings; one more is written past its end.\<close>

definition max_mappings :: nat where "max_mappings = 1024"

function parse_maps :: "string \<Rightarrow> mapping list \<Rightarrow> mapping list result" where
  "parse_maps s ms =
     (if s = [] then Inr ms
      else case parse_line (take (fgets_len s) s) of
          None \<Rightarrow> parse_maps (drop (fgets_len s) s) ms
        | Some m \<Rightarrow> if length ms \<ge> max_mappings then Inl Overrun
            else parse_maps (drop (fgets_len s) s) (ms @ [m]))"
  by pat_completeness auto
termination
  by (relation "measure (\<lambda>(s, ms). length s)") (auto simp: fgets_len_pos)

declare parse_maps.simps [simp del]

section \<open>The pages\<close>

text \<open>A line of output: address, present, swapped, page frame number and name.\<close>

type_synonym page_line = "64 word \<times> int \<times> int \<times> 64 word \<times> string"

definition print_entry :: "64 word \<Rightarrow> 64 word \<Rightarrow> string \<Rightarrow> page_line" where
  "print_entry address entry pathname =
     (address, uint (drop_bit 63 entry AND 1), uint (drop_bit 62 entry AND 1),
      entry AND (push_bit 55 1 - 1), pathname)"

text \<open>
  The pages of one mapping. \<open>pagemap\<close> gives the entry at an offset of the file, \<open>None\<close> if the seek or the
  read fails, which ends the program; the result says whether it goes on. The loop may not end.
\<close>

partial_function (option) read_pages ::
    "64 word \<Rightarrow> (64 word \<Rightarrow> 64 word option) \<Rightarrow> mapping \<Rightarrow> 64 word \<Rightarrow> page_line list \<Rightarrow> (page_line list \<times> bool) option" where
  "read_pages page_size pagemap m address out =
     (if address < m_end m then
        (case pagemap (address div page_size * 8) of
           None \<Rightarrow> Some (out, False)
         | Some entry \<Rightarrow> read_pages page_size pagemap m (address + page_size) (out @ [print_entry address entry (m_path m)]))
      else Some (out, True))"

fun read_mappings ::
    "64 word \<Rightarrow> (64 word \<Rightarrow> 64 word option) \<Rightarrow> mapping list \<Rightarrow> page_line list \<Rightarrow> (page_line list \<times> bool) option" where
  "read_mappings page_size pagemap [] out = Some (out, True)"
| "read_mappings page_size pagemap (m # ms) out =
     (case read_pages page_size pagemap m (m_start m) out of
        None \<Rightarrow> None
      | Some (out, ok) \<Rightarrow> if ok then read_mappings page_size pagemap ms out else Some (out, False))"

text \<open>The files may fail to open; the exit status is returned with the output.\<close>

definition read_pagemap ::
    "64 word \<Rightarrow> (64 word \<Rightarrow> 64 word option) option \<Rightarrow> mapping list \<Rightarrow> (page_line list \<times> bool) option" where
  "read_pagemap page_size file ms = (case file of None \<Rightarrow> Some ([], False) | Some pagemap \<Rightarrow> read_mappings page_size pagemap ms [])"

text \<open>\<open>main\<close>: the path of the files, which are given by name, and the two readings.\<close>

definition proc_path :: "string \<Rightarrow> string \<Rightarrow> string" where
  "proc_path arg name = take 255 (''/proc/'' @ (if arg = ''self'' then ''self'' else arg) @ name)"

definition pagemap_main :: "64 word \<Rightarrow> (string \<Rightarrow> string option) \<Rightarrow> (string \<Rightarrow> (64 word \<Rightarrow> 64 word option) option) \<Rightarrow>
    string option \<Rightarrow> (page_line list \<times> bool) option result" where
  "pagemap_main page_size maps_file pagemap_file arg = (case arg of
       None \<Rightarrow> Inl NullDeref
     | Some a \<Rightarrow>
         (case maps_file (proc_path a ''/maps'') of
            None \<Rightarrow> Inr (Some ([], False))
          | Some content \<Rightarrow>
              bindR (parse_maps content []) (\<lambda>ms.
                Inr (read_pagemap page_size (pagemap_file (proc_path a ''/pagemap'')) ms))))"

section \<open>The maps file\<close>

text \<open>
  The format of a line of \<open>/proc/PID/maps\<close>, as proc(5) documents it: two hexadecimal numbers, four
  permissions, an offset, a device of at most five characters, a decimal inode and, after spaces, a
  name that may be empty.
\<close>

definition number_text :: "nat \<Rightarrow> string \<Rightarrow> 64 word \<Rightarrow> bool" where
  "number_text b ds n \<longleftrightarrow> ds \<noteq> [] \<and> list_all (\<lambda>c. digit_val c < b) ds \<and> digits_val b ds = unat n"

definition word_text :: "nat \<Rightarrow> string \<Rightarrow> bool" where
  "word_text k w \<longleftrightarrow> w \<noteq> [] \<and> length w \<le> k \<and> list_all (\<lambda>c. \<not> is_space c) w"

definition name_text :: "string \<Rightarrow> bool" where
  "name_text p \<longleftrightarrow> list_all (\<lambda>c. c \<noteq> CHR 0x0A) p \<and> (p = [] \<or> \<not> is_space (hd p))"

definition maps_line :: "mapping \<Rightarrow> string \<Rightarrow> bool" where
  "maps_line m l \<longleftrightarrow> (\<exists>st en perms off dev inode spaces path o_val i_val.
     l = st @ ''-'' @ en @ '' '' @ perms @ '' '' @ off @ '' '' @ dev @ '' '' @ inode @ replicate (Suc spaces) (CHR '' '') @ path @ [CHR 0x0A]
     \<and> number_text 16 st (m_start m) \<and> number_text 16 en (m_end m) \<and> word_text 4 perms \<and> length perms = 4
     \<and> number_text 16 off o_val \<and> word_text 5 dev \<and> number_text 10 inode i_val \<and> name_text path
     \<and> length l < line_size \<and> m_path m = (if path = [] then ''[unknown]'' else take 255 path))"

subsection \<open>What each conversion reads\<close>

lemma digit_not_space: "digit_val c < b \<Longrightarrow> b \<le> 16 \<Longrightarrow> \<not> is_space c \<and> c \<noteq> CHR ''-'' \<and> c \<noteq> CHR ''+'' \<and> c \<noteq> CHR ''x'' \<and> c \<noteq> CHR ''X''"
  by (auto simp: digit_val_def is_space_def split: if_splits)

lemma skip_ws_simps [simp]:
  "skip_ws [] = []"
  "is_space c \<Longrightarrow> skip_ws (c # s) = skip_ws s"
  "\<not> is_space c \<Longrightarrow> skip_ws (c # s) = c # s"
  by (simp_all add: skip_ws_def)

lemma skip_spaces [simp]: "skip_ws (replicate k (CHR '' '') @ s) = skip_ws s"
  by (induction k) (simp_all add: skip_ws_def is_space_def)

lemma takeWhile_list_all: "list_all P ds \<Longrightarrow> s = [] \<or> \<not> P (hd s) \<Longrightarrow> takeWhile P (ds @ s) = ds"
  by (induction ds) (cases s, auto)

lemma scan_prefix_digits:
  assumes "list_all (\<lambda>c. digit_val c < b) ds" "ds \<noteq> []" "b \<le> 16" "s \<noteq> [] \<Longrightarrow> digit_val (hd s) = 36 \<and> hd s \<noteq> CHR ''x'' \<and> hd s \<noteq> CHR ''X''"
  shows "scan_prefix b (ds @ s) = ds @ s"
proof -
  obtain d es where ds: "ds = d # es" using assms(2) by (cases ds) auto
  have "x \<noteq> CHR ''x'' \<and> x \<noteq> CHR ''X''" if "es @ s = x # xs" for x xs
    using that assms digit_not_space [of x b] by (cases es) (auto simp: ds)
  then show ?thesis by (auto simp: ds scan_prefix_def split: list.splits char.splits bool.splits)
qed

lemma digits_val_bound: "number_text b ds n \<Longrightarrow> digits_val b ds < 2 ^ 64"
proof -
  have "unat n < 2 ^ 64" by (rule order.strict_trans2 [OF unsigned_less]) simp
  then show "number_text b ds n \<Longrightarrow> digits_val b ds < 2 ^ 64" by (simp only: number_text_def)
qed

lemma scan_number_text:
  assumes "number_text b ds n" "b \<le> 16" "s \<noteq> []" "digit_val (hd s) = 36" "hd s \<noteq> CHR ''x''" "hd s \<noteq> CHR ''X''"
  shows "scan_number b (ds @ s) = Some (n, s)" "scan_number b (CHR '' '' # ds @ s) = Some (n, s)"
proof -
  from assms(1) have ds: "ds \<noteq> []" "list_all (\<lambda>c. digit_val c < b) ds" "digits_val b ds = unat n"
    by (simp_all add: number_text_def)
  then obtain d es where d: "ds = d # es" by (cases ds) auto
  have "digit_val d < b" using ds by (simp add: d)
  with assms(2) have hd: "\<not> is_space d" "d \<noteq> CHR ''-''" "d \<noteq> CHR ''+''" using digit_not_space by blast+
  have t: "takeWhile (\<lambda>c. digit_val c < b) (ds @ s) = ds"
    using ds assms(2-4) by (intro takeWhile_list_all) auto
  have p: "scan_prefix b (ds @ s) = ds @ s"
    using ds assms(2-) by (intro scan_prefix_digits) auto
  have v: "digits_val b ds < 2 ^ 64" by (rule digits_val_bound [OF assms(1)])
  show *: "scan_number b (ds @ s) = Some (n, s)"
    using t p v ds hd by (simp add: scan_number_def Let_def d not_le)
  then show "scan_number b (CHR '' '' # ds @ s) = Some (n, s)"
    by (simp add: scan_number_def is_space_def)
qed

lemma scan_word_text:
  assumes "word_text k w" "s \<noteq> []" "is_space (hd s)"
  shows "scan_word k (CHR '' '' # w @ s) = Some (w, s)"
proof -
  from assms(1) obtain c cs where w: "w = c # cs" "\<not> is_space c" by (cases w) (auto simp: word_text_def)
  have "takeWhile (\<lambda>c. \<not> is_space c) (w @ s) = w"
    using assms by (intro takeWhile_list_all) (auto simp: word_text_def)
  with assms(1) w show ?thesis by (simp add: scan_word_def Let_def word_text_def is_space_def [of "CHR '' ''"])
qed

lemma scan_rest_text:
  assumes "name_text p" "p \<noteq> []"
  shows "scan_rest 255 (skip_ws (p @ [CHR 0x0A])) = Some (take 255 p, drop 255 p @ [CHR 0x0A])"
proof -
  from assms obtain c cs where p: "p = c # cs" "\<not> is_space c" by (cases p) (auto simp: name_text_def)
  have "takeWhile (\<lambda>c. c \<noteq> CHR 0x0A) (p @ [CHR 0x0A]) = p"
    using assms by (intro takeWhile_list_all) (auto simp: name_text_def)
  moreover have "skip_ws (p @ [CHR 0x0A]) = p @ [CHR 0x0A]" by (simp add: p)
  ultimately show ?thesis using p(1) by (simp add: scan_rest_def Let_def min_def)
qed

lemma spaces [simp]: "is_space (CHR '' '')" "is_space (CHR 0x0A)" "digit_val (CHR '' '') = 36" "digit_val (CHR ''-'') = 36"
  by (simp_all add: is_space_def digit_val_def)

lemma scan_rest_Nil [simp]: "scan_rest n [] = None"
  by (simp add: scan_rest_def)

lemma parse_line_text: "maps_line m l \<Longrightarrow> parse_line l = Some m"
  unfolding maps_line_def
  by (elim exE conjE, cases m)
    (auto simp: parse_line_def scan_number_text scan_word_text scan_rest_text split: if_splits)

lemma text_no_newline:
  "number_text b ds n \<Longrightarrow> b \<le> 16 \<Longrightarrow> CHR 0x0A \<notin> set ds"
  "word_text k w \<Longrightarrow> CHR 0x0A \<notin> set w"
  "name_text p \<Longrightarrow> CHR 0x0A \<notin> set p"
  by (auto simp: number_text_def word_text_def name_text_def list_all_iff dest!: digit_not_space bspec)

lemma maps_line_one_line:
  "maps_line m l \<Longrightarrow> \<exists>k. l = k @ [CHR 0x0A] \<and> CHR 0x0A \<notin> set k \<and> length l < line_size"
  unfolding maps_line_def
  by (elim exE conjE, rule exI [of _ "butlast l"]) (auto simp: butlast_append dest: text_no_newline)

lemma fgets_line: "CHR 0x0A \<notin> set k \<Longrightarrow> Suc (length k) < line_size \<Longrightarrow> fgets_len (k @ CHR 0x0A # s) = Suc (length k)"
proof -
  assume k: "CHR 0x0A \<notin> set k" "Suc (length k) < line_size"
  then have "takeWhile (\<lambda>c. c \<noteq> CHR 0x0A) (k @ CHR 0x0A # s) = k"
    by (intro takeWhile_list_all) (auto simp: list_all_iff)
  with k show ?thesis by (simp add: fgets_len_def)
qed

lemma parse_maps_line:
  assumes "maps_line m l"
  shows "parse_maps (l @ s) ms = (if length ms \<ge> max_mappings then Inl Overrun else parse_maps s (ms @ [m]))"
proof -
  obtain k where k: "l = k @ [CHR 0x0A]" "CHR 0x0A \<notin> set k" "length l < line_size"
    using maps_line_one_line [OF assms] by blast
  then have "fgets_len (l @ s) = length l" by (simp add: fgets_line)
  then show ?thesis
    using parse_line_text [OF assms] k(1) by (subst parse_maps.simps) simp
qed

lemma parse_maps_lines:
  assumes "list_all2 maps_line ms ls"
  shows "length acc + length ms \<le> max_mappings \<Longrightarrow> parse_maps (concat ls @ s) acc = parse_maps s (acc @ ms)"
    "length acc \<le> max_mappings \<Longrightarrow> max_mappings < length acc + length ms \<Longrightarrow> parse_maps (concat ls @ s) acc = Inl Overrun"
  using assms by (induction arbitrary: acc rule: list_all2_induct) (simp_all add: parse_maps_line)

section \<open>The pages of a mapping\<close>

text \<open>The pages of a mapping that is a whole number of pages and does not wrap around.\<close>

definition whole_pages :: "64 word \<Rightarrow> mapping \<Rightarrow> bool" where
  "whole_pages ps m \<longleftrightarrow> m_start m \<le> m_end m \<and> unat ps dvd unat (m_end m) - unat (m_start m)"

definition pages_of :: "64 word \<Rightarrow> mapping \<Rightarrow> (64 word \<times> string) list" where
  "pages_of ps m = map (\<lambda>k. (m_start m + of_nat k * ps, m_path m)) [0..<(unat (m_end m) - unat (m_start m)) div unat ps]"

text \<open>The output for a list of pages: up to the first whose entry cannot be read.\<close>

definition page_entry :: "64 word \<Rightarrow> (64 word \<Rightarrow> 64 word option) \<Rightarrow> 64 word \<times> string \<Rightarrow> 64 word option" where
  "page_entry ps pagemap p = pagemap (fst p div ps * 8)"

definition listing :: "64 word \<Rightarrow> (64 word \<Rightarrow> 64 word option) \<Rightarrow> (64 word \<times> string) list \<Rightarrow> page_line list \<times> bool" where
  "listing ps pagemap pages =
     (map (\<lambda>p. print_entry (fst p) (the (page_entry ps pagemap p)) (snd p)) (takeWhile (\<lambda>p. page_entry ps pagemap p \<noteq> None) pages),
      \<forall>p \<in> set pages. page_entry ps pagemap p \<noteq> None)"

declare read_pages.simps [code]

lemma listing_append:
  "listing ps f (xs @ ys) = (if snd (listing ps f xs) then (fst (listing ps f xs) @ fst (listing ps f ys), snd (listing ps f ys)) else listing ps f xs)"
  by (auto simp: listing_def takeWhile_append takeWhile_eq_all_conv [THEN iffD2])

lemma listing_Cons:
  "listing ps f (x # xs) = (case page_entry ps f x of None \<Rightarrow> ([], False)
     | Some e \<Rightarrow> (print_entry (fst x) e (snd x) # fst (listing ps f xs), snd (listing ps f xs)))"
  by (simp add: listing_def split: option.splits)

lemma read_pages_from:
  assumes "unat (m_end m) = unat a + n * unat ps" "0 < ps"
  shows "read_pages ps pm m a out = Some (let l = listing ps pm (map (\<lambda>k. (a + of_nat k * ps, m_path m)) [0..<n]) in (out @ fst l, snd l))"
  using assms
proof (induction n arbitrary: a out)
  case 0
  then have "\<not> a < m_end m" by (simp add: word_less_nat_alt)
  then show ?case by (simp add: read_pages.simps listing_def)
next
  case (Suc n)
  let ?q = "\<lambda>k. (a + of_nat k * ps, m_path m)"
  have ps: "0 < unat ps" using Suc.prems(2) by (simp add: word_less_nat_alt)
  have lt: "a < m_end m" using Suc.prems(1) ps by (simp add: word_less_nat_alt)
  have "unat (m_end m) < 2 ^ LENGTH(64)" by (rule unsigned_less)
  moreover have e: "unat (m_end m) = unat a + unat ps + n * unat ps" using Suc.prems(1) by simp
  ultimately have "unat a + unat ps < 2 ^ LENGTH(64)" by linarith
  then have "unat (a + ps) = unat a + unat ps" by (simp only: unat_add_lem)
  then have "unat (m_end m) = unat (a + ps) + n * unat ps" using e by (simp only:)
  note Suc.IH [OF this Suc.prems(2)]
  then have IH: "read_pages ps pm m (a + ps) out' =
      Some (let l = listing ps pm (map (\<lambda>k. ?q (Suc k)) [0..<n]) in (out' @ fst l, snd l))" for out'
    by (simp add: algebra_simps)
  have q: "map ?q [0..<Suc n] = (a, m_path m) # map (\<lambda>k. ?q (Suc k)) [0..<n]"
    by (simp add: map_upt_Suc del: upt_Suc)
  have "read_pages ps pm m a out = (case pm (a div ps * 8) of None \<Rightarrow> Some (out, False)
      | Some e \<Rightarrow> read_pages ps pm m (a + ps) (out @ [print_entry a e (m_path m)]))"
    using lt by (simp add: read_pages.simps)
  then show ?case
    unfolding q listing_Cons IH by (simp add: Let_def page_entry_def split: option.split)
qed

lemma read_pages_whole:
  assumes "whole_pages ps m" "0 < ps"
  shows "read_pages ps pm m (m_start m) out = Some (let l = listing ps pm (pages_of ps m) in (out @ fst l, snd l))"
proof -
  have "unat (m_start m) \<le> unat (m_end m)" using assms(1) by (simp add: whole_pages_def word_le_nat_alt)
  then have "unat (m_end m) = unat (m_start m) + (unat (m_end m) - unat (m_start m)) div unat ps * unat ps"
    using assms(1) by (simp add: whole_pages_def)
  from read_pages_from [OF this assms(2)] show ?thesis by (simp add: pages_of_def)
qed

lemma read_mappings_whole:
  assumes "list_all (whole_pages ps) ms" "0 < ps"
  shows "read_mappings ps pm ms out = Some (let l = listing ps pm (concat (map (pages_of ps) ms)) in (out @ fst l, snd l))"
  using assms(1)
proof (induction ms arbitrary: out)
  case Nil
  then show ?case by (simp add: listing_def)
next
  case (Cons m ms)
  then show ?case by (simp add: read_pages_whole assms(2) listing_append Let_def)
qed

text \<open>A small maps file.\<close>

definition example_maps :: "string list" where
  "example_maps = [''00400000-00402000 r-xp 00000000 08:02 1835 /bin/cat'' @ [CHR 0x0A],
     ''7ffe1000-7ffe2000 rw-p 00000000 00:00 0 '' @ [CHR 0x0A]]"

definition example_mappings :: "mapping list" where
  "example_mappings = [\<lparr>m_start = 0x400000, m_end = 0x402000, m_path = ''/bin/cat''\<rparr>,
     \<lparr>m_start = 0x7ffe1000, m_end = 0x7ffe2000, m_path = ''[unknown]''\<rparr>]"

lemmas text_simps = number_text_def word_text_def name_text_def digits_val_def digit_val_def is_space_def line_size_def Let_def

lemma maps_lineI:
  assumes "number_text 16 st (m_start m)" "number_text 16 en (m_end m)" "word_text 4 perms" "length perms = 4"
    "number_text 16 off o_val" "word_text 5 dev" "number_text 10 inode i_val" "name_text path"
    "m_path m = (if path = [] then ''[unknown]'' else take 255 path)"
    "l = st @ ''-'' @ en @ '' '' @ perms @ '' '' @ off @ '' '' @ dev @ '' '' @ inode @ replicate (Suc spaces) (CHR '' '') @ path @ [CHR 0x0A]"
    "length l < line_size"
  shows "maps_line m l"
  using assms unfolding maps_line_def by blast

lemma example_maps_lines: "list_all2 maps_line example_mappings example_maps"
proof -
  have "maps_line (hd example_mappings) (hd example_maps)"
    by (rule maps_lineI [of "''00400000''" _ "''00402000''" "''r-xp''" "''00000000''" 0 "''08:02''" "''1835''" 1835 "''/bin/cat''" _ 0])
      (simp_all add: example_maps_def example_mappings_def text_simps)
  moreover have "maps_line (example_mappings ! 1) (example_maps ! 1)"
    by (rule maps_lineI [of "''7ffe1000''" _ "''7ffe2000''" "''rw-p''" "''00000000''" 0 "''00:00''" "''0''" 0 "[]" _ 0])
      (simp_all add: example_maps_def example_mappings_def text_simps)
  ultimately show ?thesis by (simp add: example_maps_def example_mappings_def)
qed

text \<open>
  A device of six characters, which NVMe disks have, does not fit \<open>%5s\<close>: its last digit is read as the
  inode, and the inode as the beginning of the name.
\<close>

lemma long_device_breaks_name:
  "map_option m_path (parse_line (''400000-402000 r-xp 00000000 103:02 1835 /bin/cat'' @ [CHR 0x0A])) = Some ''1835 /bin/cat''"
  by (simp add: parse_line_def scan_number_def scan_word_def scan_rest_def scan_prefix_def skip_ws_def text_simps)

section \<open>Properties\<close>





text \<open>
  A line of output shows the bits of the entry the kernel documents: bit 63 whether the page is present,
  bit 62 whether it is swapped, and the lowest 55 bits as its frame number, whatever the bits between are.
\<close>

theorem print_entry_decodes:
  "print_entry a (push_bit 63 (of_bool p) OR push_bit 62 (of_bool sw) OR push_bit 55 (take_bit 7 soft) OR take_bit 55 pfn) name
    = (a, of_bool p, of_bool sw, take_bit 55 pfn, name)"
proof -
  let ?e = "push_bit 63 (of_bool p) OR push_bit 62 (of_bool sw) OR push_bit 55 (take_bit 7 soft) OR take_bit 55 pfn :: 64 word"
  have "?e AND mask 55 = take_bit 55 pfn"
    by (rule bit_word_eqI) (auto simp: bit_simps)
  moreover have "drop_bit 63 ?e AND 1 = of_bool p"
    by (rule bit_word_eqI) (auto simp: bit_simps)
  moreover have "drop_bit 62 ?e AND 1 = of_bool sw"
    by (rule bit_word_eqI) (auto simp: bit_simps)
  ultimately show ?thesis
    by (simp add: print_entry_def mask_eq_decr_exp push_bit_eq_mult)
qed


end
