(* ===== verification/Proxy_Memory.thy ===== *)
theory Proxy_Memory
  imports Proxy_Text
begin

text \<open>
  Requests of the proxy as they lie in memory: the structure, its queue of headers and the strings they own, with the
  functions of \<open>messages.c\<close> and \<open>request.c\<close> that allocate and free them. They implement the functions of \<open>Proxy_Text\<close> on
  values, and \<open>request_destroy\<close> gives back all a request has ever allocated. What \<open>malloc\<close> and \<open>strdup\<close> return is an
  argument; the code does not check it.
\<close>

section \<open>Memory\<close>

record metadata_item =
  i_key :: ptr
  i_value :: ptr
  i_next :: ptr

record request_struct =
  s_method :: http_method
  s_version :: http_version
  s_path :: ptr
  s_first :: ptr
  s_last :: ptr  \<comment> \<open>\<open>NULL\<close> for an empty queue\<close>

record rmem =
  texts :: "addr \<rightharpoonup> string"
  items :: "addr \<rightharpoonup> metadata_item"
  structs :: "addr \<rightharpoonup> request_struct"

definition no_memory :: rmem where
  "no_memory = \<lparr>texts = Map.empty, items = Map.empty, structs = Map.empty\<rparr>"

definition store_text :: "ptr \<Rightarrow> string \<Rightarrow> rmem \<Rightarrow> rmem" where
  "store_text p str s = (case p of None \<Rightarrow> s | Some a \<Rightarrow> s\<lparr>texts := (texts s)(a \<mapsto> str)\<rparr>)"

section \<open>The functions\<close>

definition m_request_init :: "ptr \<Rightarrow> http_version \<Rightarrow> rmem \<Rightarrow> rmem result" where
  "m_request_init new junk s = (case new of None \<Rightarrow> Inl NullDeref
     | Some a \<Rightarrow> Inr (s\<lparr>structs := (structs s)(a \<mapsto>
         \<lparr>s_method = OPTIONS, s_version = junk, s_path = None, s_first = None, s_last = None\<rparr>)\<rparr>))"

text \<open>\<open>TAILQ_INSERT_TAIL\<close>.\<close>

definition insert_tail :: "addr \<Rightarrow> addr \<Rightarrow> rmem \<Rightarrow> rmem result" where
  "insert_tail r i s =
     bindR (modify (items s) (Some i) (\<lambda>n. n\<lparr>i_next := None\<rparr>)) (\<lambda>h.
     bindR (load (structs s) (Some r)) (\<lambda>b.
     if s_last b = None
     then Inr (s\<lparr>items := h, structs := (structs s)(r \<mapsto> b\<lparr>s_first := Some i, s_last := Some i\<rparr>)\<rparr>)
     else bindR (modify h (s_last b) (\<lambda>n. n\<lparr>i_next := Some i\<rparr>)) (\<lambda>h.
       Inr (s\<lparr>items := h, structs := (structs s)(r \<mapsto> b\<lparr>s_last := Some i\<rparr>)\<rparr>))))"

text \<open>
  A new header at the end: \<open>list_add_key\<close> with the strings given, and the end of \<open>parse_metadata\<close>, which copies
  them to \<open>kp\<close> and \<open>vp\<close> first.
\<close>

definition m_list_add_key :: "addr \<Rightarrow> ptr \<Rightarrow> ptr \<Rightarrow> ptr \<Rightarrow> rmem \<Rightarrow> rmem result" where
  "m_list_add_key r ip kp vp s = (case ip of None \<Rightarrow> Inl NullDeref
     | Some i \<Rightarrow> insert_tail r i (s\<lparr>items := (items s)(i \<mapsto> \<lparr>i_key = kp, i_value = vp, i_next = None\<rparr>)\<rparr>))"

definition m_add_header :: "addr \<Rightarrow> ptr \<Rightarrow> ptr \<Rightarrow> ptr \<Rightarrow> string \<Rightarrow> string \<Rightarrow> rmem \<Rightarrow> rmem result" where
  "m_add_header r ip kp vp k v s = m_list_add_key r ip kp vp (store_text vp v (store_text kp k s))"

text \<open>\<open>parse_method\<close> copies the path to \<open>up\<close>; a path that was there before is not freed.\<close>

definition m_parse_method :: "addr \<Rightarrow> ptr \<Rightarrow> string \<Rightarrow> rmem \<Rightarrow> rmem result" where
  "m_parse_method r up buffer s =
     bindR (load (structs s) (Some r)) (\<lambda>b.
     let q = parse_method \<lparr>req_method = s_method b, req_version = s_version b, search_path = None, metadata = []\<rparr> buffer;
         b = b\<lparr>s_method := req_method q, s_version := req_version q\<rparr> in
     Inr (case search_path q of
        None \<Rightarrow> s\<lparr>structs := (structs s)(r \<mapsto> b)\<rparr>
      | Some path \<Rightarrow> store_text up path (s\<lparr>structs := (structs s)(r \<mapsto> b\<lparr>s_path := up\<rparr>)\<rparr>)))"

text \<open>\<open>parse_metadata\<close> adds a header, or nothing when the line has no name or no value.\<close>

definition m_parse_metadata :: "addr \<Rightarrow> ptr \<Rightarrow> ptr \<Rightarrow> ptr \<Rightarrow> string \<Rightarrow> rmem \<Rightarrow> rmem result" where
  "m_parse_metadata r ip kp vp buffer s =
     (case strtok (CHR '':'') (cstr buffer) of
        None \<Rightarrow> Inr s
      | Some (key, rest) \<Rightarrow>
          (case strtok cr rest of
             None \<Rightarrow> Inr s
           | Some (v, _) \<Rightarrow> m_add_header r ip kp vp key (dropWhile (\<lambda>c. c = CHR '' '') v) s))"

definition m_request_set_url :: "addr \<Rightarrow> ptr \<Rightarrow> string \<Rightarrow> rmem \<Rightarrow> rmem result" where
  "m_request_set_url r up url s =
     bindR (load (structs s) (Some r)) (\<lambda>b.
     bindR (release (texts s) (s_path b)) (\<lambda>t.
     Inr (store_text up url (s\<lparr>texts := t, structs := (structs s)(r \<mapsto> b\<lparr>s_path := up\<rparr>)\<rparr>))))"

text \<open>The search for the header \<open>Host\<close>, whose name is compared without regard to case.\<close>

fun find_host :: "nat \<Rightarrow> ptr \<Rightarrow> rmem \<Rightarrow> ptr result" where
  "find_host 0 p s = Inl OutOfFuel"
| "find_host (Suc fuel) p s =
     (if p = None then Inr None
      else bindR (load (items s) p) (\<lambda>n. bindR (load (texts s) (i_key n)) (\<lambda>k.
        if eq_nocase k ''Host'' then Inr p else find_host fuel (i_next n) s)))"

definition m_request_set_host :: "nat \<Rightarrow> addr \<Rightarrow> ptr \<Rightarrow> ptr \<Rightarrow> ptr \<Rightarrow> string \<Rightarrow> rmem \<Rightarrow> rmem result" where
  "m_request_set_host fuel r ip kp vp host s =
     bindR (load (structs s) (Some r)) (\<lambda>b.
     bindR (find_host fuel (s_first b) s) (\<lambda>p.
     if p = None then m_add_header r ip kp vp ''Host'' host s
     else bindR (load (items s) p) (\<lambda>n.
       bindR (release (texts s) (i_value n)) (\<lambda>t.
       bindR (modify (items s) p (\<lambda>n. n\<lparr>i_value := vp\<rparr>)) (\<lambda>h.
       Inr (store_text vp host (s\<lparr>texts := t, items := h\<rparr>)))))))"

text \<open>The loop of \<open>request_destroy\<close>. What \<open>TAILQ_REMOVE\<close> changes is freed at once.\<close>

fun destroy_items :: "nat \<Rightarrow> ptr \<Rightarrow> rmem \<Rightarrow> rmem result" where
  "destroy_items 0 p s = Inl OutOfFuel"
| "destroy_items (Suc fuel) p s =
     (if p = None then Inr s
      else bindR (load (items s) p) (\<lambda>n.
        bindR (release (texts s) (i_key n)) (\<lambda>t.
        bindR (release t (i_value n)) (\<lambda>t.
        bindR (release (items s) p) (\<lambda>h.
        destroy_items fuel (i_next n) (s\<lparr>texts := t, items := h\<rparr>))))))"

definition m_request_destroy :: "nat \<Rightarrow> ptr \<Rightarrow> rmem \<Rightarrow> rmem result" where
  "m_request_destroy fuel r s = (if r = None then Inr s
     else bindR (load (structs s) r) (\<lambda>b.
       bindR (release (texts s) (s_path b)) (\<lambda>t.
       bindR (destroy_items fuel (s_first b) (s\<lparr>texts := t\<rparr>)) (\<lambda>s.
       bindR (release (structs s) r) (\<lambda>h. Inr (s\<lparr>structs := h\<rparr>))))))"

text \<open>The lines \<open>request_print\<close> shows.\<close>

definition request_print :: "request \<Rightarrow> string list" where
  "request_print r =
     [''HTTP_REQUEST '',
      ''version:'' @ [CHR 0x09] @ (case req_version r of HTTP_VERSION_1_0 \<Rightarrow> ''HTTP/1.0'' | HTTP_VERSION_1_1 \<Rightarrow> ''HTTP/1.1''
         | HTTP_VERSION_INVALID \<Rightarrow> ''Invalid''),
      ''Method:'' @ [CHR 0x09, CHR 0x09] @ (case find (\<lambda>(n, m). m = req_method r) methods of None \<Rightarrow> [] | Some (n, m) \<Rightarrow> n),
      ''Path:'' @ [CHR 0x09, CHR 0x09] @ (case search_path r of None \<Rightarrow> ''(null)'' | Some p \<Rightarrow> p),
      ''Metadata''] @ map (\<lambda>(k, v). k @ '': '' @ v) (metadata r) @ [[]]"

section \<open>Requests in memory\<close>

text \<open>A cell is the address of an item and those of its two strings.\<close>

type_synonym cell = "addr \<times> addr \<times> addr"

definition first_of :: "cell list \<Rightarrow> ptr" where
  "first_of cs = (if cs = [] then None else Some (fst (hd cs)))"

definition last_of :: "cell list \<Rightarrow> ptr" where
  "last_of cs = (if cs = [] then None else Some (fst (last cs)))"

lemma ends_of [simp]:
  "first_of [] = None" "first_of (c # cs) = Some (fst c)" "last_of [] = None" "last_of (cs @ [c]) = Some (fst c)"
  by (simp_all add: first_of_def last_of_def)

fun cells_at :: "(addr \<rightharpoonup> string) \<Rightarrow> (addr \<rightharpoonup> metadata_item) \<Rightarrow> cell list \<Rightarrow> (string \<times> string) list \<Rightarrow> bool" where
  "cells_at T I [] [] \<longleftrightarrow> True"
| "cells_at T I ((i, tk, tv) # cs) ((k, v) # ms) \<longleftrightarrow>
     I i = Some \<lparr>i_key = Some tk, i_value = Some tv, i_next = first_of cs\<rparr> \<and> T tk = Some k \<and> T tv = Some v \<and> cells_at T I cs ms"
| "cells_at T I _ _ \<longleftrightarrow> False"

fun cell_texts :: "cell list \<Rightarrow> addr list" where
  "cell_texts [] = []"
| "cell_texts ((i, tk, tv) # cs) = tk # tv # cell_texts cs"

definition path_texts :: "ptr \<Rightarrow> addr list" where
  "path_texts p = (case p of None \<Rightarrow> [] | Some a \<Rightarrow> [a])"

lemma path_texts_simps [simp]: "path_texts None = []" "path_texts (Some a) = [a]"
  by (simp_all add: path_texts_def)

lemma cell_texts_append [simp]: "cell_texts (cs @ ds) = cell_texts cs @ cell_texts ds"
  by (induction cs rule: cell_texts.induct) simp_all

lemma cells_at_agree:
  "cells_at T I cs ms \<Longrightarrow> (\<And>i. i \<in> set (map fst cs) \<Longrightarrow> I' i = I i) \<Longrightarrow> (\<And>t. t \<in> set (cell_texts cs) \<Longrightarrow> T' t = T t) \<Longrightarrow>
     cells_at T' I' cs ms"
  by (induction T I cs ms rule: cells_at.induct) simp_all

text \<open>
  The request \<open>rq\<close> at the address \<open>r\<close>, and nothing else, is what the memory holds; its path is at \<open>p\<close> and its headers
  are in the cells \<open>cs\<close>.
\<close>

definition path_at :: "(addr \<rightharpoonup> string) \<Rightarrow> ptr \<Rightarrow> string option \<Rightarrow> bool" where
  "path_at T p path = (case p of None \<Rightarrow> path = None | Some a \<Rightarrow> path \<noteq> None \<and> T a = path)"

definition struct_of :: "request \<Rightarrow> ptr \<Rightarrow> cell list \<Rightarrow> request_struct" where
  "struct_of rq p cs = \<lparr>s_method = req_method rq, s_version = req_version rq, s_path = p, s_first = first_of cs, s_last = last_of cs\<rparr>"

definition request_at :: "addr \<Rightarrow> request \<Rightarrow> ptr \<Rightarrow> cell list \<Rightarrow> rmem \<Rightarrow> bool" where
  "request_at r rq p cs s \<longleftrightarrow> structs s = [r \<mapsto> struct_of rq p cs] \<and> path_at (texts s) p (search_path rq) \<and>
     cells_at (texts s) (items s) cs (metadata rq) \<and> distinct (map fst cs) \<and> distinct (path_texts p @ cell_texts cs) \<and>
     dom (items s) = set (map fst cs) \<and> dom (texts s) = set (path_texts p @ cell_texts cs)"

lemma store_text_fields [simp]:
  "items (store_text p str s) = items s" "structs (store_text p str s) = structs s"
  "texts (store_text (Some a) str s) = (texts s)(a \<mapsto> str)"
  by (auto simp: store_text_def split: option.split)

lemma unused: "dom m = A \<Longrightarrow> m a = None \<Longrightarrow> a \<notin> A"
  by auto

section \<open>The functions implement those on values\<close>

lemma init_at:
  "\<exists>s. m_request_init (Some r) junk no_memory = Inr s \<and>
     request_at r (request_init junk) None [] s"
  by (simp add: m_request_init_def no_memory_def request_at_def request_init_def struct_of_def path_at_def)

lemma cells_at_snoc:
  "cells_at T I cs ms \<Longrightarrow> cs \<noteq> [] \<Longrightarrow> distinct (map fst cs) \<Longrightarrow> j \<notin> set (map fst cs) \<Longrightarrow>
   I j = Some \<lparr>i_key = Some tk, i_value = Some tv, i_next = None\<rparr> \<Longrightarrow> T tk = Some k \<Longrightarrow> T tv = Some v \<Longrightarrow>
   \<exists>n. I (fst (last cs)) = Some n \<and>
     cells_at T (I(fst (last cs) \<mapsto> n\<lparr>i_next := Some j\<rparr>)) (cs @ [(j, tk, tv)]) (ms @ [(k, v)])"
proof (induction T I cs ms rule: cells_at.induct)
  case (2 T I i ti tw cs k' v' ms)
  show ?case
  proof (cases "cs = []")
    case True
    with 2 show ?thesis by (cases ms) auto
  next
    case False
    with 2 obtain n where n: "I (fst (last cs)) = Some n"
      "cells_at T (I(fst (last cs) \<mapsto> n\<lparr>i_next := Some j\<rparr>)) (cs @ [(j, tk, tv)]) (ms @ [(k, v)])"
      by (auto simp del: fun_upd_apply)
    have "last cs \<in> set cs" using False by simp
    then have "fst (last cs) \<noteq> i" using "2.prems"(3) by auto
    moreover have "first_of (cs @ [(j, tk, tv)]) = first_of cs" using False by (simp add: first_of_def)
    ultimately show ?thesis using n False "2.prems"(1) by (simp del: fun_upd_apply add: fun_upd_other)
  qed
qed simp_all

lemma add_header_at:
  assumes at: "request_at r rq p cs s" and i: "items s i = None" and t: "texts s tk = None" "texts s tv = None" "tk \<noteq> tv"
  shows "\<exists>s'. m_add_header r (Some i) (Some tk) (Some tv) k v s = Inr s' \<and>
    request_at r (rq\<lparr>metadata := metadata rq @ [(k, v)]\<rparr>) p (cs @ [(i, tk, tv)]) s'"
proof -
  note at = at [unfolded request_at_def]
  define T where "T = (texts s)(tk \<mapsto> k, tv \<mapsto> v)"
  define I where "I = (items s)(i \<mapsto> \<lparr>i_key = Some tk, i_value = Some tv, i_next = None\<rparr>)"
  have b: "structs s = [r \<mapsto> struct_of rq p cs]" using at by blast
  have domI: "dom (items s) = set (map fst cs)" and domT: "dom (texts s) = set (path_texts p @ cell_texts cs)" using at by blast+
  have new: "i \<notin> set (map fst cs)" "tk \<notin> set (path_texts p @ cell_texts cs)" "tv \<notin> set (path_texts p @ cell_texts cs)"
    by (rule unused [OF domI i], rule unused [OF domT t(1)], rule unused [OF domT t(2)])
  have d: "distinct (map fst cs)" "distinct (path_texts p @ cell_texts cs)" using at by blast+
  have path: "path_at T p (search_path rq)"
    using at t(1,2) by (auto simp: T_def path_at_def split: option.splits)
  have "cells_at (texts s) (items s) cs (metadata rq)" using at by blast
  then have cells: "cells_at T I cs (metadata rq)"
    by (rule cells_at_agree) (use new in \<open>auto simp: T_def I_def\<close>)
  have I: "I i = Some \<lparr>i_key = Some tk, i_value = Some tv, i_next = None\<rparr>" "T tk = Some k" "T tv = Some v"
    using t(3) by (simp_all add: I_def T_def)
  have domT': "dom T = set (path_texts p @ cell_texts (cs @ [(i, tk, tv)]))" using domT by (auto simp: T_def)
  have dist: "distinct (path_texts p @ cell_texts (cs @ [(i, tk, tv)]))" using d(2) new(2,3) t(3) by auto
  show ?thesis
  proof (cases "cs = []")
    case True
    let ?s = "\<lparr>texts = T, items = I, structs = [r \<mapsto> struct_of rq p [(i, tk, tv)]]\<rparr>"
    have "metadata rq = []" using cells True by (cases "metadata rq") simp_all
    then have "cells_at T I [(i, tk, tv)] (metadata rq @ [(k, v)])" using I by simp
    moreover have "dom I = {i}" using domI True by (simp add: I_def)
    ultimately have "request_at r (rq\<lparr>metadata := metadata rq @ [(k, v)]\<rparr>) p [(i, tk, tv)] ?s"
      unfolding request_at_def using True path domT' dist by (simp add: struct_of_def)
    moreover have "m_add_header r (Some i) (Some tk) (Some tv) k v s = Inr ?s"
      using b True by (simp add: m_add_header_def m_list_add_key_def insert_tail_def T_def I_def store_text_def struct_of_def
          last_of_def [of "[(i, tk, tv)]"])
    ultimately show ?thesis using True by simp
  next
    case False
    obtain n where n: "I (fst (last cs)) = Some n"
      "cells_at T (I(fst (last cs) \<mapsto> n\<lparr>i_next := Some i\<rparr>)) (cs @ [(i, tk, tv)]) (metadata rq @ [(k, v)])"
      using cells_at_snoc [OF cells False d(1) new(1) I] by blast
    let ?I = "I(fst (last cs) \<mapsto> n\<lparr>i_next := Some i\<rparr>)"
    let ?s = "\<lparr>texts = T, items = ?I, structs = [r \<mapsto> struct_of rq p (cs @ [(i, tk, tv)])]\<rparr>"
    have "fst (last cs) \<in> set (map fst cs)" using False by simp
    then have domI': "dom ?I = set (map fst (cs @ [(i, tk, tv)]))" using domI by (auto simp: I_def)
    have "request_at r (rq\<lparr>metadata := metadata rq @ [(k, v)]\<rparr>) p (cs @ [(i, tk, tv)]) ?s"
      unfolding request_at_def using n(2) path domI' domT' dist d(1) new(1) by (simp add: struct_of_def)
    moreover have "m_add_header r (Some i) (Some tk) (Some tv) k v s = Inr ?s"
      using b False n(1) by (simp add: m_add_header_def m_list_add_key_def insert_tail_def T_def I_def store_text_def struct_of_def
          first_of_def last_of_def)
    ultimately show ?thesis by blast
  qed
qed

lemma set_url_at:
  assumes at: "request_at r rq p cs s" and u: "texts s u = None \<or> p = Some u"
  shows "\<exists>s'. m_request_set_url r (Some u) url s = Inr s' \<and> request_at r (request_set_url rq url) (Some u) cs s'"
proof -
  note at = at [unfolded request_at_def]
  define t where "t = (case p of None \<Rightarrow> texts s | Some a \<Rightarrow> (texts s)(a := None))"
  let ?s = "\<lparr>texts = t(u \<mapsto> url), items = items s, structs = [r \<mapsto> struct_of (request_set_url rq url) (Some u) cs]\<rparr>"
  have domT: "dom (texts s) = set (path_texts p @ cell_texts cs)" and d: "distinct (path_texts p @ cell_texts cs)"
    using at by blast+
  have rel: "release (texts s) p = Inr t"
    using at by (cases p) (auto simp: t_def release_def path_at_def)
  have u': "u \<notin> set (cell_texts cs)"
  proof (cases "p = Some u")
    case True
    then show ?thesis using d by simp
  next
    case False
    with u have "texts s u = None" by blast
    from unused [OF domT this] show ?thesis by simp
  qed
  have "cells_at (texts s) (items s) cs (metadata rq)" using at by blast
  then have "cells_at (t(u \<mapsto> url)) (items s) cs (metadata rq)"
    by (rule cells_at_agree) (use u' d in \<open>auto simp: t_def split: option.splits\<close>)
  moreover have "dom (t(u \<mapsto> url)) = insert u (set (cell_texts cs))"
    using domT d by (auto simp: t_def split: option.splits)
  ultimately have "request_at r (request_set_url rq url) (Some u) cs ?s"
    unfolding request_at_def using at u' by (simp add: request_set_url_def path_at_def)
  moreover have "m_request_set_url r (Some u) url s = Inr ?s"
    using at rel by (simp add: m_request_set_url_def struct_of_def request_set_url_def store_text_def)
  ultimately show ?thesis by blast
qed

lemma parse_method_metadata: "metadata (parse_method rq buffer) = metadata rq"
proof -
  have "metadata (parse_tokens st rq toks) = metadata rq" for st toks
    by (induction st rq toks rule: parse_tokens.induct) (simp_all split: option.split)
  then show ?thesis by (simp add: parse_method_def)
qed

lemma parse_method_at:
  assumes at: "request_at r rq p cs s" and rq: "search_path rq = None" "metadata rq = []" and u: "texts s u = None"
  shows "\<exists>s' p'. m_parse_method r (Some u) buffer s = Inr s' \<and> request_at r (parse_method rq buffer) p' cs s'"
proof -
  note at = at [unfolded request_at_def]
  let ?q = "parse_method rq buffer"
  have p: "p = None" using at rq(1) by (cases p) (auto simp: path_at_def)
  have cs: "cs = []" using at rq(2) by (cases cs) auto
  have q: "metadata ?q = []" using rq(2) by (simp add: parse_method_metadata)
  have e: "texts s = Map.empty" "items s = Map.empty" using at p cs by simp_all
  have b: "structs s = [r \<mapsto> struct_of rq None []]" using at p cs by simp
  have rq': "\<lparr>req_method = s_method (struct_of rq None []), req_version = s_version (struct_of rq None []),
      search_path = None, metadata = []\<rparr> = rq"
    using rq by (simp add: struct_of_def)
  show ?thesis
  proof (cases "search_path ?q")
    case None
    let ?s = "\<lparr>texts = Map.empty, items = Map.empty, structs = [r \<mapsto> struct_of ?q None []]\<rparr>"
    have "request_at r ?q None [] ?s" using None q by (simp add: request_at_def path_at_def)
    moreover have "m_parse_method r (Some u) buffer s = Inr ?s"
      using b e None unfolding m_parse_method_def by (simp add: rq' Let_def) (simp add: struct_of_def)
    ultimately show ?thesis using cs by blast
  next
    case (Some path)
    let ?s = "\<lparr>texts = [u \<mapsto> path], items = Map.empty, structs = [r \<mapsto> struct_of ?q (Some u) []]\<rparr>"
    have "request_at r ?q (Some u) [] ?s" using Some q by (simp add: request_at_def path_at_def)
    moreover have "m_parse_method r (Some u) buffer s = Inr ?s"
      using b e Some unfolding m_parse_method_def by (simp add: rq' Let_def store_text_def) (simp add: struct_of_def)
    ultimately show ?thesis using cs by blast
  qed
qed

text \<open>The item that \<open>request_set_host\<close> changes, when there is one.\<close>

fun host_at :: "cell list \<Rightarrow> (string \<times> string) list \<Rightarrow> cell option" where
  "host_at ((i, tk, tv) # cs) ((k, v) # ms) = (if eq_nocase k ''Host'' then Some (i, tk, tv) else host_at cs ms)"
| "host_at _ _ = None"

fun with_value :: "addr \<Rightarrow> addr \<Rightarrow> cell list \<Rightarrow> cell list" where
  "with_value j u [] = []"
| "with_value j u ((i, tk, tv) # cs) = (if i = j then (i, tk, u) # cs else (i, tk, tv) # with_value j u cs)"

lemma find_host_at:
  "cells_at (texts s) (items s) cs ms \<Longrightarrow> length cs < fuel \<Longrightarrow>
     find_host fuel (first_of cs) s = Inr (map_option fst (host_at cs ms))"
proof (induction "texts s" "items s" cs ms arbitrary: fuel rule: cells_at.induct)
  case 1
  then show ?case by (cases fuel) simp_all
next
  case (2 i tk tv cs k v ms)
  then show ?case by (cases fuel) simp_all
qed simp_all

lemma host_at_cell:
  "host_at cs ms = Some (i, tk, tv) \<Longrightarrow> (i, tk, tv) \<in> set cs"
  by (induction cs ms rule: host_at.induct) (auto split: if_splits)

lemma host_at_none: "cells_at T I cs ms \<Longrightarrow> host_at cs ms = None \<Longrightarrow> set_host_in ms host = ms @ [(''Host'', host)]"
  by (induction T I cs ms rule: cells_at.induct) (simp_all split: if_splits)

lemma cell_text_in: "(i, tk, tv) \<in> set cs \<Longrightarrow> tk \<in> set (cell_texts cs) \<and> tv \<in> set (cell_texts cs)"
  by (induction cs rule: cell_texts.induct) auto

lemma with_value_fst [simp]: "map fst (with_value j u cs) = map fst cs" "first_of (with_value j u cs) = first_of cs"
  "last_of (with_value j u cs) = last_of cs"
proof -
  show m: "map fst (with_value j u cs) = map fst cs" by (induction j u cs rule: with_value.induct) simp_all
  show "first_of (with_value j u cs) = first_of cs"
    using m unfolding first_of_def by (metis list.map_disc_iff list.map_sel(1))
  show "last_of (with_value j u cs) = last_of cs"
    using m unfolding last_of_def by (metis last_map list.map_disc_iff)
qed

lemma with_value_texts:
  "(i, tk, tv) \<in> set cs \<Longrightarrow> distinct (map fst cs) \<Longrightarrow> distinct (cell_texts cs) \<Longrightarrow> u \<notin> set (cell_texts cs) - {tv} \<Longrightarrow>
     set (cell_texts (with_value i u cs)) = insert u (set (cell_texts cs) - {tv}) \<and> distinct (cell_texts (with_value i u cs))"
proof (induction i u cs rule: with_value.induct)
  case (2 j u i' tk' tv' cs)
  show ?case
  proof (cases "i' = j")
    case True
    then have "(j, tk, tv) \<notin> set cs" using "2.prems"(2) by force
    then have "tk' = tk" "tv' = tv" using "2.prems"(1) True by auto
    then show ?thesis using True "2.prems"(3,4) by auto
  next
    case False
    then have m: "(j, tk, tv) \<in> set cs" using "2.prems"(1) by auto
    from cell_text_in [OF m] have "tv \<noteq> tk'" "tv \<noteq> tv'" using "2.prems"(3) by auto
    then show ?thesis using False "2.IH" [OF False m] "2.prems"(2-4) by auto
  qed
qed simp

lemma host_replaced:
  "cells_at T I cs ms \<Longrightarrow> host_at cs ms = Some (i, tk, tv) \<Longrightarrow> distinct (map fst cs) \<Longrightarrow> distinct (cell_texts cs) \<Longrightarrow>
   u \<notin> set (cell_texts cs) - {tv} \<Longrightarrow>
   \<exists>q. I i = Some \<lparr>i_key = Some tk, i_value = Some tv, i_next = q\<rparr> \<and>
     cells_at (T(tv := None, u \<mapsto> host)) (I(i \<mapsto> \<lparr>i_key = Some tk, i_value = Some u, i_next = q\<rparr>)) (with_value i u cs) (set_host_in ms host)"
proof (induction T I cs ms rule: cells_at.induct)
  case (2 T I i' tk' tv' cs k v ms)
  show ?case
  proof (cases "eq_nocase k ''Host''")
    case True
    then have eq: "i' = i" "tk' = tk" "tv' = tv" using "2.prems"(2) by simp_all
    have "cells_at T I cs ms" using "2.prems"(1) by simp
    then have "cells_at (T(tv := None, u \<mapsto> host)) (I(i \<mapsto> \<lparr>i_key = Some tk, i_value = Some u, i_next = first_of cs\<rparr>)) cs ms"
      by (rule cells_at_agree) (use "2.prems"(3-5) eq in auto)
    then show ?thesis using True eq "2.prems"(1,4,5) by (auto simp del: fun_upd_apply simp: fun_upd_same fun_upd_other)
  next
    case False
    then have h: "host_at cs ms = Some (i, tk, tv)" using "2.prems"(2) by simp
    from host_at_cell [OF this] have m: "(i, tk, tv) \<in> set cs" .
    from cell_text_in [OF m] have ne: "tk' \<noteq> tv" "tv' \<noteq> tv" "tk' \<noteq> u" "tv' \<noteq> u"
      using "2.prems"(4,5) by auto
    have i: "i' \<noteq> i" using m "2.prems"(3) by force
    have c: "cells_at T I cs ms" "distinct (map fst cs)" "distinct (cell_texts cs)" "u \<notin> set (cell_texts cs) - {tv}"
      using "2.prems"(1,3-5) by auto
    obtain q where "I i = Some \<lparr>i_key = Some tk, i_value = Some tv, i_next = q\<rparr>"
      "cells_at (T(tv := None, u \<mapsto> host)) (I(i \<mapsto> \<lparr>i_key = Some tk, i_value = Some u, i_next = q\<rparr>)) (with_value i u cs) (set_host_in ms host)"
      using "2.IH" [OF c(1) h c(2-4)] by blast
    then show ?thesis using False ne i "2.prems"(1) by (simp del: fun_upd_apply add: fun_upd_other)
  qed
qed simp_all

lemma set_host_at:
  assumes at: "request_at r rq p cs s" and fuel: "length cs < fuel"
    and i: "items s i = None" and t: "texts s tk = None" "tk \<noteq> tv"
    and tv: "texts s tv = None \<or> map_option (snd \<circ> snd) (host_at cs (metadata rq)) = Some tv"
  shows "\<exists>s' cs'. m_request_set_host fuel r (Some i) (Some tk) (Some tv) host s = Inr s' \<and>
    request_at r (request_set_host rq host) p cs' s'"
proof -
  note at' = at [unfolded request_at_def]
  have cells: "cells_at (texts s) (items s) cs (metadata rq)" using at' by blast
  have found: "find_host fuel (first_of cs) s = Inr (map_option fst (host_at cs (metadata rq)))"
    by (rule find_host_at [OF cells fuel])
  have b: "load (structs s) (Some r) = Inr (struct_of rq p cs)" using at' by simp
  show ?thesis
  proof (cases "host_at cs (metadata rq)")
    case None
    then have "texts s tv = None" using tv by simp
    from add_header_at [OF at i t(1) this t(2), of "''Host''" host]
    obtain s' where s': "m_add_header r (Some i) (Some tk) (Some tv) ''Host'' host s = Inr s'"
      "request_at r (rq\<lparr>metadata := metadata rq @ [(''Host'', host)]\<rparr>) p (cs @ [(i, tk, tv)]) s'" by blast
    moreover have "m_request_set_host fuel r (Some i) (Some tk) (Some tv) host s =
        m_add_header r (Some i) (Some tk) (Some tv) ''Host'' host s"
      using found None b by (simp add: m_request_set_host_def struct_of_def)
    ultimately show ?thesis using host_at_none [OF cells None] by (auto simp: request_set_host_def)
  next
    case (Some c)
    obtain j ok old where c: "c = (j, ok, old)" by (cases c)
    have dom: "dom (items s) = set (map fst cs)" "dom (texts s) = set (path_texts p @ cell_texts cs)"
      and d: "distinct (map fst cs)" "distinct (path_texts p @ cell_texts cs)" using at' by blast+
    have m: "(j, ok, old) \<in> set cs" by (rule host_at_cell [OF Some [unfolded c]])
    have tv': "tv \<notin> set (path_texts p @ cell_texts cs) - {old}"
    proof (cases "texts s tv = None")
      case True
      from unused [OF dom(2) True] show ?thesis by blast
    qed (use tv Some c in auto)
    have dc: "distinct (cell_texts cs)" "tv \<notin> set (cell_texts cs) - {old}" using d(2) tv' by auto
    let ?T = "(texts s)(old := None, tv \<mapsto> host)" and ?cs = "with_value j tv cs"
    obtain q where q: "items s j = Some \<lparr>i_key = Some ok, i_value = Some old, i_next = q\<rparr>"
      "cells_at ?T ((items s)(j \<mapsto> \<lparr>i_key = Some ok, i_value = Some tv, i_next = q\<rparr>)) ?cs (set_host_in (metadata rq) host)"
      using host_replaced [OF cells Some [unfolded c] d(1) dc, of host] by blast
    let ?I = "(items s)(j \<mapsto> \<lparr>i_key = Some ok, i_value = Some tv, i_next = q\<rparr>)"
    let ?s = "\<lparr>texts = ?T, items = ?I, structs = structs s\<rparr>"
    have w: "set (cell_texts ?cs) = insert tv (set (cell_texts cs) - {old})" "distinct (cell_texts ?cs)"
      using with_value_texts [OF m d(1) dc] by blast+
    have old: "old \<in> set (cell_texts cs)" "j \<in> set (map fst cs)" using cell_text_in [OF m] m by force+
    obtain str where str: "texts s old = Some str" using old(1) dom(2) by auto
    have po: "a \<in> set (path_texts p) \<Longrightarrow> a \<noteq> old \<and> a \<noteq> tv" for a using d(2) old(1) tv' by auto
    then have "path_at ?T p (search_path rq)" using at' by (auto simp: path_at_def split: option.splits)
    moreover have "distinct (path_texts p @ cell_texts ?cs)" using d(2) w po by auto
    moreover have "dom ?T = set (path_texts p @ cell_texts ?cs)" using dom(2) w(1) po by auto
    moreover have "dom ?I = set (map fst ?cs)" using dom(1) old(2) by auto
    ultimately have "request_at r (request_set_host rq host) p ?cs ?s"
      unfolding request_at_def using q(2) d(1) at' by (simp add: request_set_host_def struct_of_def)
    moreover have "m_request_set_host fuel r (Some i) (Some tk) (Some tv) host s = Inr ?s"
      using found Some c b q(1) str
      by (simp add: m_request_set_host_def struct_of_def release_def modify_def store_text_def)
    ultimately show ?thesis by blast
  qed
qed

section \<open>Giving the memory back\<close>

lemma destroy_items_at:
  "cells_at (texts s) (items s) cs ms \<Longrightarrow> distinct (map fst cs) \<Longrightarrow> distinct (cell_texts cs) \<Longrightarrow> length cs < fuel \<Longrightarrow>
     destroy_items fuel (first_of cs) s =
       Inr (s\<lparr>texts := texts s |` (- set (cell_texts cs)), items := items s |` (- set (map fst cs))\<rparr>)"
proof (induction cs arbitrary: s ms fuel)
  case Nil
  then show ?case by (cases fuel) (simp_all add: restrict_map_def)
next
  case (Cons c cs)
  obtain i tk tv where c: "c = (i, tk, tv)" by (cases c)
  obtain f where f: "fuel = Suc f" "length cs < f" using Cons.prems(4) by (cases fuel) simp_all
  obtain k v ms' where ms: "ms = (k, v) # ms'" using Cons.prems(1) c by (cases ms) auto
  let ?s = "s\<lparr>texts := (texts s)(tk := None, tv := None), items := (items s)(i := None)\<rparr>"
  have I: "items s i = Some \<lparr>i_key = Some tk, i_value = Some tv, i_next = first_of cs\<rparr>" "texts s tk = Some k"
    "texts s tv = Some v" "cells_at (texts s) (items s) cs ms'" using Cons.prems(1) by (simp_all add: c ms)
  have "cells_at (texts ?s) (items ?s) cs ms'"
    by (rule cells_at_agree [OF I(4)]) (use Cons.prems(2,3) c in auto)
  moreover have "distinct (map fst cs)" "distinct (cell_texts cs)" "tk \<noteq> tv" using Cons.prems(2,3) by (simp_all add: c)
  ultimately have "destroy_items f (first_of cs) ?s =
      Inr (?s\<lparr>texts := texts ?s |` (- set (cell_texts cs)), items := items ?s |` (- set (map fst cs))\<rparr>)"
    using Cons.IH f(2) by blast
  moreover have "destroy_items fuel (first_of (c # cs)) s = destroy_items f (first_of cs) ?s"
    using I(1-3) \<open>tk \<noteq> tv\<close> by (simp add: f(1) c release_def)
  moreover have "texts ?s |` (- set (cell_texts cs)) = texts s |` (- set (cell_texts (c # cs)))"
    "items ?s |` (- set (map fst cs)) = items s |` (- set (map fst (c # cs)))"
    by (auto simp: c restrict_map_def fun_eq_iff)
  ultimately show ?case by simp
qed

lemma restrict_nothing: "dom m \<subseteq> A \<Longrightarrow> m |` (- A) = Map.empty"
  by (rule ext) (auto simp: restrict_map_def)

lemma destroy_at:
  assumes at: "request_at r rq p cs s" and fuel: "length cs < fuel"
  shows "m_request_destroy fuel (Some r) s = Inr no_memory"
proof -
  note at = at [unfolded request_at_def]
  define t where "t = (case p of None \<Rightarrow> texts s | Some a \<Rightarrow> (texts s)(a := None))"
  let ?s = "s\<lparr>texts := t\<rparr>"
  have d: "distinct (path_texts p @ cell_texts cs)" using at by blast
  have rel: "release (texts s) p = Inr t"
    using at by (cases p) (auto simp: t_def release_def path_at_def)
  have "cells_at (texts s) (items s) cs (metadata rq)" using at by blast
  then have "cells_at (texts ?s) (items ?s) cs (metadata rq)"
    by (rule cells_at_agree) (use d in \<open>auto simp: t_def split: option.splits\<close>)
  then have dest: "destroy_items fuel (first_of cs) ?s =
      Inr (?s\<lparr>texts := t |` (- set (cell_texts cs)), items := items s |` (- set (map fst cs))\<rparr>)"
    using destroy_items_at [of ?s cs "metadata rq" fuel] at fuel by simp
  have "dom t \<subseteq> set (cell_texts cs)" using at by (auto simp: t_def split: option.splits)
  then have "t |` (- set (cell_texts cs)) = Map.empty" by (rule restrict_nothing)
  moreover have "items s |` (- set (map fst cs)) = Map.empty" using at by (blast intro: restrict_nothing)
  ultimately
  have "destroy_items fuel (first_of cs) ?s = Inr \<lparr>texts = Map.empty, items = Map.empty, structs = structs s\<rparr>"
    using dest by simp
  then show ?thesis
    using at rel by (simp add: m_request_destroy_def struct_of_def no_memory_def release_def)
qed

section \<open>The life of a request\<close>

text \<open>
  What the proxy does to a request between \<open>request_init\<close> and \<open>request_destroy\<close>, with the addresses that \<open>malloc\<close> and
  \<open>strdup\<close> return.
\<close>

datatype request_call =
    Read_First_Line addr string
  | Read_Header addr addr addr string
  | Add_Header addr addr addr string string
  | Set_Url addr string
  | Set_Host addr addr addr string

fun run_call :: "nat \<Rightarrow> addr \<Rightarrow> request_call \<Rightarrow> rmem \<Rightarrow> rmem result" where
  "run_call fuel r (Read_First_Line u line) s = m_parse_method r (Some u) line s"
| "run_call fuel r (Read_Header i kp vp line) s = m_parse_metadata r (Some i) (Some kp) (Some vp) line s"
| "run_call fuel r (Add_Header i kp vp k v) s = m_add_header r (Some i) (Some kp) (Some vp) k v s"
| "run_call fuel r (Set_Url u url) s = m_request_set_url r (Some u) url s"
| "run_call fuel r (Set_Host i kp vp host) s = m_request_set_host fuel r (Some i) (Some kp) (Some vp) host s"

fun call_value :: "request_call \<Rightarrow> request \<Rightarrow> request" where
  "call_value (Read_First_Line u line) rq = parse_method rq line"
| "call_value (Read_Header i kp vp line) rq = parse_metadata rq line"
| "call_value (Add_Header i kp vp k v) rq = rq\<lparr>metadata := list_add_key (metadata rq) k v\<rparr>"
| "call_value (Set_Url u url) rq = request_set_url rq url"
| "call_value (Set_Host i kp vp host) rq = request_set_host rq host"

text \<open>
  The contract of the allocator: what it returns is not in use. A string that the call frees first may be used again. The
  proxy reads the first line once, before the headers.
\<close>

definition host_value :: "nat \<Rightarrow> addr \<Rightarrow> rmem \<Rightarrow> ptr" where
  "host_value fuel r s = (case structs s r of None \<Rightarrow> None
     | Some b \<Rightarrow> (case find_host fuel (s_first b) s of Inr (Some i) \<Rightarrow> Option.bind (items s i) i_value | _ \<Rightarrow> None))"

definition free_cell :: "addr \<Rightarrow> addr \<Rightarrow> addr \<Rightarrow> rmem \<Rightarrow> bool" where
  "free_cell i kp vp s \<longleftrightarrow> items s i = None \<and> texts s kp = None \<and> texts s vp = None \<and> kp \<noteq> vp"

fun allocates :: "nat \<Rightarrow> addr \<Rightarrow> request_call \<Rightarrow> request \<Rightarrow> rmem \<Rightarrow> bool" where
  "allocates fuel r (Read_First_Line u line) rq s \<longleftrightarrow> search_path rq = None \<and> metadata rq = [] \<and> texts s u = None"
| "allocates fuel r (Read_Header i kp vp line) rq s \<longleftrightarrow> free_cell i kp vp s"
| "allocates fuel r (Add_Header i kp vp k v) rq s \<longleftrightarrow> free_cell i kp vp s"
| "allocates fuel r (Set_Url u url) rq s \<longleftrightarrow> texts s u = None \<or> Option.bind (structs s r) s_path = Some u"
| "allocates fuel r (Set_Host i kp vp host) rq s \<longleftrightarrow> items s i = None \<and> texts s kp = None \<and> kp \<noteq> vp \<and>
     (texts s vp = None \<or> host_value fuel r s = Some vp)"

inductive lives :: "addr \<Rightarrow> request \<Rightarrow> rmem \<Rightarrow> bool" for r :: addr where
  born: "m_request_init (Some r) junk no_memory = Inr s \<Longrightarrow> lives r (request_init junk) s"
| called: "lives r rq s \<Longrightarrow> length (metadata rq) < fuel \<Longrightarrow> allocates fuel r c rq s \<Longrightarrow> run_call fuel r c s = Inr s' \<Longrightarrow>
     lives r (call_value c rq) s'"

lemma cells_length: "cells_at T I cs ms \<Longrightarrow> length cs = length ms"
  by (induction T I cs ms rule: cells_at.induct) simp_all

lemma request_at_length: "request_at r rq p cs s \<Longrightarrow> length cs = length (metadata rq)"
  by (rule cells_length [of "texts s" "items s"]) (simp add: request_at_def)

lemma parse_metadata_at:
  assumes at: "request_at r rq p cs s" and new: "free_cell i kp vp s"
  shows "\<exists>s' cs'. m_parse_metadata r (Some i) (Some kp) (Some vp) buffer s = Inr s' \<and> request_at r (parse_metadata rq buffer) p cs' s'"
proof -
  have add: "\<exists>s' cs'. m_add_header r (Some i) (Some kp) (Some vp) k v s = Inr s' \<and>
      request_at r (rq\<lparr>metadata := metadata rq @ [(k, v)]\<rparr>) p cs' s'" for k v
    using add_header_at [OF at] new unfolding free_cell_def by blast
  show ?thesis
  proof (cases "strtok (CHR '':'') (cstr buffer)")
    case None
    then show ?thesis using at by (auto simp: m_parse_metadata_def parse_metadata_def)
  next
    case (Some a)
    obtain key rest where a: "a = (key, rest)" by (cases a)
    show ?thesis
    proof (cases "strtok cr rest")
      case None
      then show ?thesis using Some a at by (auto simp: m_parse_metadata_def parse_metadata_def)
    next
      case (Some b)
      obtain v rest' where "b = (v, rest')" by (cases b)
      with Some show ?thesis using \<open>strtok (CHR '':'') (cstr buffer) = Some a\<close> a add
        by (simp add: m_parse_metadata_def parse_metadata_def)
    qed
  qed
qed

lemma host_value_at:
  assumes at: "request_at r rq p cs s" and fuel: "length cs < fuel"
  shows "host_value fuel r s = map_option (snd \<circ> snd) (host_at cs (metadata rq))"
proof -
  have cells: "cells_at (texts s) (items s) cs (metadata rq)" and b: "structs s r = Some (struct_of rq p cs)"
    and d: "distinct (map fst cs)" "distinct (cell_texts cs)"
    using at by (simp_all add: request_at_def)
  have f: "find_host fuel (first_of cs) s = Inr (map_option fst (host_at cs (metadata rq)))"
    by (rule find_host_at [OF cells fuel])
  show ?thesis
  proof (cases "host_at cs (metadata rq)")
    case (Some c)
    obtain j ok old where c: "c = (j, ok, old)" by (cases c)
    have "old \<notin> set (cell_texts cs) - {old}" by simp
    from host_replaced [OF cells Some [unfolded c] d this, of "[]"]
    obtain q where "items s j = Some \<lparr>i_key = Some ok, i_value = Some old, i_next = q\<rparr>" by blast
    then show ?thesis using Some b f by (simp add: host_value_def struct_of_def c)
  qed (use b f in \<open>simp add: host_value_def struct_of_def\<close>)
qed

lemma call_at:
  assumes at: "request_at r rq p cs s" and fuel: "length (metadata rq) < fuel" and new: "allocates fuel r c rq s"
  shows "\<exists>s' p' cs'. run_call fuel r c s = Inr s' \<and> request_at r (call_value c rq) p' cs' s'"
proof (cases c)
  case (Read_First_Line u line)
  then show ?thesis using parse_method_at [OF at] new by simp blast
next
  case (Read_Header i kp vp line)
  then show ?thesis using parse_metadata_at [OF at] new by simp blast
next
  case (Add_Header i kp vp k v)
  then show ?thesis using add_header_at [OF at] new by (simp add: free_cell_def list_add_key_def) blast
next
  case (Set_Url u url)
  have "structs s r = Some (struct_of rq p cs)" using at by (simp add: request_at_def)
  then show ?thesis using set_url_at [OF at] new Set_Url by (simp add: struct_of_def) blast
next
  case (Set_Host i kp vp host)
  have "length cs < fuel" using fuel request_at_length [OF at] by simp
  then show ?thesis using set_host_at [OF at] host_value_at [OF at] new Set_Host by simp blast
qed

lemma lives_at: "lives r rq s \<Longrightarrow> \<exists>p cs. request_at r rq p cs s"
proof (induction rule: lives.induct)
  case (born junk s)
  then show ?case using init_at [of r junk] by auto
next
  case (called rq s fuel c s')
  then obtain p cs where "request_at r rq p cs s" by blast
  from call_at [OF this called.hyps(2,3)] called.hyps(4) show ?case by auto
qed

text \<open>C30. Whatever the proxy has done to a request, \<open>request_destroy\<close> frees the path, each header with its two strings
  and the structure, each once and nothing else: no memory is left.\<close>

theorem destroy_frees_everything:
  assumes "lives r rq s" and "length (metadata rq) < fuel"
  shows "m_request_destroy fuel (Some r) s = Inr no_memory"
proof -
  from lives_at [OF assms(1)] obtain p cs where at: "request_at r rq p cs s" by blast
  from request_at_length [OF this] assms(2) show ?thesis by (auto intro: destroy_at [OF at])
qed


lemma host_nocase: "eq_nocase ''host'' ''Host''"
  by code_simp

definition live_example :: rmem where
  "live_example = \<lparr>texts = [10 \<mapsto> ''/'', 11 \<mapsto> ''host'', 12 \<mapsto> ''nsu''], items = [20 \<mapsto> \<lparr>i_key = Some 11, i_value = Some 12, i_next = None\<rparr>],
     structs = [1 \<mapsto> \<lparr>s_method = GET, s_version = HTTP_VERSION_1_0, s_path = Some 10, s_first = Some 20, s_last = Some 20\<rparr>]\<rparr>"

definition live_value :: request where
  "live_value = \<lparr>req_method = GET, req_version = HTTP_VERSION_1_0, search_path = Some ''/'', metadata = [(''host'', ''nsu'')]\<rparr>"

lemma live_example_lives: "lives 1 live_value live_example"
proof -
  let ?s1 = "\<lparr>texts = Map.empty, items = Map.empty, structs = [1 \<mapsto> \<lparr>s_method = OPTIONS, s_version = HTTP_VERSION_1_1, s_path = None,
    s_first = None, s_last = None\<rparr>]\<rparr>"
  let ?s2 = "\<lparr>texts = [10 \<mapsto> ''/''], items = Map.empty, structs = [1 \<mapsto> \<lparr>s_method = GET, s_version = HTTP_VERSION_1_0, s_path = Some 10,
    s_first = None, s_last = None\<rparr>]\<rparr>"
  have p: "parse_method (request_init HTTP_VERSION_1_1) ''GET / HTTP/1.0'' =
      \<lparr>req_method = GET, req_version = HTTP_VERSION_1_0, search_path = Some ''/'', metadata = []\<rparr>"
    by code_simp
  have "lives 1 (request_init HTTP_VERSION_1_1) ?s1"
    by (rule lives.born) (simp add: m_request_init_def no_memory_def)
  then have "lives 1 (call_value (Read_First_Line 10 ''GET / HTTP/1.0'') (request_init HTTP_VERSION_1_1)) ?s2"
  proof (rule lives.called [where fuel = 1])
    show "run_call 1 1 (Read_First_Line 10 ''GET / HTTP/1.0'') ?s1 = Inr ?s2"
      using p by (simp add: m_parse_method_def Let_def store_text_def request_init_def)
  qed (simp_all add: request_init_def)
  then have "lives 1 (call_value (Add_Header 20 11 12 ''host'' ''nsu'') (call_value (Read_First_Line 10 ''GET / HTTP/1.0'')
      (request_init HTTP_VERSION_1_1))) live_example"
  proof (rule lives.called [where fuel = 1])
    show "run_call 1 1 (Add_Header 20 11 12 ''host'' ''nsu'') ?s2 = Inr live_example"
      by (simp add: m_add_header_def m_list_add_key_def insert_tail_def store_text_def modify_def live_example_def)
  qed (simp_all add: p free_cell_def)
  then show ?thesis by (simp add: p live_value_def list_add_key_def)
qed

theorem destroy_frees_everything_witness: "m_request_destroy 2 (Some 1) live_example = Inr no_memory"
  by (rule destroy_frees_everything [OF live_example_lives]) (simp add: live_value_def)


end
