(* ===== verification/Queue_Monitor.thy ===== *)
theory Queue_Monitor
  imports Queue_Sync Queue_Plain
begin

text \<open>
  The monitor thread of the queues of \<open>task2_1\<close> and \<open>task2_2\<close> beside their reader and writer: what its lines say
  while the queue changes, and how it ends. \<open>set_cpu\<close>, with which reader and writer bind themselves to processors, is
  here too.
\<close>

section \<open>The threads' processors\<close>

text \<open>The processors a thread may run on, after \<open>set_cpu(n)\<close>, and the line it prints; \<open>err\<close> is the system's answer.\<close>

definition set_cpu :: "int \<Rightarrow> nat \<Rightarrow> nat set \<Rightarrow> (string \<times> nat) \<times> nat set" where
  "set_cpu err n cpus =
     (if err \<noteq> 0 then ((''set_cpu: pthread_setaffinity failed for cpu '', n), cpus)
      else ((''set_cpu: set cpu '', n), {n}))"

section \<open>Printing\<close>

text \<open>
  The fields that the arguments of \<open>printf\<close> read, in the order of the source; C does not fix the order of the reads. A
  line holds the size, the attempts with their difference, and the counts with theirs.
\<close>

definition print_args :: "'x queue_scheme \<Rightarrow> int list" where
  "print_args q = [q_count q, add_attempts q, get_attempts q, add_attempts q, get_attempts q,
     add_count q, get_count q, add_count q, get_count q]"

definition stats_line :: "int list \<Rightarrow> int list" where
  "stats_line v = [v ! 0, v ! 1, v ! 2, v ! 3 - v ! 4, v ! 5, v ! 6, v ! 7 - v ! 8]"

lemma stats_line_args: "stats_line (print_args q) = queue_stats q"
  by (simp add: stats_line_def print_args_def queue_stats_def numeral_eq_Suc)

text \<open>The loop of \<open>qmonitor\<close>: \<open>queue_print_stats\<close>, which only the queue with semaphores locks, and a second of sleep.\<close>

datatype monitor_pc = P_Wait | P_Read | P_Post | P_Sleep

record watched =
  threads_part :: sys
  p_pc :: monitor_pc
  p_args :: "int option list"
  p_lines :: "int list list"

definition no_args :: "int option list" where
  "no_args = replicate 9 None"

definition queue_print_stats :: "variant \<Rightarrow> nat \<Rightarrow> watched \<Rightarrow> watched" where
  "queue_print_stats var i s = (case p_pc s of
       P_Wait \<Rightarrow> if var = Semaphore \<and> holder (threads_part s) \<noteq> None then s else s\<lparr>p_pc := P_Read\<rparr>
     | P_Read \<Rightarrow>
         if None \<notin> set (p_args s)
         then s\<lparr>p_lines := p_lines s @ [stats_line (map the (p_args s))], p_args := no_args, p_pc := P_Post\<rparr>
         else if i < 9 \<and> p_args s ! i = None
         then s\<lparr>p_args := (p_args s)[i := Some (print_args (sq (threads_part s)) ! i)]\<rparr>
         else s
     | P_Post \<Rightarrow> s\<lparr>p_pc := P_Sleep\<rparr>
     | P_Sleep \<Rightarrow> s)"

definition qmonitor :: "variant \<Rightarrow> nat \<Rightarrow> watched \<Rightarrow> watched" where
  "qmonitor var i s = (if p_pc s = P_Sleep then s\<lparr>p_pc := P_Wait\<rparr> else queue_print_stats var i s)"

text \<open>While the monitor has the semaphore, a thread that asks for it stays where it is.\<close>

definition monitor_holds :: "variant \<Rightarrow> watched \<Rightarrow> bool" where
  "monitor_holds var s \<longleftrightarrow> var = Semaphore \<and> (p_pc s = P_Read \<or> p_pc s = P_Post)"

datatype watched_event = Run event | Look nat

definition watched_do :: "variant \<Rightarrow> watched_event \<Rightarrow> watched \<Rightarrow> watched result" where
  "watched_do var e s = (case e of
       Run ev \<Rightarrow> bindR (sys_step var ev (threads_part s)) (\<lambda>t.
         Inr (if monitor_holds var s \<and> holder t \<noteq> None then s else s\<lparr>threads_part := t\<rparr>))
     | Look i \<Rightarrow> Inr (qmonitor var i s))"

definition watched_event_ok :: "watched_event \<Rightarrow> watched \<Rightarrow> bool" where
  "watched_event_ok e s \<longleftrightarrow> (case e of Run ev \<Rightarrow> event_ok ev (threads_part s) | Look i \<Rightarrow> True)"

inductive watched_trans :: "variant \<Rightarrow> watched \<Rightarrow> watched \<Rightarrow> bool" for var :: variant where
  "watched_event_ok e s \<Longrightarrow> watched_do var e s = Inr t \<Longrightarrow> watched_trans var s t"

inductive_cases watched_transE: "watched_trans var s t"

definition watched_init :: "int \<Rightarrow> watched" where
  "watched_init n = \<lparr>threads_part = sys_init n, p_pc = P_Wait, p_args = no_args, p_lines = []\<rparr>"

definition watched_start :: "watched \<Rightarrow> bool" where
  "watched_start s \<longleftrightarrow> (\<exists>n \<ge> 0. s = watched_init n)"

section \<open>With the semaphore the lines are consistent\<close>

definition line_ok :: "int \<Rightarrow> int list \<Rightarrow> bool" where
  "line_ok n l \<longleftrightarrow> (\<exists>c aa ga ac gc. l = [c, aa, ga, aa - ga, ac, gc, ac - gc] \<and> c = ac - gc \<and> 0 \<le> c \<and> c \<le> n \<and> ac \<le> aa \<and> gc \<le> ga)"

lemma unlocked_stats:
  assumes "sys_inv s" "holder s = None"
  shows "line_ok (q_max_count (sq s)) (queue_stats (sq s))"
proof -
  from assms(1) obtain as :: "addr list" where c: "counters_at s (length as)" by (auto simp: sys_inv_def)
  have "\<not> w_crit (w_pc s)" "\<not> r_crit (r_pc s)" using assms by (auto simp: sys_inv_def lock_ok_def)
  then have "w_count_lag (w_pc s) = 0" "w_add_lag (w_pc s) = 0" "r_count_lag (r_pc s) = 0" "r_get_lag (r_pc s) = 0"
    using not_w_crit not_r_crit by blast+
  moreover have "0 \<le> w_attempt (w_pc s)" "0 \<le> r_attempt (r_pc s)" by (cases "w_pc s"; simp) (cases "r_pc s"; simp)
  ultimately show ?thesis using c unfolding counters_at_def line_ok_def queue_stats_def by auto
qed

lemma max_count_step: "okR (\<lambda>t. q_max_count (sq t) = q_max_count (sq s)) (sys_step var ev s)"
proof (cases ev)
  case (EvWriter p)
  have "okR (\<lambda>t. q_max_count (sq t) = q_max_count (sq s)) (writer_step var p s)" unfolding writer_step_def Let_def
    by (cases "w_pc s") (auto split: option.split)
  then show ?thesis by (simp add: sys_step_def EvWriter)
next
  case EvReader
  have "okR (\<lambda>t. q_max_count (sq t) = q_max_count (sq s)) (reader_step var s)" unfolding reader_step_def Let_def
    by (cases "r_pc s") auto
  then show ?thesis by (simp add: sys_step_def EvReader)
qed (auto simp: sys_step_def)

lemma unlocked_step:
  assumes "lock_ok s" "holder s = None"
  shows "okR (\<lambda>t. holder t = None \<longrightarrow> print_args (sq t) = print_args (sq s)) (sys_step var ev s)"
proof -
  have pc: "\<not> w_crit (w_pc s)" "\<not> r_crit (r_pc s)" using assms by (auto simp: lock_ok_def)
  show ?thesis
  proof (cases ev)
    case (EvWriter p)
    have "okR (\<lambda>t. holder t = None \<longrightarrow> print_args (sq t) = print_args (sq s)) (writer_step var p s)"
      using pc(1) assms(2) unfolding writer_step_def Let_def
      by (cases "w_pc s") (auto simp: print_args_def split: option.split)
    then show ?thesis by (simp add: sys_step_def EvWriter)
  next
    case EvReader
    have "okR (\<lambda>t. holder t = None \<longrightarrow> print_args (sq t) = print_args (sq s)) (reader_step var s)"
      using pc(2) assms(2) unfolding reader_step_def Let_def by (cases "r_pc s") (auto simp: print_args_def)
    then show ?thesis by (simp add: sys_step_def EvReader)
  qed (auto simp: sys_step_def)
qed

definition watched_inv :: "watched \<Rightarrow> bool" where
  "watched_inv s \<longleftrightarrow> sys_inv (threads_part s) \<and> length (p_args s) = 9 \<and>
     (monitor_holds Semaphore s \<longrightarrow> holder (threads_part s) = None) \<and>
     (\<forall>i < 9. p_args s ! i = None \<or> p_pc s = P_Read \<and> p_args s ! i = Some (print_args (sq (threads_part s)) ! i)) \<and>
     (\<forall>l \<in> set (p_lines s). line_ok (q_max_count (sq (threads_part s))) l)"

lemma run_inv:
  assumes inv: "watched_inv s" and ok: "event_ok ev (threads_part s)" and run: "watched_do Semaphore (Run ev) s = Inr t"
  shows "watched_inv t"
proof -
  from run obtain u where u: "sys_step Semaphore ev (threads_part s) = Inr u"
    and t: "t = (if monitor_holds Semaphore s \<and> holder u \<noteq> None then s else s\<lparr>threads_part := u\<rparr>)"
    by (cases "sys_step Semaphore ev (threads_part s)") (auto simp: watched_do_def)
  have sys: "sys_inv (threads_part s)" using inv by (simp add: watched_inv_def)
  have "sys_trans Semaphore (threads_part s) u" by (rule sys_trans.intros [OF ok u])
  then have sys': "sys_inv u" by (rule threads.inv_step [OF sys])
  have n: "q_max_count (sq u) = q_max_count (sq (threads_part s))" using okRD [OF max_count_step u] .
  have args: "holder u = None \<longrightarrow> print_args (sq u) = print_args (sq (threads_part s))" if "holder (threads_part s) = None"
    using okRD [OF unlocked_step [OF _ that] u] sys by (simp add: sys_inv_def)
  have "watched_inv (s\<lparr>threads_part := u\<rparr>)" if "\<not> (monitor_holds Semaphore s \<and> holder u \<noteq> None)"
    using inv sys' n args that by (auto simp: watched_inv_def monitor_holds_def)
  then show ?thesis using inv t by simp
qed

lemma all_read:
  assumes "length (p_args s) = 9" "\<forall>i < 9. p_args s ! i = None \<or> p_args s ! i = Some (print_args q ! i)" "None \<notin> set (p_args s)"
  shows "map the (p_args s) = print_args q"
proof (rule nth_equalityI)
  show "length (map the (p_args s)) = length (print_args q)" using assms(1) by (simp add: print_args_def)
  show "map the (p_args s) ! i = print_args q ! i" if "i < length (map the (p_args s))" for i
  proof -
    from that assms(1) have i: "i < 9" "p_args s ! i \<in> set (p_args s)" by simp_all
    with assms(2,3) have "p_args s ! i = Some (print_args q ! i)" by metis
    with that show ?thesis by simp
  qed
qed

lemma look_inv:
  assumes inv: "watched_inv s"
  shows "watched_inv (qmonitor Semaphore i s)"
proof (cases "p_pc s")
  case P_Wait
  then show ?thesis using inv
    by (simp add: qmonitor_def queue_print_stats_def watched_inv_def monitor_holds_def no_args_def)
next
  case P_Read
  then have at: "holder (threads_part s) = None" "length (p_args s) = 9" "sys_inv (threads_part s)"
    "\<forall>i < 9. p_args s ! i = None \<or> p_args s ! i = Some (print_args (sq (threads_part s)) ! i)"
    using inv by (simp_all add: watched_inv_def monitor_holds_def)
  show ?thesis
  proof (cases "None \<in> set (p_args s)")
    case False
    from all_read [OF at(2,4) False] unlocked_stats [OF at(3,1)]
    have "line_ok (q_max_count (sq (threads_part s))) (stats_line (map the (p_args s)))" by (simp add: stats_line_args)
    then show ?thesis using inv P_Read False at(1)
      by (simp add: qmonitor_def queue_print_stats_def watched_inv_def monitor_holds_def no_args_def)
  next
    case True
    then show ?thesis using inv P_Read at
      by (auto simp: qmonitor_def queue_print_stats_def watched_inv_def monitor_holds_def nth_list_update)
  qed
next
  case P_Post
  then show ?thesis using inv P_Post
    by (simp add: qmonitor_def queue_print_stats_def watched_inv_def monitor_holds_def)
next
  case P_Sleep
  then show ?thesis using inv by (simp add: qmonitor_def watched_inv_def monitor_holds_def)
qed

interpretation watched: transition_system watched_start "watched_trans Semaphore" watched_inv
proof
  show "watched_inv s" if "watched_start s" for s
    using that sys_inv_init by (auto simp: watched_start_def watched_init_def watched_inv_def monitor_holds_def no_args_def)
  show "watched_inv t" if "watched_inv s" "watched_trans Semaphore s t" for s t
  proof -
    from that(2) obtain e where e: "watched_event_ok e s" "watched_do Semaphore e s = Inr t" by (rule watched_transE)
    show ?thesis
    proof (cases e)
      case (Run ev)
      then show ?thesis using run_inv [OF that(1), of ev t] e by (simp add: watched_event_ok_def)
    next
      case (Look i)
      then show ?thesis using look_inv [OF that(1), of i] e(2) by (simp add: watched_do_def)
    qed
  qed
qed


definition one_line :: watched where
  "one_line = \<lparr>threads_part = sys_init 5, p_pc = P_Post, p_args = no_args, p_lines = [[0, 0, 0, 0, 0, 0, 0]]\<rparr>"

fun watched_run :: "variant \<Rightarrow> watched_event list \<Rightarrow> watched \<Rightarrow> watched result" where
  "watched_run var [] s = Inr s"
| "watched_run var (e # es) s = bindR (watched_do var e s) (watched_run var es)"

lemma watched_run_reachable:
  "watched_run var es s = Inr t \<Longrightarrow> (\<forall>e \<in> set es. \<exists>i. e = Look i) \<Longrightarrow> reachable watched_start (watched_trans var) s \<Longrightarrow>
     reachable watched_start (watched_trans var) t"
proof (induction es arbitrary: s)
  case (Cons e es)
  then obtain i where e: "e = Look i" by auto
  have "watched_trans var s (qmonitor var i s)"
    by (rule watched_trans.intros [of "Look i"]) (simp_all add: watched_event_ok_def watched_do_def)
  then have "reachable watched_start (watched_trans var) (qmonitor var i s)" using Cons.prems(3) by (rule reachable.intros(2) [rotated])
  then show ?case using Cons e by (simp add: watched_do_def)
qed simp

lemma one_line_reachable: "reachable watched_start (watched_trans Semaphore) one_line"
proof (rule watched_run_reachable [of Semaphore "map Look [0, 0, 1, 2, 3, 4, 5, 6, 7, 8, 0]" "watched_init 5"])
  show "watched_run Semaphore (map Look [0, 0, 1, 2, 3, 4, 5, 6, 7, 8, 0]) (watched_init 5) = Inr one_line"
    by (simp add: numeral_eq_Suc watched_do_def watched_init_def sys_init_def empty_queue_def one_line_def
        qmonitor_def queue_print_stats_def no_args_def print_args_def stats_line_def)
  show "reachable watched_start (watched_trans Semaphore) (watched_init 5)"
    by (rule reachable.intros(1)) (auto simp: watched_start_def intro: exI [of _ 5])
qed auto


text \<open>The monitor reads the size before the writer has counted its node, and the rest after.\<close>

definition torn_run :: "watched_event list" where
  "torn_run = [Look 0, Look 0] @ replicate 8 (Run (EvWriter (Some 7))) @ map Look [1, 2, 3, 4, 5, 6, 7, 8] @ [Look 0]"

lemma mutex_line_torn:
  "(case watched_run Mutex torn_run (watched_init 5) of Inl e \<Rightarrow> [] | Inr s \<Rightarrow> p_lines s) = [[0, 1, 0, 1, 1, 0, 1]]"
  by (simp add: torn_run_def numeral_eq_Suc watched_do_def sys_step_def writer_step_def watched_init_def sys_init_def empty_queue_def
      qmonitor_def queue_print_stats_def no_args_def print_args_def stats_line_def init_node_def monitor_holds_def)

lemma torn_line_not_ok: "\<not> line_ok n [0, 1, 0, 1, 1, 0, 1]"
  by (simp add: line_ok_def)

section \<open>The end of the monitor\<close>

text \<open>
  \<open>queue_destroy\<close> cancels the monitor. A cancelled thread ends at its next cancellation point, in \<open>printf\<close> or \<open>sleep\<close>;
  reading the fields of the queue is none. \<open>task2_1\<close> and \<open>semafors\<close> join the monitor before they free the
  queue, the others do not.
\<close>

datatype watch_state = Reads | Prints | Sleeps | Ended
datatype destroy_state = To_Cancel | To_Join | To_Free | Freed

record teardown =
  watch :: watch_state
  cancelled :: bool
  destroyer :: destroy_state

definition teardown_start :: teardown where
  "teardown_start = \<lparr>watch = Reads, cancelled = False, destroyer = To_Cancel\<rparr>"

definition monitor_life :: "teardown \<Rightarrow> teardown result" where
  "monitor_life s = (case watch s of
       Reads \<Rightarrow> if destroyer s = Freed then Inl (BadAccess 0) else Inr (s\<lparr>watch := Prints\<rparr>)
     | Prints \<Rightarrow> Inr (s\<lparr>watch := (if cancelled s then Ended else Sleeps)\<rparr>)
     | Sleeps \<Rightarrow> Inr (s\<lparr>watch := (if cancelled s then Ended else Reads)\<rparr>)
     | Ended \<Rightarrow> Inr s)"

text \<open>\<open>queue_destroy\<close> with \<open>pthread_join\<close>, and without.\<close>

definition destroy_joining :: "teardown \<Rightarrow> teardown" where
  "destroy_joining s = (case destroyer s of
       To_Cancel \<Rightarrow> s\<lparr>cancelled := True, destroyer := To_Join\<rparr>
     | To_Join \<Rightarrow> if watch s = Ended then s\<lparr>destroyer := To_Free\<rparr> else s
     | To_Free \<Rightarrow> s\<lparr>destroyer := Freed\<rparr>
     | Freed \<Rightarrow> s)"

definition destroy_cancelling :: "teardown \<Rightarrow> teardown" where
  "destroy_cancelling s = (case destroyer s of
       To_Cancel \<Rightarrow> s\<lparr>cancelled := True, destroyer := To_Free\<rparr>
     | To_Join \<Rightarrow> s
     | To_Free \<Rightarrow> s\<lparr>destroyer := Freed\<rparr>
     | Freed \<Rightarrow> s)"

text \<open>A schedule says which of the two moves, the monitor or \<open>queue_destroy\<close>.\<close>

fun teardown_run :: "(teardown \<Rightarrow> teardown) \<Rightarrow> bool list \<Rightarrow> teardown \<Rightarrow> teardown result" where
  "teardown_run f [] s = Inr s"
| "teardown_run f (b # bs) s = bindR (if b then monitor_life s else Inr (f s)) (teardown_run f bs)"

definition teardown_ok :: "teardown \<Rightarrow> bool" where
  "teardown_ok s \<longleftrightarrow> (destroyer s = To_Free \<or> destroyer s = Freed \<longrightarrow> watch s = Ended) \<and> (cancelled s \<longleftrightarrow> destroyer s \<noteq> To_Cancel)"

lemma monitor_life_ok: "teardown_ok s \<Longrightarrow> returns teardown_ok (monitor_life s)"
  unfolding monitor_life_def by (cases "watch s") (auto simp: teardown_ok_def)

lemma destroy_joining_ok: "teardown_ok s \<Longrightarrow> teardown_ok (destroy_joining s)"
  unfolding destroy_joining_def by (cases "destroyer s") (auto simp: teardown_ok_def)

lemma joining_returns: "teardown_ok s \<Longrightarrow> returns teardown_ok (teardown_run destroy_joining bs s)"
proof (induction bs arbitrary: s)
  case (Cons b bs)
  then show ?case
  proof (cases b)
    case True
    from monitor_life_ok [OF Cons.prems] obtain t where "monitor_life s = Inr t" "teardown_ok t"
      by (auto simp: returns_iff)
    then show ?thesis using Cons.IH True by simp
  qed (simp add: destroy_joining_ok)
qed simp

lemma joining_ends:
  assumes "teardown_ok s"
  shows "\<exists>t. teardown_run destroy_joining [False, True, True, False, False] s = Inr t \<and> destroyer t = Freed \<and> watch t = Ended"
  using assms by (cases "destroyer s"; cases "watch s") (simp_all add: destroy_joining_def monitor_life_def teardown_ok_def)


end
