(* ===== verification/Proxy_Server.thy ===== *)
theory Proxy_Server
  imports Proxy_Cache Echo_Net
begin

text \<open>
  The proxy with all its threads: \<open>start_proxy_server\<close> accepts connections and starts a
  \<open>client_handler\<close> for each, at most \<open>MAX_THREADS\<close> at a time, which the semaphore counts; the
  handlers share the cache. A step is one access of a thread to what is shared: a critical section of
  the cache's or a response's mutex, the semaphore, a descriptor, the allocated arguments. What a
  handler does between, alone, is in \<open>Proxy_Handler\<close>; how one client follows a response statement by
  statement in \<open>Proxy_Stream\<close>.
\<close>

section \<open>The server\<close>

definition MAX_THREADS :: nat where "MAX_THREADS = 1000"

text \<open>
  Where a handler is. \<open>P_First\<close> to \<open>P_Next\<close> stream the response at an address, with the position of
  \<open>current\<close>; \<open>P_Connect\<close> to \<open>P_Remove\<close> fetch it, with the URL of the request and, in the body, whether
  it is to be cached and the node whose lock the thread holds.
\<close>

datatype handler_pc = P_Read | P_Lookup string
  | P_First addr | P_Wait addr | P_Send addr nat | P_Next addr nat
  | P_Connect addr string | P_Poison addr string | P_Head addr string
  | P_Body addr string bool "nat option" | P_Complete addr string bool | P_Remove string
  | P_Close | P_Free | P_Post | P_Exit

record proxy_thread =
  h_socket :: int
  h_args :: addr
  h_pc :: handler_pc

datatype acceptor_pc = A_Accept | A_Wait int | A_Malloc int | A_Create int addr

record proxy_server = cache +
  sem :: nat
  acceptor :: acceptor_pc
  sockets :: "int set"
  args :: "addr set"
  threads :: "proxy_thread list"

definition server_start :: proxy_server where
  "server_start = \<lparr>c_entries = [], c_resp = Map.empty, sem = MAX_THREADS, acceptor = A_Accept,
     sockets = {}, args = {}, threads = []\<rparr>"

text \<open>
  What the next step finds outside: the returns of \<open>accept\<close> and \<open>malloc\<close>; the path of the request, if it
  is a request with one and its method is GET; whether connecting, sending or \<open>pthread_create\<close> works;
  what following the redirects comes to (whether the last response may be cached, its head if one
  arrived, and the URL the request then has); the next part of the body.
\<close>

record answer =
  a_socket :: int
  a_new :: ptr
  a_path :: "string option"
  a_ok :: bool
  a_need :: bool
  a_head :: "string option"
  a_url :: string
  a_part :: "string option"

section \<open>The thread that accepts\<close>

text \<open>The process ends if its socket cannot be set up; that an address is in use again does not stop it.\<close>

definition init_server_socket :: "setup_calls \<Rightarrow> setup_result" where
  "init_server_socket r =
     (if r_socket r = -1 then Failed False
      else if r_bind r = -1 then Failed True
      else if r_listen r = -1 then Failed True
      else Listening (r_socket r))"

definition close_socket :: "int \<Rightarrow> proxy_server \<Rightarrow> proxy_server" where
  "close_socket c s = s\<lparr>sockets := sockets s - {c}\<rparr>"

definition free_args :: "addr \<Rightarrow> proxy_server \<Rightarrow> proxy_server result" where
  "free_args p s = (if p \<in> args s then Inr (s\<lparr>args := args s - {p}\<rparr>) else Inl (InvalidFree p))"

text \<open>\<open>sem_wait\<close> without a permit leaves the state as it is.\<close>

definition start_proxy_server :: "answer \<Rightarrow> proxy_server \<Rightarrow> proxy_server result" where
  "start_proxy_server a s = (case acceptor s of
       A_Accept \<Rightarrow> Inr (if a_socket a = -1 then s
           else s\<lparr>sockets := insert (a_socket a) (sockets s), acceptor := A_Wait (a_socket a)\<rparr>)
     | A_Wait c \<Rightarrow> Inr (if sem s = 0 then s else s\<lparr>sem := sem s - 1, acceptor := A_Malloc c\<rparr>)
     | A_Malloc c \<Rightarrow>
         (case a_new a of
            None \<Rightarrow> Inr ((close_socket c s)\<lparr>sem := sem s + 1, acceptor := A_Accept\<rparr>)
          | Some p \<Rightarrow> Inr (s\<lparr>args := insert p (args s), acceptor := A_Create c p\<rparr>))
     | A_Create c p \<Rightarrow>
         if a_ok a
         then Inr (s\<lparr>threads := threads s @ [\<lparr>h_socket = c, h_args = p, h_pc = P_Read\<rparr>], acceptor := A_Accept\<rparr>)
         else bindR (free_args p s) (\<lambda>s. Inr ((close_socket c s)\<lparr>sem := sem s + 1, acceptor := A_Accept\<rparr>)))"

section \<open>The threads that serve\<close>

definition goto_pc :: "nat \<Rightarrow> handler_pc \<Rightarrow> proxy_server \<Rightarrow> proxy_server" where
  "goto_pc t pc s = s\<lparr>threads := (threads s)[t := (threads s ! t)\<lparr>h_pc := pc\<rparr>]\<rparr>"

text \<open>Somebody writes the node at position \<open>i\<close> of the response at \<open>p\<close>: it holds the node's lock.\<close>

fun writes :: "handler_pc \<Rightarrow> addr \<Rightarrow> nat \<Rightarrow> bool" where
  "writes (P_Body q u need (Some j)) p i \<longleftrightarrow> q = p \<and> j = i"
| "writes _ p i \<longleftrightarrow> False"

definition write_locked :: "addr \<Rightarrow> nat \<Rightarrow> proxy_server \<Rightarrow> bool" where
  "write_locked p i s \<longleftrightarrow> (\<exists>h \<in> set (threads s). writes (h_pc h) p i)"

text \<open>\<open>list_wait_for_data\<close> with \<open>current\<close> null: the first node, the end, or waiting on.\<close>

definition wait_for_data :: "response \<Rightarrow> addr \<Rightarrow> handler_pc" where
  "wait_for_data r p = (if r_nodes r \<noteq> [] then P_Send p 0 else if r_complete r then P_Close else P_Wait p)"

definition next_part :: "response \<Rightarrow> addr \<Rightarrow> nat \<Rightarrow> handler_pc" where
  "next_part r p i = (if Suc i < length (r_nodes r) then P_Send p (Suc i)
     else if r_complete r then P_Close else P_Wait p)"

text \<open>\<open>map_find_by_url\<close> and, if it finds nothing, \<open>map_add\<close>, in one critical section.\<close>

definition find_or_add :: "string \<Rightarrow> ptr \<Rightarrow> nat \<Rightarrow> proxy_server \<Rightarrow> proxy_server result" where
  "find_or_add u new t s = (case map_find_by_url s u of
       Some p \<Rightarrow> Inr (goto_pc t (P_First p) s)
     | None \<Rightarrow> (case new of None \<Rightarrow> Inl Aborted
         | Some p \<Rightarrow> Inr (goto_pc t (P_Connect p u) (map_add_cache p u s))))"

definition client_thread :: "answer \<Rightarrow> nat \<Rightarrow> proxy_server \<Rightarrow> proxy_server result" where
  "client_thread a t s = (let h = threads s ! t in case h_pc h of
       P_Read \<Rightarrow> Inr (goto_pc t (case a_path a of None \<Rightarrow> P_Close | Some u \<Rightarrow> P_Lookup u) s)
     | P_Lookup u \<Rightarrow> find_or_add u (a_new a) t s
     | P_First p \<Rightarrow> bindR (load (c_resp s) (Some p)) (\<lambda>r.
         Inr (goto_pc t (if r_nodes r = [] then P_Wait p else P_Send p 0) s))
     | P_Wait p \<Rightarrow> bindR (load (c_resp s) (Some p)) (\<lambda>r. Inr (goto_pc t (wait_for_data r p) s))
     | P_Send p i \<Rightarrow> bindR (load (c_resp s) (Some p)) (\<lambda>r.
         Inr (if write_locked p i s then s else goto_pc t (if a_ok a then P_Next p i else P_Close) s))
     | P_Next p i \<Rightarrow> bindR (load (c_resp s) (Some p)) (\<lambda>r. Inr (goto_pc t (next_part r p i) s))
     | P_Connect p u \<Rightarrow> Inr (goto_pc t (if a_ok a then P_Head p u else P_Poison p u) s)
     | P_Poison p u \<Rightarrow> bindR (set_complete (Some p) s) (\<lambda>s. Inr (goto_pc t (P_Complete p u True) s))
     | P_Head p u \<Rightarrow>
         (case a_head a of
            Some v \<Rightarrow> if a_need a then bindR (list_add (Some p) v s) (\<lambda>s. Inr (goto_pc t (P_Body p (a_url a) True (Some 0)) s))
              else Inr (goto_pc t (P_Body p (a_url a) False None) s)
          | None \<Rightarrow> Inr (goto_pc t (P_Body p (a_url a) (a_need a) None) s))
     | P_Body p u need cur \<Rightarrow>
         (case a_part a of
            None \<Rightarrow> Inr (goto_pc t (P_Complete p u need) s)
          | Some v \<Rightarrow> if need
              then bindR (load (c_resp s) (Some p)) (\<lambda>r. bindR (list_add (Some p) v s) (\<lambda>s.
                Inr (goto_pc t (P_Body p u True (Some (length (r_nodes r)))) s)))
              else Inr s)
     | P_Complete p u need \<Rightarrow> bindR (set_complete (Some p) s) (\<lambda>s.
         Inr (goto_pc t (if need then P_Close else P_Remove u) s))
     | P_Remove u \<Rightarrow> bindR (map_remove u s) (\<lambda>s. Inr (goto_pc t P_Close s))
     | P_Close \<Rightarrow> Inr (goto_pc t P_Free (close_socket (h_socket h) s))
     | P_Free \<Rightarrow> bindR (free_args (h_args h) s) (\<lambda>s. Inr (goto_pc t P_Post s))
     | P_Post \<Rightarrow> Inr ((goto_pc t P_Exit s)\<lparr>sem := sem s + 1\<rparr>)
     | P_Exit \<Rightarrow> Inr s)"

text \<open>
  A step of the server: \<open>None\<close> is the thread that accepts. What the system calls promise: \<open>accept\<close>
  returns a descriptor that is not open, \<open>malloc\<close> memory that is not allocated.
\<close>

definition allowed :: "nat option \<Rightarrow> answer \<Rightarrow> proxy_server \<Rightarrow> bool" where
  "allowed who a s \<longleftrightarrow> (case who of
       None \<Rightarrow> a_socket a \<notin> sockets s \<and> (case a_new a of None \<Rightarrow> True | Some p \<Rightarrow> p \<notin> args s)
     | Some t \<Rightarrow> t < length (threads s) \<and> fresh (c_resp s) (a_new a))"

definition server_step :: "nat option \<Rightarrow> answer \<Rightarrow> proxy_server \<Rightarrow> proxy_server result" where
  "server_step who a s = (case who of None \<Rightarrow> start_proxy_server a s | Some t \<Rightarrow> client_thread a t s)"

text \<open>With \<open>cacheable\<close>, only runs in which every response may be cached.\<close>

inductive server_trans :: "bool \<Rightarrow> proxy_server \<Rightarrow> proxy_server \<Rightarrow> bool" for cacheable :: bool where
  "server_step who a s = Inr t \<Longrightarrow> allowed who a s \<Longrightarrow> (cacheable \<longrightarrow> a_need a) \<Longrightarrow> server_trans cacheable s t"

inductive_cases server_transE: "server_trans cacheable s t"

section \<open>Permits, descriptors and arguments\<close>

text \<open>What the accepting thread holds, and what a handler does.\<close>

fun acc_sockets :: "acceptor_pc \<Rightarrow> int list" where
  "acc_sockets A_Accept = []"
| "acc_sockets (A_Wait c) = [c]"
| "acc_sockets (A_Malloc c) = [c]"
| "acc_sockets (A_Create c p) = [c]"

fun acc_args :: "acceptor_pc \<Rightarrow> addr list" where
  "acc_args (A_Create c p) = [p]"
| "acc_args _ = []"

fun acc_permits :: "acceptor_pc \<Rightarrow> nat" where
  "acc_permits (A_Malloc c) = 1"
| "acc_permits (A_Create c p) = 1"
| "acc_permits _ = 0"

definition live :: "proxy_thread \<Rightarrow> bool" where
  "live h \<longleftrightarrow> h_pc h \<noteq> P_Exit"

definition has_args :: "proxy_thread \<Rightarrow> bool" where
  "has_args h \<longleftrightarrow> h_pc h \<notin> {P_Post, P_Exit}"

definition has_socket :: "proxy_thread \<Rightarrow> bool" where
  "has_socket h \<longleftrightarrow> h_pc h \<notin> {P_Free, P_Post, P_Exit}"

definition res_ok :: "nat \<Rightarrow> acceptor_pc \<Rightarrow> int set \<Rightarrow> addr set \<Rightarrow> proxy_thread list \<Rightarrow> bool" where
  "res_ok n acc ss as hs \<longleftrightarrow>
     n + acc_permits acc + length (filter live hs) = MAX_THREADS \<and>
     distinct (acc_sockets acc @ map h_socket (filter has_socket hs)) \<and>
     ss = set (acc_sockets acc @ map h_socket (filter has_socket hs)) \<and>
     distinct (acc_args acc @ map h_args (filter has_args hs)) \<and>
     as = set (acc_args acc @ map h_args (filter has_args hs))"

abbreviation res_inv :: "proxy_server \<Rightarrow> bool" where
  "res_inv s \<equiv> res_ok (sem s) (acceptor s) (sockets s) (args s) (threads s)"

lemmas held_defs = live_def has_args_def has_socket_def

subsection \<open>The threads of a state\<close>

lemma goto_pc_split [simp]:
  "threads s = us @ h # vs \<Longrightarrow> goto_pc (length us) pc s = s\<lparr>threads := us @ h\<lparr>h_pc := pc\<rparr> # vs\<rparr>"
  by (simp add: goto_pc_def)

lemma allowed_split:
  assumes "allowed (Some t) a s"
  obtains us h vs where "threads s = us @ h # vs" "t = length us"
proof -
  have "threads s = take t (threads s) @ threads s ! t # drop (Suc t) (threads s)" "t = length (take t (threads s))"
    using assms by (simp_all add: allowed_def id_take_nth_drop)
  then show thesis by (rule that)
qed

text \<open>The operations on the cache leave everything else alone.\<close>

lemma list_add_okR:
  fixes s :: proxy_server
  shows "okR P (list_add q v s) \<longleftrightarrow> okR (\<lambda>h. P (s\<lparr>c_resp := h\<rparr>)) (modify (c_resp s) q (\<lambda>r. r\<lparr>r_nodes := r_nodes r @ [v]\<rparr>))"
  by (simp add: list_add_def)

lemma set_complete_okR:
  fixes s :: proxy_server
  shows "okR P (set_complete q s) \<longleftrightarrow> okR (\<lambda>h. P (s\<lparr>c_resp := h\<rparr>)) (modify (c_resp s) q (\<lambda>r. r\<lparr>r_complete := True\<rparr>))"
  by (simp add: set_complete_def)

lemma map_remove_okR:
  fixes s :: proxy_server
  assumes "\<And>es h. P (s\<lparr>c_entries := es, c_resp := h\<rparr>)" "P s"
  shows "okR P (map_remove u s)"
  using assms by (auto simp: map_remove_def split: prod.splits option.splits)

lemma res_ok_move:
  assumes "res_ok n acc ss as (us @ h # vs)" "live (h\<lparr>h_pc := pc\<rparr>) = live h" "has_args (h\<lparr>h_pc := pc\<rparr>) = has_args h"
    "has_socket (h\<lparr>h_pc := pc\<rparr>) = has_socket h"
  shows "res_ok n acc ss as (us @ h\<lparr>h_pc := pc\<rparr> # vs)"
  using assms by (cases "live h"; cases "has_args h"; cases "has_socket h") (simp_all add: res_ok_def)

text \<open>How the threads hand permits, descriptors and arguments on.\<close>

lemma res_ok_acceptor:
  "res_ok n A_Accept ss as hs \<Longrightarrow> c \<notin> ss \<Longrightarrow> res_ok n (A_Wait c) (insert c ss) as hs"
  "res_ok n (A_Wait c) ss as hs \<Longrightarrow> 0 < n \<Longrightarrow> res_ok (n - 1) (A_Malloc c) ss as hs"
  "res_ok n (A_Malloc c) ss as hs \<Longrightarrow> res_ok (n + 1) A_Accept (ss - {c}) as hs"
  "res_ok n (A_Malloc c) ss as hs \<Longrightarrow> p \<notin> as \<Longrightarrow> res_ok n (A_Create c p) ss (insert p as) hs"
  "res_ok n (A_Create c p) ss as hs \<Longrightarrow> res_ok (n + 1) A_Accept (ss - {c}) (as - {p}) hs"
  "res_ok n (A_Create c p) ss as hs \<Longrightarrow> res_ok n A_Accept ss as (hs @ [\<lparr>h_socket = c, h_args = p, h_pc = P_Read\<rparr>])"
  by (auto simp: res_ok_def held_defs)

lemma res_ok_close:
  "res_ok n acc ss as (us @ h # vs) \<Longrightarrow> h_pc h = P_Close \<Longrightarrow>
     res_ok n acc (ss - {h_socket h}) as (us @ h\<lparr>h_pc := P_Free\<rparr> # vs)"
  by (auto simp: res_ok_def held_defs)

lemma res_ok_free:
  "res_ok n acc ss as (us @ h # vs) \<Longrightarrow> h_pc h = P_Free \<Longrightarrow>
     res_ok n acc ss (as - {h_args h}) (us @ h\<lparr>h_pc := P_Post\<rparr> # vs)"
  by (auto simp: res_ok_def held_defs)

lemma res_ok_post:
  "res_ok n acc ss as (us @ h # vs) \<Longrightarrow> h_pc h = P_Post \<Longrightarrow>
     res_ok (n + 1) acc ss as (us @ h\<lparr>h_pc := P_Exit\<rparr> # vs)"
  by (auto simp: res_ok_def held_defs)

lemmas res_ok_steps = res_ok_acceptor res_ok_close res_ok_free res_ok_post

lemma start_proxy_server_res:
  assumes "res_inv s" "allowed None a s"
  shows "okR res_inv (start_proxy_server a s)"
proof (cases "acceptor s")
  case (A_Create c p)
  with assms(1) res_ok_acceptor(5,6) [of "sem s" c p "sockets s" "args s" "threads s"] show ?thesis
    by (simp add: start_proxy_server_def close_socket_def free_args_def)
next
  case (A_Wait c)
  with assms show ?thesis
    by (cases "sem s = 0") (simp_all add: start_proxy_server_def res_ok_acceptor [simplified])
qed (use assms in \<open>simp_all add: start_proxy_server_def allowed_def close_socket_def res_ok_acceptor [simplified] split: option.splits\<close>)

lemma client_thread_res:
  assumes "res_inv s" "threads s = us @ h # vs" "t = length us"
  shows "okR res_inv (client_thread a t s)"
proof (cases "h_pc h")
  case P_Close
  with assms res_ok_close show ?thesis by (simp add: client_thread_def Let_def close_socket_def)
next
  case P_Free
  with assms res_ok_free show ?thesis by (simp add: client_thread_def Let_def free_args_def)
next
  case P_Post
  with assms res_ok_post show ?thesis by (simp add: client_thread_def Let_def)
next
  case (P_Remove u)
  with assms show ?thesis
    by (auto simp: client_thread_def Let_def held_defs intro!: map_remove_okR res_ok_move)
next
  case P_Exit
  with assms show ?thesis by (simp add: client_thread_def Let_def)
qed (use assms in \<open>simp_all add: client_thread_def find_or_add_def map_add_cache_def Let_def wait_for_data_def
      next_part_def list_add_okR set_complete_okR held_defs res_ok_move split: option.splits\<close>)

interpretation proxy_resources: transition_system "\<lambda>s. s = server_start" "server_trans cacheable" res_inv for cacheable
proof
  show "res_inv s" if "s = server_start" for s
    using that by (simp add: server_start_def res_ok_def)
  show "res_inv t" if inv: "res_inv s" and step: "server_trans cacheable s t" for s t
    using step
  proof (rule server_transE)
    fix who a
    assume st: "server_step who a s = Inr t" and al: "allowed who a s"
    show ?thesis
    proof (cases who)
      case None
      with start_proxy_server_res [OF inv, of a] st al show ?thesis by (auto simp: server_step_def)
    next
      case (Some u)
      with al obtain us h vs where "threads s = us @ h # vs" "u = length us" using allowed_split by blast
      from client_thread_res [OF inv this, of a] st Some show ?thesis by (simp add: server_step_def)
    qed
  qed
qed

section \<open>Runs in which every response may be cached\<close>

text \<open>The response a handler refers to, the one it fetches, and what it knows of it.\<close>

fun pc_addr :: "handler_pc \<Rightarrow> ptr" where
  "pc_addr (P_First p) = Some p"
| "pc_addr (P_Wait p) = Some p"
| "pc_addr (P_Send p i) = Some p"
| "pc_addr (P_Next p i) = Some p"
| "pc_addr (P_Connect p u) = Some p"
| "pc_addr (P_Poison p u) = Some p"
| "pc_addr (P_Head p u) = Some p"
| "pc_addr (P_Body p u need cur) = Some p"
| "pc_addr (P_Complete p u need) = Some p"
| "pc_addr _ = None"

fun fetching :: "handler_pc \<Rightarrow> ptr" where
  "fetching (P_Connect p u) = Some p"
| "fetching (P_Poison p u) = Some p"
| "fetching (P_Head p u) = Some p"
| "fetching (P_Body p u need cur) = Some p"
| "fetching (P_Complete p u need) = Some p"
| "fetching _ = None"

definition fetchers :: "proxy_thread list \<Rightarrow> addr list" where
  "fetchers hs = concat (map (\<lambda>h. case fetching (h_pc h) of None \<Rightarrow> [] | Some p \<Rightarrow> [p]) hs)"

lemma fetchers_simps [simp]:
  "fetchers [] = []"
  "fetchers (h # hs) = (case fetching (h_pc h) of None \<Rightarrow> [] | Some p \<Rightarrow> [p]) @ fetchers hs"
  "fetchers (us @ vs) = fetchers us @ fetchers vs"
  by (simp_all add: fetchers_def)

fun pc_knows :: "(addr \<rightharpoonup> response) \<Rightarrow> handler_pc \<Rightarrow> bool" where
  "pc_knows rs (P_Send p i) \<longleftrightarrow> (\<exists>r. rs p = Some r \<and> i < length (r_nodes r))"
| "pc_knows rs (P_Next p i) \<longleftrightarrow> (\<exists>r. rs p = Some r \<and> i < length (r_nodes r))"
| "pc_knows rs (P_Connect p u) \<longleftrightarrow> (\<exists>r. rs p = Some r \<and> r_nodes r = [])"
| "pc_knows rs (P_Head p u) \<longleftrightarrow> (\<exists>r. rs p = Some r \<and> r_nodes r = [])"
| "pc_knows rs (P_Body p u need cur) \<longleftrightarrow> need \<and> (\<exists>r. rs p = Some r \<and>
     cur = (if r_nodes r = [] then None else Some (length (r_nodes r) - 1)))"
| "pc_knows rs (P_Complete p u need) \<longleftrightarrow> need \<and> p \<in> dom rs"
| "pc_knows rs (P_Remove u) \<longleftrightarrow> False"
| "pc_knows rs pc \<longleftrightarrow> (case pc_addr pc of None \<Rightarrow> True | Some p \<Rightarrow> p \<in> dom rs)"

text \<open>A response that is not complete is being fetched, and by one thread.\<close>

definition cache_inv :: "proxy_server \<Rightarrow> bool" where
  "cache_inv s \<longleftrightarrow> cache_ok s \<and> finite (dom (c_resp s)) \<and> (\<forall>h \<in> set (threads s). pc_knows (c_resp s) (h_pc h)) \<and>
     distinct (fetchers (threads s)) \<and>
     (\<forall>p r. c_resp s p = Some r \<longrightarrow> \<not> r_complete r \<longrightarrow> p \<in> set (fetchers (threads s)))"

text \<open>A response only grows.\<close>

definition grows :: "(addr \<rightharpoonup> response) \<Rightarrow> (addr \<rightharpoonup> response) \<Rightarrow> bool" where
  "grows rs rs' \<longleftrightarrow> (\<forall>p r. rs p = Some r \<longrightarrow> (\<exists>r'. rs' p = Some r' \<and> length (r_nodes r) \<le> length (r_nodes r')))"

lemma fetching_addr: "fetching pc = Some p \<Longrightarrow> pc_addr pc = Some p"
  by (cases pc) auto

lemma pc_knows_addr: "pc_knows rs pc \<Longrightarrow> pc_addr pc = Some p \<Longrightarrow> p \<in> dom rs"
  by (cases pc) auto

lemma set_fetchers: "p \<in> set (fetchers hs) \<longleftrightarrow> (\<exists>h \<in> set hs. fetching (h_pc h) = Some p)"
  by (auto simp: fetchers_def split: option.splits intro: rev_bexI)

lemma fetchers_dom: "\<forall>h \<in> set hs. pc_knows rs (h_pc h) \<Longrightarrow> p \<in> set (fetchers hs) \<Longrightarrow> p \<in> dom rs"
  unfolding set_fetchers by (blast dest: fetching_addr pc_knows_addr)

lemma grows_dom: "grows rs rs' \<Longrightarrow> p \<in> dom rs \<Longrightarrow> p \<in> dom rs'"
  unfolding grows_def by blast

lemma grows_nodes:
  "grows rs rs' \<Longrightarrow> \<exists>r. rs p = Some r \<and> i < length (r_nodes r) \<Longrightarrow> \<exists>r. rs' p = Some r \<and> i < length (r_nodes r)"
  unfolding grows_def by (meson order.strict_trans2)

text \<open>What the other threads know survives a change to a response that they do not fetch.\<close>

lemma pc_knows_grows:
  assumes "pc_knows rs pc" "grows rs rs'" "\<And>p. fetching pc = Some p \<Longrightarrow> rs' p = rs p"
  shows "pc_knows rs' pc"
proof (cases "fetching pc")
  case None
  with assms(1) grows_dom [OF assms(2)] grows_nodes [OF assms(2)] show ?thesis
    by (cases pc) simp_all
next
  case (Some p)
  with assms(3) have "rs' p = rs p" by blast
  with Some assms(1) show ?thesis by (cases pc) (simp_all add: domIff)
qed

lemma fetchers_others:
  assumes "distinct (fetchers (us @ h # vs))" "fetching (h_pc h) = Some p" "g \<in> set us \<union> set vs"
  shows "fetching (h_pc g) \<noteq> Some p"
proof
  assume "fetching (h_pc g) = Some p"
  with assms(3) have "p \<in> set (fetchers us) \<union> set (fetchers vs)" by (auto simp: set_fetchers)
  with assms(1,2) show False by auto
qed

text \<open>One thread moves to \<open>pc\<close>, and with it at most the response that it fetches changes.\<close>

lemma cache_inv_move:
  assumes inv: "cache_inv s" and hs: "threads s = us @ h # vs" and hs': "threads s' = us @ h\<lparr>h_pc := pc\<rparr> # vs"
    and ok: "cache_ok s'" and fin: "finite (dom (c_resp s'))" and grows: "grows (c_resp s) (c_resp s')" and knows: "pc_knows (c_resp s') pc"
    and same: "\<And>q. q \<in> dom (c_resp s) \<Longrightarrow> fetching (h_pc h) \<noteq> Some q \<Longrightarrow> c_resp s' q = c_resp s q"
    and new: "\<And>q. q \<notin> dom (c_resp s) \<Longrightarrow> q \<in> dom (c_resp s') \<Longrightarrow> fetching pc = Some q"
    and fetch: "fetching pc = fetching (h_pc h) \<or>
      (fetching pc = None \<and> (\<forall>q r. fetching (h_pc h) = Some q \<longrightarrow> c_resp s' q = Some r \<longrightarrow> r_complete r)) \<or>
      (fetching (h_pc h) = None \<and> (\<exists>q. fetching pc = Some q \<and> q \<notin> dom (c_resp s)))"
  shows "cache_inv s'"
  unfolding cache_inv_def
proof (intro conjI)
  from inv have k: "\<forall>g \<in> set (us @ h # vs). pc_knows (c_resp s) (h_pc g)" and d: "distinct (fetchers (us @ h # vs))"
    and c: "c_resp s p = Some r \<Longrightarrow> \<not> r_complete r \<Longrightarrow> p \<in> set (fetchers (us @ h # vs))" for p r
    by (auto simp: cache_inv_def hs)
  have "pc_knows (c_resp s') (h_pc g)" if g: "g \<in> set us \<union> set vs" for g
  proof (rule pc_knows_grows [OF _ grows])
    show "pc_knows (c_resp s) (h_pc g)" using k g by auto
    fix q assume q: "fetching (h_pc g) = Some q"
    have "pc_knows (c_resp s) (h_pc g)" using k g by auto
    then have "q \<in> dom (c_resp s)" by (rule pc_knows_addr [OF _ fetching_addr [OF q]])
    moreover have "fetching (h_pc h) \<noteq> Some q" using fetchers_others [OF d _ g] q by blast
    ultimately show "c_resp s' q = c_resp s q" by (rule same)
  qed
  with knows show "\<forall>g \<in> set (threads s'). pc_knows (c_resp s') (h_pc g)" by (auto simp: hs')
  have "\<forall>q \<in> set (fetchers us) \<union> set (fetchers vs). c_resp s q \<noteq> None"
    using fetchers_dom [OF k] by (auto simp: domIff)
  with d fetch show "distinct (fetchers (threads s'))"
    by (auto simp: hs' split: option.splits)
  show "\<forall>p r. c_resp s' p = Some r \<longrightarrow> \<not> r_complete r \<longrightarrow> p \<in> set (fetchers (threads s'))"
  proof (intro allI impI)
    fix p r assume p: "c_resp s' p = Some r" "\<not> r_complete r"
    show "p \<in> set (fetchers (threads s'))"
    proof (cases "p \<in> dom (c_resp s) \<and> fetching (h_pc h) \<noteq> Some p")
      case True
      with p same have "c_resp s p = Some r" by simp
      from c [OF this p(2)] have "p \<in> set (fetchers us) \<union> set (fetchers vs)"
        using True by (auto split: option.splits)
      then show ?thesis by (auto simp: hs' split: option.splits)
    next
      case False
      with new p fetch have "fetching pc = Some p" by (metis domI option.discI)
      then show ?thesis by (simp add: hs')
    qed
  qed
qed (rule ok fin)+

text \<open>Its thread only moves, without giving up a response that is not complete.\<close>

lemma cache_inv_goto:
  assumes "cache_inv s" "threads s = us @ h # vs" "pc_knows (c_resp s) pc" "fetching pc = fetching (h_pc h)"
  shows "cache_inv (s\<lparr>threads := us @ h\<lparr>h_pc := pc\<rparr> # vs\<rparr>)"
  by (rule cache_inv_move [OF assms(1,2)]) (use assms in \<open>auto simp: cache_inv_def cache_ok_def grows_def\<close>)

text \<open>It writes to the response it fetches.\<close>

lemma cache_inv_write:
  assumes "cache_inv s" "threads s = us @ h # vs" "fetching (h_pc h) = Some p" "c_resp s p = Some r"
    "length (r_nodes r) \<le> length (r_nodes r')" "pc_knows ((c_resp s)(p \<mapsto> r')) pc"
    "fetching pc = Some p \<or> fetching pc = None \<and> r_complete r'"
  shows "cache_inv (s\<lparr>c_resp := (c_resp s)(p \<mapsto> r'), threads := us @ h\<lparr>h_pc := pc\<rparr> # vs\<rparr>)"
  by (rule cache_inv_move [OF assms(1,2)]) (use assms in \<open>auto simp: cache_inv_def cache_ok_def grows_def\<close>)

text \<open>It adds a response, which it will fetch.\<close>

lemma cache_inv_add:
  assumes "cache_inv s" "threads s = us @ h # vs" "fetching (h_pc h) = None" "c_resp s p = None" "map_find_by_url s u = None"
  shows "cache_inv (map_add_cache p u s\<lparr>threads := us @ h\<lparr>h_pc := P_Connect p u\<rparr> # vs\<rparr>)"
proof (rule cache_inv_move [OF assms(1,2)])
  show "cache_ok (map_add_cache p u s\<lparr>threads := us @ h\<lparr>h_pc := P_Connect p u\<rparr> # vs\<rparr>)"
    using assms by (auto simp: cache_inv_def cache_ok_def map_add_cache_def map_find_by_url_def find_entry_map_of map_of_eq_None_iff)
  show "finite (dom (c_resp (map_add_cache p u s\<lparr>threads := us @ h\<lparr>h_pc := P_Connect p u\<rparr> # vs\<rparr>)))"
    using assms(1) by (simp add: cache_inv_def map_add_cache_def)
qed (use assms in \<open>auto simp: map_add_cache_def list_init_cache_def grows_def\<close>)

lemma cache_inv_fields [simp]:
  "cache_inv (s\<lparr>args := as\<rparr>) = cache_inv s" "cache_inv (s\<lparr>sem := n\<rparr>) = cache_inv s"
  "cache_inv (s\<lparr>sockets := ss\<rparr>) = cache_inv s" "cache_inv (s\<lparr>acceptor := acc\<rparr>) = cache_inv s"
  "cache_inv (s\<lparr>threads := threads s @ [\<lparr>h_socket = c, h_args = p, h_pc = P_Read\<rparr>]\<rparr>) = cache_inv s"
  by (auto simp: cache_inv_def cache_ok_def)

lemma acceptor_cache:
  assumes "cache_inv s" "res_inv s"
  shows "returns cache_inv (start_proxy_server a s)"
proof (cases "acceptor s")
  case (A_Create c p)
  with assms(2) have "p \<in> args s" by (simp add: res_ok_def)
  with A_Create assms(1) show ?thesis
    by (simp add: start_proxy_server_def close_socket_def free_args_def)
qed (use assms(1) in \<open>simp_all add: start_proxy_server_def close_socket_def split: option.splits\<close>)

lemma find_by_url_dom: "cache_ok m \<Longrightarrow> map_find_by_url m u = Some p \<Longrightarrow> p \<in> dom (c_resp m)"
  unfolding map_find_by_url_def find_entry_map_of by (drule map_of_SomeD) (force simp: cache_ok_def)

lemma client_thread_cache:
  assumes inv: "cache_inv s" "res_inv s" and hs: "threads s = us @ h # vs" "t = length us"
    and a: "a_need a" "\<forall>u. h_pc h = P_Lookup u \<longrightarrow> map_find_by_url s u = None \<longrightarrow> fresh (c_resp s) (a_new a) \<and> a_new a \<noteq> None"
  shows "returns cache_inv (client_thread a t s)"
proof -
  have k: "pc_knows (c_resp s) (h_pc h)" using inv(1) hs by (simp add: cache_inv_def)
  note step = client_thread_def Let_def hs
  note goto = cache_inv_goto [OF inv(1) hs(1)] and stores = cache_inv_write [OF inv(1) hs(1)]
  show ?thesis
  proof (cases "h_pc h")
    case (P_Lookup u)
    show ?thesis
    proof (cases "map_find_by_url s u")
      case None
      with a P_Lookup cache_inv_add [OF inv(1) hs(1)] hs(1) show ?thesis
        by (auto simp: step find_or_add_def map_add_cache_def)
    next
      case (Some p)
      with inv(1) find_by_url_dom [of s u p] have "p \<in> dom (c_resp s)" by (simp add: cache_inv_def)
      with Some P_Lookup goto [of "P_First p"] show ?thesis by (simp add: step find_or_add_def)
    qed
  next
    case P_Free
    with inv(2) hs(1) have "h_args h \<in> args s" by (simp add: res_ok_def held_defs)
    with P_Free inv(1) hs(1) cache_inv_goto [of "s\<lparr>args := args s - {h_args h}\<rparr>" us h vs P_Post] show ?thesis
      by (simp add: step free_args_def)
  next
    case P_Post
    with goto show ?thesis by (simp add: step)
  next
    case P_Close
    with inv(1) hs(1) cache_inv_goto [of "s\<lparr>sockets := sockets s - {h_socket h}\<rparr>" us h vs P_Free] show ?thesis
      by (simp add: step close_socket_def)
  qed (use inv(1) k a goto stores in \<open>auto simp: step wait_for_data_def next_part_def list_add_def set_complete_def domIff
      simp del: returns_heap split: option.splits\<close>)
qed

text \<open>Both invariants together: no thread fails unless \<open>malloc\<close> does.\<close>

definition proxy_inv :: "proxy_server \<Rightarrow> bool" where
  "proxy_inv s \<longleftrightarrow> res_inv s \<and> cache_inv s"

lemma client_thread_inv:
  assumes "proxy_inv s" "threads s = us @ h # vs" "t = length us" "a_need a"
    "\<forall>u. h_pc h = P_Lookup u \<longrightarrow> map_find_by_url s u = None \<longrightarrow> fresh (c_resp s) (a_new a) \<and> a_new a \<noteq> None"
  shows "returns proxy_inv (client_thread a t s)"
proof -
  have "okR res_inv (client_thread a t s)"
    using assms(1) by (intro client_thread_res [OF _ assms(2,3)]) (simp add: proxy_inv_def)
  moreover have "returns cache_inv (client_thread a t s)"
    using assms(1) by (intro client_thread_cache [OF _ _ assms(2-5)]) (simp_all add: proxy_inv_def)
  ultimately show ?thesis by (auto simp: proxy_inv_def returns_iff)
qed

lemma server_step_cases:
  assumes "proxy_inv s" "allowed who a s" "a_need a"
  shows "returns proxy_inv (server_step who a s) \<or> (server_step who a s = Inl Aborted \<and> a_new a = None)"
proof (cases who)
  case None
  with assms start_proxy_server_res [of s a] acceptor_cache [of s a] show ?thesis
    by (auto simp: server_step_def proxy_inv_def returns_iff)
next
  case (Some t)
  with assms(2) obtain us h vs where h: "threads s = us @ h # vs" "t = length us" by (auto elim: allowed_split)
  show ?thesis
  proof (cases "\<exists>u. h_pc h = P_Lookup u \<and> map_find_by_url s u = None \<and> a_new a = None")
    case True
    with Some h show ?thesis by (auto simp: server_step_def client_thread_def Let_def find_or_add_def)
  next
    case False
    with Some assms have "returns proxy_inv (client_thread a t s)"
      by (intro client_thread_inv [OF assms(1) h assms(3)]) (auto simp: allowed_def)
    with Some show ?thesis by (simp add: server_step_def)
  qed
qed

interpretation proxy_server: transition_system "\<lambda>s. s = server_start" "server_trans True" proxy_inv
proof
  show "proxy_inv s" if "s = server_start" for s
    using that by (simp add: server_start_def proxy_inv_def res_ok_def cache_inv_def cache_ok_def)
  show "proxy_inv t" if inv: "proxy_inv s" and step: "server_trans True s t" for s t
    using step
  proof (rule server_transE)
    fix who a
    assume "server_step who a s = Inr t" "allowed who a s" "True \<longrightarrow> a_need a"
    with server_step_cases [OF inv, of who a] show ?thesis by simp
  qed
qed

section \<open>Every client can be finished\<close>

text \<open>How far a handler is from its end, if its client leaves at the next \<open>send\<close> and its server fails.\<close>

fun rank :: "handler_pc \<Rightarrow> nat" where
  "rank (P_Read) = 10"
| "rank (P_Lookup u) = 9"
| "rank (P_Connect p u) = 8"
| "rank (P_Head p u) = 7"
| "rank (P_First p) = 6"
| "rank (P_Next p i) = 6"
| "rank (P_Poison p u) = 6"
| "rank (P_Body p u need cur) = 6"
| "rank (P_Wait p) = 5"
| "rank (P_Complete p u need) = 5"
| "rank (P_Send p i) = 4"
| "rank (P_Remove u) = 4"
| "rank P_Close = 3"
| "rank P_Free = 2"
| "rank P_Post = 1"
| "rank P_Exit = 0"

definition giving_up :: "addr \<Rightarrow> answer" where
  "giving_up p = \<lparr>a_socket = 0, a_new = Some p, a_path = None, a_ok = False, a_need = True, a_head = None,
     a_url = [], a_part = None\<rparr>"

lemma giving_up_simps [simp]:
  "a_new (giving_up p) = Some p" "a_path (giving_up p) = None" "\<not> a_ok (giving_up p)" "a_need (giving_up p)"
  "a_head (giving_up p) = None" "a_part (giving_up p) = None"
  by (simp_all add: giving_up_def)

lemma writes_fetching: "writes pc p i \<Longrightarrow> fetching pc = Some p"
  by (induction pc p i rule: writes.induct) auto

lemma rank_decreases:
  assumes inv: "proxy_inv s" and hs: "threads s = us @ h # vs" and live: "h_pc h \<noteq> P_Exit"
    and p: "c_resp s p = None" and alone: "fetching (h_pc h) = None \<Longrightarrow> fetchers (threads s) = []"
  shows "returns (\<lambda>t. acceptor t = acceptor s \<and> threads t = us @ (threads t ! length us) # vs \<and>
    rank (h_pc (threads t ! length us)) < rank (h_pc h))
    (client_thread (giving_up p) (length us) s)"
proof -
  let ?goal = "returns (\<lambda>t. acceptor t = acceptor s \<and> threads t = us @ (threads t ! length us) # vs \<and>
    rank (h_pc (threads t ! length us)) < rank (h_pc h))
    (client_thread (giving_up p) (length us) s)"
  have k: "pc_knows (c_resp s) (h_pc h)" using inv hs by (simp add: proxy_inv_def cache_inv_def)
  have c: "r_complete r" if "c_resp s q = Some r" "fetching (h_pc h) = None" for q r
    using inv that alone by (fastforce simp: proxy_inv_def cache_inv_def)
  have w: "\<not> write_locked q i s" if "fetching (h_pc h) = None" for q i
  proof
    assume "write_locked q i s"
    then obtain g where "g \<in> set (threads s)" "fetching (h_pc g) = Some q"
      unfolding write_locked_def by (blast dest: writes_fetching)
    then have "q \<in> set (fetchers (threads s))" by (auto simp: set_fetchers)
    with alone that show False by simp
  qed
  have args: "h_args h \<in> args s" if "h_pc h = P_Free"
    using inv hs that by (simp add: proxy_inv_def res_ok_def held_defs)
  show ?goal
    using live k c w args p hs
    by (cases "h_pc h") (auto simp: client_thread_def Let_def find_or_add_def map_add_cache_def wait_for_data_def
      next_part_def set_complete_def free_args_def close_socket_def simp del: returns_heap split: option.splits)
qed

definition total_rank :: "proxy_server \<Rightarrow> nat" where
  "total_rank s = sum_list (map (\<lambda>h. rank (h_pc h)) (threads s))"

text \<open>As long as a handler lives one can move towards its end: one that fetches, if there is any.\<close>

lemma some_thread_decreases:
  assumes inv: "proxy_inv s" and live: "g \<in> set (threads s)" "h_pc g \<noteq> P_Exit"
  shows "\<exists>t. server_trans True s t \<and> total_rank t < total_rank s \<and> acceptor t = acceptor s"
proof -
  obtain h where h: "h \<in> set (threads s)" "h_pc h \<noteq> P_Exit" "fetching (h_pc h) = None \<Longrightarrow> fetchers (threads s) = []"
  proof (cases "fetchers (threads s) = []")
    case True
    with live that show thesis by blast
  next
    case False
    then obtain q where "q \<in> set (fetchers (threads s))" by (metis list.set_sel(1))
    then obtain f where "f \<in> set (threads s)" "fetching (h_pc f) = Some q" by (auto simp: set_fetchers)
    with that [of f] show thesis by (metis fetching.simps(16) option.discI)
  qed
  then obtain us vs where hs: "threads s = us @ h # vs" by (meson split_list)
  from inv have "finite (dom (c_resp s))" by (simp add: proxy_inv_def cache_inv_def)
  then obtain p where p: "c_resp s p = None" using ex_new_if_finite [of "dom (c_resp s)"] by auto
  from rank_decreases [OF inv hs h(2) p h(3)] obtain t where t: "client_thread (giving_up p) (length us) s = Inr t"
    "acceptor t = acceptor s" "threads t = us @ (threads t ! length us) # vs"
    "rank (h_pc (threads t ! length us)) < rank (h_pc h)"
    by (auto simp: returns_iff)
  have "server_trans True s t"
    by (rule server_trans.intros [of "Some (length us)" "giving_up p"])
      (use t(1) p hs in \<open>simp_all add: server_step_def allowed_def\<close>)
  moreover have "total_rank t < total_rank s"
    using t(4) by (subst total_rank_def, subst t(3)) (simp add: total_rank_def hs)
  ultimately show ?thesis using t(2) by blast
qed

lemma all_threads_end:
  "proxy_inv s \<Longrightarrow> \<exists>t. (server_trans True)\<^sup>*\<^sup>* s t \<and> acceptor t = acceptor s \<and> (\<forall>h \<in> set (threads t). h_pc h = P_Exit)"
proof (induction "total_rank s" arbitrary: s rule: less_induct)
  case less
  show ?case
  proof (cases "\<forall>h \<in> set (threads s). h_pc h = P_Exit")
    case False
    with some_thread_decreases [OF less.prems] obtain t where
      t: "server_trans True s t" "total_rank t < total_rank s" "acceptor t = acceptor s" by blast
    with less.hyps [OF t(2)] proxy_server.inv_step [OF less.prems t(1)] obtain u where
      "(server_trans True)\<^sup>*\<^sup>* t u" "acceptor u = acceptor t" "\<forall>h \<in> set (threads u). h_pc h = P_Exit" by blast
    with t show ?thesis by (metis converse_rtranclp_into_rtranclp)
  qed blast
qed

section \<open>Runs\<close>

text \<open>A schedule: who moves, and with which answer.\<close>

fun run_server :: "(nat option \<times> answer) list \<Rightarrow> proxy_server \<Rightarrow> proxy_server result" where
  "run_server [] s = Inr s"
| "run_server ((who, a) # evs) s = (if allowed who a s then bindR (server_step who a s) (run_server evs) else Inr s)"

lemma run_server_reachable:
  "reachable (\<lambda>s. s = server_start) (server_trans c) s \<Longrightarrow> (c \<Longrightarrow> list_all (\<lambda>(who, a). a_need a) evs) \<Longrightarrow>
     run_server evs s = Inr t \<Longrightarrow> reachable (\<lambda>s. s = server_start) (server_trans c) t"
proof (induction evs arbitrary: s)
  case (Cons e evs)
  obtain who a where e: "e = (who, a)" by (cases e)
  show ?case
  proof (cases "allowed who a s")
    case True
    with Cons.prems(3) obtain s' where s': "server_step who a s = Inr s'" "run_server evs s' = Inr t"
      by (auto simp: e bindR_eq_Inr)
    have "server_trans c s s'" using s' True Cons.prems(2) by (intro server_trans.intros) (auto simp: e)
    with Cons.IH [of s'] Cons.prems s' show ?thesis by (auto intro: reach_step)
  next
    case False
    with Cons.prems show ?thesis by (simp add: e)
  qed
qed simp

definition any :: answer where
  "any = \<lparr>a_socket = -1, a_new = None, a_path = None, a_ok = True, a_need = True, a_head = None, a_url = [], a_part = None\<rparr>"

definition accept_client :: "int \<Rightarrow> addr \<Rightarrow> (nat option \<times> answer) list" where
  "accept_client c p = [(None, any\<lparr>a_socket := c\<rparr>), (None, any), (None, any\<lparr>a_new := Some p\<rparr>), (None, any)]"

definition request_path :: "nat \<Rightarrow> string \<Rightarrow> ptr \<Rightarrow> (nat option \<times> answer) list" where
  "request_path t u p = [(Some t, any\<lparr>a_path := Some u\<rparr>), (Some t, any\<lparr>a_new := p\<rparr>)]"

lemmas run_simps = run_server.simps allowed_def server_step_def start_proxy_server_def client_thread_def Let_def
  find_or_add_def map_add_cache_def map_find_by_url_def list_init_cache_def goto_pc_def list_add_def set_complete_def
  map_remove_def wait_for_data_def next_part_def write_locked_def close_socket_def free_args_def
  server_start_def accept_client_def request_path_def any_def MAX_THREADS_def

text \<open>The first client's page is fetched while the second waits for it and then receives both parts.\<close>

definition shared_fetch :: "(nat option \<times> answer) list" where
  "shared_fetch = accept_client 4 100 @ accept_client 5 200 @ request_path 0 ''/a'' (Some 0) @ request_path 1 ''/a'' None
     @ [(Some 1, any), (Some 0, any), (Some 0, any\<lparr>a_head := Some ''head''\<rparr>), (Some 1, any),
        (Some 0, any\<lparr>a_part := Some ''body''\<rparr>), (Some 1, any), (Some 0, any), (Some 0, any), (Some 1, any), (Some 1, any),
        (Some 1, any)]"

lemma shared_fetch_run:
  "run_server shared_fetch server_start = Inr \<lparr>c_entries = [(''/a'', 0)],
     c_resp = [0 \<mapsto> \<lparr>r_nodes = [''head'', ''body''], r_complete = True\<rparr>], sem = 998, acceptor = A_Accept,
     sockets = {4, 5}, args = {100, 200},
     threads = [\<lparr>h_socket = 4, h_args = 100, h_pc = P_Close\<rparr>, \<lparr>h_socket = 5, h_args = 200, h_pc = P_Close\<rparr>]\<rparr>"
  by (simp add: shared_fetch_def run_simps insert_commute)

text \<open>
  The first client's page may not be cached; the second client waits for it when its response is freed.
\<close>

definition freed_under_reader :: "(nat option \<times> answer) list" where
  "freed_under_reader = accept_client 4 100 @ accept_client 5 200 @ request_path 0 ''/a'' (Some 0) @ request_path 1 ''/a'' None
     @ [(Some 1, any), (Some 0, any), (Some 0, any\<lparr>a_head := Some ''404'', a_need := False, a_url := ''/a''\<rparr>),
        (Some 0, any), (Some 0, any), (Some 0, any), (Some 1, any)]"

text \<open>
  The first client's request is redirected to a page that may not be cached and that the second client
  is fetching: it frees the response which the second thread writes.
\<close>

definition freed_under_writer :: "(nat option \<times> answer) list" where
  "freed_under_writer = accept_client 4 100 @ accept_client 5 200 @ request_path 0 ''/a'' (Some 0) @ request_path 1 ''/b'' (Some 1)
     @ [(Some 1, any), (Some 1, any\<lparr>a_head := Some ''head''\<rparr>), (Some 0, any),
        (Some 0, any\<lparr>a_need := False, a_url := ''/b''\<rparr>), (Some 0, any), (Some 0, any), (Some 0, any),
        (Some 1, any\<lparr>a_part := Some ''body''\<rparr>)]"

section \<open>Properties\<close>



text \<open>
  C3. While every response may be cached, no thread reads or writes freed memory or frees anything
  twice: a step fails only if \<open>malloc\<close> does. A URL has one entry, no two threads fetch the same
  response, and a response that is not complete has a thread that fetches it.
\<close>

theorem proxy_server_safe:
  assumes "reachable (\<lambda>s. s = server_start) (server_trans True) s" "allowed who a s" "a_need a"
  shows "((\<exists>t. server_step who a s = Inr t) \<or> (server_step who a s = Inl Aborted \<and> a_new a = None)) \<and>
    distinct (map fst (c_entries s)) \<and> distinct (fetchers (threads s)) \<and>
    (\<forall>p r. c_resp s p = Some r \<longrightarrow> \<not> r_complete r \<longrightarrow> (\<exists>h \<in> set (threads s). fetching (h_pc h) = Some p))"
proof -
  have inv: "proxy_inv s" using proxy_server.reachable_inv [OF assms(1)] .
  from server_step_cases [OF inv assms(2,3)]
  have "(\<exists>t. server_step who a s = Inr t) \<or> (server_step who a s = Inl Aborted \<and> a_new a = None)"
    by (auto simp: returns_iff)
  with inv show ?thesis by (auto simp: proxy_inv_def cache_inv_def cache_ok_def set_fetchers)
qed

theorem proxy_server_safe_witness:
  "\<exists>s t. run_server shared_fetch server_start = Inr s \<and> server_step (Some 1) any s = Inr t"
proof -
  obtain s where s: "run_server shared_fetch server_start = Inr s" "length (threads s) = 2"
    using shared_fetch_run by simp
  have "reachable (\<lambda>s. s = server_start) (server_trans True) s"
    by (rule run_server_reachable [OF _ _ s(1)])
      (auto intro: reach_start simp: shared_fetch_def accept_client_def request_path_def any_def)
  from proxy_server_safe [OF this, of "Some 1" "any\<lparr>a_new := None\<rparr>"] s shared_fetch_run show ?thesis
    by (auto simp: allowed_def any_def server_step_def client_thread_def)
qed




end
