(* ===== verification/Tcp_Server.thy ===== *)
theory Tcp_Server
  imports Echo_Net
begin

text \<open>
  The whole TCP server of \<open>task7_1\<close>: \<open>main\<close> accepts a connection, forks a process that serves it
  (\<open>handleClient\<close>, in \<open>Echo_Net\<close>) and closes its own copy of the socket; \<open>sigchldHandler\<close> reaps the
  processes that have ended. Processes are interleaved call by call. \<open>SIGCHLD\<close> is one pending bit: further
  signals are lost while it is set, and it is blocked while the handler runs.
\<close>

section \<open>The processes\<close>

datatype phase = Forked | Serving | Zombie | Reaped

text \<open>A child with its descriptors and the connection it serves, which the client may use when it has gone.\<close>

record child =
  c_phase :: phase
  c_sock :: int
  c_fds :: "int set"
  c_talk :: conv

datatype main_pc = T_Accept | T_Fork int | T_Close int

record tcp_server =
  l_sock :: int
  l_pc :: main_pc
  l_fds :: "int set"
  pending :: bool
  in_handler :: bool
  children :: "child list"

text \<open>
  \<open>setupSigchldHandler\<close> and \<open>setupServerSocket\<close> succeed or end the process; \<open>main\<close> wants one argument.
\<close>

definition setupSigchldHandler :: "int \<Rightarrow> bool" where
  "setupSigchldHandler r \<longleftrightarrow> r \<noteq> -1"

definition tcp_server_main :: "nat \<Rightarrow> setup_calls \<Rightarrow> int \<Rightarrow> tcp_server option" where
  "tcp_server_main argc calls sigaction = (if argc \<noteq> 2 then None
     else case setupServerSocket calls of Failed _ \<Rightarrow> None
       | Listening l \<Rightarrow> if setupSigchldHandler sigaction
           then Some \<lparr>l_sock = l, l_pc = T_Accept, l_fds = {l}, pending = False, in_handler = False, children = []\<rparr>
           else None)"

text \<open>
  The loop of \<open>main\<close>: \<open>c\<close> is the return of \<open>accept\<close>, \<open>forked\<close> says whether \<open>fork\<close> succeeds. The child starts
  with copies of all descriptors.
\<close>

definition accept_loop :: "int \<Rightarrow> bool \<Rightarrow> tcp_server \<Rightarrow> tcp_server" where
  "accept_loop c forked s = (case l_pc s of
       T_Accept \<Rightarrow> if c < 0 then s else s\<lparr>l_pc := T_Fork c, l_fds := insert c (l_fds s)\<rparr>
     | T_Fork c \<Rightarrow> s\<lparr>l_pc := T_Close c, children := children s @
         (if forked then [\<lparr>c_phase = Forked, c_sock = c, c_fds = l_fds s, c_talk = conv_init\<rparr>] else [])\<rparr>
     | T_Close c \<Rightarrow> s\<lparr>l_pc := T_Accept, l_fds := l_fds s - {c}\<rparr>)"

text \<open>\<open>waitpid(-1, NULL, WNOHANG)\<close>: some child that has ended is removed from the table of processes.\<close>

fun waitpid :: "child list \<Rightarrow> child list option" where
  "waitpid [] = None"
| "waitpid (c # cs) = (if c_phase c = Zombie then Some (c\<lparr>c_phase := Reaped\<rparr> # cs) else map_option ((#) c) (waitpid cs))"

definition sigchldHandler :: "tcp_server \<Rightarrow> tcp_server" where
  "sigchldHandler s = (case waitpid (children s) of
       None \<Rightarrow> s\<lparr>in_handler := False\<rparr>
     | Some cs \<Rightarrow> s\<lparr>children := cs\<rparr>)"

text \<open>The child closes the listening socket; when \<open>handleClient\<close> ends, it closes its own and exits.\<close>

definition child_step :: "int \<Rightarrow> child \<Rightarrow> child" where
  "child_step l c = (case c_phase c of
       Forked \<Rightarrow> c\<lparr>c_phase := Serving, c_fds := c_fds c - {l}\<rparr>
     | Serving \<Rightarrow> if srv (c_talk c) = HC_Exit then c\<lparr>c_phase := Zombie, c_fds := {}\<rparr> else c
     | _ \<Rightarrow> c)"

text \<open>A client may move at any time, the server's side of a connection only while its process serves.\<close>

definition talk_ok :: "move \<Rightarrow> child \<Rightarrow> bool" where
  "talk_ok e c \<longleftrightarrow> move_ok True e (c_talk c) \<and> (case e of Serve r \<Rightarrow> c_phase c = Serving | Chat l r \<Rightarrow> True)"

inductive tcp_trans :: "tcp_server \<Rightarrow> tcp_server \<Rightarrow> bool" where
  main: "\<not> in_handler s \<Longrightarrow> c \<notin> l_fds s \<Longrightarrow> tcp_trans s (accept_loop c forked s)"
| signal: "pending s \<Longrightarrow> \<not> in_handler s \<Longrightarrow> tcp_trans s (s\<lparr>pending := False, in_handler := True\<rparr>)"
| handler: "in_handler s \<Longrightarrow> tcp_trans s (sigchldHandler s)"
| child: "children s = us @ c # vs \<Longrightarrow> d = child_step (l_sock s) c \<Longrightarrow>
    tcp_trans s (s\<lparr>children := us @ d # vs, pending := (pending s \<or> c_phase c \<noteq> Zombie \<and> c_phase d = Zombie)\<rparr>)"
| talk: "children s = us @ c # vs \<Longrightarrow> talk_ok e c \<Longrightarrow>
    tcp_trans s (s\<lparr>children := us @ c\<lparr>c_talk := do_move e (c_talk c)\<rparr> # vs\<rparr>)"

inductive_cases tcp_transE: "tcp_trans s t"

definition tcp_start :: "tcp_server \<Rightarrow> bool" where
  "tcp_start s \<longleftrightarrow> (\<exists>calls r. tcp_server_main 2 calls r = Some s)"

section \<open>The invariant\<close>

fun phase_fds :: "phase \<Rightarrow> int \<Rightarrow> int \<Rightarrow> int set" where
  "phase_fds Forked l c = {l, c}"
| "phase_fds Serving l c = {c}"
| "phase_fds _ l c = {}"

definition child_ok :: "int \<Rightarrow> child \<Rightarrow> bool" where
  "child_ok l c \<longleftrightarrow> c_sock c \<noteq> l \<and> conv_inv (c_talk c) \<and>
     c_fds c = phase_fds (c_phase c) l (c_sock c)"

fun pc_fds :: "main_pc \<Rightarrow> int set" where
  "pc_fds T_Accept = {}"
| "pc_fds (T_Fork c) = {c}"
| "pc_fds (T_Close c) = {c}"

definition tcp_inv :: "tcp_server \<Rightarrow> bool" where
  "tcp_inv s \<longleftrightarrow> l_fds s = insert (l_sock s) (pc_fds (l_pc s)) \<and> l_sock s \<notin> pc_fds (l_pc s) \<and>
     (\<forall>c \<in> set (children s). child_ok (l_sock s) c) \<and>
     ((\<exists>c \<in> set (children s). c_phase c = Zombie) \<longrightarrow> pending s \<or> in_handler s)"

lemma waitpid_None: "waitpid cs = None \<longleftrightarrow> (\<forall>c \<in> set cs. c_phase c \<noteq> Zombie)"
  by (induction cs) auto

lemma waitpid_Some:
  "waitpid cs = Some ds \<Longrightarrow> \<exists>us c vs. cs = us @ c # vs \<and> c_phase c = Zombie \<and> ds = us @ c\<lparr>c_phase := Reaped\<rparr> # vs"
proof (induction cs arbitrary: ds)
  case (Cons c cs)
  show ?case
  proof (cases "c_phase c = Zombie")
    case True
    with Cons.prems have "c # cs = [] @ c # cs" "ds = [] @ c\<lparr>c_phase := Reaped\<rparr> # cs" by auto
    with True show ?thesis by blast
  next
    case False
    with Cons obtain es where "waitpid cs = Some es" "ds = c # es" by auto
    with Cons.IH show ?thesis by (metis append_Cons)
  qed
qed simp

lemma child_step_ok: "child_ok l c \<Longrightarrow> child_ok l (child_step l c)"
  by (cases "c_phase c") (auto simp: child_ok_def child_step_def)

lemma talk_child_ok: "child_ok l c \<Longrightarrow> talk_ok e c \<Longrightarrow> child_ok l (c\<lparr>c_talk := do_move e (c_talk c)\<rparr>)"
  using tcp.inv_step conv_trans.intros by (auto simp: child_ok_def talk_ok_def)

lemma conv_inv_init [simp]: "conv_inv conv_init"
  by (rule tcp.inv_start) simp

lemma tcp_start_inv: "tcp_start s \<Longrightarrow> tcp_inv s"
  unfolding tcp_start_def
proof (elim exE)
  fix calls r
  assume "tcp_server_main 2 calls r = Some s"
  then show "tcp_inv s"
    by (cases "setupServerSocket calls") (auto simp: tcp_server_main_def tcp_inv_def split: if_splits)
qed

interpretation tcp_processes: transition_system tcp_start tcp_trans tcp_inv
proof
  show "tcp_inv s" if "tcp_start s" for s using that by (rule tcp_start_inv)
  show "tcp_inv t" if inv: "tcp_inv s" and step: "tcp_trans s t" for s t
    using step
  proof cases
    case (main c forked)
    with inv show ?thesis
      by (cases "l_pc s") (auto simp: tcp_inv_def accept_loop_def child_ok_def)
  next
    case signal
    with inv show ?thesis by (simp add: tcp_inv_def)
  next
    case handler
    show ?thesis
    proof (cases "waitpid (children s)")
      case None
      with inv handler show ?thesis by (auto simp: tcp_inv_def sigchldHandler_def waitpid_None)
    next
      case (Some ds)
      with waitpid_Some [OF Some] inv handler show ?thesis
        by (auto simp: tcp_inv_def sigchldHandler_def child_ok_def)
    qed
  next
    case (child us c vs d)
    with inv child_step_ok show ?thesis by (auto simp: tcp_inv_def)
  next
    case (talk us c vs e)
    with inv talk_child_ok [of _ c e] show ?thesis by (auto simp: tcp_inv_def)
  qed
qed

section \<open>Reaping\<close>

definition zombies :: "tcp_server \<Rightarrow> nat" where
  "zombies s = length (filter (\<lambda>c. c_phase c = Zombie) (children s))"

lemma no_zombies: "zombies s = 0 \<longleftrightarrow> (\<forall>c \<in> set (children s). c_phase c \<noteq> Zombie)"
  by (auto simp: zombies_def filter_empty_conv)

text \<open>The loop of the handler comes to its end, without zombies, and changes nothing else.\<close>

lemma handler_reaps:
  "in_handler s \<Longrightarrow> \<exists>t. tcp_trans\<^sup>*\<^sup>* s t \<and> \<not> in_handler t \<and> zombies t = 0 \<and> l_pc t = l_pc s \<and> map c_talk (children t) = map c_talk (children s)"
proof (induction "zombies s" arbitrary: s rule: less_induct)
  case less
  have step: "tcp_trans s (sigchldHandler s)" using less.prems by (rule tcp_trans.handler)
  show ?case
  proof (cases "waitpid (children s)")
    case None
    then have "sigchldHandler s = s\<lparr>in_handler := False\<rparr>" by (simp add: sigchldHandler_def)
    moreover from None have "zombies (s\<lparr>in_handler := False\<rparr>) = 0" by (simp add: no_zombies waitpid_None)
    ultimately show ?thesis using step by (intro exI [of _ "s\<lparr>in_handler := False\<rparr>"]) auto
  next
    case (Some ds)
    then have h: "sigchldHandler s = s\<lparr>children := ds\<rparr>" by (simp add: sigchldHandler_def)
    from waitpid_Some [OF Some] obtain us c vs where
      ds: "children s = us @ c # vs" "c_phase c = Zombie" "ds = us @ c\<lparr>c_phase := Reaped\<rparr> # vs" by blast
    then have z: "zombies (s\<lparr>children := ds\<rparr>) < zombies s" by (simp add: zombies_def)
    from less.hyps [OF z] less.prems obtain t where
      "tcp_trans\<^sup>*\<^sup>* (s\<lparr>children := ds\<rparr>) t" "\<not> in_handler t" "zombies t = 0" "l_pc t = l_pc s"
      "map c_talk (children t) = map c_talk ds" by auto
    with step h ds show ?thesis by (intro exI [of _ t]) (auto intro: converse_rtranclp_into_rtranclp)
  qed
qed

section \<open>A run\<close>

datatype event = Main int bool | Signal | Handle | Child nat | Talk nat move

fun do_event :: "event \<Rightarrow> tcp_server \<Rightarrow> tcp_server option" where
  "do_event (Main c forked) s = (if in_handler s \<or> c \<in> l_fds s then None else Some (accept_loop c forked s))"
| "do_event Signal s = (if pending s \<and> \<not> in_handler s then Some (s\<lparr>pending := False, in_handler := True\<rparr>) else None)"
| "do_event Handle s = (if in_handler s then Some (sigchldHandler s) else None)"
| "do_event (Child i) s = (if i < length (children s) then
     let c = children s ! i; d = child_step (l_sock s) c in
     Some (s\<lparr>children := (children s)[i := d], pending := (pending s \<or> c_phase c \<noteq> Zombie \<and> c_phase d = Zombie)\<rparr>) else None)"
| "do_event (Talk i e) s = (if i < length (children s) \<and> talk_ok e (children s ! i) then
     Some (s\<lparr>children := (children s)[i := (children s ! i)\<lparr>c_talk := do_move e (c_talk (children s ! i))\<rparr>]\<rparr>) else None)"

fun run_tcp :: "event list \<Rightarrow> tcp_server \<Rightarrow> tcp_server option" where
  "run_tcp [] s = Some s"
| "run_tcp (e # es) s = (case do_event e s of None \<Rightarrow> None | Some t \<Rightarrow> run_tcp es t)"

lemma do_event_trans: "do_event e s = Some t \<Longrightarrow> tcp_trans s t"
proof (cases e)
  case (Child i)
  assume t: "do_event e s = Some t"
  then have i: "children s = take i (children s) @ children s ! i # drop (Suc i) (children s)" "i < length (children s)"
    by (auto simp: Child id_take_nth_drop split: if_splits)
  from tcp_trans.child [OF i(1) refl] t Child i(2) show ?thesis by (simp add: Let_def upd_conv_take_nth_drop)
next
  case (Talk i m)
  assume t: "do_event e s = Some t"
  then have i: "children s = take i (children s) @ children s ! i # drop (Suc i) (children s)" "i < length (children s)"
    by (auto simp: Talk id_take_nth_drop split: if_splits)
  from tcp_trans.talk [OF i(1), of m] t Talk i(2) show ?thesis by (simp add: upd_conv_take_nth_drop split: if_splits)
qed (auto intro: tcp_trans.intros split: if_splits)

lemma run_tcp_reachable:
  "reachable tcp_start tcp_trans s \<Longrightarrow> run_tcp es s = Some t \<Longrightarrow> reachable tcp_start tcp_trans t"
  by (induction es arbitrary: s) (auto dest: do_event_trans intro: reach_step split: option.splits)

text \<open>Two clients are served; both processes end before the handler runs once.\<close>

definition server0 :: tcp_server where
  "server0 = \<lparr>l_sock = 3, l_pc = T_Accept, l_fds = {3}, pending = False, in_handler = False, children = []\<rparr>"

definition two_clients :: "event list" where
  "two_clients = [Main 4 True, Main 5 True, Main 5 True, Child 0, Talk 0 (Chat (Some ''hi'') (Some 2)), Talk 0 (Serve (Some 2)),
     Main 6 True, Main 7 True, Child 1, Talk 0 (Serve (Some 2)), Talk 0 (Chat None (Some 2)), Talk 0 (Serve None),
     Talk 1 (Serve None), Child 0, Child 1]"

lemma server0_reachable: "reachable tcp_start tcp_trans server0"
proof (rule reach_start)
  have "tcp_server_main 2 \<lparr>r_socket = 3, r_setsockopt = 0, r_bind = 0, r_listen = 0\<rparr> 0 = Some server0"
    by (simp add: tcp_server_main_def setupServerSocket_def setupSigchldHandler_def server0_def)
  then show "tcp_start server0" unfolding tcp_start_def by blast
qed

lemma two_clients_run:
  "\<exists>s. run_tcp two_clients server0 = Some s \<and> map c_phase (children s) = [Zombie, Zombie] \<and>
     map (\<lambda>c. printed (c_talk c)) (children s) = [''hi'', []]"
  by (simp add: two_clients_def server0_def accept_loop_def child_step_def talk_ok_def handleClient_def communicate_def
    c_string_def recv_ok_def conv_init_def BUFFER_SIZE_def CLIENT_BUF_def Let_def numeral_eq_Suc)

section \<open>Properties\<close>

text \<open>
  C25. No zombie is forgotten although signals that arrive while one is pending are lost: a process that
  has ended has its signal pending or the handler at work, and the handler then ends with every
  process reaped that had ended.
\<close>

theorem tcp_server_reaps:
  assumes "reachable tcp_start tcp_trans s"
  shows "((\<exists>c \<in> set (children s). c_phase c = Zombie) \<longrightarrow> pending s \<or> in_handler s) \<and>
    (\<exists>t. tcp_trans\<^sup>*\<^sup>* s t \<and> (\<forall>c \<in> set (children t). c_phase c \<noteq> Zombie) \<and>
      l_pc t = l_pc s \<and> map c_talk (children t) = map c_talk (children s))"
proof
  have inv: "tcp_inv s" using tcp_processes.reachable_inv [OF assms] .
  then show z: "(\<exists>c \<in> set (children s). c_phase c = Zombie) \<longrightarrow> pending s \<or> in_handler s" by (simp add: tcp_inv_def)
  show "\<exists>t. tcp_trans\<^sup>*\<^sup>* s t \<and> (\<forall>c \<in> set (children t). c_phase c \<noteq> Zombie) \<and> l_pc t = l_pc s \<and>
      map c_talk (children t) = map c_talk (children s)"
  proof (cases "in_handler s")
    case True
    with handler_reaps [of s] show ?thesis by (auto simp: no_zombies)
  next
    case False
    show ?thesis
    proof (cases "pending s")
      case True
      from True False have "tcp_trans s (s\<lparr>pending := False, in_handler := True\<rparr>)" by (rule tcp_trans.signal)
      with handler_reaps [of "s\<lparr>pending := False, in_handler := True\<rparr>"] show ?thesis
        by (auto simp: no_zombies intro: converse_rtranclp_into_rtranclp)
    next
      case False
      with z \<open>\<not> in_handler s\<close> show ?thesis by blast
    qed
  qed
qed

theorem tcp_server_reaps_witness:
  "\<exists>s t. run_tcp two_clients server0 = Some s \<and> map c_phase (children s) = [Zombie, Zombie] \<and>
     tcp_trans\<^sup>*\<^sup>* s t \<and> (\<forall>c \<in> set (children t). c_phase c \<noteq> Zombie)"
  using two_clients_run
proof (elim exE conjE)
  fix s
  assume s: "run_tcp two_clients server0 = Some s" "map c_phase (children s) = [Zombie, Zombie]"
  from tcp_server_reaps [OF run_tcp_reachable [OF server0_reachable s(1)]]
  have "\<exists>t. tcp_trans\<^sup>*\<^sup>* s t \<and> (\<forall>c \<in> set (children t). c_phase c \<noteq> Zombie)" by blast
  with s show ?thesis by simp
qed



end
