(* ===== verification/Echo_Setup.thy ===== *)
theory Echo_Setup
  imports Echo_Net "HOL-Library.Word"
begin

unbundle bit_operations_syntax

text \<open>
  What the echo programs of \<open>task7_1\<close>, \<open>task7_2\<close> and \<open>task7_3\<close> do before they talk: counting arguments,
  creating sockets, and the addresses they bind or connect to, with the port in network byte order.
  \<open>clientLoop\<close>, the client of \<open>task7_3\<close>, is shown to be the client of \<open>task7_1\<close>.
\<close>

section \<open>Addresses\<close>

text \<open>\<open>htons\<close> of a little-endian machine, applied to the low 16 bits of the \<open>int\<close> that \<open>atoi\<close> returned.\<close>

definition htons :: "16 word \<Rightarrow> 16 word" where
  "htons p = push_bit 8 p OR drop_bit 8 p"

record sockaddr =
  sin_port :: "16 word"
  sin_addr :: "32 word"

definition prepareServerAddress :: "32 word \<Rightarrow> int \<Rightarrow> sockaddr" where
  "prepareServerAddress addr port = \<lparr>sin_port = htons (word_of_int port), sin_addr = addr\<rparr>"

definition INADDR_ANY :: "32 word" where "INADDR_ANY = 0"

text \<open>The port that an address stands for on the network.\<close>

definition network_port :: "sockaddr \<Rightarrow> int" where
  "network_port a = uint (htons (sin_port a))"

section \<open>TCP\<close>

text \<open>
  \<open>createSocket\<close>, \<open>connectToServer\<close> and \<open>main\<close> of the client: \<open>sock\<close> is the return of \<open>socket\<close>, \<open>ip\<close> what
  \<open>inet_pton\<close> makes of the address, \<open>conn\<close> the return of \<open>connect\<close> for an address. A failure ends the process.
\<close>

definition createSocket :: "int \<Rightarrow> int option" where
  "createSocket sock = (if sock < 0 then None else Some sock)"

definition connectToServer :: "32 word option \<Rightarrow> int \<Rightarrow> (sockaddr \<Rightarrow> int) \<Rightarrow> sockaddr option" where
  "connectToServer ip port conn = (case ip of None \<Rightarrow> None
     | Some addr \<Rightarrow> let a = prepareServerAddress addr port in if conn a < 0 then None else Some a)"

definition tcp_client_main :: "nat \<Rightarrow> int \<Rightarrow> 32 word option \<Rightarrow> int \<Rightarrow> (sockaddr \<Rightarrow> int) \<Rightarrow> (sockaddr \<times> conv) option" where
  "tcp_client_main argc port ip sock conn = (if argc \<noteq> 3 then None
     else case createSocket sock of None \<Rightarrow> None
       | Some fd \<Rightarrow> map_option (\<lambda>a. (a, conv_init)) (connectToServer ip port conn))"

text \<open>The address the TCP server binds.\<close>

definition tcp_server_address :: "int \<Rightarrow> sockaddr" where
  "tcp_server_address port = \<lparr>sin_port = htons (word_of_int port), sin_addr = INADDR_ANY\<rparr>"

text \<open>The client of \<open>task7_3\<close>, which tells an error of \<open>recv\<close> from the end of the connection.\<close>

definition clientLoop :: "char list option \<Rightarrow> nat option \<Rightarrow> conv \<Rightarrow> conv" where
  "clientLoop line r s = (case cli s of
       CM_Prompt \<Rightarrow>
         (case line of None \<Rightarrow> s\<lparr>cli := CM_Done\<rparr>
          | Some l \<Rightarrow>
              let msgLen = length (c_string l); taken = (case r of None \<Rightarrow> 0 | Some n \<Rightarrow> n);
                  s = s\<lparr>to_server := to_server s @ take taken (c_string l), typed := typed s @ take taken (c_string l)\<rparr>
              in if r = Some msgLen then s\<lparr>cli := CM_Recv\<rparr> else s\<lparr>cli := CM_Done\<rparr>)
     | CM_Recv \<Rightarrow>
         if r = None then s\<lparr>cli := CM_Done\<rparr>
         else if r = Some 0 then s\<lparr>cli := CM_Done\<rparr>
         else s\<lparr>printed := printed s @ c_string (take (the r) (to_client s)), to_client := drop (the r) (to_client s),
                cli := CM_Prompt\<rparr>
     | CM_Done \<Rightarrow> s)"

text \<open>Its \<open>connectToServer\<close> creates the socket as well, and \<open>main\<close> talks until the loop ends.\<close>

definition connectToServer_3 :: "int \<Rightarrow> 32 word option \<Rightarrow> int \<Rightarrow> (sockaddr \<Rightarrow> int) \<Rightarrow> sockaddr option" where
  "connectToServer_3 sock ip port conn =
     (if sock < 0 then None
      else case ip of None \<Rightarrow> None
        | Some addr \<Rightarrow> let a = \<lparr>sin_port = htons (word_of_int port), sin_addr = addr\<rparr> in if conn a < 0 then None else Some a)"

definition client_3_main :: "nat \<Rightarrow> int \<Rightarrow> 32 word option \<Rightarrow> int \<Rightarrow> (sockaddr \<Rightarrow> int) \<Rightarrow> (sockaddr \<times> conv) option" where
  "client_3_main argc port ip sock conn =
     (if argc \<noteq> 3 then None else map_option (\<lambda>a. (a, conv_init)) (connectToServer_3 sock ip port conn))"

lemma client_3_main_same: "client_3_main argc port ip sock conn = tcp_client_main argc port ip sock conn"
  by (simp add: client_3_main_def tcp_client_main_def connectToServer_3_def connectToServer_def createSocket_def prepareServerAddress_def Let_def
      split: option.split)

section \<open>UDP\<close>

definition createUdpSocket :: "int \<Rightarrow> int \<Rightarrow> int option" where
  "createUdpSocket sock opt = (if sock < 0 then None else if opt < 0 then None else Some sock)"

definition createUdpSocket_client :: "int \<Rightarrow> int option" where
  "createUdpSocket_client sock = (if sock < 0 then None else Some sock)"

definition bindSocketToPort :: "int \<Rightarrow> int \<Rightarrow> sockaddr option" where
  "bindSocketToPort port r = (if r < 0 then None else Some \<lparr>sin_port = htons (word_of_int port), sin_addr = INADDR_ANY\<rparr>)"

definition udp_server_main :: "nat \<Rightarrow> int \<Rightarrow> int \<Rightarrow> int \<Rightarrow> int \<Rightarrow> sockaddr option" where
  "udp_server_main argc port sock opt r = (if argc \<noteq> 2 then None else if port < 0 \<or> port > 65535 then None
     else case createUdpSocket sock opt of None \<Rightarrow> None | Some fd \<Rightarrow> bindSocketToPort port r)"

text \<open>The client's \<open>main\<close>; \<open>host\<close> is what \<open>gethostbyname\<close> finds, \<open>net\<close> sends a datagram to an address: whether it could, and the reply if one comes.\<close>

definition udp_client_main :: "nat \<Rightarrow> int \<Rightarrow> int \<Rightarrow> 32 word option \<Rightarrow>
    (sockaddr \<Rightarrow> bool \<times> (char list \<Rightarrow> char list option)) \<Rightarrow> string \<Rightarrow> (sockaddr \<times> udp_end) option" where
  "udp_client_main argc port sock host net message = (if argc \<noteq> 4 then None
     else if port \<le> 0 \<or> port > 65535 then None
     else case createUdpSocket_client sock of None \<Rightarrow> None
       | Some fd \<Rightarrow> (case host of None \<Rightarrow> None
         | Some addr \<Rightarrow> let a = prepareServerAddress addr port; (ok, exchange) = net a in
             Some (a, udp_client port ok exchange message)))"

section \<open>Ports\<close>

lemma htons_htons [simp]: "htons (htons p) = p"
  unfolding htons_def by (rule bit_word_eqI) (auto simp: bit_simps)

lemma network_port_htons [simp]: "network_port \<lparr>sin_port = htons (word_of_int port), sin_addr = a\<rparr> = port mod 65536"
  by (simp add: network_port_def uint_word_of_int_eq take_bit_eq_mod)

text \<open>
  The UDP programs refuse a port that is not one, so that the client's datagrams go to the port its
  user named and a server started with the same number listens there; the TCP programs do not check,
  and use the number modulo 65536.
\<close>

theorem echo_ports:
  "(udp_server_main 2 port sock opt r = Some a \<longrightarrow> 0 \<le> port \<and> port \<le> 65535 \<and> network_port a = port) \<and>
   (udp_client_main 4 port' sock' host net message = Some (b, e) \<longrightarrow> 0 < port' \<and> port' \<le> 65535 \<and> network_port b = port') \<and>
   network_port (tcp_server_address p) = p mod 65536 \<and>
   (connectToServer ip p conn = Some c \<longrightarrow> network_port c = p mod 65536)"
  by (auto simp: udp_server_main_def bindSocketToPort_def udp_client_main_def prepareServerAddress_def
      tcp_server_address_def connectToServer_def Let_def split: if_splits option.splits prod.splits)

theorem echo_ports_witness:
  "udp_server_main 2 7777 3 0 0 = Some \<lparr>sin_port = 0x611E, sin_addr = 0\<rparr> \<and> network_port \<lparr>sin_port = 0x611E, sin_addr = 0\<rparr> = 7777 \<and>
   network_port (tcp_server_address 73313) = 7777"
proof -
  have "udp_server_main 2 7777 3 0 0 = Some \<lparr>sin_port = 0x611E, sin_addr = 0\<rparr>"
    by (simp add: udp_server_main_def createUdpSocket_def bindSocketToPort_def INADDR_ANY_def htons_def)
  with echo_ports [of 7777 3 0 0 "\<lparr>sin_port = 0x611E, sin_addr = 0\<rparr>" 0 0 None "\<lambda>_. (True, \<lambda>_. None)" "[]" _ _ 73313 None "\<lambda>_. 0"]
  show ?thesis by simp
qed

text \<open>
  The client of \<open>task7_3\<close> behaves as the one of \<open>task7_1\<close> does, whatever its user types and the network does.
\<close>

theorem clientLoop_is_communicate:
  "clientLoop line r s = communicate line r s"
  by (auto simp: clientLoop_def communicate_def Let_def split: chatter.splits option.splits)

end
