(* ===== verification/Signals.thy ===== *)
theory Signals
  imports OS_Prelude
begin

text \<open>
  \<open>task1_5/a.c\<close>: three threads treat signals differently: the first installs a handler for \<open>SIGINT\<close>, the
  second blocks signals and takes them with \<open>sigwait\<close>, the third blocks everything; \<open>main\<close> sends each of
  them a signal and at last \<open>SIGKILL\<close>. Handlers belong to the process, what is blocked and pending to a
  thread. The threads are interleaved call by call; \<open>sleep\<close> does not order them.
\<close>

section \<open>Processes and signals\<close>

datatype sig = SIGINT | SIGQUIT | SIGSEGV | SIGKILL

datatype tid = TMain | TInt | TQuit | TThird

datatype life = Running | Killed sig | Exited int

datatype line = HandlerRan sig | GotQuit | Sent sig | ImAlive

datatype m_pc = M_Create tid | M_Int | M_Quit | M_Segv | M_Kill tid | M_Join tid | M_Exit

text \<open>Before which call the other threads are; \<open>None\<close> for one that does not exist yet or any more.\<close>

datatype t_pc = I_Signal | I_Errno | I_Sleep | Q_Mask | Q_Wait | H_Mask | H_Sleep

record proc =
  life :: life
  sigint_handler_set :: bool
  blocked :: "tid \<Rightarrow> sig set"
  pend :: "tid \<Rightarrow> sig set"
  m_pc :: m_pc
  t_pc :: "tid \<Rightarrow> t_pc option"
  waited :: "sig set"
  printed_lines :: "line list"

definition proc_start :: proc where
  "proc_start = \<lparr>life = Running, sigint_handler_set = False, blocked = (\<lambda>_. {}), pend = (\<lambda>_. {}),
     m_pc = M_Create TInt, t_pc = (\<lambda>_. None), waited = {}, printed_lines = []\<rparr>"

definition say :: "line \<Rightarrow> proc \<Rightarrow> proc" where
  "say l s = s\<lparr>printed_lines := printed_lines s @ [l]\<rparr>"

text \<open>\<open>SIGKILL\<close> ends the process at once; a thread that has ended does not take other signals.\<close>

definition pthread_kill :: "tid \<Rightarrow> sig \<Rightarrow> proc \<Rightarrow> proc" where
  "pthread_kill t g s = (if g = SIGKILL then s\<lparr>life := Killed SIGKILL\<rparr>
     else if t_pc s t = None then s else s\<lparr>pend := (pend s)(t := insert g (pend s t))\<rparr>)"

definition sigint_handler :: "sig \<Rightarrow> proc \<Rightarrow> proc" where
  "sigint_handler g s = say (HandlerRan g) s"

text \<open>A pending signal that the thread does not block is delivered: to the handler, or to the default action.\<close>

definition deliver :: "tid \<Rightarrow> sig \<Rightarrow> proc \<Rightarrow> proc" where
  "deliver t g s = (let s = s\<lparr>pend := (pend s)(t := pend s t - {g})\<rparr> in
     if g = SIGINT \<and> sigint_handler_set s then sigint_handler g s else s\<lparr>life := Killed g\<rparr>)"

section \<open>The threads\<close>

text \<open>\<open>err\<close>: the next call fails; for the first thread, \<open>errno\<close> is not zero after \<open>signal\<close>.\<close>

definition my_thread_sigint :: "bool \<Rightarrow> proc \<Rightarrow> proc" where
  "my_thread_sigint err s = (case t_pc s TInt of
       Some I_Signal \<Rightarrow> s\<lparr>sigint_handler_set := True, t_pc := (t_pc s)(TInt := Some I_Errno)\<rparr>
     | Some I_Errno \<Rightarrow> s\<lparr>t_pc := (t_pc s)(TInt := if err then None else Some I_Sleep)\<rparr>
     | _ \<Rightarrow> s)"

text \<open>\<open>sigwait\<close> takes a pending signal of its set, which holds \<open>SIGINT\<close> only.\<close>

definition my_thread_sigquit :: "bool \<Rightarrow> sig \<Rightarrow> proc \<Rightarrow> proc" where
  "my_thread_sigquit err g s = (case t_pc s TQuit of
       Some Q_Mask \<Rightarrow> if err then s\<lparr>t_pc := (t_pc s)(TQuit := None)\<rparr>
         else s\<lparr>waited := {SIGINT}, blocked := (blocked s)(TQuit := {SIGINT}), t_pc := (t_pc s)(TQuit := Some Q_Wait)\<rparr>
     | Some Q_Wait \<Rightarrow> if err then s\<lparr>t_pc := (t_pc s)(TQuit := None)\<rparr>
         else if g \<in> pend s TQuit \<and> g \<in> waited s then
           (let s = s\<lparr>pend := (pend s)(TQuit := pend s TQuit - {g})\<rparr> in if g = SIGQUIT then say GotQuit s else s)
         else s
     | _ \<Rightarrow> s)"

definition thread_3 :: "bool \<Rightarrow> proc \<Rightarrow> proc" where
  "thread_3 err s = (case t_pc s TThird of
       Some H_Mask \<Rightarrow> if err then s\<lparr>t_pc := (t_pc s)(TThird := None)\<rparr>
         else s\<lparr>blocked := (blocked s)(TThird := UNIV), t_pc := (t_pc s)(TThird := Some H_Sleep)\<rparr>
     | Some H_Sleep \<Rightarrow> say ImAlive (s\<lparr>t_pc := (t_pc s)(TThird := None)\<rparr>)
     | _ \<Rightarrow> s)"

fun next_tid :: "tid \<Rightarrow> tid option" where
  "next_tid TInt = Some TQuit"
| "next_tid TQuit = Some TThird"
| "next_tid _ = None"

fun first_pc :: "tid \<Rightarrow> t_pc" where
  "first_pc TInt = I_Signal"
| "first_pc TQuit = Q_Mask"
| "first_pc _ = H_Mask"

definition signals_main :: "bool \<Rightarrow> proc \<Rightarrow> proc" where
  "signals_main err s = (case m_pc s of
       M_Exit \<Rightarrow> s\<lparr>life := Exited 0\<rparr>
     | M_Join t \<Rightarrow> if err then s\<lparr>life := Exited (-1)\<rparr>
         else if t_pc s t = None then s\<lparr>m_pc := (case next_tid t of None \<Rightarrow> M_Exit | Some u \<Rightarrow> M_Join u)\<rparr> else s
     | M_Create t \<Rightarrow> if err then s\<lparr>life := Exited (-1)\<rparr>
         else s\<lparr>t_pc := (t_pc s)(t \<mapsto> first_pc t), blocked := (blocked s)(t := blocked s TMain),
                m_pc := (case next_tid t of None \<Rightarrow> M_Int | Some u \<Rightarrow> M_Create u)\<rparr>
     | M_Int \<Rightarrow> if err then s\<lparr>life := Exited (-1)\<rparr> else say (Sent SIGINT) (pthread_kill TInt SIGINT s)\<lparr>m_pc := M_Quit\<rparr>
     | M_Quit \<Rightarrow> if err then s\<lparr>life := Exited (-1)\<rparr> else say (Sent SIGQUIT) (pthread_kill TQuit SIGQUIT s)\<lparr>m_pc := M_Segv\<rparr>
     | M_Segv \<Rightarrow> if err then s\<lparr>life := Exited (-1)\<rparr> else say (Sent SIGSEGV) (pthread_kill TThird SIGSEGV s)\<lparr>m_pc := M_Kill TInt\<rparr>
     | M_Kill t \<Rightarrow> if err then s\<lparr>life := Exited (-1)\<rparr>
         else (pthread_kill t SIGKILL s)\<lparr>m_pc := (case next_tid t of None \<Rightarrow> M_Join TInt | Some u \<Rightarrow> M_Kill u)\<rparr>)"

inductive proc_trans :: "proc \<Rightarrow> proc \<Rightarrow> bool" where
  main: "life s = Running \<Longrightarrow> proc_trans s (signals_main err s)"
| int: "life s = Running \<Longrightarrow> proc_trans s (my_thread_sigint err s)"
| quit: "life s = Running \<Longrightarrow> proc_trans s (my_thread_sigquit err g s)"
| third: "life s = Running \<Longrightarrow> proc_trans s (thread_3 err s)"
| deliver: "life s = Running \<Longrightarrow> t_pc s t \<noteq> None \<Longrightarrow> g \<in> pend s t \<Longrightarrow> g \<notin> blocked s t \<Longrightarrow> proc_trans s (deliver t g s)"

inductive_cases proc_transE: "proc_trans s t"

section \<open>The invariant\<close>

text \<open>
  The second thread waits for \<open>SIGINT\<close> only and never blocks \<open>SIGQUIT\<close>; \<open>main\<close> does not survive its first
  \<open>SIGKILL\<close>.
\<close>

definition proc_inv :: "proc \<Rightarrow> bool" where
  "proc_inv s \<longleftrightarrow> GotQuit \<notin> set (printed_lines s) \<and> waited s \<subseteq> {SIGINT} \<and> SIGQUIT \<notin> blocked s TQuit \<and> blocked s TMain = {} \<and>
     SIGKILL \<notin> pend s TQuit \<and>
     (life s = Running \<longrightarrow> m_pc s \<in> {M_Create TInt, M_Create TQuit, M_Create TThird, M_Int, M_Quit, M_Segv, M_Kill TInt}) \<and>
     life s \<noteq> Exited 0"

lemma say_fields [simp]:
  "life (say l s) = life s" "printed_lines (say l s) = printed_lines s @ [l]" "waited (say l s) = waited s"
  "blocked (say l s) = blocked s" "pend (say l s) = pend s" "m_pc (say l s) = m_pc s" "t_pc (say l s) = t_pc s"
  by (simp_all add: say_def)

lemma pthread_kill_fields [simp]:
  "life (pthread_kill t g s) = (if g = SIGKILL then Killed SIGKILL else life s)"
  "printed_lines (pthread_kill t g s) = printed_lines s" "waited (pthread_kill t g s) = waited s"
  "blocked (pthread_kill t g s) = blocked s" "m_pc (pthread_kill t g s) = m_pc s" "t_pc (pthread_kill t g s) = t_pc s"
  "pend (pthread_kill t g s) = (if g = SIGKILL \<or> t_pc s t = None then pend s else (pend s)(t := insert g (pend s t)))"
  by (auto simp: pthread_kill_def)

lemmas step_defs = signals_main_def my_thread_sigint_def my_thread_sigquit_def thread_3_def deliver_def
  sigint_handler_def Let_def

interpretation signals: transition_system "\<lambda>s. s = proc_start" proc_trans proc_inv
proof
  show "proc_inv s" if "s = proc_start" for s using that by (simp add: proc_inv_def proc_start_def)
  show "proc_inv t" if inv: "proc_inv s" and step: "proc_trans s t" for s t
    using step
  proof cases
    case (main err)
    with inv show ?thesis by (cases "m_pc s") (auto simp: proc_inv_def step_defs)
  next
    case (int err)
    with inv show ?thesis by (auto simp: proc_inv_def step_defs split: option.splits t_pc.splits)
  next
    case (quit err g)
    with inv show ?thesis by (auto simp: proc_inv_def step_defs split: option.splits t_pc.splits)
  next
    case (third err)
    with inv show ?thesis by (auto simp: proc_inv_def step_defs split: option.splits t_pc.splits)
  next
    case (deliver t g)
    with inv show ?thesis by (auto simp: proc_inv_def step_defs)
  qed
qed

section \<open>Every run is ended by a signal\<close>

text \<open>How many calls \<open>main\<close> is from its first \<open>SIGKILL\<close>.\<close>

fun to_kill :: "m_pc \<Rightarrow> nat" where
  "to_kill (M_Create TInt) = 7"
| "to_kill (M_Create TQuit) = 6"
| "to_kill (M_Create _) = 5"
| "to_kill M_Int = 4"
| "to_kill M_Quit = 3"
| "to_kill M_Segv = 2"
| "to_kill _ = 1"

lemma main_kills: "proc_inv s \<Longrightarrow> life s = Running \<Longrightarrow> \<exists>t. proc_trans\<^sup>*\<^sup>* s t \<and> life t = Killed SIGKILL"
proof (induction "to_kill (m_pc s)" arbitrary: s rule: less_induct)
  case less
  let ?t = "signals_main False s"
  have step: "proc_trans s ?t" using less.prems(2) by (rule proc_trans.main)
  have inv: "proc_inv ?t" using signals.inv_step [OF less.prems(1) step] .
  consider "m_pc s = M_Kill TInt" | "life ?t = Running" "to_kill (m_pc ?t) < to_kill (m_pc s)"
    using less.prems by (auto simp: proc_inv_def signals_main_def)
  then show ?case
  proof cases
    case 1
    then have "life ?t = Killed SIGKILL" by (simp add: signals_main_def)
    with step show ?thesis by blast
  next
    case 2
    with less.hyps [OF 2(2) inv] step show ?thesis by (metis converse_rtranclp_into_rtranclp)
  qed
qed

section \<open>Properties\<close>

text \<open>
  C37. The second thread never reports \<open>SIGQUIT\<close>, for which it says it waits: it waits for \<open>SIGINT\<close>, and does
  not block \<open>SIGQUIT\<close>, so that the signal \<open>main\<close> sends it can only end the whole process, the third thread
  included. No run gets past \<open>main\<close>'s \<open>SIGKILL\<close>: the process never reaches its end, and unless a call fails it
  can always be ended by a signal.
\<close>

theorem signals_end_process:
  assumes "reachable (\<lambda>s. s = proc_start) proc_trans s"
  shows "GotQuit \<notin> set (printed_lines s) \<and> life s \<noteq> Exited 0 \<and>
    (life s = Running \<and> t_pc s TQuit \<noteq> None \<and> SIGQUIT \<in> pend s TQuit \<longrightarrow>
      proc_trans s (deliver TQuit SIGQUIT s) \<and> life (deliver TQuit SIGQUIT s) = Killed SIGQUIT) \<and>
    (life s = Running \<longrightarrow> (\<exists>t. proc_trans\<^sup>*\<^sup>* s t \<and> life t = Killed SIGKILL))"
proof -
  have inv: "proc_inv s" using signals.reachable_inv [OF assms] .
  then have "GotQuit \<notin> set (printed_lines s)" "life s \<noteq> Exited 0" "SIGQUIT \<notin> blocked s TQuit"
    by (simp_all add: proc_inv_def)
  moreover have "life (deliver TQuit SIGQUIT s) = Killed SIGQUIT" by (simp add: deliver_def)
  ultimately show ?thesis using main_kills [OF inv] proc_trans.deliver [of s TQuit SIGQUIT] by blast
qed

text \<open>\<open>main\<close> has sent \<open>SIGQUIT\<close> to a thread that waits.\<close>

definition quit_sent :: proc where
  "quit_sent = signals_main False (signals_main False (my_thread_sigquit False SIGINT
     (signals_main False (signals_main False (signals_main False proc_start)))))"

theorem signals_end_process_witness:
  "proc_trans quit_sent (deliver TQuit SIGQUIT quit_sent) \<and> life (deliver TQuit SIGQUIT quit_sent) = Killed SIGQUIT"
proof -
  have step: "reachable (\<lambda>s. s = proc_start) proc_trans (signals_main err s)"
    if "reachable (\<lambda>s. s = proc_start) proc_trans s" "life s = Running" for err s
    using that by (auto intro: reach_step proc_trans.main)
  have quit: "reachable (\<lambda>s. s = proc_start) proc_trans (my_thread_sigquit err g s)"
    if "reachable (\<lambda>s. s = proc_start) proc_trans s" "life s = Running" for err g s
    using that by (auto intro: reach_step proc_trans.quit)
  have "reachable (\<lambda>s. s = proc_start) proc_trans quit_sent"
    unfolding quit_sent_def by (intro step quit reach_start) (simp_all add: step_defs proc_start_def)
  moreover have "life quit_sent = Running" "t_pc quit_sent TQuit \<noteq> None" "SIGQUIT \<in> pend quit_sent TQuit"
    by (simp_all add: quit_sent_def step_defs proc_start_def)
  ultimately show ?thesis using signals_end_process by blast
qed

end
