(* ===== verification/Thread_Cancel.thy ===== *)
theory Thread_Cancel
  imports OS_Prelude
begin

text \<open>
  The programs of \<open>task1_4\<close>, which cancel a thread: \<open>a.c\<close> one that prints and sleeps, \<open>b.c\<close> one that only
  counts, \<open>c.c\<close> one that has pushed cleanup handlers. A request to cancel is acted on at the thread's next
  cancellation point, or anywhere if its cancel type is asynchronous; then the cleanup handlers run, the last
  pushed first, and the thread ends with \<open>PTHREAD_CANCELED\<close>.
\<close>

section \<open>The thread and main\<close>

datatype program = PrintLoop | CountLoop | WithCleanup

datatype thread_pc = T_Printf | T_Sleep
  | T_SetState | T_SetType | T_Count
  | T_Malloc | T_Strcpy | T_Push nat

datatype retval = PTHREAD_CANCELED

datatype thread_state = NotCreated | At thread_pc | Ended retval | Joined

datatype main_pc = MC_Create | MC_Cancel | MC_Join | MC_Print retval | MC_Return int

record cancel_sys =
  thr :: thread_state
  requested :: bool
  asynchronous :: bool
  cleanup :: "addr list"
  hello_str :: ptr
  strings :: "addr \<rightharpoonup> string"
  counter :: nat
  mpc :: main_pc
  printed :: "string list"

definition cancel_start :: cancel_sys where
  "cancel_start = \<lparr>thr = NotCreated, requested = False, asynchronous = False, cleanup = [], hello_str = None,
     strings = Map.empty, counter = 0, mpc = MC_Create, printed = []\<rparr>"

section \<open>Cancellation\<close>

definition print_line :: "string \<Rightarrow> cancel_sys \<Rightarrow> cancel_sys" where
  "print_line l s = s\<lparr>printed := printed s @ [l]\<rparr>"

definition free_mem :: "addr \<Rightarrow> cancel_sys \<Rightarrow> cancel_sys result" where
  "free_mem a s = bindR (release (strings s) (Some a)) (\<lambda>h. Inr (print_line ''cleaning memory...'' (s\<lparr>strings := h\<rparr>)))"

fun run_cleanup :: "addr list \<Rightarrow> cancel_sys \<Rightarrow> cancel_sys result" where
  "run_cleanup [] s = Inr (s\<lparr>cleanup := [], thr := Ended PTHREAD_CANCELED\<rparr>)"
| "run_cleanup (a # as) s = bindR (free_mem a (s\<lparr>cleanup := as\<rparr>)) (run_cleanup as)"

fun cancellation_point :: "thread_pc \<Rightarrow> bool" where
  "cancellation_point T_Printf = True"
| "cancellation_point T_Sleep = True"
| "cancellation_point _ = False"

section \<open>The thread functions\<close>

fun first_pc :: "program \<Rightarrow> thread_pc" where
  "first_pc PrintLoop = T_Printf"
| "first_pc CountLoop = T_SetState"
| "first_pc WithCleanup = T_Malloc"

text \<open>
  The statement at \<open>pc\<close>; \<open>new\<close> is what \<open>malloc\<close> returns. Cancelling is enabled from the start, so that
  \<open>pthread_setcancelstate\<close> changes nothing.
\<close>

definition mythread_print :: "thread_pc \<Rightarrow> cancel_sys \<Rightarrow> cancel_sys result" where
  "mythread_print pc s = (case pc of
       T_Printf \<Rightarrow> Inr (print_line ''thread id'' (s\<lparr>thr := At T_Sleep\<rparr>))
     | T_Sleep \<Rightarrow> Inr (s\<lparr>thr := At T_Printf\<rparr>)
     | _ \<Rightarrow> Inr s)"

definition mythread_counter :: "thread_pc \<Rightarrow> cancel_sys \<Rightarrow> cancel_sys result" where
  "mythread_counter pc s = (case pc of
       T_SetState \<Rightarrow> Inr (s\<lparr>thr := At T_SetType\<rparr>)
     | T_SetType \<Rightarrow> Inr (s\<lparr>asynchronous := True, thr := At T_Count\<rparr>)
     | T_Count \<Rightarrow> Inr (s\<lparr>counter := counter s + 1\<rparr>)
     | _ \<Rightarrow> Inr s)"

definition mythread_cleanup :: "ptr \<Rightarrow> thread_pc \<Rightarrow> cancel_sys \<Rightarrow> cancel_sys result" where
  "mythread_cleanup new pc s = (case pc of
       T_Malloc \<Rightarrow> Inr (s\<lparr>hello_str := new, strings := (case new of None \<Rightarrow> strings s | Some a \<Rightarrow> (strings s)(a \<mapsto> [])),
         thr := At T_Strcpy\<rparr>)
     | T_Strcpy \<Rightarrow> bindR (modify (strings s) (hello_str s) (\<lambda>_. ''Hello, World!'')) (\<lambda>h. Inr (s\<lparr>strings := h, thr := At (T_Push 2)\<rparr>))
     | T_Push n \<Rightarrow> Inr (s\<lparr>cleanup := the (hello_str s) # cleanup s, thr := At (if n = 2 then T_Push 1 else T_Printf)\<rparr>)
     | T_Printf \<Rightarrow> bindR (load (strings s) (hello_str s)) (\<lambda>v. Inr (print_line (''thread: '' @ v) (s\<lparr>thr := At T_Sleep\<rparr>)))
     | T_Sleep \<Rightarrow> Inr (s\<lparr>thr := At T_Printf\<rparr>)
     | _ \<Rightarrow> Inr s)"

definition mythread :: "program \<Rightarrow> ptr \<Rightarrow> thread_pc \<Rightarrow> cancel_sys \<Rightarrow> cancel_sys result" where
  "mythread prog new pc s = (case prog of
       PrintLoop \<Rightarrow> mythread_print pc s | CountLoop \<Rightarrow> mythread_counter pc s | WithCleanup \<Rightarrow> mythread_cleanup new pc s)"

lemmas mythread_defs = mythread_def mythread_print_def mythread_counter_def mythread_cleanup_def

definition thread_step :: "program \<Rightarrow> ptr \<Rightarrow> cancel_sys \<Rightarrow> cancel_sys result" where
  "thread_step prog new s = (case thr s of
       At pc \<Rightarrow> if requested s \<and> (asynchronous s \<or> cancellation_point pc) then run_cleanup (cleanup s) s
         else mythread prog new pc s
     | _ \<Rightarrow> Inr s)"

text \<open>\<open>main\<close>; with \<open>err\<close> its next call fails. Only \<open>c.c\<close> looks at the result of the thread.\<close>

definition cancel_main :: "program \<Rightarrow> bool \<Rightarrow> cancel_sys \<Rightarrow> cancel_sys" where
  "cancel_main prog err s = (case mpc s of
       MC_Create \<Rightarrow> if err then s\<lparr>mpc := MC_Return (-1)\<rparr> else print_line ''main: thread created'' (s\<lparr>thr := At (first_pc prog), mpc := MC_Cancel\<rparr>)
     | MC_Cancel \<Rightarrow> if err then s\<lparr>mpc := MC_Return (-1)\<rparr> else print_line ''main: cancel request sent'' (s\<lparr>requested := True, mpc := MC_Join\<rparr>)
     | MC_Join \<Rightarrow> if err then s\<lparr>mpc := MC_Return (-1)\<rparr> else
         (case thr s of Ended v \<Rightarrow> s\<lparr>thr := Joined, mpc := (if prog = WithCleanup then MC_Print v else MC_Return 0)\<rparr> | _ \<Rightarrow> s)
     | MC_Print v \<Rightarrow> print_line ''main: pthread canceled: 1'' (s\<lparr>mpc := MC_Return 0\<rparr>)
     | MC_Return r \<Rightarrow> s)"

definition main_cancel_a :: "bool \<Rightarrow> cancel_sys \<Rightarrow> cancel_sys" where
  "main_cancel_a err s = cancel_main PrintLoop err s"

definition main_cancel_b :: "bool \<Rightarrow> cancel_sys \<Rightarrow> cancel_sys" where
  "main_cancel_b err s = cancel_main CountLoop err s"

text \<open>When \<open>main\<close> has returned the process is gone.\<close>

definition gone :: "cancel_sys \<Rightarrow> bool" where
  "gone s \<longleftrightarrow> (case mpc s of MC_Return _ \<Rightarrow> True | _ \<Rightarrow> False)"

inductive cancel_trans :: "program \<Rightarrow> cancel_sys \<Rightarrow> cancel_sys \<Rightarrow> bool" for prog where
  main: "cancel_trans prog s (cancel_main prog err s)"
| thread: "\<not> gone s \<Longrightarrow> fresh (strings s) new \<Longrightarrow> new \<noteq> None \<Longrightarrow> thread_step prog new s = Inr t \<Longrightarrow> cancel_trans prog s t"

inductive_cases cancel_transE: "cancel_trans prog s t"

section \<open>The invariant\<close>

fun pc_of :: "program \<Rightarrow> thread_pc set" where
  "pc_of PrintLoop = {T_Printf, T_Sleep}"
| "pc_of CountLoop = {T_SetState, T_SetType, T_Count}"
| "pc_of WithCleanup = {T_Malloc, T_Strcpy, T_Push 2, T_Push 1, T_Printf, T_Sleep}"

text \<open>What the thread has allocated and pushed at each statement.\<close>

definition stack_ok :: "program \<Rightarrow> cancel_sys \<Rightarrow> bool" where
  "stack_ok prog s \<longleftrightarrow> (case thr s of
       At pc \<Rightarrow> pc \<in> pc_of prog \<and> (asynchronous s \<longleftrightarrow> pc = T_Count) \<and>
         (if prog = WithCleanup \<and> pc \<noteq> T_Malloc
          then \<exists>a v. hello_str s = Some a \<and> strings s = [a \<mapsto> v] \<and>
            cleanup s = (case pc of T_Strcpy \<Rightarrow> [] | T_Push n \<Rightarrow> if n = 2 then [] else [a] | _ \<Rightarrow> [a, a])
          else cleanup s = [] \<and> strings s = Map.empty)
     | Ended v \<Rightarrow> prog \<noteq> WithCleanup \<and> requested s
     | Joined \<Rightarrow> prog \<noteq> WithCleanup \<and> gone s
     | NotCreated \<Rightarrow> cleanup s = [] \<and> strings s = Map.empty \<and> \<not> asynchronous s)"

definition main_ok :: "program \<Rightarrow> cancel_sys \<Rightarrow> bool" where
  "main_ok prog s \<longleftrightarrow> (case mpc s of
       MC_Create \<Rightarrow> thr s = NotCreated \<and> \<not> requested s
     | MC_Cancel \<Rightarrow> thr s \<notin> {NotCreated, Joined} \<and> \<not> requested s
     | MC_Join \<Rightarrow> thr s \<notin> {NotCreated, Joined} \<and> requested s
     | MC_Print v \<Rightarrow> False
     | MC_Return r \<Rightarrow> r = -1 \<or> (r = 0 \<and> thr s = Joined))"

definition cancel_inv :: "program \<Rightarrow> cancel_sys \<Rightarrow> bool" where
  "cancel_inv prog s \<longleftrightarrow> stack_ok prog s \<and> main_ok prog s"

lemmas cancel_defs = cancel_inv_def stack_ok_def main_ok_def gone_def print_line_def

lemma cancel_main_inv: "cancel_inv prog s \<Longrightarrow> cancel_inv prog (cancel_main prog err s)"
  by (cases prog; cases "mpc s"; cases "thr s") (auto simp: cancel_main_def cancel_defs)

lemma thread_step_inv:
  assumes "cancel_inv prog s" "\<not> gone s" "fresh (strings s) new" "new \<noteq> None"
  shows "okR (cancel_inv prog) (thread_step prog new s)"
proof (cases "thr s")
  case (At pc)
  with assms show ?thesis
    by (cases prog; cases pc; cases "mpc s") (auto simp: thread_step_def mythread_defs cancel_defs free_mem_def)
qed (use assms in \<open>simp_all add: thread_step_def\<close>)

interpretation cancelling: transition_system "\<lambda>s. s = cancel_start" "cancel_trans prog" "cancel_inv prog" for prog
proof
  show "cancel_inv prog s" if "s = cancel_start" for s
    using that by (simp add: cancel_start_def cancel_defs)
  show "cancel_inv prog t" if "cancel_inv prog s" "cancel_trans prog s t" for s t
    using that(2)
  proof cases
    case (main err)
    with that(1) cancel_main_inv show ?thesis by blast
  next
    case (thread new)
    with that(1) thread_step_inv [of prog s new] show ?thesis by simp
  qed
qed

section \<open>Where it leads\<close>

fun thread_rank :: "thread_state \<Rightarrow> nat" where
  "thread_rank (At T_Malloc) = 9"
| "thread_rank (At T_Strcpy) = 8"
| "thread_rank (At (T_Push n)) = 5 + n"
| "thread_rank (At T_SetState) = 5"
| "thread_rank (At T_SetType) = 4"
| "thread_rank (At _) = 3"
| "thread_rank _ = 1"

definition rank :: "cancel_sys \<Rightarrow> nat" where
  "rank s = (case mpc s of MC_Create \<Rightarrow> 20 | MC_Cancel \<Rightarrow> 19 | MC_Join \<Rightarrow> thread_rank (thr s) | _ \<Rightarrow> 0)"

text \<open>\<open>c.c\<close> frees its string twice as soon as it acts on the request.\<close>

definition double_free :: "program \<Rightarrow> cancel_sys \<Rightarrow> bool" where
  "double_free prog s \<longleftrightarrow> (\<exists>a new. thread_step prog new s = Inl (InvalidFree a))"

lemma main_advances:
  assumes "cancel_inv prog s" "\<not> gone s" "mpc s \<noteq> MC_Join \<or> (\<exists>v. thr s = Ended v)"
  shows "rank (cancel_main prog False s) < rank s \<and> mpc (cancel_main prog False s) \<noteq> MC_Return (-1)"
  using assms by (cases prog; cases "mpc s"; cases "thr s") (auto simp: cancel_main_def cancel_defs rank_def)

lemma cleanup_frees_twice:
  assumes "cancel_inv WithCleanup s" "requested s" "thr s = At pc" "cancellation_point pc"
  shows "\<exists>a. hello_str s = Some a \<and> thread_step WithCleanup new s = Inl (InvalidFree a)"
  using assms by (cases pc) (auto simp: cancel_defs thread_step_def free_mem_def)

lemma thread_advances:
  assumes "cancel_inv prog s" "mpc s = MC_Join" "thr s = At pc" "\<not> (prog = WithCleanup \<and> cancellation_point pc)"
  shows "returns (\<lambda>t. rank t < rank s \<and> mpc t = MC_Join) (thread_step prog (Some 0) s)"
  using assms by (cases prog; cases pc) (auto simp: cancel_defs thread_step_def mythread_defs rank_def)

lemma cancel_advances:
  assumes inv: "cancel_inv prog s" and here: "\<not> gone s"
  shows "(prog = WithCleanup \<and> double_free prog s) \<or>
    (\<exists>t. cancel_trans prog s t \<and> rank t < rank s \<and> mpc t \<noteq> MC_Return (-1))"
proof (cases "mpc s \<noteq> MC_Join \<or> (\<exists>v. thr s = Ended v)")
  case True
  from main_advances [OF inv here this] show ?thesis using cancel_trans.main by blast
next
  case False
  with inv obtain pc where j: "mpc s = MC_Join" "thr s = At pc" "requested s"
    by (cases "thr s") (auto simp: cancel_defs)
  show ?thesis
  proof (cases "prog = WithCleanup \<and> cancellation_point pc")
    case True
    with cleanup_frees_twice [of s pc] inv j show ?thesis unfolding double_free_def by blast
  next
    case False
    from thread_advances [OF inv j(1,2) False] obtain t where t: "thread_step prog (Some 0) s = Inr t"
      "rank t < rank s" "mpc t = MC_Join" by (auto simp: returns_iff)
    have "cancel_trans prog s t"
    proof (cases "strings s 0")
      case None
      then show ?thesis using here t(1) by (intro cancel_trans.thread [of s "Some 0"]) auto
    next
      case (Some v)
      then have "pc \<noteq> T_Malloc" using inv j by (auto simp: cancel_defs split: if_splits)
      then have "thread_step prog new s = thread_step prog (Some 0) s" for new
        using j by (simp add: thread_step_def mythread_defs split: thread_pc.splits program.splits)
      moreover have "strings s 1 = None"
        using inv j Some by (auto simp: cancel_defs split: if_splits)
      ultimately show ?thesis using here t(1) by (intro cancel_trans.thread [of s "Some 1"]) auto
    qed
    with t show ?thesis by auto
  qed
qed

lemma cancel_leads:
  "cancel_inv prog s \<Longrightarrow> mpc s \<noteq> MC_Return (-1) \<Longrightarrow>
     \<exists>t. (cancel_trans prog)\<^sup>*\<^sup>* s t \<and> (if prog = WithCleanup then double_free prog t else mpc t = MC_Return 0)"
proof (induction "rank s" arbitrary: s rule: less_induct)
  case less
  consider "gone s" | "prog = WithCleanup" "double_free prog s" |
    t where "cancel_trans prog s t" "rank t < rank s" "mpc t \<noteq> MC_Return (-1)"
    using cancel_advances [OF less.prems(1)] by blast
  then show ?case
  proof cases
    case 1
    with less.prems have "mpc s = MC_Return 0 \<and> prog \<noteq> WithCleanup"
      by (cases "mpc s") (auto simp: cancel_defs split: if_splits)
    then show ?thesis by auto
  next
    case 2
    then show ?thesis by auto
  next
    case 3
    with less.hyps [OF 3(2) cancelling.inv_step [OF less.prems(1) 3(1)]] show ?thesis
      by (metis converse_rtranclp_into_rtranclp)
  qed
qed

section \<open>Properties\<close>

text \<open>
  Cancelling works in \<open>a.c\<close> and \<open>b.c\<close>: unless a call of \<open>main\<close> fails, every state can be continued until
  \<open>main\<close> has joined the thread and returns 0, in \<open>b.c\<close> only because the cancel type is asynchronous, for its
  loop has no cancellation point. In \<open>c.c\<close> the two handlers free the same string: \<open>main\<close> never returns 0, and
  every state can be continued to the second \<open>free\<close>.
\<close>

theorem cancel_programs:
  assumes "reachable (\<lambda>s. s = cancel_start) (cancel_trans prog) s" "mpc s \<noteq> MC_Return (-1)"
  shows "(prog \<noteq> WithCleanup \<longrightarrow> (\<exists>t. (cancel_trans prog)\<^sup>*\<^sup>* s t \<and> mpc t = MC_Return 0 \<and> thr t = Joined)) \<and>
    (prog = WithCleanup \<longrightarrow> mpc s \<noteq> MC_Return 0 \<and> (\<exists>t. (cancel_trans prog)\<^sup>*\<^sup>* s t \<and> double_free prog t))"
proof -
  have inv: "cancel_inv prog s" using cancelling.reachable_inv [OF assms(1)] .
  from cancel_leads [OF inv assms(2)] obtain t where t: "(cancel_trans prog)\<^sup>*\<^sup>* s t"
    "if prog = WithCleanup then double_free prog t else mpc t = MC_Return 0" by blast
  have "cancel_inv prog t" by (rule cancelling.inv_steps [OF inv t(1)])
  then have "mpc t = MC_Return 0 \<Longrightarrow> thr t = Joined" by (simp add: cancel_inv_def main_ok_def)
  moreover have "prog = WithCleanup \<Longrightarrow> mpc s \<noteq> MC_Return 0" using inv by (auto simp: cancel_defs)
  ultimately show ?thesis using t by (auto split: if_splits)
qed

theorem cancel_programs_witness:
  "(\<exists>t. (cancel_trans CountLoop)\<^sup>*\<^sup>* cancel_start t \<and> mpc t = MC_Return 0) \<and>
   (\<exists>t. (cancel_trans WithCleanup)\<^sup>*\<^sup>* cancel_start t \<and> double_free WithCleanup t)"
proof -
  have "reachable (\<lambda>s. s = cancel_start) (cancel_trans prog) cancel_start" for prog by (rule reach_start) simp
  from cancel_programs [OF this, of CountLoop] cancel_programs [OF this, of WithCleanup] show ?thesis
    by (auto simp: cancel_start_def)
qed

end
