(* ===== verification/Thread_Pool.thy ===== *)
theory Thread_Pool
  imports OS_Prelude
begin

text \<open>
  The programs of \<open>task1_1\<close>, \<open>task1_2\<close> and \<open>task1_3\<close>, which create threads and join them or not. A program is
  its number of threads and their function, which runs step by step on memory it shares with the others;
  \<open>main\<close> creates the threads, joins those that exist when a creation fails, and otherwise joins all.
\<close>

section \<open>Creating and joining\<close>

datatype ('l, 'v) thread_status = Active 'l | Finished 'v | Collected 'v

datatype pool_pc = P_Create nat | P_Undo nat nat | P_Join nat | P_Report | P_Return int

text \<open>A thread function: from its local state and its number, a new local state or its return value.\<close>

type_synonym ('g, 'l, 'v) body = "'l \<Rightarrow> nat \<Rightarrow> 'g \<Rightarrow> 'g \<times> ('l + 'v)"

record ('g, 'l, 'v) pool =
  shared :: 'g
  workers :: "('l, 'v) thread_status list"
  main_at :: pool_pc

definition pool_start :: "'g \<Rightarrow> ('g, 'l, 'v) pool" where
  "pool_start g = \<lparr>shared = g, workers = [], main_at = P_Create 0\<rparr>"

text \<open>\<open>pthread_join\<close> of worker \<open>j\<close> blocks until it has finished, and then \<open>main\<close> goes on at \<open>pc\<close>.\<close>

definition join_worker :: "nat \<Rightarrow> pool_pc \<Rightarrow> ('g, 'l, 'v) pool \<Rightarrow> ('g, 'l, 'v) pool" where
  "join_worker j pc s = (case workers s ! j of
       Finished v \<Rightarrow> s\<lparr>workers := (workers s)[j := Collected v], main_at := pc\<rparr>
     | _ \<Rightarrow> s)"

text \<open>\<open>main\<close> of a program with \<open>n\<close> threads that start at \<open>l0\<close>; \<open>err\<close>: the next \<open>pthread_create\<close> or
  \<open>pthread_join\<close> fails. The programs with one thread check (\<open>ck\<close>) what \<open>pthread_join\<close> returns; in the others it
  cannot fail, for each thread exists and is joined once.\<close>

definition pool_main :: "nat \<Rightarrow> bool \<Rightarrow> 'l \<Rightarrow> bool \<Rightarrow> ('g, 'l, 'v) pool \<Rightarrow> ('g, 'l, 'v) pool" where
  "pool_main n ck l0 err s = (case main_at s of
       P_Create i \<Rightarrow>
         if i < n then
           (if err then s\<lparr>main_at := P_Undo 0 i\<rparr>
            else s\<lparr>workers := workers s @ [Active l0], main_at := P_Create (i + 1)\<rparr>)
         else s\<lparr>main_at := P_Join 0\<rparr>
     | P_Undo j i \<Rightarrow> if j < i then join_worker j (P_Undo (j + 1) i) s else s\<lparr>main_at := P_Return (-1)\<rparr>
     | P_Join i \<Rightarrow> if i < n then (if err \<and> ck then s\<lparr>main_at := P_Return (-1)\<rparr> else join_worker i (P_Join (i + 1)) s) else s\<lparr>main_at := P_Report\<rparr>
     | P_Report \<Rightarrow> s\<lparr>main_at := P_Return 0\<rparr>
     | P_Return r \<Rightarrow> s)"

definition worker_step :: "('g, 'l, 'v) body \<Rightarrow> nat \<Rightarrow> ('g, 'l, 'v) pool \<Rightarrow> ('g, 'l, 'v) pool" where
  "worker_step body t s = (case workers s ! t of
       Active l \<Rightarrow> (case body l t (shared s) of
           (g, Inl l) \<Rightarrow> s\<lparr>shared := g, workers := (workers s)[t := Active l]\<rparr>
         | (g, Inr v) \<Rightarrow> s\<lparr>shared := g, workers := (workers s)[t := Finished v]\<rparr>)
     | _ \<Rightarrow> s)"

inductive pool_trans :: "nat \<Rightarrow> bool \<Rightarrow> 'l \<Rightarrow> ('g, 'l, 'v) body \<Rightarrow> ('g, 'l, 'v) pool \<Rightarrow> ('g, 'l, 'v) pool \<Rightarrow> bool"
  for n ck l0 body where
  main: "pool_trans n ck l0 body s (pool_main n ck l0 err s)"
| worker: "t < length (workers s) \<Longrightarrow> pool_trans n ck l0 body s (worker_step body t s)"

inductive_cases pool_transE: "pool_trans n ck l0 body s t"

section \<open>The thread functions\<close>

text \<open>\<open>task1_1/a.c\<close>, \<open>b.c\<close>, \<open>task1_2/a.c\<close>: the thread prints and returns \<open>NULL\<close>. Shared are the lines printed.\<close>

definition NUM_THREADS :: nat where "NUM_THREADS = 5"

definition mythread_hello :: "(string list, unit, ptr) body" where
  "mythread_hello l t out = (out @ [''Hello from mythread!''], Inr None)"

text \<open>\<open>task1_1/c.c\<close>: the thread compares its own id with the one stored for it.\<close>

definition mythread_equal :: "(nat \<Rightarrow> nat) \<Rightarrow> (bool list, unit, ptr) body" where
  "mythread_equal passed l t out = (out @ [passed t = t], Inr None)"

text \<open>\<open>task1_1/d.c\<close>: \<open>lvar\<close> is the thread's own, \<open>gvar\<close> is shared; \<open>gvar++\<close> loads and stores.\<close>

datatype counting = D_Print | D_Lvar int | D_Load int | D_Store int int | D_Sleep int

definition mythread_count :: "(int, counting, ptr) body" where
  "mythread_count l t gvar = (case l of
       D_Print \<Rightarrow> (gvar, Inl (D_Lvar 40))
     | D_Lvar lvar \<Rightarrow> (gvar, Inl (D_Load (lvar + 1)))
     | D_Load lvar \<Rightarrow> (gvar, Inl (D_Store lvar gvar))
     | D_Store lvar r \<Rightarrow> (r + 1, Inl (D_Sleep lvar))
     | D_Sleep lvar \<Rightarrow> (gvar, Inr None))"

text \<open>\<open>task1_2/b.c\<close>: the thread stores 42 where its argument points and returns the argument; \<open>c.c\<close> returns a string.\<close>

definition mythread_42 :: "(int option, bool, unit) body" where
  "mythread_42 stored t v = (if stored then (v, Inr ()) else (Some 42, Inl True))"

definition mythread_str :: "(unit, unit, string) body" where
  "mythread_str l t g = (g, Inr ''Hello world'')"

text \<open>\<open>task1_3/a.c\<close>: the structure is \<open>main\<close>'s; the thread prints both fields. Shared are the structure and the lines.\<close>

record myStruct =
  st_a :: int
  st_b :: string

definition mythread_struct :: "(myStruct \<times> (int \<times> string) list, unit, ptr) body" where
  "mythread_struct l t g = (case g of (st, out) \<Rightarrow> ((st, out @ [(st_a st, st_b st)]), Inr None))"

section \<open>The programs\<close>

definition main_hello_a :: "bool \<Rightarrow> (string list, unit, ptr) pool \<Rightarrow> (string list, unit, ptr) pool" where
  "main_hello_a err s = pool_main 1 True () err s"

definition main_hello_b :: "bool \<Rightarrow> (string list, unit, ptr) pool \<Rightarrow> (string list, unit, ptr) pool" where
  "main_hello_b err s = pool_main NUM_THREADS False () err s"

definition main_equal :: "bool \<Rightarrow> (bool list, unit, ptr) pool \<Rightarrow> (bool list, unit, ptr) pool" where
  "main_equal err s = pool_main NUM_THREADS False () err s"

definition main_count :: "bool \<Rightarrow> (int, counting, ptr) pool \<Rightarrow> (int, counting, ptr) pool" where
  "main_count err s = pool_main NUM_THREADS False D_Print err s"

definition main_joinable :: "bool \<Rightarrow> (string list, unit, ptr) pool \<Rightarrow> (string list, unit, ptr) pool" where
  "main_joinable err s = pool_main 1 True () err s"

definition main_42 :: "bool \<Rightarrow> (int option, bool, unit) pool \<Rightarrow> (int option, bool, unit) pool" where
  "main_42 err s = pool_main 1 True False err s"

definition main_str :: "bool \<Rightarrow> (unit, unit, string) pool \<Rightarrow> (unit, unit, string) pool" where
  "main_str err s = pool_main 1 True () err s"

definition main_struct :: "bool \<Rightarrow> (myStruct \<times> (int \<times> string) list, unit, ptr) pool \<Rightarrow> (myStruct \<times> (int \<times> string) list, unit, ptr) pool" where
  "main_struct err s = pool_main 1 True () err s"

lemma programs_step:
  "pool_trans 1 True () mythread_hello s (main_hello_a err s)"
  "pool_trans 1 True () mythread_hello s (main_joinable err s)"
  "pool_trans NUM_THREADS False () mythread_hello s (main_hello_b err s)"
  "pool_trans NUM_THREADS False () (mythread_equal passed) e (main_equal err e)"
  "pool_trans NUM_THREADS False D_Print mythread_count c (main_count err c)"
  "pool_trans 1 True False mythread_42 v (main_42 err v)"
  "pool_trans 1 True () mythread_str u (main_str err u)"
  "pool_trans 1 True () mythread_struct st (main_struct err st)"
  by (simp_all add: main_hello_a_def main_joinable_def main_hello_b_def main_equal_def main_count_def main_42_def
      main_str_def main_struct_def pool_trans.main)

section \<open>The invariant\<close>

text \<open>How many workers \<open>main\<close> has created and how many of them it has joined.\<close>

fun created :: "nat \<Rightarrow> pool_pc \<Rightarrow> nat \<Rightarrow> bool" where
  "created n (P_Create i) k \<longleftrightarrow> k = i \<and> i \<le> n"
| "created n (P_Undo j i) k \<longleftrightarrow> k = i \<and> j \<le> i \<and> i < n"
| "created n (P_Join i) k \<longleftrightarrow> k = n \<and> i \<le> n"
| "created n P_Report k \<longleftrightarrow> k = n"
| "created n (P_Return r) k \<longleftrightarrow> (if r = 0 then k = n else r = -1 \<and> k \<le> n)"

fun joined :: "pool_pc \<Rightarrow> nat \<Rightarrow> nat" where
  "joined (P_Create i) k = 0"
| "joined (P_Undo j i) k = j"
| "joined (P_Join i) k = i"
| "joined _ k = k"

definition pool_inv :: "nat \<Rightarrow> ('g, 'l, 'v) pool \<Rightarrow> bool" where
  "pool_inv n s \<longleftrightarrow> created n (main_at s) (length (workers s)) \<and>
     (main_at s \<noteq> P_Return (-1) \<longrightarrow> (\<forall>t < length (workers s). (\<exists>v. workers s ! t = Collected v) \<longleftrightarrow> t < joined (main_at s) (length (workers s))))"

lemma pool_main_inv: "pool_inv n s \<Longrightarrow> pool_inv n (pool_main n ck l0 err s)"
  by (cases "main_at s")
    (auto simp: pool_inv_def pool_main_def join_worker_def nth_append nth_list_update less_Suc_eq split: thread_status.splits)

lemma worker_step_inv: "pool_inv n s \<Longrightarrow> t < length (workers s) \<Longrightarrow> pool_inv n (worker_step body t s)"
  by (auto simp: pool_inv_def worker_step_def nth_list_update split: thread_status.splits prod.splits sum.splits)

interpretation pools: transition_system "\<lambda>s. s = pool_start g" "pool_trans n ck l0 body" "pool_inv n" for g n ck l0 body
proof
  show "pool_inv n s" if "s = pool_start g" for s using that by (simp add: pool_start_def pool_inv_def)
  show "pool_inv n t" if "pool_inv n s" "pool_trans n ck l0 body s t" for s t
    using that(2) that(1) by cases (simp_all add: pool_main_inv worker_step_inv)
qed

section \<open>Programs whose threads end\<close>

fun main_dist :: "nat \<Rightarrow> pool_pc \<Rightarrow> nat" where
  "main_dist n (P_Create i) = 2 * n + 3 - i"
| "main_dist n (P_Undo j i) = i - j + 1"
| "main_dist n (P_Join i) = n - i + 2"
| "main_dist n P_Report = 1"
| "main_dist n (P_Return r) = 0"

definition failing :: "pool_pc \<Rightarrow> bool" where
  "failing pc \<longleftrightarrow> (case pc of P_Undo j i \<Rightarrow> True | P_Return r \<Rightarrow> r \<noteq> 0 | _ \<Rightarrow> False)"

text \<open>The contract of a thread function that returns: its local state comes closer to the end with each step.\<close>

locale ending_body =
  fixes body :: "('g, 'l, 'v) body" and dist :: "'l \<Rightarrow> nat"
  assumes closer: "body l t g = (g', Inl l') \<Longrightarrow> dist l' < dist l"
begin

lemma worker_finishes:
  "t < length (workers s) \<Longrightarrow> workers s ! t = Active l \<Longrightarrow>
     \<exists>s' v. (pool_trans n ck l0 body)\<^sup>*\<^sup>* s s' \<and> workers s' = (workers s)[t := Finished v] \<and> main_at s' = main_at s"
proof (induction "dist l" arbitrary: s l rule: less_induct)
  case less
  let ?s = "worker_step body t s"
  have step: "pool_trans n ck l0 body s ?s" using less.prems(1) by (rule pool_trans.worker)
  obtain g r where b: "body l t (shared s) = (g, r)" by (cases "body l t (shared s)")
  show ?case
  proof (cases r)
    case (Inl l')
    with b less.prems have s': "workers ?s = (workers s)[t := Active l']" "main_at ?s = main_at s"
      by (simp_all add: worker_step_def)
    have "dist l' < dist l" using closer b Inl by blast
    from less.hyps [OF this, of ?s] less.prems(1) s' obtain s'' v where
      "(pool_trans n ck l0 body)\<^sup>*\<^sup>* ?s s''" "workers s'' = (workers s)[t := Finished v]" "main_at s'' = main_at s" by auto
    with step show ?thesis by (meson converse_rtranclp_into_rtranclp)
  next
    case (Inr v)
    with b less.prems have "workers ?s = (workers s)[t := Finished v]" "main_at ?s = main_at s"
      by (simp_all add: worker_step_def)
    with step show ?thesis by blast
  qed
qed

lemma worker_joined:
  assumes "t < length (workers s)" "\<nexists>v. workers s ! t = Collected v"
  shows "\<exists>s' v. (pool_trans n ck l0 body)\<^sup>*\<^sup>* s s' \<and> workers s' = (workers s)[t := Finished v] \<and> main_at s' = main_at s"
proof (cases "workers s ! t")
  case (Active l)
  with worker_finishes assms show ?thesis by blast
next
  case (Finished v)
  then have "(workers s)[t := Finished v] = workers s" by (metis list_update_id)
  then show ?thesis by (metis rtranclp.rtrancl_refl)
qed (use assms in auto)

lemma pool_main_advances:
  assumes inv: "pool_inv n s" and here: "\<nexists>r. main_at s = P_Return r"
  shows "\<exists>t. (pool_trans n ck l0 body)\<^sup>*\<^sup>* s t \<and> main_dist n (main_at t) < main_dist n (main_at s) \<and> failing (main_at t) = failing (main_at s)"
proof -
  have step: "pool_trans n ck l0 body u (pool_main n ck l0 False u)" for u by (rule pool_trans.main)
  have join: "\<exists>t. (pool_trans n ck l0 body)\<^sup>*\<^sup>* s t \<and> main_at t = pc"
    if j: "j < length (workers s)" "joined (main_at s) (length (workers s)) \<le> j"
      and at: "\<And>u :: ('g, 'l, 'v) pool. main_at u = main_at s \<Longrightarrow> pool_main n ck l0 False u = join_worker j pc u" for j pc
  proof -
    have "\<nexists>v. workers s ! j = Collected v" using inv j by (auto simp: pool_inv_def)
    from worker_joined [OF j(1) this] obtain u v where
      u: "(pool_trans n ck l0 body)\<^sup>*\<^sup>* s u" "workers u = (workers s)[j := Finished v]" "main_at u = main_at s" by blast
    then have "main_at (pool_main n ck l0 False u) = pc" using j(1) by (simp add: at join_worker_def)
    moreover have "(pool_trans n ck l0 body)\<^sup>*\<^sup>* s (pool_main n ck l0 False u)"
      using u(1) step by (rule rtranclp.rtrancl_into_rtrancl)
    ultimately show ?thesis by blast
  qed
  show ?thesis
  proof (cases "main_at s")
    case (P_Create i)
    then have "main_dist n (main_at (pool_main n ck l0 False s)) < main_dist n (main_at s) \<and> \<not> failing (main_at (pool_main n ck l0 False s))"
      using inv by (auto simp: pool_main_def pool_inv_def failing_def)
    with step [of s] P_Create show ?thesis by (auto simp: failing_def intro!: exI [of _ "pool_main n ck l0 False s"])
  next
    case (P_Undo j i)
    show ?thesis
    proof (cases "j < i")
      case True
      with P_Undo inv join [of j "P_Undo (j + 1) i"] show ?thesis
        by (fastforce simp: pool_inv_def pool_main_def failing_def)
    next
      case False
      with P_Undo step [of s] show ?thesis
        by (auto simp: pool_main_def failing_def intro!: exI [of _ "pool_main n ck l0 False s"])
    qed
  next
    case (P_Join i)
    show ?thesis
    proof (cases "i < n")
      case True
      with P_Join inv join [of i "P_Join (i + 1)"] show ?thesis
        by (fastforce simp: pool_inv_def pool_main_def failing_def)
    next
      case False
      with P_Join step [of s] show ?thesis
        by (auto simp: pool_main_def failing_def intro!: exI [of _ "pool_main n ck l0 False s"])
    qed
  next
    case P_Report
    with step [of s] show ?thesis
      by (auto simp: pool_main_def failing_def intro!: exI [of _ "pool_main n ck l0 False s"])
  qed (use here in simp)
qed

text \<open>Every state can be continued until \<open>main\<close> returns; it fails only where a creation has failed.\<close>

lemma main_returns:
  "pool_inv n s \<Longrightarrow> \<exists>t r. (pool_trans n ck l0 body)\<^sup>*\<^sup>* s t \<and> main_at t = P_Return r \<and> (r = 0 \<longleftrightarrow> \<not> failing (main_at s))"
proof (induction "main_dist n (main_at s)" arbitrary: s rule: less_induct)
  case less
  show ?case
  proof (cases "\<exists>r. main_at s = P_Return r")
    case True
    then show ?thesis by (auto simp: failing_def)
  next
    case False
    from pool_main_advances [OF less.prems False] obtain t where
      t: "(pool_trans n ck l0 body)\<^sup>*\<^sup>* s t" "main_dist n (main_at t) < main_dist n (main_at s)" "failing (main_at t) = failing (main_at s)"
      by blast
    from less.hyps [OF t(2) pools.inv_steps [OF less.prems t(1)]] t show ?thesis by (metis rtranclp_trans)
  qed
qed

end

text \<open>The functions of the programs return.\<close>

fun counting_dist :: "counting \<Rightarrow> nat" where
  "counting_dist D_Print = 4"
| "counting_dist (D_Lvar v) = 3"
| "counting_dist (D_Load v) = 2"
| "counting_dist (D_Store v r) = 1"
| "counting_dist (D_Sleep v) = 0"

interpretation hello: ending_body mythread_hello "\<lambda>_. 0"
  by unfold_locales (simp add: mythread_hello_def)

interpretation equal: ending_body "mythread_equal passed" "\<lambda>_. 0" for passed
  by unfold_locales (simp add: mythread_equal_def)

interpretation count: ending_body mythread_count counting_dist
  by unfold_locales (auto simp: mythread_count_def split: counting.splits)

interpretation store_42: ending_body mythread_42 "\<lambda>stored. if stored then 0 else 1"
  by unfold_locales (auto simp: mythread_42_def split: if_splits)

interpretation string_body: ending_body mythread_str "\<lambda>_. 0"
  by unfold_locales (simp add: mythread_str_def)

interpretation struct_body: ending_body mythread_struct "\<lambda>_. 0"
  by unfold_locales (auto simp: mythread_struct_def)

section \<open>The counters\<close>

text \<open>Has the thread stored \<open>gvar\<close>? One that has loaded it holds a value that at most so many stores had raised.\<close>

fun stored :: "(counting, ptr) thread_status \<Rightarrow> bool" where
  "stored (Active (D_Sleep v)) = True"
| "stored (Active _) = False"
| "stored _ = True"

fun count_ok :: "int \<Rightarrow> (counting, ptr) thread_status \<Rightarrow> bool" where
  "count_ok k (Active D_Print) = True"
| "count_ok k (Active (D_Lvar v)) = (v = 40)"
| "count_ok k (Active (D_Load v)) = (v = 41)"
| "count_ok k (Active (D_Store v r)) = (v = 41 \<and> 10 \<le> r \<and> r \<le> 10 + k)"
| "count_ok k (Active (D_Sleep v)) = (v = 41)"
| "count_ok k (Finished v) = (v = None)"
| "count_ok k (Collected v) = (v = None)"

definition stores :: "(counting, ptr) thread_status list \<Rightarrow> int" where
  "stores ws = int (length (filter stored ws))"

definition gvar_ok :: "int \<Rightarrow> (counting, ptr) thread_status list \<Rightarrow> bool" where
  "gvar_ok g ws \<longleftrightarrow> 10 \<le> g \<and> g \<le> 10 + stores ws \<and> (0 < stores ws \<longrightarrow> 11 \<le> g) \<and> (\<forall>w \<in> set ws. count_ok (stores ws) w)"

definition count_inv :: "(int, counting, ptr) pool \<Rightarrow> bool" where
  "count_inv s \<longleftrightarrow> gvar_ok (shared s) (workers s)"

lemma stores_simps [simp]:
  "stores [] = 0" "stores (ws @ vs) = stores ws + stores vs" "stores (w # ws) = (if stored w then 1 else 0) + stores ws"
  by (simp_all add: stores_def)

lemma stores_nonneg: "0 \<le> stores ws"
  by (simp add: stores_def)

lemma count_ok_mono: "count_ok k w \<Longrightarrow> k \<le> k' \<Longrightarrow> count_ok k' w"
  by (cases "(k, w)" rule: count_ok.cases) auto

lemma workers_split:
  assumes "t < length ws"
  obtains us w vs where "ws = us @ w # vs" "t = length us"
  using assms that [of "take t ws" "ws ! t" "drop (Suc t) ws"] by (simp add: id_take_nth_drop)

text \<open>A worker that neither loses nor gains a store, and one that stores.\<close>

lemma gvar_ok_same:
  "gvar_ok g (us @ w # vs) \<Longrightarrow> stored w' = stored w \<Longrightarrow>
     count_ok (stores (us @ w # vs)) w' \<Longrightarrow> gvar_ok g (us @ w' # vs)"
  by (simp add: gvar_ok_def)

lemma gvar_ok_store:
  assumes "gvar_ok g (us @ Active (D_Store v r) # vs)"
  shows "gvar_ok (r + 1) (us @ Active (D_Sleep v) # vs)"
proof -
  define k where "k = stores us + stores vs"
  have k: "stores (us @ Active (D_Store v r) # vs) = k" "stores (us @ Active (D_Sleep v) # vs) = k + 1"
    by (simp_all add: k_def)
  have r: "10 \<le> r" "r \<le> 10 + k" "v = 41" and all: "\<forall>x \<in> set us \<union> set vs. count_ok k x"
    using assms unfolding gvar_ok_def k(1) by auto
  from all have "\<forall>x \<in> set us \<union> set vs. count_ok (k + 1) x" using count_ok_mono [of k _ "k + 1"] by auto
  with r show ?thesis unfolding gvar_ok_def k(2) by auto
qed

lemma gvar_ok_worker:
  assumes ok: "gvar_ok g (us @ Active l # vs)" and b: "mythread_count l t g = (g', r)"
  shows "gvar_ok g' (us @ (case r of Inl l' \<Rightarrow> Active l' | Inr v \<Rightarrow> Finished v) # vs)"
proof (cases l)
  case (D_Store v x)
  with ok gvar_ok_store have "gvar_ok (x + 1) (us @ Active (D_Sleep v) # vs)" by blast
  with b D_Store show ?thesis by (auto simp: mythread_count_def)
next
  case D_Print
  with b have "g' = g" "r = Inl (D_Lvar 40)" by (auto simp: mythread_count_def)
  then show ?thesis using gvar_ok_same [OF ok, of "Active (D_Lvar 40)"] D_Print by simp
next
  case (D_Lvar v)
  with b have "g' = g" "r = Inl (D_Load (v + 1))" by (auto simp: mythread_count_def)
  moreover have "v = 40" using ok D_Lvar by (simp add: gvar_ok_def)
  ultimately show ?thesis using gvar_ok_same [OF ok, of "Active (D_Load (v + 1))"] D_Lvar by simp
next
  case (D_Load v)
  with b have "g' = g" "r = Inl (D_Store v g)" by (auto simp: mythread_count_def)
  moreover have "v = 41" "10 \<le> g" "g \<le> 10 + stores (us @ Active l # vs)" using ok D_Load by (simp_all add: gvar_ok_def)
  ultimately show ?thesis using gvar_ok_same [OF ok, of "Active (D_Store v g)"] D_Load by simp
next
  case (D_Sleep v)
  with b have "g' = g" "r = Inr None" by (auto simp: mythread_count_def)
  then show ?thesis using gvar_ok_same [OF ok, of "Finished None"] D_Sleep by simp
qed

lemma count_worker_inv:
  assumes "count_inv s" "t < length (workers s)"
  shows "count_inv (worker_step mythread_count t s)"
proof -
  obtain us w vs where w: "workers s = us @ w # vs" "t = length us" using workers_split [OF assms(2)] .
  show ?thesis
  proof (cases w)
    case (Active l)
    obtain g r where b: "mythread_count l t (shared s) = (g, r)" by (cases "mythread_count l t (shared s)")
    have "gvar_ok (shared s) (us @ Active l # vs)" using assms(1) unfolding count_inv_def w Active .
    from gvar_ok_worker [OF this b] show ?thesis
      using b w Active by (cases r) (simp_all add: count_inv_def worker_step_def)
  next
    case (Finished v)
    with w have "worker_step mythread_count t s = s" by (simp add: worker_step_def)
    with assms(1) show ?thesis by simp
  next
    case (Collected v)
    with w have "worker_step mythread_count t s = s" by (simp add: worker_step_def)
    with assms(1) show ?thesis by simp
  qed
qed

lemma count_join_inv:
  assumes "count_inv s" "j < length (workers s)"
  shows "count_inv (join_worker j pc s)"
proof -
  obtain us w vs where w: "workers s = us @ w # vs" "j = length us" using workers_split [OF assms(2)] .
  show ?thesis
  proof (cases w)
    case (Finished v)
    have ok: "gvar_ok (shared s) (us @ Finished v # vs)" using assms(1) unfolding count_inv_def w Finished .
    then have "v = None" by (simp add: gvar_ok_def)
    with gvar_ok_same [OF ok, of "Collected v"] show ?thesis
      using w Finished by (simp add: count_inv_def join_worker_def)
  qed (use w assms(1) in \<open>simp_all add: join_worker_def\<close>)
qed

lemma count_create_inv: "gvar_ok g ws \<Longrightarrow> gvar_ok g (ws @ [Active D_Print])"
  by (simp add: gvar_ok_def)

lemma count_main_inv:
  assumes "count_inv s" "pool_inv n s"
  shows "count_inv (pool_main n ck D_Print err s)"
proof (cases "main_at s")
  case (P_Create i)
  with assms show ?thesis by (simp add: pool_main_def count_inv_def count_create_inv)
next
  case (P_Undo j i)
  with assms(2) have "j < i \<Longrightarrow> j < length (workers s)" by (simp add: pool_inv_def)
  with P_Undo assms(1) count_join_inv show ?thesis by (simp add: pool_main_def) (simp add: count_inv_def)
next
  case (P_Join i)
  with assms(2) have "i < n \<Longrightarrow> i < length (workers s)" by (simp add: pool_inv_def)
  with P_Join assms(1) count_join_inv show ?thesis by (simp add: pool_main_def) (simp add: count_inv_def)
qed (use assms(1) in \<open>simp_all add: pool_main_def count_inv_def\<close>)

lemma count_start: "pool_inv n (pool_start 10) \<and> count_inv (pool_start 10)"
  by (simp add: pool_start_def pool_inv_def count_inv_def gvar_ok_def)

lemma count_step:
  assumes "pool_inv n s" "count_inv s" "pool_trans n ck D_Print mythread_count s t"
  shows "pool_inv n t \<and> count_inv t"
  using assms(3)
proof cases
  case (main err)
  show ?thesis unfolding main using assms(1,2) by (simp add: count_main_inv pool_main_inv)
next
  case (worker u)
  show ?thesis unfolding worker(1) using assms(1,2) worker(2) by (simp add: count_worker_inv worker_step_inv)
qed

interpretation counting: transition_system "\<lambda>s. s = pool_start 10" "pool_trans n ck D_Print mythread_count" "\<lambda>s. pool_inv n s \<and> count_inv s" for n ck
  by unfold_locales (use count_start count_step in blast)+

lemma all_collected:
  assumes "pool_inv n s" "count_inv s" "main_at s = P_Return 0"
  shows "workers s = replicate n (Collected None)"
proof (rule nth_equalityI)
  from assms(1,3) have len: "length (workers s) = n" and all: "\<forall>t < n. \<exists>v. workers s ! t = Collected v"
    by (auto simp: pool_inv_def)
  then show "length (workers s) = length (replicate n (Collected None))" by simp
  fix t
  assume t: "t < length (workers s)"
  with all len obtain v where v: "workers s ! t = Collected v" by auto
  moreover have "count_ok (stores (workers s)) (workers s ! t)"
    using assms(2) nth_mem [OF t] by (auto simp: count_inv_def gvar_ok_def)
  ultimately show "workers s ! t = replicate n (Collected None) ! t" using t len by simp
qed

text \<open>
  The five threads of \<open>task1_1/d.c\<close>: when \<open>main\<close> returns 0 it has joined all of them, and \<open>gvar\<close>, which
  they raise without a lock, is between 11 and 15; and from every state \<open>main\<close> can return, with -1 exactly when
  a creation has failed.
\<close>

theorem counting_program:
  assumes "reachable (\<lambda>s. s = pool_start 10) (pool_trans NUM_THREADS False D_Print mythread_count) s"
  shows "(main_at s = P_Return 0 \<longrightarrow> workers s = replicate NUM_THREADS (Collected None) \<and> 11 \<le> shared s \<and> shared s \<le> 15) \<and>
    (\<exists>t r. (pool_trans NUM_THREADS False D_Print mythread_count)\<^sup>*\<^sup>* s t \<and> main_at t = P_Return r \<and> (r = 0 \<longleftrightarrow> \<not> failing (main_at s)))"
proof
  from assms have inv: "pool_inv NUM_THREADS s" "count_inv s" using counting.reachable_inv by blast+
  show "main_at s = P_Return 0 \<longrightarrow> workers s = replicate NUM_THREADS (Collected None) \<and> 11 \<le> shared s \<and> shared s \<le> 15"
  proof
    assume ret: "main_at s = P_Return 0"
    have ws: "workers s = replicate NUM_THREADS (Collected None)" using all_collected [OF inv ret] .
    then have "stores (workers s) = 5" by (simp add: NUM_THREADS_def numeral_eq_Suc)
    with ws inv(2) show "workers s = replicate NUM_THREADS (Collected None) \<and> 11 \<le> shared s \<and> shared s \<le> 15"
      by (simp add: count_inv_def gvar_ok_def)
  qed
  show "\<exists>t r. (pool_trans NUM_THREADS False D_Print mythread_count)\<^sup>*\<^sup>* s t \<and> main_at t = P_Return r \<and> (r = 0 \<longleftrightarrow> \<not> failing (main_at s))"
    using inv(1) by (rule count.main_returns)
qed

text \<open>Both ends occur: five threads one after the other, and five that all load before the first stores.\<close>

definition pool_act :: "nat \<Rightarrow> bool \<Rightarrow> 'l \<Rightarrow> ('g, 'l, 'v) body \<Rightarrow> nat option \<Rightarrow> ('g, 'l, 'v) pool \<Rightarrow> ('g, 'l, 'v) pool" where
  "pool_act n ck l0 body who s = (case who of
       None \<Rightarrow> pool_main n ck l0 False s
     | Some t \<Rightarrow> if t < length (workers s) then worker_step body t s else s)"

definition pool_run :: "nat \<Rightarrow> bool \<Rightarrow> 'l \<Rightarrow> ('g, 'l, 'v) body \<Rightarrow> nat option list \<Rightarrow> ('g, 'l, 'v) pool \<Rightarrow> ('g, 'l, 'v) pool" where
  "pool_run n ck l0 body whos s = fold (pool_act n ck l0 body) whos s"

lemma reachable_pool_run:
  "reachable start (pool_trans n ck l0 body) s \<Longrightarrow> reachable start (pool_trans n ck l0 body) (pool_run n ck l0 body whos s)"
  unfolding pool_run_def
proof (induction whos arbitrary: s)
  case (Cons who whos)
  have "reachable start (pool_trans n ck l0 body) (pool_act n ck l0 body who s)"
    by (cases who) (auto simp: pool_act_def Cons.prems intro: reach_step [OF Cons.prems] pool_trans.intros)
  with Cons.IH show ?case by simp
qed simp

text \<open>All workers created; all of them taken through \<open>k\<close> steps; all joined.\<close>

definition create_all :: "nat option list" where
  "create_all = replicate (NUM_THREADS + 1) None"

definition join_all :: "nat option list" where
  "join_all = replicate (NUM_THREADS + 2) None"

definition in_turn :: "nat option list" where
  "in_turn = create_all @ concat (map (\<lambda>t. replicate 5 (Some t)) [0..<NUM_THREADS]) @ join_all"

definition together :: "nat option list" where
  "together = create_all @ concat (replicate 5 (map Some [0..<NUM_THREADS])) @ join_all"

theorem counting_ends:
  "(\<exists>s. reachable (\<lambda>s. s = pool_start 10) (pool_trans NUM_THREADS False D_Print mythread_count) s \<and> main_at s = P_Return 0 \<and> shared s = 15) \<and>
   (\<exists>s. reachable (\<lambda>s. s = pool_start 10) (pool_trans NUM_THREADS False D_Print mythread_count) s \<and> main_at s = P_Return 0 \<and> shared s = 11)"
proof -
  let ?run = "\<lambda>whos. pool_run NUM_THREADS False D_Print mythread_count whos (pool_start 10)"
  have r: "reachable (\<lambda>s. s = pool_start 10) (pool_trans NUM_THREADS False D_Print mythread_count) (?run whos)" for whos
    by (rule reachable_pool_run) (simp add: reach_start)
  have "main_at (?run in_turn) = P_Return 0 \<and> shared (?run in_turn) = 15" by code_simp
  moreover have "main_at (?run together) = P_Return 0 \<and> shared (?run together) = 11" by code_simp
  ultimately show ?thesis using r by blast
qed

theorem counting_program_witness:
  "11 \<le> shared (pool_run NUM_THREADS False D_Print mythread_count together (pool_start 10)) \<and>
   shared (pool_run NUM_THREADS False D_Print mythread_count together (pool_start 10)) \<le> 15"
proof -
  let ?s = "pool_run NUM_THREADS False D_Print mythread_count together (pool_start 10)"
  have "reachable (\<lambda>s. s = pool_start 10) (pool_trans NUM_THREADS False D_Print mythread_count) ?s"
    by (rule reachable_pool_run) (simp add: reach_start)
  note this [THEN counting_program]
  moreover have "main_at ?s = P_Return 0" by code_simp
  ultimately show ?thesis by blast
qed

section \<open>Programs with one thread\<close>

text \<open>What a thread function keeps of the memory and its own state, and then says of its result.\<close>

locale kept_body =
  fixes body :: "('g, 'l, 'v) body" and l0 :: 'l and g0 :: 'g and kept :: "'g \<Rightarrow> 'l + 'v \<Rightarrow> bool"
  assumes kept_start: "kept g0 (Inl l0)"
    and kept_step: "kept g (Inl l) \<Longrightarrow> kept (fst (body l t g)) (snd (body l t g))"
begin

fun its_state :: "('l, 'v) thread_status \<Rightarrow> 'l + 'v" where
  "its_state (Active l) = Inl l"
| "its_state (Finished v) = Inr v"
| "its_state (Collected v) = Inr v"

definition single_inv :: "('g, 'l, 'v) pool \<Rightarrow> bool" where
  "single_inv s \<longleftrightarrow> (case workers s of [] \<Rightarrow> shared s = g0 | w # ws \<Rightarrow> ws = [] \<and> kept (shared s) (its_state w))"

lemma single_main_inv: "pool_inv 1 s \<Longrightarrow> single_inv s \<Longrightarrow> single_inv (pool_main 1 True l0 err s)"
  by (cases "main_at s"; cases "workers s")
    (auto simp: pool_inv_def single_inv_def pool_main_def join_worker_def kept_start split: thread_status.splits)

lemma single_worker_inv:
  assumes "single_inv s" "t < length (workers s)"
  shows "single_inv (worker_step body t s)"
proof (cases "workers s")
  case (Cons w ws)
  with assms have ws: "ws = []" "t = 0" "kept (shared s) (its_state w)" by (auto simp: single_inv_def)
  show ?thesis
  proof (cases w)
    case (Active l)
    with ws kept_step have "kept (fst (body l t (shared s))) (snd (body l t (shared s)))" by simp
    with Cons Active ws show ?thesis
      by (cases "body l t (shared s)"; cases "snd (body l t (shared s))") (simp_all add: single_inv_def worker_step_def)
  qed (use assms Cons ws in \<open>simp_all add: worker_step_def\<close>)
qed (use assms in simp)

end

sublocale kept_body \<subseteq> single: transition_system "\<lambda>s. s = pool_start g0" "pool_trans 1 True l0 body" "\<lambda>s. pool_inv 1 s \<and> single_inv s"
proof
  show "pool_inv 1 s \<and> single_inv s" if "s = pool_start g0" for s
    unfolding that by (simp add: pool_start_def pool_inv_def single_inv_def)
  show "pool_inv 1 t \<and> single_inv t" if inv: "pool_inv 1 s \<and> single_inv s" and step: "pool_trans 1 True l0 body s t" for s t
    using step
  proof cases
    case (main err)
    show ?thesis unfolding main using single_main_inv [of s err] pool_main_inv [of 1 s True l0 err] inv by simp
  next
    case (worker u)
    show ?thesis unfolding worker(1) using inv worker(2) single_worker_inv [of s u] worker_step_inv [of 1 s u body] by simp
  qed
qed

context kept_body
begin

lemma result_kept:
  assumes "reachable (\<lambda>s. s = pool_start g0) (pool_trans 1 True l0 body) s" "main_at s = P_Return 0"
  shows "\<exists>v. workers s = [Collected v] \<and> kept (shared s) (Inr v)"
proof -
  from assms(1) have "pool_inv 1 s \<and> single_inv s" by (rule single.reachable_inv)
  with assms(2) show ?thesis by (cases "workers s") (auto simp: pool_inv_def single_inv_def)
qed

end

interpretation hello_1: kept_body mythread_hello "()" "[]" "\<lambda>out r. case r of Inl l \<Rightarrow> out = [] | Inr v \<Rightarrow> out = [''Hello from mythread!''] \<and> v = None"
  by unfold_locales (simp_all add: mythread_hello_def)

interpretation equal_1: kept_body "mythread_equal passed" "()" "[]" "\<lambda>out r. case r of Inl l \<Rightarrow> out = [] | Inr v \<Rightarrow> v = None" for passed
  by unfold_locales (simp_all add: mythread_equal_def)

interpretation store_42_1: kept_body mythread_42 False v0 "\<lambda>v r. r \<noteq> Inl False \<longrightarrow> v = Some 42" for v0
  by unfold_locales (simp_all add: mythread_42_def)

interpretation string_1: kept_body mythread_str "()" "()" "\<lambda>g r. case r of Inl l \<Rightarrow> True | Inr v \<Rightarrow> v = ''Hello world''"
  by unfold_locales (simp_all add: mythread_str_def)

interpretation struct_1: kept_body mythread_struct "()" "(st, [])"
    "\<lambda>g r. fst g = st \<and> (case r of Inl l \<Rightarrow> snd g = [] | Inr v \<Rightarrow> snd g = [(st_a st, st_b st)] \<and> v = None)" for st
  by unfold_locales (auto simp: mythread_struct_def)

text \<open>
  What the threads of \<open>task1_2\<close> and \<open>task1_3/a.c\<close> hand to \<open>main\<close>: when it returns 0, \<open>value\<close> is 42, the
  joined value is the string, and both fields of the structure have been printed once; and it can always return.
\<close>

theorem thread_results:
  "(\<forall>s. reachable (\<lambda>s. s = pool_start v0) (pool_trans 1 True False mythread_42) s \<longrightarrow> main_at s = P_Return 0 \<longrightarrow> shared s = Some 42) \<and>
   (\<forall>s. reachable (\<lambda>s. s = pool_start ()) (pool_trans 1 True () mythread_str) s \<longrightarrow> main_at s = P_Return 0 \<longrightarrow>
      workers s = [Collected ''Hello world'']) \<and>
   (\<forall>s. reachable (\<lambda>s. s = pool_start (st, [])) (pool_trans 1 True () mythread_struct) s \<longrightarrow> main_at s = P_Return 0 \<longrightarrow>
      shared s = (st, [(st_a st, st_b st)]))"
proof (intro conjI allI impI)
  fix s :: "(int option, bool, unit) pool"
  assume "reachable (\<lambda>s. s = pool_start v0) (pool_trans 1 True False mythread_42) s" "main_at s = P_Return 0"
  from store_42_1.result_kept [OF this] show "shared s = Some 42" by auto
next
  fix s :: "(unit, unit, string) pool"
  assume "reachable (\<lambda>s. s = pool_start ()) (pool_trans 1 True () mythread_str) s" "main_at s = P_Return 0"
  from string_1.result_kept [OF this] show "workers s = [Collected ''Hello world'']" by auto
next
  fix s :: "(myStruct \<times> (int \<times> string) list, unit, ptr) pool"
  assume "reachable (\<lambda>s. s = pool_start (st, [])) (pool_trans 1 True () mythread_struct) s" "main_at s = P_Return 0"
  from struct_1.result_kept [OF this] show "shared s = (st, [(st_a st, st_b st)])" by (cases "shared s") auto
qed

theorem thread_results_witness:
  "shared (pool_run 1 True False mythread_42 [None, None, Some 0, Some 0, None, None, None] (pool_start None)) = Some 42"
proof -
  let ?s = "pool_run 1 True False mythread_42 [None, None, Some 0, Some 0, None, None, None] (pool_start None)"
  have r: "reachable (\<lambda>s. s = pool_start None) (pool_trans 1 True False mythread_42) ?s"
    by (rule reachable_pool_run) (simp add: reach_start)
  have "main_at ?s = P_Return 0" by code_simp
  with thread_results [of None "\<lparr>st_a = 42, st_b = ''Hello, world!''\<rparr>"] r show ?thesis by blast
qed

end
