(* ===== verification/Detached.thy ===== *)
theory Detached
  imports Thread_Pool
begin

text \<open>
  The two programs of \<open>sem2/lab1\<close> that join none of their threads: \<open>task1_2/d.c\<close> creates joinable threads in an
  endless loop, and \<open>task1_3/b.c\<close> hands a structure of the heap to a detached thread and frees it.
\<close>

section \<open>Threads without end (\<open>task1_2/d.c\<close>)\<close>

text \<open>
  A joinable thread keeps its resources after it has ended, until it is joined. \<open>limit\<close> is the number of threads
  the system has resources for; beyond it \<open>pthread_create\<close> fails. True stands for a thread that has ended.
\<close>

record spawner =
  spawned :: "bool list"
  spawn_returns :: "int option"

definition spawn_start :: spawner where
  "spawn_start = \<lparr>spawned = [], spawn_returns = None\<rparr>"

definition spawn_main :: "nat \<Rightarrow> spawner \<Rightarrow> spawner" where
  "spawn_main limit s = (case spawn_returns s of
       Some r \<Rightarrow> s
     | None \<Rightarrow> if length (spawned s) < limit then s\<lparr>spawned := spawned s @ [False]\<rparr>
         else s\<lparr>spawn_returns := Some (-1)\<rparr>)"

inductive spawn_trans :: "nat \<Rightarrow> spawner \<Rightarrow> spawner \<Rightarrow> bool" for limit where
  main: "spawn_trans limit s (spawn_main limit s)"
| thread: "t < length (spawned s) \<Longrightarrow> spawn_returns s = None \<Longrightarrow> spawn_trans limit s (s\<lparr>spawned := (spawned s)[t := True]\<rparr>)"

definition spawn_inv :: "nat \<Rightarrow> spawner \<Rightarrow> bool" where
  "spawn_inv limit s \<longleftrightarrow> length (spawned s) \<le> limit \<and>
     (\<forall>r. spawn_returns s = Some r \<longrightarrow> r = -1 \<and> length (spawned s) = limit)"

interpretation spawning: transition_system "\<lambda>s. s = spawn_start" "spawn_trans limit" "spawn_inv limit" for limit
proof
  show "spawn_inv limit s" if "s = spawn_start" for s using that by (simp add: spawn_start_def spawn_inv_def)
  show "spawn_inv limit t" if "spawn_inv limit s" "spawn_trans limit s t" for s t
    using that(2,1) by cases (auto simp: spawn_inv_def spawn_main_def split: option.splits)
qed

text \<open>The loop ends only by the failure of a creation, after \<open>limit\<close> threads, even where all of them have ended.\<close>

lemma spawn_returns_minus_one:
  assumes "reachable (\<lambda>s. s = spawn_start) (spawn_trans limit) s" "spawn_returns s = Some r"
  shows "r = -1 \<and> length (spawned s) = limit"
  using spawning.reachable_inv [OF assms(1)] assms(2) by (simp add: spawn_inv_def)

lemma spawn_ends:
  "spawn_inv limit s \<Longrightarrow> \<exists>t. (spawn_trans limit)\<^sup>*\<^sup>* s t \<and> spawn_returns t = Some (-1)"
proof (induction "limit - length (spawned s)" arbitrary: s)
  case 0
  then have "spawn_returns (spawn_main limit s) = Some (-1)"
    by (auto simp: spawn_main_def spawn_inv_def split: option.split)
  then show ?case using spawn_trans.main by blast
next
  case (Suc k)
  have step: "spawn_trans limit s (spawn_main limit s)" by (rule spawn_trans.main)
  show ?case
  proof (cases "spawn_returns s")
    case None
    with Suc.hyps(2) have "spawned (spawn_main limit s) = spawned s @ [False]" by (simp add: spawn_main_def)
    then have "k = limit - length (spawned (spawn_main limit s))" using Suc.hyps(2) by simp
    from Suc.hyps(1) [OF this spawning.inv_step [OF Suc.prems step]] step show ?thesis
      by (meson converse_rtranclp_into_rtranclp)
  next
    case (Some r)
    with Suc.prems show ?thesis by (auto simp: spawn_inv_def)
  qed
qed

section \<open>A detached thread (\<open>task1_3/b.c\<close>)\<close>

datatype free_pc = B_Malloc | B_Fill | B_Create | B_Destroy | B_Free | B_Return int

text \<open>The thread loads both fields, the arguments of one \<open>printf\<close>; \<open>R_Freed\<close>: it has loaded from freed memory.\<close>

datatype reading = R_None | R_Ready | R_First int | R_Printed int string | R_Freed

record detached =
  struct_mem :: "myStruct option"
  reading :: reading
  free_at :: free_pc

definition detached_start :: detached where
  "detached_start = \<lparr>struct_mem = None, reading = R_None, free_at = B_Malloc\<rparr>"

text \<open>\<open>ok\<close>: \<open>malloc\<close> or \<open>pthread_create\<close> succeeds; \<open>st\<close> is what the block of \<open>malloc\<close> holds.\<close>

definition detached_main :: "bool \<Rightarrow> myStruct \<Rightarrow> detached \<Rightarrow> detached" where
  "detached_main ok st s = (case free_at s of
       B_Malloc \<Rightarrow> if ok then s\<lparr>struct_mem := Some st, free_at := B_Fill\<rparr> else s\<lparr>free_at := B_Return (-1)\<rparr>
     | B_Fill \<Rightarrow> s\<lparr>struct_mem := Some \<lparr>st_a = 42, st_b = ''Hello, world!''\<rparr>, free_at := B_Create\<rparr>
     | B_Create \<Rightarrow> if ok then s\<lparr>reading := R_Ready, free_at := B_Destroy\<rparr>
         else s\<lparr>struct_mem := None, free_at := B_Return (-1)\<rparr>
     | B_Destroy \<Rightarrow> s\<lparr>free_at := B_Free\<rparr>
     | B_Free \<Rightarrow> s\<lparr>struct_mem := None, free_at := B_Return 0\<rparr>
     | B_Return r \<Rightarrow> s)"

definition detached_mythread :: "detached \<Rightarrow> detached" where
  "detached_mythread s = (case (reading s, struct_mem s) of
       (R_Ready, Some st) \<Rightarrow> s\<lparr>reading := R_First (st_a st)\<rparr>
     | (R_First a, Some st) \<Rightarrow> s\<lparr>reading := R_Printed a (st_b st)\<rparr>
     | (R_Ready, None) \<Rightarrow> s\<lparr>reading := R_Freed\<rparr>
     | (R_First a, None) \<Rightarrow> s\<lparr>reading := R_Freed\<rparr>
     | _ \<Rightarrow> s)"

text \<open>Returning from \<open>main\<close> ends the process, but the thread may run between \<open>free\<close> and that end.\<close>

inductive detached_trans :: "detached \<Rightarrow> detached \<Rightarrow> bool" where
  main: "detached_trans s (detached_main ok st s)"
| thread: "detached_trans s (detached_mythread s)"

fun detached_at :: "free_pc \<Rightarrow> myStruct option \<Rightarrow> reading \<Rightarrow> bool" where
  "detached_at B_Malloc m r \<longleftrightarrow> m = None \<and> r = R_None"
| "detached_at B_Fill m r \<longleftrightarrow> m \<noteq> None \<and> r = R_None"
| "detached_at B_Create m r \<longleftrightarrow> m = Some \<lparr>st_a = 42, st_b = ''Hello, world!''\<rparr> \<and> r = R_None"
| "detached_at (B_Return v) m r \<longleftrightarrow> m = None \<and> r \<in> {R_None, R_Ready, R_First 42, R_Printed 42 ''Hello, world!'', R_Freed}"
| "detached_at _ m r \<longleftrightarrow> m = Some \<lparr>st_a = 42, st_b = ''Hello, world!''\<rparr> \<and> r \<in> {R_Ready, R_First 42, R_Printed 42 ''Hello, world!''}"

definition detached_inv :: "detached \<Rightarrow> bool" where
  "detached_inv s \<longleftrightarrow> detached_at (free_at s) (struct_mem s) (reading s)"

lemma detached_main_inv: "detached_inv s \<Longrightarrow> detached_inv (detached_main ok st s)"
  by (cases "free_at s") (auto simp: detached_inv_def detached_main_def)

lemma detached_mythread_inv: "detached_inv s \<Longrightarrow> detached_inv (detached_mythread s)"
  by (cases "free_at s"; cases "reading s"; cases "struct_mem s") (auto simp: detached_inv_def detached_mythread_def)

interpretation detach: transition_system "\<lambda>s. s = detached_start" detached_trans detached_inv
proof
  show "detached_inv s" if "s = detached_start" for s using that by (simp add: detached_start_def detached_inv_def)
  show "detached_inv t" if "detached_inv s" "detached_trans s t" for s t
    using that(2,1) by cases (simp_all add: detached_main_inv detached_mythread_inv)
qed

text \<open>
  \<open>task1_3/b.c\<close>: every return of \<open>main\<close> has freed the structure, what the thread prints is 42 and the string,
  and it reads freed memory only after \<open>main\<close> has freed it; but it can: nothing makes \<open>main\<close> wait for the thread.
\<close>

theorem detached_program:
  "(\<forall>s r. reachable (\<lambda>s. s = detached_start) detached_trans s \<longrightarrow>
      (free_at s = B_Return r \<longrightarrow> struct_mem s = None) \<and>
      (\<forall>a b. reading s = R_Printed a b \<longrightarrow> a = 42 \<and> b = ''Hello, world!'') \<and>
      (reading s = R_Freed \<longrightarrow> (\<exists>r. free_at s = B_Return r))) \<and>
   (\<exists>s. reachable (\<lambda>s. s = detached_start) detached_trans s \<and> reading s = R_Freed)"
proof (intro conjI)
  show "\<forall>s r. reachable (\<lambda>s. s = detached_start) detached_trans s \<longrightarrow>
      (free_at s = B_Return r \<longrightarrow> struct_mem s = None) \<and>
      (\<forall>a b. reading s = R_Printed a b \<longrightarrow> a = 42 \<and> b = ''Hello, world!'') \<and>
      (reading s = R_Freed \<longrightarrow> (\<exists>r. free_at s = B_Return r))"
  proof (intro allI impI)
    fix s r
    assume "reachable (\<lambda>s. s = detached_start) detached_trans s"
    then have "detached_inv s" by (rule detach.reachable_inv)
    then show "(free_at s = B_Return r \<longrightarrow> struct_mem s = None) \<and>
      (\<forall>a b. reading s = R_Printed a b \<longrightarrow> a = 42 \<and> b = ''Hello, world!'') \<and>
      (reading s = R_Freed \<longrightarrow> (\<exists>r. free_at s = B_Return r))"
      by (cases "free_at s") (auto simp: detached_inv_def)
  qed
  let ?st = "\<lparr>st_a = 0, st_b = []\<rparr>"
  let ?run = "\<lambda>n s. (detached_main True ?st ^^ n) s"
  have "reachable (\<lambda>s. s = detached_start) detached_trans (?run n detached_start)" for n
    by (induction n) (auto intro: reach_start reach_step detached_trans.main)
  then have "reachable (\<lambda>s. s = detached_start) detached_trans (detached_mythread (?run 5 detached_start))"
    using detached_trans.thread by (rule reach_step)
  moreover have "reading (detached_mythread (?run 5 detached_start)) = R_Freed"
    by (simp add: numeral_eq_Suc detached_start_def detached_main_def detached_mythread_def)
  ultimately show "\<exists>s. reachable (\<lambda>s. s = detached_start) detached_trans s \<and> reading s = R_Freed" by blast
qed

theorem detached_program_witness:
  "reading (detached_mythread (detached_mythread ((detached_main True \<lparr>st_a = 0, st_b = []\<rparr> ^^ 3) detached_start))) = R_Printed 42 ''Hello, world!''"
  (is "reading ?s = _")
proof -
  have "reachable (\<lambda>s. s = detached_start) detached_trans ((detached_main True \<lparr>st_a = 0, st_b = []\<rparr> ^^ n) detached_start)" for n
    by (induction n) (auto intro: reach_start reach_step detached_trans.main)
  then have r: "reachable (\<lambda>s. s = detached_start) detached_trans ?s" by (blast intro: reach_step detached_trans.thread)
  have "\<exists>a b. reading ?s = R_Printed a b"
    by (simp add: numeral_eq_Suc detached_start_def detached_main_def detached_mythread_def)
  with detached_program r show ?thesis by blast
qed

end
