(* ===== verification/Swap_Monitor.thy ===== *)
theory Swap_Monitor
  imports Swap_List
begin

text \<open>
  The monitor thread of \<open>task2_3\<close>, beside the threads of \<open>Swap_List\<close>: it reads the six counters one after the
  other, each under that counter's lock, prints them, and stops with the others. Taking a counter's lock, reading
  and releasing it is one step, as the increment is in \<open>Swap_List\<close>. Also here are the functions that the variants
  with spin locks and read-write locks have in copies.
\<close>

section \<open>The monitor\<close>

record monitor =
  m_vals :: "int list"  \<comment> \<open>the counters read in this round\<close>
  m_lines :: "int list list"
  m_reading :: bool
  m_ended :: bool

definition counters :: "lsys \<Rightarrow> int list" where
  "counters s = [l_iters s Increasing, l_iters s Decreasing, l_iters s Equal, l_swaps s 0, l_swaps s 1, l_swaps s 2]"

definition monitor_start :: monitor where
  "monitor_start = \<lparr>m_vals = [], m_lines = [], m_reading = False, m_ended = False\<rparr>"

text \<open>The test of \<open>stop_flag\<close>, reading the next counter, or printing the line.\<close>

definition monitor_mutex :: "lsys \<Rightarrow> monitor \<Rightarrow> monitor" where
  "monitor_mutex s m =
     (if m_ended m then m
      else if \<not> m_reading m then (if l_stop s then m\<lparr>m_ended := True\<rparr> else m\<lparr>m_vals := [], m_reading := True\<rparr>)
      else if length (m_vals m) < 6 then m\<lparr>m_vals := m_vals m @ [counters s ! length (m_vals m)]\<rparr>
      else m\<lparr>m_lines := m_lines m @ [m_vals m], m_reading := False\<rparr>)"

definition monitor_spin :: "lsys \<Rightarrow> monitor \<Rightarrow> monitor" where
  "monitor_spin s m = monitor_mutex s m"

text \<open>With read-write locks it takes the counters' locks for reading, which excludes the increments all the same.\<close>

definition monitor_rwlock :: "lsys \<Rightarrow> monitor \<Rightarrow> monitor" where
  "monitor_rwlock s m = monitor_mutex s m"

definition monitor_thread :: "list_variant \<Rightarrow> lsys \<Rightarrow> monitor \<Rightarrow> monitor" where
  "monitor_thread var = (case var of LMutex \<Rightarrow> monitor_mutex | LSpin \<Rightarrow> monitor_spin | LRwlock \<Rightarrow> monitor_rwlock)"

inductive monitored :: "list_variant \<Rightarrow> lsys \<times> monitor \<Rightarrow> lsys \<times> monitor \<Rightarrow> bool" for var where
  threads: "list_step var ev s = Inr s' \<Longrightarrow> monitored var (s, m) (s', m)"
| monitor: "monitored var (s, m) (s, monitor_thread var s m)"

section \<open>The copies of the other variants\<close>

definition random_string_spin :: "nat \<Rightarrow> (nat \<Rightarrow> nat) \<Rightarrow> nat \<Rightarrow> string result" where
  "random_string_spin cap rand len =
     (if len < cap then Inr (map (\<lambda>i. alphabet ! (rand i mod length alphabet)) [0..<len]) else Inl Overrun)"

definition random_string_rwlock :: "nat \<Rightarrow> (nat \<Rightarrow> nat) \<Rightarrow> nat \<Rightarrow> string result" where
  "random_string_rwlock cap rand len =
     (if len < cap then Inr (map (\<lambda>i. alphabet ! (rand i mod length alphabet)) [0..<len]) else Inl Overrun)"

fun destroy_list_spin :: "nat \<Rightarrow> ptr \<Rightarrow> lheap \<Rightarrow> lheap result" where
  "destroy_list_spin 0 cur h = Inl OutOfFuel"
| "destroy_list_spin (Suc fuel) cur h =
     (if cur = None then Inr h
      else bindR (load h cur) (\<lambda>n.
           if lsync n \<noteq> [] then Inl BadUnlock
           else bindR (release h cur) (\<lambda>h'. destroy_list_spin fuel (lnext n) h')))"

fun destroy_list_rwlock :: "nat \<Rightarrow> ptr \<Rightarrow> lheap \<Rightarrow> lheap result" where
  "destroy_list_rwlock 0 cur h = Inl OutOfFuel"
| "destroy_list_rwlock (Suc fuel) cur h =
     (if cur = None then Inr h
      else bindR (load h cur) (\<lambda>n.
           if lsync n \<noteq> [] then Inl BadUnlock
           else bindR (release h cur) (\<lambda>h'. destroy_list_rwlock fuel (lnext n) h')))"

lemma copies_same:
  "random_string_spin = random_string" "random_string_rwlock = random_string"
  "destroy_list_spin fuel p h = destroy_list fuel p h" "destroy_list_rwlock fuel p h = destroy_list fuel p h"
proof -
  show "random_string_spin = random_string" "random_string_rwlock = random_string"
    by (simp_all add: fun_eq_iff random_string_spin_def random_string_rwlock_def random_string_def)
  show "destroy_list_spin fuel p h = destroy_list fuel p h"
  proof (induction fuel arbitrary: p h)
    case (Suc fuel)
    then have same: "destroy_list_spin fuel = destroy_list fuel" by (simp add: fun_eq_iff)
    show ?case unfolding destroy_list_spin.simps destroy_list.simps same ..
  qed simp
  show "destroy_list_rwlock fuel p h = destroy_list fuel p h"
  proof (induction fuel arbitrary: p h)
    case (Suc fuel)
    then have same: "destroy_list_rwlock fuel = destroy_list fuel" by (simp add: fun_eq_iff)
    show ?case unfolding destroy_list_rwlock.simps destroy_list.simps same ..
  qed simp
qed

section \<open>What it prints\<close>

definition grown :: "lsys \<Rightarrow> lsys \<Rightarrow> bool" where
  "grown s s' \<longleftrightarrow> (\<forall>w. l_iters s w \<le> l_iters s' w) \<and> (\<forall>i. l_swaps s i \<le> l_swaps s' i)"

lemma grown_simps [simp]:
  "grown s s" "grown s (put_thread t th s') = grown s s'" "grown s (s'\<lparr>l_heap := h\<rparr>) = grown s s'"
  "grown s (s'\<lparr>l_stop := b\<rparr>) = grown s s'"
  by (simp_all add: grown_def put_thread_def)

lemma grown_acquire [simp]: "okR (grown s) (acquire m p t th s)"
  by (simp add: acquire_def)

lemma grown_unlock [simp]: "okR (grown s) (unlock p t th s)"
  by (simp add: unlock_def)

lemma grown_set_next [simp]: "okR (grown s) (set_next p q t th s)"
  by (simp add: set_next_def)

lemma walk_step_grown: "okR (grown s) (walk_step var w t s)"
proof (cases "t_pc (l_thread s t) = R_Count")
  case True
  then show ?thesis by (simp add: walk_step_def Let_def) (simp add: grown_def)
next
  case False
  then show ?thesis by (simp add: walk_step_def Let_def split: lpc.split)
qed

lemma swap_step_grown: "okR (grown s) (swap_step var i lucky t s)"
proof (cases "t_pc (l_thread s t) = S_Success")
  case True
  then show ?thesis by (simp add: swap_step_def Let_def) (simp add: grown_def)
next
  case False
  then show ?thesis by (simp add: swap_step_def Let_def split: lpc.split)
qed

lemma list_step_grown: "list_step var ev s = Inr s' \<Longrightarrow> grown s s'"
proof -
  have "okR (grown s) (list_step var ev s)"
    by (cases ev) (auto simp: list_step_def walk_step_grown swap_step_grown split: thread_kind.split)
  then show "list_step var ev s = Inr s' \<Longrightarrow> grown s s'" by (rule okRD)
qed

abbreviation below :: "int list \<Rightarrow> int list \<Rightarrow> bool" where
  "below \<equiv> list_all2 (\<le>)"

lemma below_counters: "grown s s' \<Longrightarrow> below (counters s) (counters s')"
  by (simp add: grown_def counters_def)

lemma below_trans: "below xs ys \<Longrightarrow> below ys zs \<Longrightarrow> below xs zs"
  by (rule list_all2_trans [of "(\<le>)" "(\<le>)" "(\<le>)"]) auto

lemma below_take: "below xs ys \<Longrightarrow> below (take k xs) (take k ys)"
  by (rule list_all2_takeI)

text \<open>The values read so far lie between those of the lines printed and the counters.\<close>

definition monitor_inv :: "lsys \<times> monitor \<Rightarrow> bool" where
  "monitor_inv = (\<lambda>(s, m). let k = length (m_vals m) in k \<le> 6 \<and> below (m_vals m) (take k (counters s)) \<and>
     (\<forall>l \<in> set (m_lines m). below l (counters s) \<and> (m_reading m \<longrightarrow> below (take k l) (m_vals m))) \<and> sorted_wrt below (m_lines m))"

lemma length_counters [simp]: "length (counters s) = 6"
  by (simp add: counters_def)

lemma monitor_inv_threads: "monitor_inv (s, m) \<Longrightarrow> grown s s' \<Longrightarrow> monitor_inv (s', m)"
  using below_counters [of s s'] by (auto simp: monitor_inv_def Let_def intro: below_trans below_take)

lemma monitor_inv_read:
  assumes "below l (counters s)" "below (take k l) vs" "k = length vs" "k < 6"
  shows "below (take (Suc k) l) (vs @ [counters s ! k])"
proof -
  have len: "length l = 6" using list_all2_lengthD [OF assms(1)] by simp
  then have "take (Suc k) l = take k l @ [l ! k]" using assms(4) by (simp add: take_Suc_conv_app_nth)
  moreover have "l ! k \<le> counters s ! k" using list_all2_nthD [OF assms(1)] len assms(4) by simp
  ultimately show ?thesis using assms(2) by (simp add: list_all2_appendI)
qed

lemma monitor_inv_monitor:
  assumes "monitor_inv (s, m)"
  shows "monitor_inv (s, monitor_mutex s m)"
proof -
  have inv: "length (m_vals m) \<le> 6" "below (m_vals m) (take (length (m_vals m)) (counters s))"
    "\<forall>l \<in> set (m_lines m). below l (counters s) \<and> (m_reading m \<longrightarrow> below (take (length (m_vals m)) l) (m_vals m))"
    "sorted_wrt below (m_lines m)" using assms by (simp_all add: monitor_inv_def Let_def)
  have len: "length l = 6" if "l \<in> set (m_lines m)" for l
    using inv(3) that list_all2_lengthD [of "(\<le>)" l "counters s"] by simp
  consider (read) "\<not> m_ended m" "m_reading m" "length (m_vals m) < 6" | (print) "\<not> m_ended m" "m_reading m" "\<not> length (m_vals m) < 6"
    | (other) "m_ended m \<or> \<not> m_reading m" by blast
  then show ?thesis
  proof cases
    case read
    let ?k = "length (m_vals m)"
    have "below (m_vals m @ [counters s ! ?k]) (take (Suc ?k) (counters s))"
      using inv(2) read by (simp add: take_Suc_conv_app_nth list_all2_appendI)
    moreover have "below (take (Suc ?k) l) (m_vals m @ [counters s ! ?k])" if "l \<in> set (m_lines m)" for l
      using monitor_inv_read [of l s ?k "m_vals m"] inv(3) that read by simp
    ultimately show ?thesis using read inv(3,4) by (simp add: monitor_mutex_def monitor_inv_def Let_def)
  next
    case print
    then have "length (m_vals m) = 6" using inv(1) by simp
    then show ?thesis using print inv len by (simp add: monitor_mutex_def monitor_inv_def Let_def sorted_wrt_append)
  next
    case other
    then show ?thesis using inv by (auto simp: monitor_mutex_def monitor_inv_def Let_def)
  qed
qed

interpretation monitoring: transition_system "\<lambda>(s, m). list_start var s \<and> m = monitor_start" "monitored var" monitor_inv for var
proof
  show "monitor_inv c" if "case c of (s, m) \<Rightarrow> list_start var s \<and> m = monitor_start" for c
    using that by (auto simp: monitor_inv_def monitor_start_def)
  show "monitor_inv d" if inv: "monitor_inv c" and step: "monitored var c d" for c d
    using step
  proof cases
    case (threads ev s s' m)
    with inv monitor_inv_threads list_step_grown show ?thesis by blast
  next
    case (monitor s m)
    with inv monitor_inv_monitor show ?thesis
      by (auto simp: monitor_thread_def monitor_spin_def monitor_rwlock_def fun_eq_iff split: list_variant.split)
  qed
qed

text \<open>
  The lines of the monitor, of which each is read while the threads go on, never decrease in any column, and are never above the
  counters of the moment.
\<close>

theorem monitor_lines_increase:
  assumes "reachable (\<lambda>(s, m). list_start var s \<and> m = monitor_start) (monitored var) (s, m)"
  shows "sorted_wrt below (m_lines m) \<and> (\<forall>l \<in> set (m_lines m). below l (counters s))"
  using monitoring.reachable_inv [OF assms] by (simp add: monitor_inv_def Let_def)

end
