(* ===== verification/Heap_Main.thy ===== *)
theory Heap_Main
  imports Heap
begin

text \<open>
  \<open>main\<close> and \<open>print\<close> of \<open>sem1/lab4/task4_3/my_heap.c\<close>, over the allocator of theory \<open>Heap\<close>. Which bytes a header
  has is the argument \<open>view\<close>, which shows a heap as bytes; the strings that are stored fit their blocks.
\<close>

section \<open>The program\<close>

text \<open>Calls that may not return, and may fail.\<close>

definition and_then :: "'a result option \<Rightarrow> ('a \<Rightarrow> 'b result option) \<Rightarrow> 'b result option" where
  "and_then m f = (case m of None \<Rightarrow> None | Some (Inl e) \<Rightarrow> Some (Inl e) | Some (Inr x) \<Rightarrow> f x)"

lemma and_then_simps [simp]: "and_then (Some (Inr x)) f = f x" "and_then (Some (Inl e)) f = Some (Inl e)" "and_then None f = None"
  by (simp_all add: and_then_def)

text \<open>\<open>print\<close> shows \<open>n\<close> bytes from \<open>p\<close> on, sixteen in a line.\<close>

function print :: "(addr \<Rightarrow> 8 word) \<Rightarrow> addr \<Rightarrow> nat \<Rightarrow> 8 word list list" where
  "print view p n = (if n = 0 then [] else map view [p..<p + min 16 n] # print view (p + 16) (n - 16))"
  by pat_completeness auto
termination by (relation "measure (\<lambda>(view, p, n). n)") auto

declare print.simps [simp del]

record heap_run =
  ptrs :: "ptr list"
  hexdump :: "8 word list list"
  final :: my_heap

text \<open>\<open>base\<close> is what \<open>mmap\<close> returns. The header read for \<open>print\<close> is that of \<open>ptr1\<close>, which may not be \<open>NULL\<close>.\<close>

definition heap_main :: "(my_heap \<Rightarrow> addr \<Rightarrow> 8 word) \<Rightarrow> ptr \<Rightarrow> my_heap \<Rightarrow> heap_run result option" where
  "heap_main view base s =
     and_then (Some (initialize base s)) (\<lambda>s.
     and_then (myMalloc 1000 s) (\<lambda>(s, ptr1).
     and_then (myMalloc 2000 s) (\<lambda>(s, ptr2).
     and_then (myMalloc HEAP s) (\<lambda>(s, ptr3).
     and_then (myFree ptr1 s) (\<lambda>s.
     and_then (Some (case ptr1 of None \<Rightarrow> Inl NullDeref | Some a \<Rightarrow> load (blocks s) (Some (a - unat sizeof_block)))) (\<lambda>b.
     let dump = print (view s) (the (heap s)) (unat (b_size b)) in
     and_then (myFree ptr2 s) (\<lambda>s.
     and_then (myMalloc 40000 s) (\<lambda>(s, ptr4).
     and_then (myMalloc 50000 s) (\<lambda>(s, ptr5).
     Some (Inr \<lparr>ptrs = [ptr1, ptr2, ptr3, ptr4, ptr5], hexdump = dump, final = s\<rparr>))))))))))"

lemma print_bytes: "concat (print view p n) = map view [p..<p + n]"
proof (induction n arbitrary: p rule: less_induct)
  case (less n)
  show ?case
  proof (cases "n = 0")
    case False
    have "map view [p..<p + n] = map view [p..<p + min 16 n] @ map view [p + min 16 n..<p + n]"
      using upt_add_eq_append [of p "p + min 16 n" "n - min 16 n"] by simp
    moreover have "map view [p + min 16 n..<p + n] = map view [p + 16..<p + 16 + (n - 16)]"
      by (cases "n \<le> 16") (simp_all add: min_def)
    moreover have "concat (print view (p + 16) (n - 16)) = map view [p + 16..<p + 16 + (n - 16)]"
      using less.IH [of "n - 16"] False by simp
    ultimately show ?thesis using False by (subst print.simps) simp
  qed (simp add: print.simps)
qed

section \<open>What it does\<close>

lemmas heap_eval = myMalloc_def myFree_def malloc_loop_simps mergeBlocks_simps take_block_def sizeof_block_def HEAP_def initialize_def Let_def

text \<open>
  The demonstration: the first two blocks lie one behind the other, a block as large as the whole heap is refused,
  and when both are free again and have grown together with the rest, the next two blocks take their place: the fourth
  pointer is the first one. The bytes shown are those of the first block, from its header on.
\<close>

theorem heap_main_reuses:
  "\<exists>r. heap_main view (Some a) s = Some (Inr r) \<and>
     ptrs r = [Some (a + 24), Some (a + 1048), None, Some (a + 24), Some (a + 40048)] \<and>
     (\<exists>t. concat (hexdump r) = map (view t) [a..<a + 1000])"
  by (simp add: heap_main_def heap_eval print_bytes) blast

end
