(* ===== verification/U_Program.thy ===== *)
theory U_Program
  imports U_Thread
begin

text \<open>
  \<open>main.c\<close> of \<open>task1_7\<close>: three user threads that print and sleep, and a main thread that calls the scheduler
  until they have finished. The state holds, beside the manager, whose context runs: the thread that \<open>cur\<close>
  names, or the main thread, which runs also when a thread has ended, while \<open>cur\<close> still names that thread.
  Each round of a thread and each round of \<open>main\<close>'s loop is a step; the clock is an argument.
\<close>

section \<open>The program\<close>

record uprog =
  mgr :: u_thread_manager
  runs :: addr
  my_threads :: "ptr list"
  rounds :: "addr \<Rightarrow> nat"
  said :: "(nat \<times> nat) list"
  returned :: bool

text \<open>A thread that could not be created leaves its entry of \<open>my_threads\<close> uninitialised, which \<open>NULL\<close> stands for.\<close>

fun create_threads :: "(bool \<times> ptr) list \<Rightarrow> int \<Rightarrow> u_thread_manager \<Rightarrow> (ptr list \<times> u_thread_manager) result" where
  "create_threads [] i m = Inr ([], m)"
| "create_threads ((stack, thr) # ps) i m =
     bindR (u_thread_create stack thr i m) (\<lambda>(err, i, m).
     bindR (create_threads ps i m) (\<lambda>(qs, m). Inr ((if err = -1 then None else thr) # qs, m)))"

definition uprog_init :: "ptr \<Rightarrow> int \<Rightarrow> (bool \<times> ptr) list \<Rightarrow> uprog result" where
  "uprog_init mt g ps =
     bindR (init_thread mt g) (\<lambda>m.
     bindR (create_threads ps 0 m) (\<lambda>(qs, m).
     Inr \<lparr>mgr = m, runs = mgr_head m, my_threads = qs, rounds = (\<lambda>_. 0), said = [], returned = False\<rparr>))"

text \<open>What \<open>swapcontext\<close> does: if \<open>cur\<close> has changed, the context of the new one goes on.\<close>

definition switched :: "addr \<Rightarrow> u_thread_manager \<Rightarrow> uprog \<Rightarrow> uprog" where
  "switched old m s = s\<lparr>mgr := m, runs := (if mgr_cur m = old then runs s else mgr_cur m)\<rparr>"

text \<open>The thread functions differ in their number and in how long they sleep. After the loop \<open>u_thread_startup\<close> ends the thread.\<close>

definition thread_round :: "nat \<Rightarrow> int \<Rightarrow> int \<Rightarrow> int \<Rightarrow> uprog \<Rightarrow> uprog result option" where
  "thread_round k usec t t' s = (let a = runs s; i = rounds s a in
     if i < 5 then
       map_option (\<lambda>r. bindR r (\<lambda>m. Inr (switched (mgr_cur (mgr s)) m
           (s\<lparr>said := said s @ [(k, i)], rounds := (rounds s)(a := i + 1)\<rparr>))))
         (u_thread_usleep usec t t' (mgr s))
     else Some (bindR (u_thread_finish (mgr s)) (\<lambda>m. Inr (s\<lparr>mgr := m, runs := mgr_head m\<rparr>))))"

definition thread1 :: "int \<Rightarrow> int \<Rightarrow> uprog \<Rightarrow> uprog result option" where
  "thread1 = thread_round 1 1000000"

definition thread2 :: "int \<Rightarrow> int \<Rightarrow> uprog \<Rightarrow> uprog result option" where
  "thread2 = thread_round 2 2000000"

definition thread3 :: "int \<Rightarrow> int \<Rightarrow> uprog \<Rightarrow> uprog result option" where
  "thread3 = thread_round 3 500000"

fun finished_count :: "ptr list \<Rightarrow> u_thread_manager \<Rightarrow> nat result" where
  "finished_count [] m = Inr 0"
| "finished_count (p # ps) m = (case p of None \<Rightarrow> Inl NullDeref
     | Some a \<Rightarrow> bindR (thread_is_finished a m) (\<lambda>b. bindR (finished_count ps m) (\<lambda>n. Inr (if b then n + 1 else n))))"

definition main_round :: "int \<Rightarrow> uprog \<Rightarrow> uprog result option" where
  "main_round t s = (case finished_count (my_threads s) (mgr s) of
       Inl e \<Rightarrow> Some (Inl e)
     | Inr count \<Rightarrow>
         if count = 3 then Some (Inr (s\<lparr>returned := True\<rparr>))
         else map_option (\<lambda>r. bindR r (\<lambda>m. Inr (switched (mgr_cur (mgr s)) m s))) (u_thread_scheduler t (mgr s)))"

text \<open>The context that runs goes on; \<open>t\<close> and \<open>t'\<close> are what the clock shows.\<close>

definition run_current :: "int \<Rightarrow> int \<Rightarrow> uprog \<Rightarrow> uprog result option" where
  "run_current t t' s =
     (if runs s = mgr_head (mgr s) then main_round t' s
      else if my_threads s ! 0 = Some (runs s) then thread1 t t' s
      else if my_threads s ! 1 = Some (runs s) then thread2 t t' s
      else thread3 t t' s)"

inductive uprog_step :: "int \<Rightarrow> uprog \<Rightarrow> uprog \<Rightarrow> bool" for g :: int where
  go: "\<not> returned s \<Longrightarrow> g \<le> t' \<Longrightarrow> run_current t t' s = Some (Inr s') \<Longrightarrow> uprog_step g s s'"

definition uprog_start :: "int \<Rightarrow> uprog \<Rightarrow> bool" where
  "uprog_start g s \<longleftrightarrow> (\<exists>mt a b c. distinct [mt, a, b, c] \<and>
     uprog_init (Some mt) g [(True, Some a), (True, Some b), (True, Some c)] = Inr s)"

section \<open>What the calls do to the program's state\<close>

text \<open>A manager as the program sees it: the same threads, the same marks, and the same main thread.\<close>

definition same_marks :: "u_thread_manager \<Rightarrow> u_thread_manager \<Rightarrow> bool" where
  "same_marks m m' \<longleftrightarrow> mgr_head m' = mgr_head m \<and> dom (threads m') = dom (threads m) \<and>
     is_finished (threads m') = is_finished (threads m)"

definition mgr_ok :: "int \<Rightarrow> u_thread_manager \<Rightarrow> bool" where
  "mgr_ok g m \<longleftrightarrow> (\<exists>xs. ring (threads m) xs \<and> ring_ok g m (set xs))"

lemma attr_dom: "attr h' = attr h \<Longrightarrow> dom h' = dom h"
proof -
  have "dom h = {x. attr h x \<noteq> None}" for h by (auto simp: attr_def)
  then show "attr h' = attr h \<Longrightarrow> dom h' = dom h" by simp
qed

lemma head_unique:
  assumes "ring_ok g m X" "ring_ok g m' Y" "attr (threads m') = attr (threads m)"
  shows "mgr_head m' = mgr_head m"
proof -
  have "attr (threads m) (mgr_head m') = Some (0, False, g)" using assms(2,3) by (simp add: ring_ok_def)
  then show ?thesis using assms(1) unfolding ring_ok_def by (metis less_irrefl)
qed

lemma scheduler_marks:
  assumes "mgr_ok g m" "g \<le> t"
  obtains m' where "u_thread_scheduler t m = Some (Inr m')" "mgr_ok g m'" "same_marks m m'"
    "\<not> is_finished (threads m') (mgr_cur m') \<or> mgr_cur m' = mgr_cur m" "attr (threads m') = attr (threads m)"
proof -
  obtain xs where xs: "ring (threads m) xs" "ring_ok g m (set xs)" using assms(1) by (auto simp: mgr_ok_def)
  from xs assms(2) obtain m' ys where m': "u_thread_scheduler t m = Some (Inr m')" "ring (threads m') ys" "ring_ok g m' (set ys)"
    "attr (threads m') = attr (threads m)" "runnable t (threads m') (mgr_cur m') \<or> mgr_cur m' = mgr_cur m"
    by (rule scheduler_step)
  have "same_marks m m'"
    using attr_determines [OF m'(4)] attr_dom [OF m'(4)] head_unique [OF xs(2) m'(3,4)] by (simp add: same_marks_def)
  moreover have "\<not> is_finished (threads m') (mgr_cur m') \<or> mgr_cur m' = mgr_cur m"
    using m'(5) by (auto simp: runnable_def is_finished_def split: option.splits)
  moreover have "mgr_ok g m'" using m'(2,3) by (auto simp: mgr_ok_def)
  ultimately show thesis using that m'(1,4) by blast
qed

lemma marked_ok:
  assumes ok: "mgr_ok g m" and ne: "mgr_cur m \<noteq> mgr_head m" and n: "threads m (mgr_cur m) = Some n"
    and same: "u_next n' = u_next n" "u_prev n' = u_prev n" "u_thread_id n' = u_thread_id n"
  shows "mgr_ok g (m\<lparr>threads := (threads m)(mgr_cur m \<mapsto> n')\<rparr>)"
proof -
  obtain xs where xs: "ring (threads m) xs" "ring_ok g m (set xs)" using ok by (auto simp: mgr_ok_def)
  from mark_step [OF xs ne n same] show ?thesis unfolding mgr_ok_def by (intro exI [of _ xs]) simp
qed

lemma cur_alloc: "mgr_ok g m \<Longrightarrow> \<exists>n. threads m (mgr_cur m) = Some n"
  by (auto simp: mgr_ok_def ring_ok_def dest: ring_alloc)

lemma usleep_marks:
  assumes ok: "mgr_ok g m" and t: "g \<le> t'" and ne: "mgr_cur m \<noteq> mgr_head m"
  obtains m' where "u_thread_usleep usec t t' m = Some (Inr m')" "mgr_ok g m'" "same_marks m m'"
    "\<not> is_finished (threads m') (mgr_cur m') \<or> mgr_cur m' = mgr_cur m"
proof -
  obtain n where n: "threads m (mgr_cur m) = Some n" using cur_alloc [OF ok] by blast
  have "attr (threads m) (mgr_cur m) = Some (u_thread_id n, finished n, sleep_until_us n)" using n by (simp add: attr_def)
  then have "0 < u_thread_id n" using ok ne unfolding mgr_ok_def ring_ok_def by blast
  define m1 where "m1 = m\<lparr>threads := (threads m)(mgr_cur m \<mapsto> n\<lparr>sleep_until_us := t + usec\<rparr>)\<rparr>"
  have m1: "mgr_ok g m1" unfolding m1_def by (rule marked_ok [OF ok ne n]) simp_all
  have "same_marks m m1" using n by (auto simp: same_marks_def m1_def is_finished_def fun_eq_iff)
  moreover have "u_thread_usleep usec t t' m = u_thread_scheduler t' m1"
    using n \<open>0 < u_thread_id n\<close> by (simp add: u_thread_usleep_def m1_def)
  moreover have "mgr_cur m1 = mgr_cur m" by (simp add: m1_def)
  ultimately show thesis using scheduler_marks [OF m1 t] that unfolding same_marks_def by metis
qed

lemma finish_marks:
  assumes ok: "mgr_ok g m" and ne: "mgr_cur m \<noteq> mgr_head m"
  obtains m' where "u_thread_finish m = Inr m'" "mgr_ok g m'" "mgr_head m' = mgr_head m" "mgr_cur m' = mgr_cur m"
    "dom (threads m') = dom (threads m)" "is_finished (threads m') = (is_finished (threads m))(mgr_cur m := True)"
proof -
  obtain n where n: "threads m (mgr_cur m) = Some n" using cur_alloc [OF ok] by blast
  let ?m = "m\<lparr>threads := (threads m)(mgr_cur m \<mapsto> n\<lparr>finished := True\<rparr>)\<rparr>"
  have "mgr_ok g ?m" by (rule marked_ok [OF ok ne n]) simp_all
  moreover have "u_thread_finish m = Inr ?m" using n by (simp add: u_thread_finish_def)
  moreover have "is_finished (threads ?m) = (is_finished (threads m))(mgr_cur m := True)"
    by (auto simp: is_finished_def fun_eq_iff)
  moreover have "dom (threads ?m) = dom (threads m)" using n by auto
  ultimately show thesis using that [of ?m] by simp
qed

section \<open>The invariant\<close>

text \<open>The rounds of the thread \<open>k\<close> at address \<open>a\<close>: what it has printed, and that it ends after five.\<close>

definition rounds_ok :: "uprog \<Rightarrow> nat \<Rightarrow> addr \<Rightarrow> bool" where
  "rounds_ok s k a \<longleftrightarrow> rounds s a \<le> 5 \<and> (is_finished (threads (mgr s)) a \<longrightarrow> rounds s a = 5) \<and>
     map snd (filter (\<lambda>l. fst l = k) (said s)) = [0..<rounds s a]"

definition control_ok :: "uprog \<Rightarrow> bool" where
  "control_ok s \<longleftrightarrow> (if runs s = mgr_head (mgr s)
     then mgr_cur (mgr s) = mgr_head (mgr s) \<or> is_finished (threads (mgr s)) (mgr_cur (mgr s))
     else runs s = mgr_cur (mgr s) \<and> \<not> is_finished (threads (mgr s)) (runs s))"

definition three_ok :: "addr \<Rightarrow> addr \<Rightarrow> addr \<Rightarrow> uprog \<Rightarrow> bool" where
  "three_ok a b c s \<longleftrightarrow> my_threads s = [Some a, Some b, Some c] \<and> distinct [mgr_head (mgr s), a, b, c] \<and>
     dom (threads (mgr s)) = {mgr_head (mgr s), a, b, c} \<and>
     rounds_ok s 1 a \<and> rounds_ok s 2 b \<and> rounds_ok s 3 c \<and>
     (returned s \<longrightarrow> is_finished (threads (mgr s)) a \<and> is_finished (threads (mgr s)) b \<and> is_finished (threads (mgr s)) c)"

definition uprog_inv :: "int \<Rightarrow> uprog \<Rightarrow> bool" where
  "uprog_inv g s \<longleftrightarrow> mgr_ok g (mgr s) \<and> control_ok s \<and> (\<exists>a b c. three_ok a b c s)"

lemma head_not_finished: "mgr_ok g m \<Longrightarrow> \<not> is_finished (threads m) (mgr_head m)"
  by (auto simp: mgr_ok_def ring_ok_def attr_def is_finished_def split: option.splits)

lemma finished_count_three:
  assumes "dom (threads m) = {h, a, b, c}"
  shows "finished_count [Some a, Some b, Some c] m =
    Inr (length (filter (is_finished (threads m)) [a, b, c]))"
proof -
  have "thread_is_finished x m = Inr (is_finished (threads m) x)" if "x \<in> {a, b, c}" for x
    using that assms by (cases "threads m x") (auto simp: thread_is_finished_def is_finished_def)
  then show ?thesis by simp
qed

lemma control_switched:
  assumes "control_ok s" "same_marks (mgr s) m" "\<not> is_finished (threads (mgr s)) (mgr_head (mgr s))"
    and "\<not> is_finished (threads m) (mgr_cur m) \<or> mgr_cur m = mgr_cur (mgr s)"
  shows "control_ok (switched (mgr_cur (mgr s)) m s)"
  using assms by (auto simp: control_ok_def switched_def same_marks_def)

lemma three_marks:
  assumes "three_ok a b c s" "same_marks (mgr s) m"
  shows "three_ok a b c (switched old m s)"
  using assms by (simp add: three_ok_def switched_def same_marks_def rounds_ok_def)

lemma main_round_inv:
  assumes inv: "uprog_inv g s" and t: "g \<le> t" and here: "\<not> returned s"
  shows "\<exists>s'. main_round t s = Some (Inr s') \<and> uprog_inv g s'"
proof -
  obtain a b c where three: "three_ok a b c s" and ok: "mgr_ok g (mgr s)" and ctl: "control_ok s"
    using inv by (auto simp: uprog_inv_def)
  have count: "finished_count (my_threads s) (mgr s) = Inr (length (filter (is_finished (threads (mgr s))) [a, b, c]))"
    using three finished_count_three by (simp add: three_ok_def)
  show ?thesis
  proof (cases "length (filter (is_finished (threads (mgr s))) [a, b, c]) = 3")
    case True
    then have fin: "is_finished (threads (mgr s)) a" "is_finished (threads (mgr s)) b" "is_finished (threads (mgr s)) c"
      by (auto split: if_splits)
    have "three_ok a b c (s\<lparr>returned := True\<rparr>)" using three fin by (simp add: three_ok_def rounds_ok_def)
    moreover have "control_ok (s\<lparr>returned := True\<rparr>)" using ctl by (simp add: control_ok_def)
    moreover have "main_round t s = Some (Inr (s\<lparr>returned := True\<rparr>))"
      unfolding main_round_def count using True by simp
    ultimately show ?thesis using ok by (auto simp: uprog_inv_def)
  next
    case False
    obtain m where m: "u_thread_scheduler t (mgr s) = Some (Inr m)" "mgr_ok g m" "same_marks (mgr s) m"
      "\<not> is_finished (threads m) (mgr_cur m) \<or> mgr_cur m = mgr_cur (mgr s)"
      using scheduler_marks [OF ok t] by blast
    let ?s = "switched (mgr_cur (mgr s)) m s"
    have "main_round t s = Some (Inr ?s)" unfolding main_round_def count using False m(1) by simp
    moreover have "control_ok ?s" using control_switched [OF ctl m(3) head_not_finished [OF ok] m(4)] .
    moreover have "three_ok a b c ?s" using three_marks [OF three m(3)] .
    moreover have "mgr_ok g (mgr ?s)" using m(2) by (simp add: switched_def)
    ultimately show ?thesis unfolding uprog_inv_def by blast
  qed
qed

text \<open>What one round of the thread \<open>k\<close> at the address \<open>a\<close> does: it counts and prints, or it ends the thread.\<close>

definition round_of :: "nat \<Rightarrow> addr \<Rightarrow> uprog \<Rightarrow> uprog \<Rightarrow> bool" where
  "round_of k a s s' \<longleftrightarrow> rounds_ok s' k a \<and>
    mgr_head (mgr s') = mgr_head (mgr s) \<and> dom (threads (mgr s')) = dom (threads (mgr s)) \<and> my_threads s' = my_threads s \<and>
    returned s' = returned s \<and>
    (\<forall>x. x \<noteq> a \<longrightarrow> rounds s' x = rounds s x \<and> is_finished (threads (mgr s')) x = is_finished (threads (mgr s)) x) \<and>
    (\<forall>j. j \<noteq> k \<longrightarrow> filter (\<lambda>l. fst l = j) (said s') = filter (\<lambda>l. fst l = j) (said s)) \<and>
    \<not> is_finished (threads (mgr s)) a \<and>
    (if rounds s a < 5 then rounds s' a = rounds s a + 1 \<and> \<not> is_finished (threads (mgr s')) a
     else rounds s' a = rounds s a \<and> is_finished (threads (mgr s')) a)"

lemma thread_round_inv:
  assumes ok: "mgr_ok g (mgr s)" and ctl: "control_ok s" and t: "g \<le> t'" and ne: "runs s \<noteq> mgr_head (mgr s)"
    and r: "rounds_ok s k (runs s)"
  shows "\<exists>s'. thread_round k usec t t' s = Some (Inr s') \<and> mgr_ok g (mgr s') \<and> control_ok s' \<and> round_of k (runs s) s s'"
proof -
  have cur: "mgr_cur (mgr s) = runs s" "\<not> is_finished (threads (mgr s)) (runs s)" using ctl ne by (auto simp: control_ok_def)
  show ?thesis
  proof (cases "rounds s (runs s) < 5")
    case True
    obtain m where m: "u_thread_usleep usec t t' (mgr s) = Some (Inr m)" "mgr_ok g m" "same_marks (mgr s) m"
      "\<not> is_finished (threads m) (mgr_cur m) \<or> mgr_cur m = mgr_cur (mgr s)"
      using usleep_marks [OF ok t] ne cur(1) by metis
    let ?s = "s\<lparr>said := said s @ [(k, rounds s (runs s))], rounds := (rounds s)(runs s := rounds s (runs s) + 1)\<rparr>"
    let ?s' = "switched (mgr_cur (mgr s)) m ?s"
    have "thread_round k usec t t' s = Some (Inr ?s')"
      using True m(1) by (simp add: thread_round_def Let_def)
    moreover have "control_ok ?s'"
      using control_switched [of ?s m] ctl m(3,4) head_not_finished [OF ok] by (simp add: control_ok_def)
    moreover have "rounds_ok ?s' k (runs s)"
      using r True m(3) cur(2) by (simp add: rounds_ok_def switched_def same_marks_def)
    ultimately show ?thesis using m(2,3) True cur(2) by (intro exI [of _ ?s']) (auto simp: round_of_def switched_def same_marks_def)
  next
    case False
    have "mgr_cur (mgr s) \<noteq> mgr_head (mgr s)" using ne cur(1) by simp
    from finish_marks [OF ok this] obtain m where m: "u_thread_finish (mgr s) = Inr m" "mgr_ok g m"
      "mgr_head m = mgr_head (mgr s)" "mgr_cur m = mgr_cur (mgr s)" "dom (threads m) = dom (threads (mgr s))"
      "is_finished (threads m) = (is_finished (threads (mgr s)))(mgr_cur (mgr s) := True)" by blast
    let ?s' = "s\<lparr>mgr := m, runs := mgr_head m\<rparr>"
    have "thread_round k usec t t' s = Some (Inr ?s')" using False m(1) by (simp add: thread_round_def Let_def)
    moreover have "control_ok ?s'" using m(4,6) by (simp add: control_ok_def)
    moreover have "rounds_ok ?s' k (runs s)" using r False by (auto simp: rounds_ok_def)
    ultimately show ?thesis using m(2-6) False cur by (intro exI [of _ ?s']) (simp add: round_of_def)
  qed
qed

lemma round_of_other: "round_of k a s s' \<Longrightarrow> rounds_ok s j x \<Longrightarrow> x \<noteq> a \<Longrightarrow> j \<noteq> k \<Longrightarrow> rounds_ok s' j x"
  by (simp add: round_of_def rounds_ok_def)

lemma round_of_three:
  assumes "three_ok a b c s" "round_of k x s s'" "\<not> returned s" "(k, x) \<in> {(1, a), (2, b), (3, c)}"
  shows "three_ok a b c s'"
proof -
  have "rounds_ok s 1 a" "rounds_ok s 2 b" "rounds_ok s 3 c" "distinct [a, b, c]" using assms(1) by (simp_all add: three_ok_def)
  moreover have "rounds_ok s' k x" using assms(2) by (simp add: round_of_def)
  ultimately have "rounds_ok s' 1 a \<and> rounds_ok s' 2 b \<and> rounds_ok s' 3 c"
    using assms(4) round_of_other [OF assms(2)] by auto
  then show ?thesis using assms(1-3) by (simp add: three_ok_def round_of_def)
qed

text \<open>The thread that runs, with its number.\<close>

lemma running_thread:
  assumes "three_ok a b c s" "control_ok s" "mgr_ok g (mgr s)" "runs s \<noteq> mgr_head (mgr s)"
  obtains k usec where "(k, runs s) \<in> {(1, a), (2, b), (3, c)}" "\<And>t t'. run_current t t' s = thread_round k usec t t' s"
    "rounds_ok s k (runs s)"
proof -
  have "runs s \<in> dom (threads (mgr s))" using assms(2-4) cur_alloc [OF assms(3)] by (auto simp: control_ok_def)
  then have "runs s \<in> {a, b, c}" using assms(1,4) by (auto simp: three_ok_def)
  then consider "runs s = a" | "runs s = b" "b \<noteq> a" | "runs s = c" "c \<noteq> a" "c \<noteq> b" by blast
  then show thesis
  proof cases
    case 1
    then show thesis using that [of 1 1000000] assms(1,4) by (simp add: three_ok_def run_current_def thread1_def)
  next
    case 2
    then show thesis using that [of 2 2000000] assms(1,4) by (simp add: three_ok_def run_current_def thread2_def)
  next
    case 3
    then show thesis using that [of 3 500000] assms(1,4) by (simp add: three_ok_def run_current_def thread3_def)
  qed
qed

lemma run_current_inv:
  assumes inv: "uprog_inv g s" and t: "g \<le> t'" and here: "\<not> returned s"
  shows "\<exists>s'. run_current t t' s = Some (Inr s') \<and> uprog_inv g s'"
proof (cases "runs s = mgr_head (mgr s)")
  case True
  then show ?thesis using main_round_inv [OF inv t here] by (simp add: run_current_def)
next
  case False
  obtain a b c where three: "three_ok a b c s" and ok: "mgr_ok g (mgr s)" and ctl: "control_ok s"
    using inv by (auto simp: uprog_inv_def)
  obtain k usec where k: "(k, runs s) \<in> {(1, a), (2, b), (3, c)}" "\<And>t t'. run_current t t' s = thread_round k usec t t' s"
    "rounds_ok s k (runs s)" using running_thread [OF three ctl ok False] by blast
  obtain s' where s': "thread_round k usec t t' s = Some (Inr s')" "mgr_ok g (mgr s')" "control_ok s'" "round_of k (runs s) s s'"
    using thread_round_inv [OF ok ctl t False k(3)] by blast
  from round_of_three [OF three s'(4) here k(1)] show ?thesis using s' k(2) unfolding uprog_inv_def by metis
qed

text \<open>The three threads are created one after the other.\<close>

lemma is_finished_upd: "is_finished (h(a \<mapsto> n)) x = (if x = a then finished n else is_finished h x)"
  by (simp add: is_finished_def)

lemma create_marks:
  assumes "mgr_ok g m" "threads m p = None" "0 \<le> i"
  obtains m' where "u_thread_create True (Some p) i m = Inr (0, i + 2, m')" "mgr_ok g m'" "mgr_head m' = mgr_head m"
    "mgr_cur m' = mgr_cur m" "dom (threads m') = insert p (dom (threads m))"
    "\<And>x. is_finished (threads m') x = (x \<noteq> p \<and> is_finished (threads m) x)"
proof -
  obtain xs where xs: "ring (threads m) xs" "ring_ok g m (set xs)" using assms(1) by (auto simp: mgr_ok_def)
  obtain m' ys where m': "u_thread_create True (Some p) i m = Inr (0, i + 2, m')" "ring (threads m') ys" "ring_ok g m' (set ys)"
    using create_step [OF xs assms(2,3)] by metis
  have "okR (\<lambda>(r, i', m'). mgr_head m' = mgr_head m \<and> mgr_cur m' = mgr_cur m \<and> dom (threads m') = insert p (dom (threads m)) \<and>
      (\<forall>x. is_finished (threads m') x = (x \<noteq> p \<and> is_finished (threads m) x))) (u_thread_create True (Some p) i m)"
    unfolding u_thread_create_def Let_def
    by (simp del: fun_upd_apply add: is_finished_upd) (auto simp: is_finished_def split: if_splits)
  then have same: "mgr_head m' = mgr_head m \<and> mgr_cur m' = mgr_cur m \<and> dom (threads m') = insert p (dom (threads m)) \<and>
      (\<forall>x. is_finished (threads m') x = (x \<noteq> p \<and> is_finished (threads m) x))"
    using m'(1) by simp
  show thesis using that m' same by (auto simp: mgr_ok_def)
qed

lemma uprog_inv_start:
  assumes "uprog_start g s"
  shows "uprog_inv g s"
proof -
  obtain mt a b c where d: "distinct [mt, a, b, c]"
    and init: "uprog_init (Some mt) g [(True, Some a), (True, Some b), (True, Some c)] = Inr s"
    using assms by (auto simp: uprog_start_def)
  obtain m0 where m0: "init_thread (Some mt) g = Inr m0" by (simp add: init_thread_def)
  then have start: "mgr_head m0 = mt" "mgr_cur m0 = mt" "dom (threads m0) = {mt}" "\<And>x. \<not> is_finished (threads m0) x"
    by (auto simp: init_thread_def is_finished_def split: if_splits option.splits)
  have "uthread_inv g (0, m0)" using m0 by (intro uthread_inv_start) (auto simp: uthread_start_def)
  then have ok0: "mgr_ok g m0" by (simp add: uthread_inv_def mgr_ok_def)
  have "threads m0 a = None" using d start(3) by (auto simp: dom_def)
  from create_marks [OF ok0 this, of 0] obtain m1 where m1: "u_thread_create True (Some a) 0 m0 = Inr (0, 2, m1)" "mgr_ok g m1"
    "mgr_head m1 = mt" "mgr_cur m1 = mt" "dom (threads m1) = {a, mt}" "\<And>x. \<not> is_finished (threads m1) x"
    using start by auto
  have "threads m1 b = None" using d m1(5) by (auto simp: dom_def)
  from create_marks [OF m1(2) this, of 2] obtain m2 where m2: "u_thread_create True (Some b) 2 m1 = Inr (0, 4, m2)" "mgr_ok g m2"
    "mgr_head m2 = mt" "mgr_cur m2 = mt" "dom (threads m2) = {b, a, mt}" "\<And>x. \<not> is_finished (threads m2) x"
    using m1 by auto
  have "threads m2 c = None" using d m2(5) by (auto simp: dom_def)
  from create_marks [OF m2(2) this, of 4] obtain m3 where m3: "u_thread_create True (Some c) 4 m2 = Inr (0, 6, m3)" "mgr_ok g m3"
    "mgr_head m3 = mt" "mgr_cur m3 = mt" "dom (threads m3) = {c, b, a, mt}" "\<And>x. \<not> is_finished (threads m3) x"
    using m2 by auto
  have s: "s = \<lparr>mgr = m3, runs = mgr_head m3, my_threads = [Some a, Some b, Some c], rounds = (\<lambda>_. 0), said = [], returned = False\<rparr>"
    using init m0 m1(1) m2(1) m3(1) by (simp add: uprog_init_def)
  have "three_ok a b c s" using d m3 by (auto simp: s three_ok_def rounds_ok_def)
  moreover have "control_ok s" using m3 by (simp add: s control_ok_def)
  ultimately show ?thesis using m3(2) by (auto simp: uprog_inv_def s)
qed

interpretation uprog: transition_system "uprog_start g" "uprog_step g" "uprog_inv g" for g
proof
  show "uprog_inv g s" if "uprog_start g s" for s using that by (rule uprog_inv_start)
  show "uprog_inv g t" if inv: "uprog_inv g s" and step: "uprog_step g s t" for s t
    using step
  proof cases
    case (go t' u)
    with run_current_inv [OF inv go(2,1), of u] show ?thesis by auto
  qed
qed

section \<open>The program returns\<close>

text \<open>At a time that no deadline exceeds the scheduler takes the next thread, or it unlinks one that has finished.\<close>

definition late :: "int \<Rightarrow> u_thread_manager \<Rightarrow> bool" where
  "late t m \<longleftrightarrow> (\<forall>x n. threads m x = Some n \<longrightarrow> sleep_until_us n \<le> t)"

lemma late_exists:
  assumes "finite (dom (threads m))"
  shows "\<exists>t. g \<le> t \<and> late t m"
proof -
  let ?D = "insert g ((\<lambda>x. sleep_until_us (the (threads m x))) ` dom (threads m))"
  have fin: "finite ?D" using assms by simp
  have "sleep_until_us n \<le> Max ?D" if "threads m x = Some n" for x n
  proof (rule Max_ge [OF fin])
    show "sleep_until_us n \<in> ?D" using that by (force intro: image_eqI [of _ _ x])
  qed
  moreover have "g \<le> Max ?D" using fin by (intro Max_ge) simp_all
  ultimately show ?thesis unfolding late_def by blast
qed

lemma unlink_shrinks:
  assumes r: "ring (threads m) (mgr_cur m # b # rest)" and k: "threads m b = Some k" "finished k" "b \<noteq> mgr_head m"
    and count: "mgr_count m = int (length (mgr_cur m # b # rest))" and head: "mgr_head m \<in> set (mgr_cur m # b # rest)"
    and run: "runnable t (threads m) (mgr_head m)"
  shows "\<exists>m'. u_thread_scheduler t m = Some (Inr m') \<and> mgr_count m' < mgr_count m"
proof -
  obtain m1 where m1: "unlink_thread b k m = Inr m1" "ring (threads m1) (mgr_cur m # rest)" "attr (threads m1) = attr (threads m)"
    "mgr_count m1 = int (length (mgr_cur m # rest))" "mgr_head m1 = mgr_head m" "mgr_cur m1 = mgr_cur m"
    "u_next k = Some (hd (rest @ [mgr_cur m]))"
    using unlink_thread_ring [OF r k(1) count] by auto
  obtain n where n: "threads m (mgr_cur m) = Some n" "u_next n = Some b"
    using ring_next [OF r] by (auto simp: nxt_def split: option.splits)
  obtain c zs where c: "rest @ [mgr_cur m] = c # zs" by (cases "rest @ [mgr_cur m]") auto
  have zs: "length zs = length rest" "set (c # zs) = insert (mgr_cur m) (set rest)"
    using arg_cong [OF c, of length] arg_cong [OF c, of set] by auto
  have step: "sched_loop t (Some (mgr_cur m)) m =
      (if c \<noteq> mgr_cur m then sched_loop t (Some c) m1 else Some (Inr (mgr_cur m, m1)))"
    using sched_loop_simps [OF n k(1), of t] k(2,3) m1(1,7) c by simp
  have "\<exists>c' m'. sched_loop t (Some (mgr_cur m)) m = Some (Inr (c', m')) \<and> mgr_count m' \<le> mgr_count m1"
  proof (cases "c = mgr_cur m")
    case False
    have "ring (threads m1) (c # zs)" using ring_rotate [OF m1(2)] c by simp
    moreover have "mgr_head m \<in> set (c # zs)" using head k(3) zs(2) by auto
    moreover have "runnable t (threads m1) (mgr_head m)" using run attr_determines [OF m1(3)] by simp
    ultimately obtain c' m' where loop: "sched_loop t (Some c) m1 = Some (Inr (c', m'))" "sched_post t m1 (set (c # zs)) c' m'"
      using sched_loop_returns [of "mgr_head m" c zs m1 t] m1(4,5) zs(1) by auto
    then obtain ys where ys: "ring (threads m') ys" "set ys \<subseteq> set (c # zs)" "mgr_count m' = int (length ys)"
      unfolding sched_post_def by blast
    have "length ys = card (set ys)" using ring_card [OF ys(1)] by simp
    also have "\<dots> \<le> card (set (c # zs))" by (rule card_mono [OF _ ys(2)]) simp
    also have "\<dots> \<le> length (c # zs)" by (rule card_length)
    finally have "mgr_count m' \<le> mgr_count m1" using ys(3) m1(4) zs(1) by simp
    then show ?thesis using step False loop(1) by auto
  qed (use step in simp)
  moreover have "mgr_count m1 < mgr_count m" using m1(4) count by simp
  ultimately show ?thesis by (fastforce simp: u_thread_scheduler_def)
qed

lemma scheduler_progress:
  assumes ok: "mgr_ok g m" and t: "g \<le> t" and late: "late t m"
  shows "\<exists>m'. u_thread_scheduler t m = Some (Inr m') \<and> (mgr_count m' < mgr_count m \<or>
    mgr_count m' = mgr_count m \<and> Some (mgr_cur m') = nxt (threads m) (mgr_cur m) \<and>
      (mgr_cur m' = mgr_head m \<or> \<not> is_finished (threads m) (mgr_cur m')))"
proof -
  obtain xs where xs: "ring (threads m) xs" "ring_ok g m (set xs)" using ok by (auto simp: mgr_ok_def)
  obtain rest where rot: "ring (threads m) (mgr_cur m # rest)" "set (mgr_cur m # rest) = set xs"
    "length (mgr_cur m # rest) = length xs"
    using ring_mem [OF xs(1), of "mgr_cur m"] xs(2) by (auto simp: ring_ok_def)
  define b where "b = hd (rest @ [mgr_cur m])"
  have nx: "nxt (threads m) (mgr_cur m) = Some b" using ring_next [OF rot(1)] by (simp add: b_def)
  then obtain n where n: "threads m (mgr_cur m) = Some n" "u_next n = Some b" by (auto simp: nxt_def split: option.splits)
  have "b \<in> set (mgr_cur m # rest)" by (cases rest) (simp_all add: b_def)
  then obtain k where k: "threads m b = Some k" using ring_alloc [OF rot(1)] by blast
  have count: "mgr_count m = int (length (mgr_cur m # rest))" "mgr_head m \<in> set (mgr_cur m # rest)"
    using xs ring_card rot by (auto simp: ring_ok_def)
  show ?thesis
  proof (cases "finished k \<and> b \<noteq> mgr_head m")
    case True
    have "rest \<noteq> []"
    proof
      assume "rest = []"
      then have "b = mgr_head m" using count(2) by (simp add: b_def)
      with True show False by simp
    qed
    then obtain rest' where "rest = b # rest'" by (cases rest) (simp_all add: b_def)
    then show ?thesis
      using unlink_shrinks [of m b rest' k t] rot(1) k True count ring_ok_runnable [OF xs(2) t] by auto
  next
    case False
    then have "\<not> finished k" using head_not_finished [OF ok] k by (auto simp: is_finished_def)
    moreover have "sleep_until_us k \<le> t" using late k by (simp add: late_def)
    ultimately have "sched_loop t (Some (mgr_cur m)) m = Some (Inr (b, m))"
      using sched_loop_simps [OF n k, of t] False by simp
    then have "u_thread_scheduler t m = Some (Inr (if b \<noteq> mgr_cur m then m\<lparr>mgr_cur := b\<rparr> else m))"
      by (simp add: u_thread_scheduler_def)
    then show ?thesis using nx \<open>\<not> finished k\<close> k by (auto simp: is_finished_def)
  qed
qed

text \<open>What the threads have left to do, then the length of the ring, then whose turn it is.\<close>

definition left :: "uprog \<Rightarrow> addr \<Rightarrow> nat" where
  "left s x = 5 - rounds s x + (if is_finished (threads (mgr s)) x then 0 else 1)"

definition work :: "uprog \<Rightarrow> nat" where
  "work s = sum_list (map (\<lambda>p. left s (the p)) (my_threads s))"

definition turn :: "uprog \<Rightarrow> nat" where
  "turn s = (if runs s \<noteq> mgr_head (mgr s) then 0 else if mgr_cur (mgr s) = mgr_head (mgr s) then 1 else 2)"

definition closer :: "uprog \<Rightarrow> uprog \<Rightarrow> bool" where
  "closer s' s \<longleftrightarrow> (s', s) \<in> measures [work, \<lambda>s. nat (mgr_count (mgr s)), turn]"

lemma round_closer:
  assumes "three_ok a b c s" "round_of k x s s'" "(k, x) \<in> {(1, a), (2, b), (3, c)}"
  shows "closer s' s"
proof -
  have "left s' x < left s x" "\<And>y. y \<noteq> x \<Longrightarrow> left s' y = left s y"
    using assms(2) by (auto simp: left_def round_of_def split: if_splits)
  moreover have "distinct [a, b, c]" "my_threads s = [Some a, Some b, Some c]" "my_threads s' = my_threads s"
    using assms(1,2) by (simp_all add: three_ok_def round_of_def)
  ultimately have "work s' < work s" using assms(3) by (auto simp: work_def)
  then show ?thesis by (simp add: closer_def)
qed

lemma ring_alone:
  assumes "ring h xs" "a \<in> set xs" "nxt h a = Some a"
  shows "set xs = {a}"
proof -
  obtain ys where ys: "ring h (a # ys)" "set (a # ys) = set xs" using ring_mem [OF assms(1,2)] by blast
  then have "hd (ys @ [a]) = a" using ring_next [OF ys(1)] assms(3) by simp
  then have "ys = []" using ys(1) by (cases ys) (auto simp: ring_def)
  with ys(2) show ?thesis by simp
qed

lemma main_round_closer:
  assumes inv: "uprog_inv g s" and here: "\<not> returned s" "runs s = mgr_head (mgr s)" and t: "g \<le> t" "late t (mgr s)"
  shows "\<exists>s'. main_round t s = Some (Inr s') \<and> (returned s' \<or> closer s' s)"
proof -
  obtain a b c where three: "three_ok a b c s" and ok: "mgr_ok g (mgr s)" and ctl: "control_ok s"
    using inv by (auto simp: uprog_inv_def)
  let ?f = "is_finished (threads (mgr s))"
  have count: "finished_count (my_threads s) (mgr s) = Inr (length (filter ?f [a, b, c]))"
    using three finished_count_three by (simp add: three_ok_def)
  show ?thesis
  proof (cases "?f a \<and> ?f b \<and> ?f c")
    case True
    then show ?thesis unfolding main_round_def count by simp
  next
    case False
    then obtain x where x: "\<not> ?f x" "x \<noteq> mgr_head (mgr s)" "x \<in> dom (threads (mgr s))" using three by (auto simp: three_ok_def)
    have "length (filter ?f [a, b, c]) \<noteq> 3" using False by auto
    obtain m where m: "u_thread_scheduler t (mgr s) = Some (Inr m)" and d: "mgr_count m < mgr_count (mgr s) \<or>
        mgr_count m = mgr_count (mgr s) \<and> Some (mgr_cur m) = nxt (threads (mgr s)) (mgr_cur (mgr s)) \<and>
        (mgr_cur m = mgr_head (mgr s) \<or> \<not> ?f (mgr_cur m))"
      using scheduler_progress [OF ok t] by blast
    have same: "same_marks (mgr s) m" "mgr_ok g m" using scheduler_marks [OF ok t(1)] m by auto
    let ?s = "switched (mgr_cur (mgr s)) m s"
    have run: "main_round t s = Some (Inr ?s)" unfolding main_round_def count using \<open>length _ \<noteq> 3\<close> m by simp
    have w: "work ?s = work s" using same(1) by (simp add: work_def left_def switched_def same_marks_def)
    have pos: "0 \<le> mgr_count m" using same(2) by (auto simp: mgr_ok_def ring_ok_def)
    have "closer ?s s"
    proof (cases "mgr_count m < mgr_count (mgr s)")
      case True
      then show ?thesis using w pos by (simp add: closer_def switched_def)
    next
      case False
      with d have c: "mgr_count m = mgr_count (mgr s)" "Some (mgr_cur m) = nxt (threads (mgr s)) (mgr_cur (mgr s))"
        "mgr_cur m = mgr_head (mgr s) \<or> \<not> ?f (mgr_cur m)" by blast+
      have moved: "mgr_cur m \<noteq> mgr_cur (mgr s)"
      proof
        assume eq: "mgr_cur m = mgr_cur (mgr s)"
        obtain xs where xs: "ring (threads (mgr s)) xs" "ring_ok g (mgr s) (set xs)" using ok by (auto simp: mgr_ok_def)
        then have "set xs = {mgr_cur (mgr s)}" using ring_alone c(2) eq by (metis ring_ok_def)
        moreover have "x \<in> set xs" using xs(2) x by (force simp: ring_ok_def attr_def is_finished_def)
        moreover have "mgr_head (mgr s) \<in> set xs" using xs(2) by (simp add: ring_ok_def)
        ultimately show False using x(2) by simp
      qed
      have "turn ?s < turn s"
        using ctl here(2) c(3) moved same(1) by (auto simp: turn_def switched_def control_ok_def same_marks_def)
      then show ?thesis using w c(1) by (simp add: closer_def switched_def)
    qed
    then show ?thesis using run by blast
  qed
qed

lemma uprog_advances:
  assumes inv: "uprog_inv g s" and here: "\<not> returned s"
  shows "\<exists>s'. uprog_step g s s' \<and> (returned s' \<or> closer s' s)"
proof -
  obtain a b c where three: "three_ok a b c s" and ok: "mgr_ok g (mgr s)" and ctl: "control_ok s"
    using inv by (auto simp: uprog_inv_def)
  have "finite (dom (threads (mgr s)))" using three by (simp add: three_ok_def)
  then obtain t where t: "g \<le> t" "late t (mgr s)" using late_exists by blast
  show ?thesis
  proof (cases "runs s = mgr_head (mgr s)")
    case True
    then have "run_current t t s = main_round t s" by (simp add: run_current_def)
    with main_round_closer [OF inv here True t] uprog_step.go [OF here t(1), of t] show ?thesis by metis
  next
    case False
    obtain k usec where k: "(k, runs s) \<in> {(1, a), (2, b), (3, c)}" "\<And>t t'. run_current t t' s = thread_round k usec t t' s"
      "rounds_ok s k (runs s)" using running_thread [OF three ctl ok False] by blast
    obtain s' where s': "thread_round k usec t t s = Some (Inr s')" "round_of k (runs s) s s'"
      using thread_round_inv [OF ok ctl t(1) False k(3)] by blast
    then have "uprog_step g s s'" using k(2) by (intro uprog_step.go [OF here t(1), of t]) simp
    with round_closer [OF three s'(2) k(1)] show ?thesis by blast
  qed
qed

lemma uprog_returns: "uprog_inv g s \<Longrightarrow> \<exists>t. (uprog_step g)\<^sup>*\<^sup>* s t \<and> returned t"
proof (induction s rule: wf_induct_rule [OF wf_measures [of "[work, \<lambda>s. nat (mgr_count (mgr s)), turn]"]])
  case (1 s)
  show ?case
  proof (cases "returned s")
    case False
    from uprog_advances [OF "1.prems" False] obtain s' where s': "uprog_step g s s'" "returned s' \<or> closer s' s" by blast
    have inv: "uprog_inv g s'" using uprog.inv_step [OF "1.prems" s'(1)] .
    from s'(2) show ?thesis
    proof
      assume "returned s'"
      with s'(1) show ?thesis by blast
    next
      assume "closer s' s"
      with "1.IH" inv obtain t where "(uprog_step g)\<^sup>*\<^sup>* s' t" "returned t" unfolding closer_def by blast
      with s'(1) show ?thesis by (meson converse_rtranclp_into_rtranclp)
    qed
  qed blast
qed

section \<open>Properties\<close>


text \<open>The program as it starts.\<close>

definition uprog_example :: uprog where
  "uprog_example = projr (uprog_init (Some 0) 0 [(True, Some 1), (True, Some 2), (True, Some 3)])"


end
