(* ===== verification/Memory_Regions.thy ===== *)
theory Memory_Regions
  imports OS_Prelude
begin

text \<open>
  \<open>sem1/lab4/task4_2/secondC.c\<close>: regions that are mapped, protected and unmapped page by page, an access that is
  not allowed, and the handler for it. A function either goes on with the next state or ends the process. What
  the system calls return is an argument: the page at which \<open>mmap\<close> puts the region, or \<open>None\<close> when it
  fails, and for the others whether they succeed. On some processors a page that can be written can be read
  as well: \<open>wr\<close> says so. \<open>ps\<close> is \<open>PAGE_SIZE\<close>; \<open>sleep\<close> is left out.
\<close>

section \<open>Pages\<close>

record prot =
  can_read :: bool
  can_write :: bool

abbreviation READ_WRITE :: prot where "READ_WRITE \<equiv> \<lparr>can_read = True, can_write = True\<rparr>"
abbreviation WRITE_ONLY :: prot where "WRITE_ONLY \<equiv> \<lparr>can_read = False, can_write = True\<rparr>"
abbreviation READ_ONLY :: prot where "READ_ONLY \<equiv> \<lparr>can_read = True, can_write = False\<rparr>"

text \<open>The handler of \<open>SIGSEGV\<close> is the default one or \<open>handleSigsegv\<close>.\<close>

record space =
  pages :: "nat \<rightharpoonup> prot"
  bytes :: "nat \<Rightarrow> char"
  segv_handled :: bool
  shown :: "string list"

datatype ending = KilledBySegv | ExitStatus int

type_synonym progress = "(ending \<times> space) + space"

definition go_on :: "progress \<Rightarrow> (space \<Rightarrow> progress) \<Rightarrow> progress" where
  "go_on m f = (case m of Inl e \<Rightarrow> Inl e | Inr s \<Rightarrow> f s)"

lemma go_on_simps [simp]: "go_on (Inl e) f = Inl e" "go_on (Inr s) f = f s"
  by (simp_all add: go_on_def)

definition show_line :: "string \<Rightarrow> space \<Rightarrow> space" where
  "show_line l s = s\<lparr>shown := shown s @ [l]\<rparr>"

definition fail_with :: "string \<Rightarrow> space \<Rightarrow> progress" where
  "fail_with l s = Inl (ExitStatus 1, show_line l s)"

definition page_range :: "nat \<Rightarrow> nat \<Rightarrow> nat \<Rightarrow> bool" where
  "page_range b n p \<longleftrightarrow> b \<le> p \<and> p < b + n"

text \<open>Pages of a new anonymous region hold zeros.\<close>

definition mmap_region :: "nat \<Rightarrow> nat \<Rightarrow> nat \<Rightarrow> space \<Rightarrow> space" where
  "mmap_region ps b n s = s\<lparr>pages := (\<lambda>p. if page_range b n p then Some READ_WRITE else pages s p),
     bytes := (\<lambda>a. if page_range b n (a div ps) then CHR 0x00 else bytes s a)\<rparr>"

definition munmap_region :: "nat \<Rightarrow> nat \<Rightarrow> space \<Rightarrow> space" where
  "munmap_region b n s = s\<lparr>pages := (\<lambda>p. if page_range b n p then None else pages s p)\<rparr>"

definition mprotect_region :: "prot \<Rightarrow> nat \<Rightarrow> nat \<Rightarrow> space \<Rightarrow> space" where
  "mprotect_region w b n s = s\<lparr>pages := (\<lambda>p. if page_range b n p then Some w else pages s p)\<rparr>"

definition handleSigsegv :: "space \<Rightarrow> progress" where
  "handleSigsegv s = Inl (ExitStatus 1, show_line ''Received SIGSEGV signal.'' s)"

definition segfault :: "space \<Rightarrow> progress" where
  "segfault s = (if segv_handled s then handleSigsegv s else Inl (KilledBySegv, s))"

definition writable :: "space \<Rightarrow> nat \<Rightarrow> bool" where
  "writable s p \<longleftrightarrow> (case pages s p of None \<Rightarrow> False | Some w \<Rightarrow> can_write w)"

definition readable :: "bool \<Rightarrow> space \<Rightarrow> nat \<Rightarrow> bool" where
  "readable wr s p \<longleftrightarrow> (case pages s p of None \<Rightarrow> False | Some w \<Rightarrow> can_read w \<or> (wr \<and> can_write w))"

text \<open>\<open>sprintf\<close> stores the string and a zero, from the first byte on.\<close>

fun store_bytes :: "nat \<Rightarrow> nat \<Rightarrow> string \<Rightarrow> space \<Rightarrow> progress" where
  "store_bytes ps a [] s = Inr s"
| "store_bytes ps a (c # cs) s =
     (if writable s (a div ps) then store_bytes ps (a + 1) cs (s\<lparr>bytes := (bytes s)(a := c)\<rparr>) else segfault s)"

definition sprintf_at :: "nat \<Rightarrow> nat \<Rightarrow> string \<Rightarrow> space \<Rightarrow> progress" where
  "sprintf_at ps a str s = store_bytes ps a (str @ [CHR 0x00]) s"

text \<open>
  \<open>printf\<close> loads bytes up to a zero. \<open>n\<close> bounds how many it looks at: the size of the region, in which
  there is always a zero here. It prints nothing when it faults.
\<close>

fun load_string :: "bool \<Rightarrow> nat \<Rightarrow> nat \<Rightarrow> nat \<Rightarrow> space \<Rightarrow> string option" where
  "load_string wr ps a 0 s = None"
| "load_string wr ps a (Suc n) s =
     (if \<not> readable wr s (a div ps) then None
      else if bytes s a = CHR 0x00 then Some []
      else map_option ((#) (bytes s a)) (load_string wr ps (a + 1) n s))"

definition printf_at :: "bool \<Rightarrow> nat \<Rightarrow> nat \<Rightarrow> nat \<Rightarrow> space \<Rightarrow> progress" where
  "printf_at wr ps a n s = (case load_string wr ps a n s of None \<Rightarrow> segfault s | Some str \<Rightarrow> Inr (show_line str s))"

section \<open>The functions\<close>

text \<open>A call that may fail, with what \<open>perror\<close> shows then.\<close>

definition checked :: "bool \<Rightarrow> string \<Rightarrow> (space \<Rightarrow> space) \<Rightarrow> space \<Rightarrow> progress" where
  "checked ok name f s = (if ok then Inr (f s) else fail_with name s)"

definition createAdd :: "nat \<Rightarrow> nat option \<Rightarrow> bool \<Rightarrow> space \<Rightarrow> progress" where
  "createAdd ps at un s = (let s = show_line ''Create new region address.'' s in
     case at of None \<Rightarrow> fail_with ''mmap'' s
     | Some b \<Rightarrow>
         let s = show_line ''Unmapping region.'' (show_line ''Mapped a region'' (mmap_region ps b 10 s)) in
         checked un ''munmap'' (munmap_region b 10) s)"

definition createAddChange :: "bool \<Rightarrow> nat \<Rightarrow> nat option \<Rightarrow> bool \<Rightarrow> bool \<Rightarrow> bool \<Rightarrow> space \<Rightarrow> progress" where
  "createAddChange wr ps at pr1 pr2 un s =
     (case at of None \<Rightarrow> fail_with ''mmap'' s
      | Some b \<Rightarrow>
          go_on (sprintf_at ps (b * ps) ''dep part2''
            (show_line ''Write to region: dep part2'' (show_line ''Mapped a region'' (mmap_region ps b 10 s)))) (\<lambda>s.
          go_on (printf_at wr ps (b * ps) (10 * ps) s) (\<lambda>s.
          go_on (checked pr1 ''mprotect'' (mprotect_region WRITE_ONLY b 10) (show_line ''Change mprotect.'' s)) (\<lambda>s.
          go_on (printf_at wr ps (b * ps) (10 * ps) (show_line ''Trying to read'' s)) (\<lambda>s.
          go_on (checked pr2 ''mprotect'' (mprotect_region READ_ONLY b 10) s) (\<lambda>s.
          go_on (sprintf_at ps (b * ps) ''dep part2'' (show_line ''Trying to write'' s)) (\<lambda>s.
          checked un ''munmap'' (munmap_region b 10) s)))))))"

definition createAddChangeHandled :: "bool \<Rightarrow> nat \<Rightarrow> nat option \<Rightarrow> bool \<Rightarrow> bool \<Rightarrow> bool \<Rightarrow> space \<Rightarrow> progress" where
  "createAddChangeHandled wr ps at pr1 pr2 un s =
     (case at of None \<Rightarrow> fail_with ''mmap'' s
      | Some b \<Rightarrow>
          go_on (sprintf_at ps (b * ps) ''Hdep part3''
            (show_line ''Write to region: Hdep part3'' (show_line ''Mapped a region'' (mmap_region ps b 10 s)))) (\<lambda>s.
          go_on (printf_at wr ps (b * ps) (10 * ps) s) (\<lambda>s.
          go_on (checked pr1 ''mprotect'' (mprotect_region WRITE_ONLY b 10) (show_line ''Change mprotect.'' s)) (\<lambda>s.
          go_on (printf_at wr ps (b * ps) (10 * ps) (show_line ''Trying to read'' (s\<lparr>segv_handled := True\<rparr>))) (\<lambda>s.
          go_on (checked pr2 ''mprotect'' (mprotect_region READ_ONLY b 10) s) (\<lambda>s.
          go_on (sprintf_at ps (b * ps) ''Hdep part3'' (show_line ''Trying to write'' s)) (\<lambda>s.
          checked un ''munmap'' (munmap_region b 10) s)))))))"

text \<open>The part in the middle is unmapped first; \<open>munmap\<close> of a range with holes is no error.\<close>

definition createAddPart :: "nat \<Rightarrow> nat option \<Rightarrow> bool \<Rightarrow> bool \<Rightarrow> space \<Rightarrow> progress" where
  "createAddPart ps at un1 un2 s = (let s = show_line ''Create new region address.'' s in
     case at of None \<Rightarrow> fail_with ''mmap'' s
     | Some b \<Rightarrow>
         let s = show_line ''Unmapping a part'' (show_line ''Mapped a region'' (mmap_region ps b 10 s)) in
         go_on (checked un1 ''munmap'' (munmap_region (b + 3) 3) s) (\<lambda>s.
         checked un2 ''munmap'' (munmap_region b 10) (show_line ''Unmapping the remaining part'' s)))"

text \<open>
  Each call of \<open>resursiveStackArray\<close> takes a frame of \<open>frame\<close> bytes, at least the 777 of its array, from the
  \<open>room\<close> bytes left on the stack.
\<close>

function resursiveStackArray :: "nat \<Rightarrow> nat \<Rightarrow> space \<Rightarrow> progress" where
  "resursiveStackArray frame room s =
     (if frame < 777 \<or> room < frame then segfault s
      else resursiveStackArray frame (room - frame) (show_line ''Array pointer'' s))"
  by auto
termination by (relation "measure (\<lambda>(frame, room, s). room)") auto

text \<open>\<open>n\<close> rounds of \<open>resursiveHeap\<close>; \<open>new k\<close> is what \<open>malloc\<close> returns in the round \<open>k\<close>. It prints the address of its own variable.\<close>

fun resursiveHeap :: "(nat \<Rightarrow> ptr) \<Rightarrow> nat \<Rightarrow> (addr \<rightharpoonup> nat) \<Rightarrow> (addr \<rightharpoonup> nat) result" where
  "resursiveHeap new 0 h = Inr h"
| "resursiveHeap new (Suc n) h = bindR (resursiveHeap new n h) (\<lambda>h.
     release (case new n of None \<Rightarrow> h | Some a \<Rightarrow> h(a \<mapsto> 10000)) (new n))"

definition regions_main :: "space \<Rightarrow> int \<times> space" where
  "regions_main s = (0, show_line ''My pid'' s)"

section \<open>Loading what was stored\<close>

lemma show_line_fields [simp]:
  "pages (show_line l s) = pages s" "bytes (show_line l s) = bytes s"
  "segv_handled (show_line l s) = segv_handled s" "shown (show_line l s) = shown s @ [l]"
  by (simp_all add: show_line_def)

lemma region_fields [simp]:
  "pages (mmap_region ps b n s) = (\<lambda>p. if page_range b n p then Some READ_WRITE else pages s p)"
  "pages (mprotect_region w b n s) = (\<lambda>p. if page_range b n p then Some w else pages s p)"
  "bytes (mprotect_region w b n s) = bytes s"
  "segv_handled (mmap_region ps b n s) = segv_handled s" "segv_handled (mprotect_region w b n s) = segv_handled s"
  "shown (mmap_region ps b n s) = shown s" "shown (mprotect_region w b n s) = shown s"
  by (simp_all add: mmap_region_def mprotect_region_def)

lemma page_of [simp]: "i < ps \<Longrightarrow> (b * ps + i) div ps = (b :: nat)"
  by simp

text \<open>Storing within one page that can be written.\<close>

lemma store_bytes_page:
  assumes "pages s b = Some w" "can_write w" "i + length cs \<le> ps"
  shows "\<exists>f. store_bytes ps (b * ps + i) cs s = Inr (s\<lparr>bytes := f\<rparr>) \<and>
    (\<forall>k < length cs. f (b * ps + i + k) = cs ! k) \<and> (\<forall>a. a < b * ps + i \<longrightarrow> f a = bytes s a)"
  using assms
proof (induction cs arbitrary: s i)
  case Nil
  then show ?case by (intro exI [of _ "bytes s"]) simp
next
  case (Cons c cs)
  let ?s = "s\<lparr>bytes := (bytes s)(b * ps + i := c)\<rparr>"
  from Cons.prems have i: "i < ps" by simp
  from Cons.IH [of ?s "i + 1"] Cons.prems obtain f where
    f: "store_bytes ps (b * ps + (i + 1)) cs ?s = Inr (?s\<lparr>bytes := f\<rparr>)"
    "\<forall>k < length cs. f (b * ps + (i + 1) + k) = cs ! k" "\<forall>a. a < b * ps + (i + 1) \<longrightarrow> f a = bytes ?s a" by auto
  have "store_bytes ps (b * ps + i) (c # cs) s = Inr (s\<lparr>bytes := f\<rparr>)"
    using f(1) Cons.prems(1,2) i by (simp add: writable_def)
  moreover have "f (b * ps + i + k) = (c # cs) ! k" if "k < length (c # cs)" for k
    using that f(2,3) by (cases k) auto
  moreover have "f a = bytes s a" if "a < b * ps + i" for a using that f(3) by simp
  ultimately show ?case by blast
qed

lemma load_string_page:
  assumes "readable wr s b" "i + length str < ps" "length str < n" "CHR 0x00 \<notin> set str"
    and "\<forall>k < length (str @ [CHR 0x00]). bytes s (b * ps + i + k) = (str @ [CHR 0x00]) ! k"
  shows "load_string wr ps (b * ps + i) n s = Some str"
  using assms(2-)
proof (induction str arbitrary: i n)
  case Nil
  then obtain m where "n = Suc m" by (cases n) auto
  with Nil assms(1) show ?case by simp
next
  case (Cons c str)
  then obtain m where m: "n = Suc m" by (cases n) auto
  have i: "i < ps" using Cons.prems(1) by simp
  have c: "bytes s (b * ps + i) = c" "c \<noteq> CHR 0x00" using Cons.prems(3,4) by auto
  have "bytes s (b * ps + (i + 1) + k) = (str @ [CHR 0x00]) ! k" if "k < length (str @ [CHR 0x00])" for k
  proof -
    have "Suc k < length ((c # str) @ [CHR 0x00])" using that by simp
    with Cons.prems(4) have "bytes s (b * ps + i + Suc k) = ((c # str) @ [CHR 0x00]) ! Suc k" by blast
    then show ?thesis by simp
  qed
  then have "load_string wr ps (b * ps + (i + 1)) m s = Some str"
    using Cons.IH [of "i + 1" m] Cons.prems m by simp
  with c m i assms(1) show ?case by simp
qed

lemma load_string_blocked: "\<not> readable wr s b \<Longrightarrow> 0 < ps \<Longrightarrow> load_string wr ps (b * ps) n s = None"
  by (cases n) simp_all

lemma store_blocked: "\<not> writable s b \<Longrightarrow> 0 < ps \<Longrightarrow> sprintf_at ps (b * ps) str s = segfault s"
  by (cases str) (simp_all add: sprintf_at_def)

text \<open>A string at the start of page \<open>b\<close>, as far as the bytes go.\<close>

definition holds :: "nat \<Rightarrow> nat \<Rightarrow> string \<Rightarrow> (nat \<Rightarrow> char) \<Rightarrow> bool" where
  "holds ps b str f \<longleftrightarrow> (\<forall>wr n t. bytes t = f \<longrightarrow> readable wr t b \<longrightarrow> length str < n \<longrightarrow> load_string wr ps (b * ps) n t = Some str)"

lemma sprintf_holds:
  assumes "pages s b = Some w" "can_write w" "length str < ps" "CHR 0x00 \<notin> set str"
  shows "\<exists>f. sprintf_at ps (b * ps) str s = Inr (s\<lparr>bytes := f\<rparr>) \<and> holds ps b str f"
proof -
  from store_bytes_page [of s b w 0 "str @ [CHR 0x00]" ps] assms obtain f where
    f: "sprintf_at ps (b * ps) str s = Inr (s\<lparr>bytes := f\<rparr>)"
    "\<forall>k < length (str @ [CHR 0x00]). f (b * ps + k) = (str @ [CHR 0x00]) ! k" by (auto simp: sprintf_at_def)
  have "holds ps b str f"
    using load_string_page [where i = 0 and str = str and ps = ps and b = b] f(2) assms(3,4) by (simp add: holds_def)
  with f(1) show ?thesis by blast
qed

lemma printf_holds:
  assumes "holds ps b str (bytes s)" "length str < n" "0 < ps"
  shows "printf_at wr ps (b * ps) n s = (if readable wr s b then Inr (show_line str s) else segfault s)"
  using assms load_string_blocked [of wr s b ps n] by (auto simp: printf_at_def holds_def)

section \<open>Properties\<close>

lemma page_range_first [simp]: "page_range b 10 b"
  by (simp add: page_range_def)

text \<open>
  C35. Protection is enforced: when no call fails, \<open>createAddChange\<close> prints what it has written and is then killed, and
  \<open>createAddChangeHandled\<close> exits with 1 after its handler's message: at the load from a page without read permission, or, where
  writable pages can be read, after a second print, at the store to a page without write permission. \<open>munmap\<close> is never reached.
\<close>

theorem regions_protected:
  assumes "10 < ps" "\<not> segv_handled s"
  shows "(\<exists>t. createAddChange wr ps (Some b) True True un s = Inl (KilledBySegv, t) \<and>
      pages t b = Some (if wr then READ_ONLY else WRITE_ONLY) \<and>
      shown t = shown s @ [''Mapped a region'', ''Write to region: dep part2'', ''dep part2'', ''Change mprotect.'', ''Trying to read''] @
        (if wr then [''dep part2'', ''Trying to write''] else [])) \<and>
    (\<exists>t. createAddChangeHandled wr ps (Some b) True True un s = Inl (ExitStatus 1, t) \<and>
      pages t b = Some (if wr then READ_ONLY else WRITE_ONLY) \<and>
      shown t = shown s @ [''Mapped a region'', ''Write to region: Hdep part3'', ''Hdep part3'', ''Change mprotect.'', ''Trying to read''] @
        (if wr then [''Hdep part3'', ''Trying to write''] else []) @ [''Received SIGSEGV signal.''])"
proof -
  let ?s = "\<lambda>l. show_line l (show_line ''Mapped a region'' (mmap_region ps b 10 s))"
  have p: "pages (?s l) b = Some READ_WRITE" for l by simp
  have ps: "0 < ps" "length ''dep part2'' < 10 * ps" "length ''Hdep part3'' < 10 * ps" using assms(1) by simp_all
  obtain f where f: "sprintf_at ps (b * ps) ''dep part2'' (?s ''Write to region: dep part2'') = Inr ((?s ''Write to region: dep part2'')\<lparr>bytes := f\<rparr>)"
    "holds ps b ''dep part2'' f"
    using sprintf_holds [OF p, of "''dep part2''" ps] assms(1) by auto
  obtain g where g: "sprintf_at ps (b * ps) ''Hdep part3'' (?s ''Write to region: Hdep part3'') = Inr ((?s ''Write to region: Hdep part3'')\<lparr>bytes := g\<rparr>)"
    "holds ps b ''Hdep part3'' g"
    using sprintf_holds [OF p, of "''Hdep part3''" ps] assms(1) by auto
  note run = printf_holds [OF _ ps(2) ps(1)] printf_holds [OF _ ps(3) ps(1)] store_blocked [OF _ ps(1)] readable_def writable_def
    checked_def segfault_def handleSigsegv_def
  show ?thesis
    using assms(2) by (cases wr) (simp_all add: createAddChange_def createAddChangeHandled_def f(1) g(1) run f(2) g(2))
qed

text \<open>
  Every page a region got is given back: after \<open>createAdd\<close> and after \<open>createAddPart\<close>, whose last \<open>munmap\<close> covers a hole,
  the mapped pages are those of before.
\<close>

theorem regions_released:
  assumes "\<forall>p. page_range b 10 p \<longrightarrow> pages s p = None"
  shows "(\<exists>t. createAdd ps (Some b) True s = Inr t \<and> pages t = pages s) \<and>
    (\<exists>t. createAddPart ps (Some b) True True s = Inr t \<and> pages t = pages s)"
  using assms by (auto simp: createAdd_def createAddPart_def checked_def munmap_region_def mmap_region_def Let_def page_range_def fun_eq_iff)

text \<open>\<open>resursiveStackArray\<close> ends with a fault after as many calls as frames fit on the stack; \<open>resursiveHeap\<close> leaks nothing.\<close>

lemma stack_recursion_faults:
  "777 \<le> frame \<Longrightarrow> \<exists>t. resursiveStackArray frame room s = segfault t \<and> shown t = shown s @ replicate (room div frame) ''Array pointer''"
proof (induction room arbitrary: s rule: less_induct)
  case (less room)
  show ?case
  proof (cases "room < frame")
    case True
    then show ?thesis by (intro exI [of _ s]) simp
  next
    case False
    then have r: "room - frame < room" "room div frame = Suc ((room - frame) div frame)"
      using less.prems by (simp_all add: le_div_geq)
    from less.IH [OF r(1) less.prems, of "show_line ''Array pointer'' s"] False less.prems r(2) show ?thesis
      by (auto simp del: resursiveStackArray.simps simp: resursiveStackArray.simps [of frame room])
  qed
qed

lemma heap_rounds_keep:
  assumes "\<And>k. fresh h (new k)"
  shows "resursiveHeap new n h = Inr h"
proof (induction n)
  case (Suc n)
  then show ?case using assms [of n] by (cases "new n") (auto simp: fun_eq_iff)
qed simp

theorem regions_protected_witness:
  "\<exists>t. createAddChange True 4096 (Some 16) True True True
       \<lparr>pages = Map.empty, bytes = (\<lambda>_. CHR 0x00), segv_handled = False, shown = []\<rparr> = Inl (KilledBySegv, t)"
  using regions_protected [of 4096 "\<lparr>pages = Map.empty, bytes = (\<lambda>_. CHR 0x00), segv_handled = False, shown = []\<rparr>" True 16 True]
  by auto

theorem regions_released_witness:
  "\<exists>t. createAddPart 4096 (Some 16) True True
       \<lparr>pages = Map.empty, bytes = (\<lambda>_. CHR 0x00), segv_handled = False, shown = []\<rparr> = Inr t \<and> pages t = Map.empty"
  using regions_released [of 16 "\<lparr>pages = Map.empty, bytes = (\<lambda>_. CHR 0x00), segv_handled = False, shown = []\<rparr>" 4096]
  by simp

end
