(* ===== verification/Syscall_Trace.thy ===== *)
theory Syscall_Trace
  imports Pagemap
begin

text \<open>
  \<open>sem1/lab2/task2_3/third.c\<close>: a program that prints the system calls of another. The names come from a header
  file that \<open>load_syscall_names\<close> scans, the calls from the stops of the traced process, which \<open>main\<close> takes
  to be the entry and the exit of a call in turn. The scanner is the one of theory \<open>Pagemap\<close>.
\<close>

section \<open>The names\<close>

definition MAX_SYSCALLS :: nat where "MAX_SYSCALLS = 512"

text \<open>\<open>syscall_list\<close>, of which the entries not yet set are empty.\<close>

type_synonym names = "nat \<Rightarrow> string"

text \<open>The literal part of a format: white space matches any white space.\<close>

fun match_literal :: "string \<Rightarrow> string \<Rightarrow> string option" where
  "match_literal [] s = Some s"
| "match_literal (p # ps) s =
     (if is_space p then match_literal ps (skip_ws s)
      else case s of [] \<Rightarrow> None | c # cs \<Rightarrow> if c = p then match_literal ps cs else None)"

text \<open>
  \<open>sscanf\<close> with the format \<open>pre%64s %lu\<close>: None unless both conversions are done. \<open>name\<close> has room for 63
  characters and the terminating zero: the conversion of 64 writes past its end, even if no number follows.
\<close>

definition scan_define :: "string \<Rightarrow> string \<Rightarrow> (string \<times> 64 word) option result" where
  "scan_define pre line = (case match_literal pre line of
       None \<Rightarrow> Inr None
     | Some s \<Rightarrow> (case scan_word 64 s of
           None \<Rightarrow> Inr None
         | Some (name, s) \<Rightarrow>
             if length name = 64 then Inl Overrun
             else Inr (map_option (\<lambda>(num, s). (name, num)) (scan_number 10 s))))"

text \<open>One line; the second format is tried only if the first fails.\<close>

definition load_line :: "string \<Rightarrow> names \<Rightarrow> names result" where
  "load_line line names =
     bindR (scan_define ''#define __NR_'' line) (\<lambda>r.
     bindR (case r of None \<Rightarrow> scan_define ''#define __NR3264_'' line | Some _ \<Rightarrow> Inr r) (\<lambda>r.
     Inr (case r of None \<Rightarrow> names
          | Some (name, num) \<Rightarrow> if unat num < MAX_SYSCALLS then names(unat num := name) else names)))"

text \<open>\<open>fgets\<close> with a buffer of 256 bytes.\<close>

definition header_line :: "string \<Rightarrow> nat" where
  "header_line s = min 255 (let k = length (takeWhile (\<lambda>c. c \<noteq> CHR 0x0A) s) in if k < length s then k + 1 else k)"

lemma header_line_pos: "s \<noteq> [] \<Longrightarrow> 0 < header_line s"
  by (cases s) (auto simp: header_line_def Let_def)

function load_lines :: "string \<Rightarrow> names \<Rightarrow> names result" where
  "load_lines s names =
     (if s = [] then Inr names
      else bindR (load_line (take (header_line s) s) names) (load_lines (drop (header_line s) s)))"
  by pat_completeness auto
termination by (relation "measure (\<lambda>(s, names). length s)") (auto simp: header_line_pos)

declare load_lines.simps [simp del]

text \<open>The file may fail to open; then the list stays empty.\<close>

definition load_syscall_names :: "string option \<Rightarrow> names result" where
  "load_syscall_names content = (case content of None \<Rightarrow> Inr (\<lambda>_. []) | Some s \<Rightarrow> load_lines s (\<lambda>_. []))"

definition get_syscall_name :: "names \<Rightarrow> 64 word \<Rightarrow> string" where
  "get_syscall_name names num = (if unat num < MAX_SYSCALLS then names (unat num) else ''unknown'')"

section \<open>The trace\<close>

text \<open>The registers that the program looks at, as they are at a stop, and what \<open>waitpid\<close> reports.\<close>

record regs =
  x0 :: "64 word"
  x8 :: "64 word"

datatype wait_status = WExited int | WSignaled nat | WStopped regs

datatype trace_line = Enter "64 word" string | Return "64 word"

text \<open>
  The loop ends because the process has exited or because its registers cannot be read, which is the case when it
  has been killed; or it still waits, when \<open>events\<close> ends with a stop.
\<close>

datatype trace_end = ChildExited | NoRegisters | StillWaiting

fun trace_enter :: "names \<Rightarrow> wait_status list \<Rightarrow> trace_line list \<Rightarrow> trace_line list \<times> trace_end"
  and trace_exit :: "names \<Rightarrow> wait_status list \<Rightarrow> trace_line list \<Rightarrow> trace_line list \<times> trace_end" where
  "trace_enter names [] out = (out, StillWaiting)"
| "trace_enter names (WExited c # es) out = (out, ChildExited)"
| "trace_enter names (WSignaled g # es) out = (out, NoRegisters)"
| "trace_enter names (WStopped r # es) out = trace_exit names es (out @ [Enter (x8 r) (get_syscall_name names (x8 r))])"
| "trace_exit names [] out = (out, StillWaiting)"
| "trace_exit names (WExited c # es) out = (out, ChildExited)"
| "trace_exit names (WSignaled g # es) out = (out, NoRegisters)"
| "trace_exit names (WStopped r # es) out = trace_enter names es (out @ [Return (x0 r)])"

text \<open>
  \<open>main\<close> in the parent: the first wait is for the stop of \<open>execl\<close>. A process that has ended before that is
  waited for in vain, which leaves the status as it was. The exit status is the first component.
\<close>

definition trace_parent :: "names \<Rightarrow> wait_status list \<Rightarrow> int \<times> trace_line list \<times> trace_end" where
  "trace_parent names events = (case events of
       [] \<Rightarrow> (0, [], StillWaiting)
     | WStopped r # es \<Rightarrow> (0, trace_enter names es [])
     | e # es \<Rightarrow> (0, trace_enter names [e] []))"

text \<open>\<open>forked\<close>: what the child reports, None if \<open>fork\<close> fails.\<close>

definition trace_main :: "nat \<Rightarrow> string option \<Rightarrow> wait_status list option \<Rightarrow> (int \<times> trace_line list \<times> trace_end) result" where
  "trace_main argc header forked =
     (if argc < 2 then Inr (1, [], ChildExited)
      else bindR (load_syscall_names header) (\<lambda>names.
        Inr (case forked of None \<Rightarrow> (1, [], ChildExited) | Some events \<Rightarrow> trace_parent names events)))"

text \<open>The child: it ends with 1 if it may not be traced or \<open>execl\<close> fails; otherwise it is the traced program.\<close>

definition trace_child :: "bool \<Rightarrow> bool \<Rightarrow> wait_status list \<Rightarrow> wait_status list" where
  "trace_child traceme exec program = (if \<not> traceme \<or> \<not> exec then [WExited 1] else program)"

section \<open>Loading the names\<close>

text \<open>A line that defines a name of at most 63 characters, and one with a longer name.\<close>

definition define_line :: "string \<times> 64 word \<Rightarrow> string \<Rightarrow> bool" where
  "define_line d l \<longleftrightarrow> (\<exists>ds. l = ''#define __NR_'' @ fst d @ '' '' @ ds @ [CHR 0x0A] \<and>
     word_text 63 (fst d) \<and> number_text 10 ds (snd d) \<and> length l < 256)"

definition enter_name :: "string \<times> 64 word \<Rightarrow> names \<Rightarrow> names" where
  "enter_name d names = (if unat (snd d) < MAX_SYSCALLS then names(unat (snd d) := fst d) else names)"

lemma define_literal: "match_literal ''#define __NR_'' (''#define __NR_'' @ s) = Some s"
  by (simp add: is_space_def)

lemma scan_word_space: "scan_word k (CHR '' '' # s) = scan_word k s"
  by (simp add: scan_word_def)

lemma word_text_le: "word_text k w \<Longrightarrow> k \<le> n \<Longrightarrow> word_text n w"
  by (simp add: word_text_def)

lemma load_define_line:
  assumes "define_line d l"
  shows "load_line l names = Inr (enter_name d names)"
proof -
  obtain ds where l: "l = ''#define __NR_'' @ fst d @ '' '' @ ds @ [CHR 0x0A]" "word_text 63 (fst d)" "number_text 10 ds (snd d)"
    using assms by (auto simp: define_line_def)
  have w: "scan_word 64 (fst d @ '' '' @ ds @ [CHR 0x0A]) = Some (fst d, '' '' @ ds @ [CHR 0x0A])"
    using scan_word_text [OF word_text_le [OF l(2), of 64], of "'' '' @ ds @ [CHR 0x0A]"] by (simp add: scan_word_space)
  have n: "scan_number 10 ('' '' @ ds @ [CHR 0x0A]) = Some (snd d, [CHR 0x0A])"
    using scan_number_text(2) [OF l(3), of "[CHR 0x0A]"] by (simp add: digit_val_def)
  have "length (fst d) \<noteq> 64" using l(2) by (simp add: word_text_def)
  then have "scan_define ''#define __NR_'' l = Inr (Some d)"
    unfolding scan_define_def l(1) define_literal using w n by simp
  then show ?thesis by (simp add: load_line_def enter_name_def split: prod.split)
qed

lemma header_line_whole:
  assumes "CHR 0x0A \<notin> set k" "length k < 255"
  shows "header_line (k @ CHR 0x0A # s) = Suc (length k)"
proof -
  have "takeWhile (\<lambda>c. c \<noteq> CHR 0x0A) (k @ CHR 0x0A # s) = k"
    using assms(1) by (intro takeWhile_list_all) (auto simp: list_all_iff)
  with assms(2) show ?thesis by (simp add: header_line_def)
qed

lemma load_lines_line:
  assumes "define_line d l"
  shows "load_lines (l @ s) names = load_lines s (enter_name d names)"
proof -
  obtain ds where l: "l = ''#define __NR_'' @ fst d @ '' '' @ ds @ [CHR 0x0A]" "word_text 63 (fst d)" "number_text 10 ds (snd d)" "length l < 256"
    using assms by (auto simp: define_line_def)
  define k where "k = ''#define __NR_'' @ fst d @ '' '' @ ds"
  have k: "l = k @ [CHR 0x0A]" "CHR 0x0A \<notin> set k" "length k < 255"
    using l text_no_newline(1) [OF l(3)] text_no_newline(2) [OF l(2)] by (simp_all add: k_def)
  then have "header_line (l @ s) = length l" using header_line_whole [of k s] by simp
  then show ?thesis using k(1) load_define_line [OF assms] by (subst load_lines.simps) simp
qed

lemma load_lines_lines:
  "list_all2 define_line ds ls \<Longrightarrow> load_lines (concat ls @ s) names = load_lines s (fold enter_name ds names)"
  by (induction arbitrary: names rule: list_all2_induct) (simp_all add: load_lines_line)

lemma long_name_overruns:
  assumes "64 \<le> length name" "list_all (\<lambda>c. \<not> is_space c) name"
  shows "load_line (''#define __NR_'' @ name @ s) names = Inl Overrun"
proof -
  obtain c cs where c: "name = c # cs" "\<not> is_space c" using assms by (cases name) auto
  have "takeWhile (\<lambda>c. \<not> is_space c) (name @ s) = name @ takeWhile (\<lambda>c. \<not> is_space c) s"
    using assms(2) by (simp add: list_all_iff)
  then have "\<exists>r. scan_word 64 (name @ s) = Some (take 64 name, r)"
    using c assms(1) by (simp add: scan_word_def)
  then have "scan_define ''#define __NR_'' (''#define __NR_'' @ name @ s) = Inl Overrun"
    unfolding scan_define_def define_literal using assms(1) by auto
  then show ?thesis by (simp add: load_line_def)
qed

text \<open>The stops of a program that makes system calls: at the entry and the exit of each.\<close>

definition stops :: "(regs \<times> regs) list \<Rightarrow> wait_status list" where
  "stops calls = concat (map (\<lambda>(r, r'). [WStopped r, WStopped r']) calls)"

definition call_lines :: "names \<Rightarrow> (regs \<times> regs) list \<Rightarrow> trace_line list" where
  "call_lines names calls = concat (map (\<lambda>(r, r'). [Enter (x8 r) (get_syscall_name names (x8 r)), Return (x0 r')]) calls)"

lemma trace_calls: "trace_enter names (stops calls @ es) out = trace_enter names es (out @ call_lines names calls)"
  by (induction calls arbitrary: out) (auto simp: stops_def call_lines_def)

section \<open>Properties\<close>


text \<open>
  A stop for a signal, which is no call, makes the program take entries for exits from there on: the next entry is shown
  as a returned value and each exit as an entry; and a header line with a name of 64 characters overruns \<open>name\<close>.
\<close>

theorem trace_desynchronised:
  "trace_enter names (stops calls @ WStopped g # WStopped r # WStopped r' # es) out =
     trace_exit names es (out @ call_lines names calls @
       [Enter (x8 g) (get_syscall_name names (x8 g)), Return (x0 r), Enter (x8 r') (get_syscall_name names (x8 r'))]) \<and>
   load_line (''#define __NR_'' @ replicate 64 (CHR ''a'') @ '' 1'') tab = Inl Overrun"
proof -
  have "list_all (\<lambda>c. \<not> is_space c) (replicate 64 (CHR ''a''))" by (simp add: list_all_iff is_space_def)
  with long_name_overruns [of "replicate 64 (CHR ''a'')" "'' 1''" tab]
  have "load_line (''#define __NR_'' @ replicate 64 (CHR ''a'') @ '' 1'') tab = Inl Overrun" by simp
  moreover have "trace_enter names (stops calls @ WStopped g # WStopped r # WStopped r' # es) out =
     trace_exit names es (out @ call_lines names calls @
       [Enter (x8 g) (get_syscall_name names (x8 g)), Return (x0 r), Enter (x8 r') (get_syscall_name names (x8 r'))])"
    by (simp add: trace_calls)
  ultimately show ?thesis by blast
qed


end
