(* ===== verification/Process_Programs.thy ===== *)
theory Process_Programs
  imports OS_Prelude
begin

text \<open>
  The programs of \<open>sem1/lab5\<close>, which create processes: \<open>first.c\<close> with a child and a grandchild, \<open>zombie.c\<close>
  with a child nobody waits for, \<open>clone.c\<close> with a child on a stack of its own; and \<open>sem1/lab2/task2_1/child.c\<close>,
  which writes a file and reads it back. \<open>sleep\<close> does not order processes; identifiers and addresses that are
  printed are left out.
\<close>

section \<open>Processes\<close>

datatype exit_status = Exited int | KilledFromOutside

text \<open>A process does not exist yet, is at a statement, has ended and is kept for its parent, or has been waited for.\<close>

datatype 'pc process = NotForked | At 'pc | Zombie exit_status | Reaped

datatype relative = Parent | Child | Grandchild

section \<open>Copies of memory (\<open>task5_1/first.c\<close>)\<close>

record image =
  global_var :: int
  local_var :: int

datatype shown_line = Vars int int | ChildEnded int | ChildFailed

datatype first_pc = F_Show | F_Fork | F_ShowAgain | F_Wait | C_Fork | C_Show | C_Set | C_Exit

record family =
  process :: "relative \<Rightarrow> first_pc process"
  memory :: "relative \<Rightarrow> image"
  shown :: "(relative \<times> shown_line) list"

definition family_start :: family where
  "family_start = \<lparr>process = (\<lambda>_. NotForked)(Parent := At F_Show),
     memory = (\<lambda>_. \<lparr>global_var = 22, local_var = 203\<rparr>), shown = []\<rparr>"

definition show_vars :: "relative \<Rightarrow> family \<Rightarrow> family" where
  "show_vars p s = s\<lparr>shown := shown s @ [(p, Vars (global_var (memory s p)) (local_var (memory s p)))]\<rparr>"

definition goto :: "relative \<Rightarrow> first_pc process \<Rightarrow> family \<Rightarrow> family" where
  "goto p st s = s\<lparr>process := (process s)(p := st)\<rparr>"

text \<open>\<open>fork\<close> gives the new process a copy of the memory.\<close>

definition fork_process :: "relative \<Rightarrow> relative \<Rightarrow> first_pc \<Rightarrow> family \<Rightarrow> family" where
  "fork_process p q pc s = goto q (At pc) (s\<lparr>memory := (memory s)(q := memory s p)\<rparr>)"

text \<open>\<open>main\<close> in each of the three processes; \<open>err\<close>: \<open>fork\<close> fails, which only the parent looks at.\<close>

definition first_main :: "relative \<Rightarrow> bool \<Rightarrow> family \<Rightarrow> family" where
  "first_main p err s = (case process s p of
       At F_Show \<Rightarrow> goto p (At F_Fork) (show_vars p s)
     | At F_Fork \<Rightarrow> if err then goto p (Zombie (Exited 1)) s else goto p (At F_ShowAgain) (fork_process p Child C_Fork s)
     | At F_ShowAgain \<Rightarrow> goto p (At F_Wait) (show_vars p s)
     | At F_Wait \<Rightarrow> (case process s Child of
           Zombie (Exited n) \<Rightarrow> goto p (Zombie (Exited 0)) (goto Child Reaped (s\<lparr>shown := shown s @ [(p, ChildEnded n)]\<rparr>))
         | Zombie KilledFromOutside \<Rightarrow> goto p (Zombie (Exited 0)) (goto Child Reaped (s\<lparr>shown := shown s @ [(p, ChildFailed)]\<rparr>))
         | _ \<Rightarrow> s)
     | At C_Fork \<Rightarrow> goto p (At C_Show) (if err then s else fork_process p Grandchild C_Show s)
     | At C_Show \<Rightarrow> goto p (At C_Set) (show_vars p s)
     | At C_Set \<Rightarrow> goto p (At C_Exit) (s\<lparr>memory := (memory s)(p := \<lparr>global_var = 30, local_var = 307\<rparr>)\<rparr>)
     | At C_Exit \<Rightarrow> goto p (Zombie (Exited 5)) s
     | _ \<Rightarrow> s)"

inductive family_trans :: "family \<Rightarrow> family \<Rightarrow> bool" where
  run: "family_trans s (first_main p err s)"
| kill: "process s p = At pc \<Longrightarrow> p \<noteq> Parent \<Longrightarrow> family_trans s (goto p (Zombie KilledFromOutside) s)"

text \<open>
  The parent's memory is never changed, the others' only by themselves and after they have shown it; only the
  parent waits, and the parent is in its own part of the program.
\<close>

fun fresh_image :: "first_pc process \<Rightarrow> bool" where
  "fresh_image (At C_Exit) = False"
| "fresh_image (Zombie _) = False"
| "fresh_image Reaped = False"
| "fresh_image _ = True"

text \<open>Where the processes can be together.\<close>

fun parent_ok :: "first_pc process \<Rightarrow> first_pc process \<Rightarrow> bool" where
  "parent_ok (At F_Show) c \<longleftrightarrow> c = NotForked"
| "parent_ok (At F_Fork) c \<longleftrightarrow> c = NotForked"
| "parent_ok (At F_ShowAgain) c \<longleftrightarrow> c \<noteq> NotForked \<and> c \<noteq> Reaped"
| "parent_ok (At F_Wait) c \<longleftrightarrow> c \<noteq> NotForked \<and> c \<noteq> Reaped"
| "parent_ok (Zombie (Exited n)) c \<longleftrightarrow> (n = 0 \<and> c = Reaped) \<or> (n = 1 \<and> c = NotForked)"
| "parent_ok _ _ \<longleftrightarrow> False"

fun child_ok :: "first_pc process \<Rightarrow> bool" where
  "child_ok (At pc) \<longleftrightarrow> pc = C_Fork \<or> pc = C_Show \<or> pc = C_Set \<or> pc = C_Exit"
| "child_ok (Zombie (Exited n)) \<longleftrightarrow> n = 5"
| "child_ok _ \<longleftrightarrow> True"

definition line_ok :: "relative \<times> shown_line \<Rightarrow> bool" where
  "line_ok l \<longleftrightarrow> snd l = Vars 22 203 \<or> (fst l = Parent \<and> (snd l = ChildEnded 5 \<or> snd l = ChildFailed))"

definition family_at :: "first_pc process \<Rightarrow> first_pc process \<Rightarrow> first_pc process \<Rightarrow> bool" where
  "family_at p c g \<longleftrightarrow> parent_ok p c \<and> child_ok c \<and> child_ok g \<and> g \<noteq> At C_Fork \<and> g \<noteq> Reaped \<and> (c = NotForked \<or> c = At C_Fork \<longrightarrow> g = NotForked)"

definition fresh_at :: "first_pc process \<Rightarrow> image \<Rightarrow> bool" where
  "fresh_at st m \<longleftrightarrow> (fresh_image st \<longrightarrow> m = \<lparr>global_var = 22, local_var = 203\<rparr>)"

definition family_inv :: "family \<Rightarrow> bool" where
  "family_inv s \<longleftrightarrow> family_at (process s Parent) (process s Child) (process s Grandchild) \<and>
     memory s Parent = \<lparr>global_var = 22, local_var = 203\<rparr> \<and> fresh_at (process s Child) (memory s Child) \<and>
     fresh_at (process s Grandchild) (memory s Grandchild) \<and> list_all line_ok (shown s) \<and>
     (process s Parent = Zombie (Exited 0) \<longrightarrow> (Parent, ChildEnded 5) \<in> set (shown s) \<or> (Parent, ChildFailed) \<in> set (shown s))"

lemmas family_defs = family_inv_def family_at_def fresh_at_def goto_def show_vars_def fork_process_def line_ok_def

lemma parent_okE:
  assumes "parent_ok p c"
  obtains "p = At F_Show" | "p = At F_Fork" | "p = At F_ShowAgain" | "p = At F_Wait" | "p = Zombie (Exited 0)" | "p = Zombie (Exited 1)"
  using assms by (cases "(p, c)" rule: parent_ok.cases) auto

lemma child_okE:
  assumes "child_ok c"
  obtains "c = NotForked" | "c = At C_Fork" | "c = At C_Show" | "c = At C_Set" | "c = At C_Exit" | "c = Zombie (Exited 5)" |
    "c = Zombie KilledFromOutside" | "c = Reaped"
  using assms by (cases c rule: child_ok.cases) auto

lemma first_parent_inv:
  assumes "family_inv s"
  shows "family_inv (first_main Parent err s)"
proof -
  have p: "parent_ok (process s Parent) (process s Child)" and c: "child_ok (process s Child)"
    using assms by (simp_all add: family_inv_def family_at_def)
  from p show ?thesis
  proof (cases rule: parent_okE)
    case 4
    from c show ?thesis by (cases rule: child_okE) (use assms 4 in \<open>simp_all add: first_main_def family_defs\<close>)
  qed (use assms in \<open>simp_all add: first_main_def family_defs\<close>)
qed

lemma first_child_inv:
  assumes "family_inv s" "p \<noteq> Parent"
  shows "family_inv (first_main p err s)"
proof (cases p)
  case Child
  have c: "child_ok (process s Child)" and p: "parent_ok (process s Parent) (process s Child)"
    using assms by (simp_all add: family_inv_def family_at_def)
  show ?thesis
    by (rule child_okE [OF c]; rule parent_okE [OF p]) (insert assms Child, simp_all add: first_main_def family_defs)
next
  case Grandchild
  have "child_ok (process s Grandchild)" using assms by (simp add: family_inv_def family_at_def)
  then show ?thesis
    by (cases rule: child_okE) (use assms Grandchild in \<open>simp_all add: first_main_def family_defs\<close>)
qed (use assms in simp)

lemma first_kill_inv:
  assumes "family_inv s" "process s p = At pc" "p \<noteq> Parent"
  shows "family_inv (goto p (Zombie KilledFromOutside) s)"
proof (cases p)
  case Child
  have "parent_ok (process s Parent) (process s Child)" using assms by (simp add: family_inv_def family_at_def)
  then show ?thesis by (cases rule: parent_okE) (use assms Child in \<open>simp_all add: family_defs\<close>)
next
  case Grandchild
  then show ?thesis using assms by (simp add: family_defs)
qed (use assms in simp)

interpretation family: transition_system "\<lambda>s. s = family_start" family_trans family_inv
proof
  show "family_inv s" if "s = family_start" for s using that by (simp add: family_start_def family_defs)
  show "family_inv t" if inv: "family_inv s" and step: "family_trans s t" for s t
    using step
  proof cases
    case (run p err)
    with inv first_parent_inv first_child_inv show ?thesis by (cases "p = Parent") blast+
  next
    case (kill p pc)
    with inv first_kill_inv show ?thesis by blast
  qed
qed

text \<open>
  Whatever the other processes do, the parent shows its own variables with the values they had, the others their copies before
  they change them; a parent that has ended with 0 has reported that its child ended with 5 or was killed.
\<close>

theorem first_program:
  assumes "reachable (\<lambda>s. s = family_start) family_trans s"
  shows "list_all line_ok (shown s) \<and> memory s Parent = \<lparr>global_var = 22, local_var = 203\<rparr> \<and>
    (process s Parent = Zombie (Exited 0) \<longrightarrow> (Parent, ChildEnded 5) \<in> set (shown s) \<or> (Parent, ChildFailed) \<in> set (shown s))"
  using family.reachable_inv [OF assms] by (simp add: family_inv_def)

section \<open>A child nobody waits for (\<open>task5_2/zombie.c\<close>)\<close>

datatype zombie_pc = Z_Fork | Z_Sleep | Z_ChildSleep

record zombies =
  z_parent :: "zombie_pc process"
  z_child :: "zombie_pc process"

definition zombie_start :: zombies where
  "zombie_start = \<lparr>z_parent = At Z_Fork, z_child = NotForked\<rparr>"

definition zombie_main :: "bool \<Rightarrow> bool \<Rightarrow> zombies \<Rightarrow> zombies" where
  "zombie_main parent err s =
     (if parent then (case z_parent s of
          At Z_Fork \<Rightarrow> if err then s\<lparr>z_parent := Zombie (Exited 1)\<rparr> else s\<lparr>z_parent := At Z_Sleep, z_child := At Z_ChildSleep\<rparr>
        | At Z_Sleep \<Rightarrow> s\<lparr>z_parent := Zombie (Exited 0)\<rparr>
        | _ \<Rightarrow> s)
      else (case z_child s of At Z_ChildSleep \<Rightarrow> s\<lparr>z_child := Zombie (Exited 0)\<rparr> | _ \<Rightarrow> s))"

text \<open>The child's entry in the table of processes is never given back while the parent lives.\<close>

inductive zombie_trans :: "zombies \<Rightarrow> zombies \<Rightarrow> bool" where
  "zombie_trans s (zombie_main parent err s)"

lemma zombie_stays: "reachable (\<lambda>s. s = zombie_start) zombie_trans s \<Longrightarrow> z_child s \<noteq> Reaped"
proof (induction rule: reachable.induct)
  case (reach_step s t)
  then show ?case by (auto simp: zombie_main_def elim!: zombie_trans.cases split: process.splits zombie_pc.splits if_splits)
qed (simp add: zombie_start_def)

section \<open>A child on its own stack (\<open>task5_3/clone.c\<close>)\<close>

text \<open>
  Every call of \<open>recursion\<close> takes \<open>frame\<close> bytes of the \<open>room\<close> on the stack; the child is killed when it has none. The
  result is what it shows, and how it ends.
\<close>

fun recursion :: "nat \<Rightarrow> nat \<Rightarrow> nat \<Rightarrow> string list \<times> exit_status" where
  "recursion frame room iter =
     (if room < frame then ([], KilledFromOutside)
      else let (ls, e) = (case iter of 0 \<Rightarrow> ([], Exited 0) | Suc i \<Rightarrow> recursion frame (room - frame) i) in (''next iter'' # ls, e))"

definition entryPoint :: "nat \<Rightarrow> nat \<Rightarrow> string list \<times> exit_status" where
  "entryPoint frame room =
     (if room < frame then ([], KilledFromOutside)
      else let (ls, e) = recursion frame (room - frame) 10 in (''PID'' # ls, e))"

text \<open>\<open>main\<close>: which of its calls succeed; the child runs to its end before \<open>wait\<close> returns.\<close>

definition clone_main :: "nat \<Rightarrow> bool \<Rightarrow> bool \<Rightarrow> bool \<Rightarrow> bool \<Rightarrow> bool \<Rightarrow> int \<times> string list" where
  "clone_main frame open_ok truncate_ok mmap_ok clone_ok wait_ok =
     (if \<not> open_ok then (1, [''open''])
      else if \<not> truncate_ok then (1, [''ftruncate''])
      else if \<not> mmap_ok then (1, [''mmap''])
      else if \<not> clone_ok then (1, [''clone''])
      else let (ls, e) = entryPoint frame (1024 * 16) in
        if \<not> wait_ok then (1, ls @ [''wait error''])
        else (0, ls @ (case e of Exited n \<Rightarrow> [''child exit code: 0''] | KilledFromOutside \<Rightarrow> [])))"

lemma recursion_shows: "(iter + 1) * frame \<le> room \<Longrightarrow> recursion frame room iter = (replicate (iter + 1) ''next iter'', Exited 0)"
proof (induction iter arbitrary: room)
  case (Suc i)
  then have "recursion frame (room - frame) i = (replicate (i + 1) ''next iter'', Exited 0)" by simp
  moreover have "\<not> room < frame" using Suc.prems by simp
  ultimately show ?case by (subst recursion.simps) simp
qed simp

lemma clone_shows:
  assumes "12 * frame \<le> 16384"
  shows "clone_main frame True True True True True = (0, ''PID'' # replicate 11 ''next iter'' @ [''child exit code: 0''])"
proof -
  have "recursion frame (16384 - frame) 10 = (replicate 11 ''next iter'', Exited 0)"
    using recursion_shows [of 10 frame "16384 - frame"] assms by (simp del: recursion.simps)
  then show ?thesis using assms by (simp add: clone_main_def entryPoint_def del: recursion.simps)
qed

section \<open>Writing and reading (\<open>sem1/lab2/task2_1/child.c\<close>)\<close>

text \<open>
  A file is its bytes, the offset is the descriptor's. A call gives the number of bytes it moved, or \<open>None\<close> for an
  error; \<open>buf\<close> is what the buffer holds before the read.
\<close>

definition write_at :: "nat \<Rightarrow> string \<Rightarrow> string \<Rightarrow> string" where
  "write_at off bs f = take off (f @ replicate (off - length f) (CHR 0x00)) @ bs @ drop (off + length bs) f"

definition child_main :: "bool \<Rightarrow> nat option \<Rightarrow> bool \<Rightarrow> nat option \<Rightarrow> nat option \<Rightarrow> string \<Rightarrow> string \<Rightarrow> int \<times> string \<times> string" where
  "child_main open_ok w seek_ok r w1 buf f =
     (if \<not> open_ok then (1, f, [])
      else case w of None \<Rightarrow> (1, f, [])
      | Some n \<Rightarrow> let f = write_at 0 (take n (''Hello'' @ [CHR 0x0A])) f in
          if \<not> seek_ok then (1, f, [])
          else case r of None \<Rightarrow> (1, f, [])
          | Some k \<Rightarrow> let buffer = take k f @ drop k buf in
              (case w1 of None \<Rightarrow> (1, f, []) | Some j \<Rightarrow> (0, f, take j (take 6 buffer))))"

text \<open>When all bytes are moved, the text comes back, whatever the file held.\<close>

lemma child_main_reads_back:
  "child_main True (Some 6) True (Some 6) (Some 6) buf f = (0, ''Hello'' @ [CHR 0x0A] @ drop 6 f, ''Hello'' @ [CHR 0x0A])"
  by (simp add: child_main_def write_at_def numeral_eq_Suc)

section \<open>Two short programs\<close>

text \<open>
  \<open>sem1/lab3/task3_3/trace.c\<close> clears 2000 integers of the heap and frees them: its exit status and what is left of the
  heap. \<open>sem1/lab4/task4_2/secondA.c\<close> executes another program, and shows something more only if that fails.
\<close>

definition zero_main :: "ptr \<Rightarrow> (addr \<rightharpoonup> int list) \<Rightarrow> (int \<times> (addr \<rightharpoonup> int list)) result" where
  "zero_main new h = (case new of None \<Rightarrow> Inr (1, h)
     | Some a \<Rightarrow> bindR (modify (h(a \<mapsto> [])) new (\<lambda>_. replicate 2000 0)) (\<lambda>h. bindR (release h new) (\<lambda>h. Inr (0, h))))"

definition secondA_main :: "bool \<Rightarrow> string list \<times> int option" where
  "secondA_main exec_ok = (if exec_ok then ([''pid''], None) else ([''pid'', ''execvp'', ''Hello world''], Some 0))"

lemma zero_main_frees: "fresh h new \<Longrightarrow> \<exists>r. zero_main new h = Inr (r, h)"
  by (cases new) (auto simp: zero_main_def fun_eq_iff)

end
