(* ===== verification/Variables.thy ===== *)
theory Variables
  imports OS_Prelude
begin

text \<open>
  \<open>sem1/lab4/task4_1/variables.c\<close>: a program that shows where its variables are, uses memory after it has freed
  it, and changes its environment. \<open>addr_of\<close> is the layout of the variables; what the program shows is a list of
  lines, and an invalid access ends it.
\<close>

datatype shown = Title string | AddressOf string nat | Text string

section \<open>Addresses\<close>

definition addresses :: "(string \<Rightarrow> nat) \<Rightarrow> string \<Rightarrow> string list \<Rightarrow> shown list" where
  "addresses addr_of title names = Title title # map (\<lambda>x. AddressOf x (addr_of x)) names"

definition locals :: "(string \<Rightarrow> nat) \<Rightarrow> shown list" where
  "locals addr_of = addresses addr_of ''Locals:'' [''int a'', ''long long b'', ''char c'', ''float d'']"

definition statics :: "(string \<Rightarrow> nat) \<Rightarrow> shown list" where
  "statics addr_of = addresses addr_of ''Statics:'' [''int a'', ''long long b'', ''char c'', ''float d'']"

definition constants :: "(string \<Rightarrow> nat) \<Rightarrow> shown list" where
  "constants addr_of = addresses addr_of ''Consts'' [''int a'', ''long long b'', ''char c'', ''float d'']"

definition globals :: "(string \<Rightarrow> nat) \<Rightarrow> shown list" where
  "globals addr_of = addresses addr_of ''Globals:'' [''int globalInt'', ''int globalVar'', ''int globalConst'']"

text \<open>\<open>variable\<close> returns the address of its own variable, which \<open>main\<close> only shows.\<close>

definition variable :: "(string \<Rightarrow> nat) \<Rightarrow> shown list \<times> nat" where
  "variable addr_of = ([AddressOf ''in func'' (addr_of ''variable a'')], addr_of ''variable a'')"

section \<open>Freed memory\<close>

text \<open>
  \<open>new1\<close> and \<open>new2\<close> are what \<open>malloc\<close> returns, \<open>h\<close> the other blocks; \<open>freed\<close> is the string that the freed block
  holds, \<open>None\<close> if reading it is a fault. The second component is how the function fails, \<open>None\<close> if it returns.
\<close>

definition buffer :: "ptr \<Rightarrow> ptr \<Rightarrow> string option \<Rightarrow> (addr \<rightharpoonup> string) \<Rightarrow> shown list \<times> cerror option" where
  "buffer new1 new2 freed h = (case new1 of
       None \<Rightarrow> ([], Some AssertFailed)
     | Some a \<Rightarrow>
         let h = h(a \<mapsto> ''dep''); out = [Text (''before free 1: '' @ the (h a))]; h = h(a := None) in
         (case freed of
            None \<Rightarrow> (out, Some (BadAccess a))
          | Some old \<Rightarrow>
              let out = out @ [Text (''after free 1: '' @ old)] in
              (case new2 of
                 None \<Rightarrow> (out, Some NullDeref)
               | Some b \<Rightarrow>
                   let h = h(b \<mapsto> ''dep again''); midBuffer = b + 4;
                       out = out @ [Text (''before free 2: '' @ the (h b)), Text (''start of the second buffer: '' @ the (h b)),
                         Text (''middle of the second buffer: '' @ drop 4 (the (h b)))] in
                   (case release h (Some midBuffer) of
                      Inl e \<Rightarrow> (out, Some e)
                    | Inr h \<Rightarrow>
                        let out = out @ [Text (''start after free: '' @ ''dep again'')] in
                        (case release h (Some midBuffer) of Inl e \<Rightarrow> (out, Some e) | Inr h \<Rightarrow> (out, None))))))"

section \<open>The environment\<close>

definition env :: "(string \<rightharpoonup> string) \<Rightarrow> shown list \<times> (string \<rightharpoonup> string)" where
  "env e = (let v = (case e ''CASINO'' of None \<Rightarrow> ''(null)'' | Some v \<Rightarrow> v); e' = e(''CASINO'' \<mapsto> ''never dep again'') in
     ([Text (''Environment variable value: '' @ v), Text (''New environment variable value: '' @ the (e' ''CASINO''))], e'))"

text \<open>\<open>main\<close>: what it has shown and how it ends, \<open>Inr\<close> for a return.\<close>

definition variables_main :: "(string \<Rightarrow> nat) \<Rightarrow> ptr \<Rightarrow> ptr \<Rightarrow> string option \<Rightarrow> (addr \<rightharpoonup> string) \<Rightarrow> (string \<rightharpoonup> string) \<Rightarrow> shown list \<times> (cerror + int)" where
  "variables_main addr_of new1 new2 freed h e =
     (let out = locals addr_of @ statics addr_of @ constants addr_of @ globals addr_of; (ls, a) = variable addr_of;
          out = out @ ls @ [AddressOf ''in main'' a]; (ls, r) = buffer new1 new2 freed h in
      case r of Some err \<Rightarrow> (out @ ls, Inl err) | None \<Rightarrow> (out @ ls @ fst (env e), Inr 0))"

section \<open>Properties\<close>

text \<open>
  Whatever \<open>malloc\<close> does and freed memory holds, \<open>buffer\<close> does not return: at the latest it frees a pointer into the middle
  of a block for the second time. So \<open>main\<close> never gets to the environment.
\<close>

lemma buffer_fails: "snd (buffer new1 new2 freed h) \<noteq> None"
  by (auto simp: buffer_def Let_def release_def split: option.splits sum.splits)

theorem variables_fails: "\<exists>out err. variables_main addr_of new1 new2 freed h e = (out, Inl err)"
  using buffer_fails [of new1 new2 freed h]
  by (auto simp: variables_main_def split: prod.split option.split)

text \<open>With an allocator that checks, the first of these calls already fails.\<close>

lemma buffer_invalid_free:
  assumes "h (b + 4) = None" "a \<noteq> b + 4"
  shows "snd (buffer (Some a) (Some b) (Some old) h) = Some (InvalidFree (b + 4))"
  using assms by (simp add: buffer_def Let_def release_def)

text \<open>The environment afterwards has the new value, whatever it was.\<close>

lemma env_sets: "snd (env e) ''CASINO'' = Some ''never dep again''"
  by (simp add: env_def Let_def)

end
